(* ===== verification/Prelude.thy ===== *)
theory Prelude
  imports Main "HOL-Library.Word"
begin

text \<open>
  Shared vocabulary of the development: the machine integers and byte strings of the
  sources, XOR on byte strings, big- and little-endian splitting of words into bytes, and
  the generic lemmas on lists and words that the component theories use.  Two collections
  of facts carry most component proofs: \<open>byte_simps\<close> (lengths and round trips of byte
  strings) and \<open>len_simps\<close> (lengths of what an operation writes).
\<close>

unbundle bit_operations_syntax

named_theorems byte_simps \<open>equations on byte strings\<close>
named_theorems len_simps \<open>lengths of byte strings\<close>

section \<open>Machine integers\<close>

type_synonym u8 = "8 word"
type_synonym u16 = "16 word"
type_synonym u32 = "32 word"
type_synonym u64 = "64 word"
type_synonym bytes = "u8 list"

section \<open>XOR of byte strings\<close>

text \<open>The loops \<open>out[i] = in[i] ^ ks[i]\<close> of the ciphers, over the shorter of the two.\<close>

definition xor_bytes :: "bytes \<Rightarrow> bytes \<Rightarrow> bytes" where
  "xor_bytes a b = map2 (XOR) a b"

lemma length_xor_bytes [simp]: "length (xor_bytes a b) = min (length a) (length b)"
  by (simp add: xor_bytes_def)

lemma nth_xor_bytes [simp]:
  "i < length a \<Longrightarrow> i < length b \<Longrightarrow> xor_bytes a b ! i = (a ! i) XOR (b ! i)"
  by (simp add: xor_bytes_def)

lemma xor_bytes_Nil [simp]: "xor_bytes [] b = []" "xor_bytes a [] = []"
  by (simp_all add: xor_bytes_def)

lemma word_xor_cancel_right [simp]: "(x XOR k) XOR k = (x :: 'a::len word)"
  by (simp add: xor.assoc)

text \<open>XORing the same key stream twice restores the input.\<close>

lemma xor_bytes_twice [simp]: "length a \<le> length k \<Longrightarrow> xor_bytes (xor_bytes a k) k = a"
  by (rule nth_equalityI) auto

lemma xor_bytes_append:
  "length a = length k \<Longrightarrow> xor_bytes (a @ b) (k @ l) = xor_bytes a k @ xor_bytes b l"
  by (simp add: xor_bytes_def)

lemma xor_bytes_append2:
  "length k = n \<Longrightarrow> xor_bytes (take n x) k @ xor_bytes (drop n x) ks = xor_bytes x (k @ ks)"
  unfolding xor_bytes_def by (subst (3) append_take_drop_id [of n x, symmetric]) (auto simp: zip_append2)

lemma take_xor_bytes: "take n (xor_bytes a b) = xor_bytes (take n a) (take n b)"
  by (simp add: xor_bytes_def take_map take_zip)

lemma drop_xor_bytes: "drop n (xor_bytes a b) = xor_bytes (drop n a) (drop n b)"
  by (simp add: xor_bytes_def drop_map drop_zip)

lemma xor_bytes_take_right: "xor_bytes a (take (length a) k) = xor_bytes a k"
  by (rule nth_equalityI) auto

section \<open>Lists\<close>

lemma list_all_nth_replicate:
  "(\<forall>i < length xs. xs ! i = c) \<Longrightarrow> xs = replicate (length xs) c"
  by (simp add: list_eq_iff_nth_eq)

lemma take_append_exact [simp]: "n = length xs \<Longrightarrow> take n (xs @ ys) = xs"
  by simp

lemma drop_append_exact [simp]: "n = length xs \<Longrightarrow> drop n (xs @ ys) = ys"
  by simp

section \<open>Words\<close>

lemma unat_sub_le: "b \<le> a \<Longrightarrow> unat (a - b) = unat a - unat b" for a b :: "'a::len word"
  by (rule unat_sub)

lemma word_less_nat: "a < b \<longleftrightarrow> unat a < unat b" for a b :: "'a::len word"
  by (rule word_less_nat_alt)

lemma word_le_nat: "a \<le> b \<longleftrightarrow> unat a \<le> unat b" for a b :: "'a::len word"
  by (rule word_le_nat_alt)

lemma u64_bit_ge: "64 \<le> n \<Longrightarrow> \<not> bit (w :: u64) n"
  using bit_imp_le_length [of w n] by auto

lemma unat_u64_lt: "unat (x :: u64) < 18446744073709551616"
  using unsigned_less [of x] by simp

lemma unat_u32_lt: "unat (x :: u32) < 4294967296"
  using unsigned_less [of x] by simp

lemma unat_u8_lt: "unat (x :: u8) < 256"
  using unsigned_less [of x] by simp

text \<open>An OR of a low part with a shifted high part is a sum.\<close>

lemma nat_or_push: "x < 2 ^ k \<Longrightarrow> x OR push_bit k y = x + 2 ^ k * (y :: nat)"
proof -
  assume "x < 2 ^ k"
  then have x: "take_bit k x = x" by (simp add: take_bit_nat_eq_self)
  have "\<not> bit x n \<or> \<not> bit (push_bit k y) n" for n
    by (subst x [symmetric]) (auto simp: bit_simps)
  then have "x + push_bit k y = x OR push_bit k y" by (rule disjunctive_add)
  then show ?thesis by (simp add: push_bit_eq_mult mult.commute)
qed

lemma unat_push_bit_mod:
  "k \<le> LENGTH('a) \<Longrightarrow> unat (push_bit k b :: 'a::len word) = 2 ^ k * (unat b mod 2 ^ (LENGTH('a) - k))"
  unfolding unsigned_push_bit_eq take_bit_push_bit
  by (simp add: push_bit_eq_mult take_bit_eq_mod mult.commute)

lemma unat_or_push:
  fixes a b :: "'a::len word"
  assumes "unat a < 2 ^ k" "k \<le> LENGTH('a)"
  shows "unat (a OR push_bit k b) = unat a + 2 ^ k * (unat b mod 2 ^ (LENGTH('a) - k))"
proof -
  have "unat (a OR push_bit k b) = unat a OR push_bit k (take_bit (LENGTH('a) - k) (unat b))"
    unfolding unsigned_or_eq unsigned_push_bit_eq take_bit_push_bit by simp
  then show ?thesis using assms by (simp add: nat_or_push take_bit_eq_mod)
qed

section \<open>Characters\<close>

definition is_digit :: "char \<Rightarrow> bool" where
  "is_digit c \<longleftrightarrow> 48 \<le> (of_char c :: nat) \<and> (of_char c :: nat) \<le> 57"

text \<open>\<open>isspace\<close> of the C locale: blank, tab, newline, vertical tab, form feed, carriage return.\<close>

definition is_space :: "char \<Rightarrow> bool" where
  "is_space c \<longleftrightarrow> c = CHR '' '' \<or> (9 \<le> (of_char c :: nat) \<and> (of_char c :: nat) \<le> 13)"

end
