(* ===== verification/Replay.thy ===== *)
theory Replay
  imports Prelude
begin

text \<open>
  The anti-replay window of \<open>src/include/lr/proto.hpp\<close> and \<open>src/src/core/proto.cpp\<close>:
  class \<open>ReplayWindow\<close> with its constructor, \<open>accept\<close> and \<open>reset\<close>.  The bitmap is the
  vector of 64-bit words of the source, shifted in place from the highest word down.  The
  abstract window keeps the highest sequence number and the set of accepted ones; the
  refinement lemma says that the bitmap implements it, and runs of \<open>accept\<close> then admit
  every sequence number at most once.
\<close>

section \<open>State and operations\<close>

record replay_window =
  rw_width :: u64
  rw_bits :: "u64 list"
  rw_high :: u64
  rw_seen :: bool
  rw_dup :: u64
  rw_old :: u64

definition ReplayWindow :: "u64 \<Rightarrow> replay_window" where
  "ReplayWindow width_bits =
     (let wb = (if width_bits < 64 then 64 else width_bits);
          w = (wb + 63) div 64 * 64
      in \<lparr>rw_width = w, rw_bits = replicate (unat (w div 64)) 0, rw_high = 0, rw_seen = False,
          rw_dup = 0, rw_old = 0\<rparr>)"

definition reset :: "replay_window \<Rightarrow> replay_window" where
  "reset rw = rw\<lparr>rw_bits := map (\<lambda>_. 0) (rw_bits rw), rw_high := 0, rw_seen := False,
                 rw_dup := 0, rw_old := 0\<rparr>"

text \<open>
  The two loops \<open>for (size_t i = words; i-- > 0;)\<close>: each iteration stores word \<open>i\<close> from
  the words at \<open>i - ws\<close> and below, so an in-place update reads only words not yet written.
\<close>

fun shift_words0 :: "nat \<Rightarrow> nat \<Rightarrow> u64 list \<Rightarrow> u64 list" where
  "shift_words0 ws 0 bs = bs"
| "shift_words0 ws (Suc i) bs =
     shift_words0 ws i (bs[i := (if i \<ge> ws then bs ! (i - ws) else 0)])"

fun shift_words :: "nat \<Rightarrow> nat \<Rightarrow> nat \<Rightarrow> u64 list \<Rightarrow> u64 list" where
  "shift_words ws sh 0 bs = bs"
| "shift_words ws sh (Suc i) bs =
     (let v = (if i \<ge> ws then push_bit sh (bs ! (i - ws)) else 0);
          v' = (if i \<ge> ws + 1 then v OR drop_bit (64 - sh) (bs ! (i - ws - 1)) else v)
      in shift_words ws sh i (bs[i := v']))"

definition shift_window :: "u64 \<Rightarrow> u64 \<Rightarrow> u64 list \<Rightarrow> u64 list" where
  "shift_window width shift bs =
     (if shift \<ge> width then map (\<lambda>_. 0) bs
      else let words = length bs; ws = unat (shift div 64); sh = unat (shift mod 64)
           in if sh = 0 then shift_words0 ws words bs else shift_words ws sh words bs)"

definition accept :: "replay_window \<Rightarrow> u64 \<Rightarrow> bool \<times> replay_window" where
  "accept rw seq =
     (if \<not> rw_seen rw then
        (True, rw\<lparr>rw_seen := True, rw_high := seq, rw_bits := (rw_bits rw)[0 := 1]\<rparr>)
      else if seq > rw_high rw then
        let bs = shift_window (rw_width rw) (seq - rw_high rw) (rw_bits rw)
        in (True, rw\<lparr>rw_high := seq, rw_bits := bs[0 := bs ! 0 OR 1]\<rparr>)
      else
        let back = rw_high rw - seq in
        if back \<ge> rw_width rw then (False, rw\<lparr>rw_old := rw_old rw + 1\<rparr>)
        else let w = unat (back div 64); m = push_bit (unat (back mod 64)) 1 in
          if rw_bits rw ! w AND m \<noteq> 0 then (False, rw\<lparr>rw_dup := rw_dup rw + 1\<rparr>)
          else (True, rw\<lparr>rw_bits := (rw_bits rw)[w := rw_bits rw ! w OR m]\<rparr>))"


section \<open>The bitmap as a function from positions to bits\<close>

text \<open>Bit \<open>i\<close> of the map is bit \<open>i mod 64\<close> of word \<open>i div 64\<close>.\<close>

definition window_bit :: "u64 list \<Rightarrow> nat \<Rightarrow> bool" where
  "window_bit bs i = bit (bs ! (i div 64)) (i mod 64)"

lemma window_bit_pos: "p = 64 * q + r \<Longrightarrow> r < 64 \<Longrightarrow> window_bit bs p = bit (bs ! q) r"
  by (simp add: window_bit_def)

lemma length_shift_words0 [simp]: "length (shift_words0 ws n bs) = length bs"
  by (induction ws n bs rule: shift_words0.induct) auto

lemma length_shift_words [simp]: "length (shift_words ws sh n bs) = length bs"
  by (induction ws sh n bs rule: shift_words.induct) (auto simp: Let_def)

lemma length_shift_window [simp]: "length (shift_window w s bs) = length bs"
  by (simp add: shift_window_def Let_def)

lemma nth_shift_words0:
  "n \<le> length bs \<Longrightarrow> j < length bs \<Longrightarrow>
   shift_words0 ws n bs ! j =
     (if j < n then (if j \<ge> ws then bs ! (j - ws) else 0) else bs ! j)"
  by (induction ws n bs rule: shift_words0.induct) (auto simp: nth_list_update less_Suc_eq)

definition shifted_word :: "nat \<Rightarrow> nat \<Rightarrow> u64 list \<Rightarrow> nat \<Rightarrow> u64" where
  "shifted_word ws sh bs j =
     (if j \<ge> ws + 1 then push_bit sh (bs ! (j - ws)) OR drop_bit (64 - sh) (bs ! (j - ws - 1))
      else if j \<ge> ws then push_bit sh (bs ! (j - ws)) else 0)"

lemma nth_shift_words:
  "n \<le> length bs \<Longrightarrow> j < length bs \<Longrightarrow>
   shift_words ws sh n bs ! j = (if j < n then shifted_word ws sh bs j else bs ! j)"
  by (induction ws sh n bs rule: shift_words.induct)
    (auto simp: nth_list_update less_Suc_eq shifted_word_def Let_def)

lemma bit_shifted_word:
  assumes "0 < sh" "sh < 64" "b < 64"
  shows "bit (shifted_word ws sh bs j) b \<longleftrightarrow>
           64 * ws + sh \<le> 64 * j + b \<and> window_bit bs (64 * j + b - (64 * ws + sh))"
proof -
  consider (lt) "j < ws" | (eq) "j = ws" "b < sh" | (same) "ws \<le> j" "sh \<le> b"
    | (below) d where "j = ws + Suc d" "b < sh"
    by (metis add_Suc_right le_Suc_ex le_antisym not_less not_less_eq_eq plus_nat.add_0 le_less_linear add_0_right old.nat.exhaust)
  then show ?thesis
  proof cases
    case same
    then have "window_bit bs (64 * j + b - (64 * ws + sh)) = bit (bs ! (j - ws)) (b - sh)"
      using assms by (intro window_bit_pos) (simp_all add: algebra_simps)
    moreover have "\<not> bit (bs ! k) (64 + b - sh)" for k
      using same by (intro u64_bit_ge) simp
    ultimately show ?thesis
      using same assms by (auto simp: shifted_word_def bit_simps add.commute)
  next
    case below
    then have "window_bit bs (64 * j + b - (64 * ws + sh)) = bit (bs ! d) (64 + b - sh)"
      using assms by (intro window_bit_pos) simp_all
    with below assms show ?thesis by (auto simp: shifted_word_def bit_simps)
  qed (use assms in \<open>auto simp: shifted_word_def bit_simps\<close>)
qed

text \<open>Moving the window up by \<open>s\<close> moves every recorded bit up by \<open>s\<close> positions.\<close>

lemma window_bit_shift_window:
  assumes "unat w = 64 * length bs" "j < 64 * length bs"
  shows "window_bit (shift_window w s bs) j \<longleftrightarrow> unat s \<le> j \<and> window_bit bs (j - unat s)"
proof (cases "w \<le> s")
  case True
  with assms have "\<not> unat s \<le> j" by (simp add: word_le_nat)
  with True assms show ?thesis
    by (simp add: shift_window_def window_bit_def)
next
  case False
  let ?ws = "unat (s div 64)" and ?sh = "unat (s mod 64)"
  have s: "unat s = 64 * ?ws + ?sh" and sh: "?sh < 64"
    by (simp_all add: unat_div unat_mod)
  have j: "j div 64 < length bs" using assms by auto
  show ?thesis
  proof (cases "?sh = 0")
    case True
    have "window_bit bs (j - 64 * ?ws) = bit (bs ! (j div 64 - ?ws)) (j mod 64)"
      if "?ws \<le> j div 64" using that by (intro window_bit_pos) (simp_all add: algebra_simps)
    moreover have "64 * ?ws \<le> j \<longleftrightarrow> ?ws \<le> j div 64" by auto
    ultimately show ?thesis
      using False True j s
      by (auto simp: shift_window_def window_bit_def nth_shift_words0 Let_def)
  next
    case sh0: False
    have "window_bit (shift_window w s bs) j \<longleftrightarrow>
            bit (shifted_word ?ws ?sh bs (j div 64)) (j mod 64)"
      using False sh0 j by (simp add: shift_window_def window_bit_def nth_shift_words Let_def)
    also have "\<dots> \<longleftrightarrow> unat s \<le> j \<and> window_bit bs (j - unat s)"
      using bit_shifted_word [of ?sh "j mod 64" ?ws bs "j div 64"] sh sh0 s by simp
    finally show ?thesis .
  qed
qed

section \<open>Invariant and abstraction\<close>

definition rw_inv :: "replay_window \<Rightarrow> bool" where
  "rw_inv rw \<longleftrightarrow>
     rw_bits rw \<noteq> [] \<and> unat (rw_width rw) = 64 * length (rw_bits rw) \<and>
     (\<forall>i < 64 * length (rw_bits rw).
        window_bit (rw_bits rw) i \<longrightarrow> rw_seen rw \<and> i \<le> unat (rw_high rw)) \<and>
     (rw_seen rw \<longrightarrow> window_bit (rw_bits rw) 0)"

definition rw_top :: "replay_window \<Rightarrow> nat option" where
  "rw_top rw = (if rw_seen rw then Some (unat (rw_high rw)) else None)"

definition rw_marked :: "replay_window \<Rightarrow> nat set" where
  "rw_marked rw = {n. rw_seen rw \<and> n \<le> unat (rw_high rw) \<and>
                      unat (rw_high rw) - n < unat (rw_width rw) \<and>
                      window_bit (rw_bits rw) (unat (rw_high rw) - n)}"

text \<open>
  What the window promises, over plain numbers: the highest accepted number and the
  accepted numbers that are at most \<open>W\<close> below it.
\<close>

fun spec_accept :: "nat \<Rightarrow> nat option \<Rightarrow> nat set \<Rightarrow> nat \<Rightarrow> bool \<times> nat option \<times> nat set" where
  "spec_accept W None S s = (True, Some s, {s})"
| "spec_accept W (Some h) S s =
     (if s > h then (True, Some s, insert s {n \<in> S. s - n < W})
      else if W \<le> h - s \<or> s \<in> S then (False, Some h, S)
      else (True, Some h, insert s S))"

lemma window_bit_update:
  "w < length bs \<Longrightarrow> window_bit (bs[w := v]) i =
     (if i div 64 = w then bit v (i mod 64) else window_bit bs i)"
  by (simp add: window_bit_def nth_list_update)

lemma bit_1_u64: "b < 64 \<Longrightarrow> bit (push_bit k (1 :: u64)) b \<longleftrightarrow> k = b"
  by (auto simp: bit_simps)

lemma bit_low_u64: "bit (1 :: u64) b \<longleftrightarrow> b = 0"
  by (auto simp: bit_simps)

lemma window_bit_set:
  assumes "p < 64 * length bs"
  shows "window_bit (bs[p div 64 := bs ! (p div 64) OR push_bit (p mod 64) 1]) i \<longleftrightarrow>
           window_bit bs i \<or> i = p"
proof -
  have "i = p \<longleftrightarrow> i div 64 = p div 64 \<and> i mod 64 = p mod 64" by (metis div_mult_mod_eq)
  moreover have "p div 64 < length bs" using assms by auto
  ultimately show ?thesis
    using bit_1_u64 [of "i mod 64" "p mod 64"]
    by (auto simp: window_bit_update [of "p div 64"] bit_or_iff window_bit_def [of bs]
        simp del: push_bit_of_1)
qed

lemma ReplayWindow_inv:
  assumes "width_bits \<le> - 64"
  shows "rw_inv (ReplayWindow width_bits)" "rw_top (ReplayWindow width_bits) = None"
proof -
  define wb where "wb = (if width_bits < 64 then 64 else width_bits)"
  define n where "n = (wb + 63) div 64"
  have wb: "64 \<le> unat wb" "unat wb \<le> 18446744073709551552"
    using assms by (auto simp: wb_def word_le_nat word_less_nat)
  then have "unat (wb + 63) = unat wb + 63"
    using unat_add_lem [of wb 63] by simp
  then have n: "unat n = (unat wb + 63) div 64" by (simp add: n_def unat_div)
  then have "unat n < 288230376151711744" using wb by linarith
  then have n64: "unat (n * 64) = unat n * 64"
    using unat_mult_lem [of n 64] by simp
  then have "unat (n * 64 div 64) = unat n" by (simp add: unat_div)
  moreover have "0 < unat n" using n wb by simp
  ultimately show "rw_inv (ReplayWindow width_bits)"
    using n64
    by (simp add: rw_inv_def ReplayWindow_def Let_def window_bit_def flip: wb_def n_def)
  show "rw_top (ReplayWindow width_bits) = None"
    by (simp add: rw_top_def ReplayWindow_def Let_def)
qed

lemma reset_inv:
  assumes "rw_inv rw"
  shows "rw_inv (reset rw)" "rw_top (reset rw) = None" "rw_marked (reset rw) = {}"
  using assms by (auto simp: rw_inv_def reset_def rw_top_def rw_marked_def window_bit_def)

section \<open>The bitmap implements the abstract window\<close>

lemma accept_first:
  assumes "rw_inv rw" "\<not> rw_seen rw" "accept rw seq = (ok, rw')"
  shows "ok" "rw_inv rw'" "rw_top rw' = Some (unat seq)" "rw_marked rw' = {unat seq}"
proof -
  from assms have ok: "ok" and rw': "rw' = rw\<lparr>rw_seen := True, rw_high := seq, rw_bits := (rw_bits rw)[0 := 1]\<rparr>"
    and ne: "rw_bits rw \<noteq> []" and w: "unat (rw_width rw) = 64 * length (rw_bits rw)"
    and none: "\<forall>i < 64 * length (rw_bits rw). \<not> window_bit (rw_bits rw) i"
    by (auto simp: accept_def rw_inv_def)
  have wb: "window_bit (rw_bits rw') i \<longleftrightarrow> i = 0" if "i < 64 * length (rw_bits rw)" for i
    using ne none that by (auto simp: rw' window_bit_update bit_low_u64)
  show "ok" by (rule ok)
  show "rw_inv rw'" using ne w wb by (auto simp: rw_inv_def rw')
  show "rw_top rw' = Some (unat seq)" by (simp add: rw_top_def rw')
  show "rw_marked rw' = {unat seq}" using ne w wb by (auto simp: rw_marked_def rw')
qed

lemma accept_ahead:
  assumes inv: "rw_inv rw" and seen: "rw_seen rw" and ahead: "rw_high rw < seq"
    and acc: "accept rw seq = (ok, rw')"
  shows "ok" "rw_inv rw'" "rw_top rw' = Some (unat seq)"
    "rw_marked rw' = insert (unat seq) {n \<in> rw_marked rw. unat seq - n < unat (rw_width rw)}"
proof -
  define s where "s = seq - rw_high rw"
  define bs where "bs = shift_window (rw_width rw) s (rw_bits rw)"
  have s: "unat s = unat seq - unat (rw_high rw)" "unat (rw_high rw) < unat seq"
    using ahead unat_sub_le [of "rw_high rw" seq] by (simp_all add: s_def word_less_nat word_le_nat)
  have lb: "length (rw_bits rw) = length bs" by (simp add: bs_def)
  from inv lb have ne: "bs \<noteq> []" and w: "unat (rw_width rw) = 64 * length bs"
    unfolding rw_inv_def by (metis length_0_conv, metis)
  have "accept rw seq = (True, rw\<lparr>rw_high := seq, rw_bits := bs[0 := bs ! 0 OR 1]\<rparr>)"
    using seen ahead unfolding accept_def Let_def s_def bs_def by simp
  with acc have ok: "ok" and rw': "rw' = rw\<lparr>rw_high := seq, rw_bits := bs[0 := bs ! 0 OR 1]\<rparr>"
    by simp_all
  have wb: "window_bit (rw_bits rw') i \<longleftrightarrow>
              i = 0 \<or> unat s \<le> i \<and> window_bit (rw_bits rw) (i - unat s)"
    if "i < 64 * length bs" for i
  proof -
    have "window_bit (rw_bits rw') i \<longleftrightarrow> i = 0 \<or> window_bit bs i"
      using ne window_bit_set [of 0 bs i] by (auto simp: rw')
    then show ?thesis
      using that window_bit_shift_window [of "rw_width rw" "rw_bits rw" i s, folded bs_def] w lb
      by simp
  qed
  show "ok" by (rule ok)
  have "i \<le> unat seq" if "window_bit (rw_bits rw') i" "i < 64 * length bs" for i
  proof -
    from that wb have "i = 0 \<or> unat s \<le> i \<and> window_bit (rw_bits rw) (i - unat s)" by simp
    moreover have "i - unat s < 64 * length (rw_bits rw)" using that lb by simp
    ultimately have "i = 0 \<or> unat s \<le> i \<and> i - unat s \<le> unat (rw_high rw)"
      using inv by (auto simp: rw_inv_def)
    then show ?thesis using s by auto
  qed
  then show "rw_inv rw'" using ne w wb [of 0] seen by (simp add: rw_inv_def rw')
  show "rw_top rw' = Some (unat seq)" using seen by (simp add: rw_top_def rw')
  have "n \<in> rw_marked rw' \<longleftrightarrow> n = unat seq \<or> n \<in> rw_marked rw \<and> unat seq - n < 64 * length bs" for n
  proof -
    have "n \<in> rw_marked rw' \<longleftrightarrow>
            n \<le> unat seq \<and> unat seq - n < 64 * length bs \<and> window_bit (rw_bits rw') (unat seq - n)"
      using seen w by (simp add: rw_marked_def rw')
    also have "\<dots> \<longleftrightarrow> n = unat seq \<or>
        n \<le> unat (rw_high rw) \<and> unat seq - n < 64 * length bs \<and>
        window_bit (rw_bits rw) (unat (rw_high rw) - n)"
    proof (cases "n \<le> unat seq \<and> unat seq - n < 64 * length bs")
      case True
      then have "unat s \<le> unat seq - n \<longleftrightarrow> n \<le> unat (rw_high rw)"
        "unat seq - n - unat s = unat (rw_high rw) - n" using s by auto
      with True wb [of "unat seq - n"] show ?thesis by auto
    qed (use s ne in auto)
    also have "\<dots> \<longleftrightarrow> n = unat seq \<or> n \<in> rw_marked rw \<and> unat seq - n < 64 * length bs"
    proof -
      have "unat (rw_high rw) - n < 64 * length bs" if "unat seq - n < 64 * length bs"
        using that s(2) by linarith
      then show ?thesis using w seen by (auto simp: rw_marked_def)
    qed
    finally show ?thesis .
  qed
  then show "rw_marked rw' = insert (unat seq) {n \<in> rw_marked rw. unat seq - n < unat (rw_width rw)}"
    using w by auto
qed

lemma accept_behind:
  assumes inv: "rw_inv rw" and seen: "rw_seen rw" and behind: "seq \<le> rw_high rw"
    and acc: "accept rw seq = (ok, rw')"
  shows "rw_inv rw'" "rw_top rw' = rw_top rw"
    "ok \<longleftrightarrow> unat (rw_high rw) - unat seq < unat (rw_width rw) \<and> unat seq \<notin> rw_marked rw"
    "rw_marked rw' = (if ok then insert (unat seq) (rw_marked rw) else rw_marked rw)"
proof -
  define bk where "bk = rw_high rw - seq"
  define w where "w = unat (bk div 64)"
  define m where "m = (push_bit (unat (bk mod 64)) 1 :: u64)"
  have bk: "unat bk = unat (rw_high rw) - unat seq" "unat seq \<le> unat (rw_high rw)"
    using behind by (simp_all add: bk_def unat_sub_le word_le_nat)
  have dv: "w = unat bk div 64" "unat (bk mod 64) = unat bk mod 64"
    by (simp_all add: w_def unat_div unat_mod)
  from inv have wd: "unat (rw_width rw) = 64 * length (rw_bits rw)" by (simp add: rw_inv_def)
  have tst: "rw_bits rw ! w AND m \<noteq> 0 \<longleftrightarrow> window_bit (rw_bits rw) (unat bk)"
    unfolding m_def dv window_bit_def by (simp add: and_exp_eq_0_iff_not_bit flip: push_bit_eq_mult)
  have res: "(ok, rw') =
     (if rw_width rw \<le> bk then (False, rw\<lparr>rw_old := rw_old rw + 1\<rparr>)
      else if window_bit (rw_bits rw) (unat bk) then (False, rw\<lparr>rw_dup := rw_dup rw + 1\<rparr>)
      else (True, rw\<lparr>rw_bits := (rw_bits rw)[w := rw_bits rw ! w OR m]\<rparr>))"
    using acc [unfolded accept_def Let_def, folded bk_def, folded w_def m_def] seen behind tst
    by (auto simp: leD split: if_splits)
  have ok: "ok \<longleftrightarrow> unat bk < unat (rw_width rw) \<and> \<not> window_bit (rw_bits rw) (unat bk)"
    using res by (auto simp: word_le_nat split: if_splits)
  have wb: "window_bit (rw_bits rw') i \<longleftrightarrow> window_bit (rw_bits rw) i \<or> ok \<and> i = unat bk"
    if "i < 64 * length (rw_bits rw)" for i
    using res wd window_bit_set [of "unat bk" "rw_bits rw" i]
    by (auto simp: m_def dv word_le_nat split: if_splits)
  have fr: "length (rw_bits rw') = length (rw_bits rw)" "rw_width rw' = rw_width rw"
     "rw_high rw' = rw_high rw" "rw_seen rw' = rw_seen rw"
    using res by (auto split: if_splits)
  show "rw_top rw' = rw_top rw" by (simp add: rw_top_def fr)
  show "ok \<longleftrightarrow> unat (rw_high rw) - unat seq < unat (rw_width rw) \<and> unat seq \<notin> rw_marked rw"
    using ok bk seen by (auto simp: rw_marked_def)
  show "rw_inv rw'" using inv wb fr seen bk by (auto simp: rw_inv_def)
  show "rw_marked rw' = (if ok then insert (unat seq) (rw_marked rw) else rw_marked rw)"
    using wb wd fr seen bk ok by (auto simp: rw_marked_def)
qed

section \<open>The filter interface and its runs\<close>

text \<open>
  A run feeds a list of sequence numbers to a filter and keeps the accepted ones.  The
  number \<open>s\<close> is \<^emph>\<open>fresh\<close> for the accepted numbers \<open>H\<close> when it is ahead of all of them, or
  less than \<open>W\<close> behind the highest and not among them.
\<close>

fun run_accept :: "('w \<Rightarrow> u64 \<Rightarrow> bool \<times> 'w) \<Rightarrow> 'w \<Rightarrow> u64 list \<Rightarrow> u64 list \<times> 'w" where
  "run_accept acc w [] = ([], w)"
| "run_accept acc w (s # ss) =
     (case acc w s of (ok, w1) \<Rightarrow>
      case run_accept acc w1 ss of (rest, w2) \<Rightarrow> (if ok then s # rest else rest, w2))"

definition fresh :: "nat \<Rightarrow> nat set \<Rightarrow> nat \<Rightarrow> bool" where
  "fresh W H s \<longleftrightarrow> H = {} \<or> s > Max H \<or> (Max H - s < W \<and> s \<notin> H)"

locale replay_filter =
  fixes acc :: "'w \<Rightarrow> u64 \<Rightarrow> bool \<times> 'w"
    and invar :: "'w \<Rightarrow> bool"
    and wid :: "'w \<Rightarrow> nat"
    and top :: "'w \<Rightarrow> nat option"
    and marked :: "'w \<Rightarrow> nat set"
  assumes wid_pos: "invar w \<Longrightarrow> 0 < wid w"
    and acc_invar: "invar w \<Longrightarrow> acc w s = (ok, w') \<Longrightarrow> invar w'"
    and acc_wid: "acc w s = (ok, w') \<Longrightarrow> wid w' = wid w"
    and acc_spec: "invar w \<Longrightarrow> acc w s = (ok, w') \<Longrightarrow>
      spec_accept (wid w) (top w) (marked w) (unat s) = (ok, top w', marked w')"
begin

definition tracks :: "'w \<Rightarrow> nat set \<Rightarrow> bool" where
  "tracks w H \<longleftrightarrow> invar w \<and> finite H \<and>
     (if H = {} then top w = None
      else top w = Some (Max H) \<and> marked w = {n \<in> H. Max H - n < wid w})"

lemma acc_fresh:
  assumes "tracks w H" "acc w s = (ok, w')"
  shows "ok \<longleftrightarrow> fresh (wid w) H (unat s)"
  using assms acc_spec [of w s ok w']
  by (auto simp: tracks_def fresh_def not_less split: if_splits)

lemma acc_tracks:
  assumes t: "tracks w H" and a: "acc w s = (ok, w')"
  shows "tracks w' (if ok then insert (unat s) H else H)"
proof (cases "H = {}")
  case True
  then have inv: "invar w" "top w = None" using t by (auto simp: tracks_def)
  then have "ok" "top w' = Some (unat s)" "marked w' = {unat s}"
    using acc_spec [OF inv(1) a] by auto
  with True wid_pos [OF inv(1)] acc_invar [OF inv(1) a] acc_wid [OF a]
  show ?thesis by (auto simp: tracks_def)
next
  case False
  have inv: "invar w" "invar w'" and fin: "finite H" and top: "top w = Some (Max H)"
    and mk: "marked w = {n \<in> H. Max H - n < wid w}"
    using t False acc_invar [OF _ a] by (auto simp: tracks_def)
  note spec = acc_spec [OF inv(1) a, unfolded top]
  show ?thesis
  proof (cases "Max H < unat s")
    case True
    then have sp: "ok" "top w' = Some (unat s)"
      "marked w' = insert (unat s) {n \<in> marked w. unat s - n < wid w}"
      using spec by auto
    have mx: "Max (insert (unat s) H) = unat s" using True fin False
      by (subst Max_insert) (simp_all add: max_absorb1 less_imp_le del: Max_less_iff)
    have "Max H - n < wid w" if "unat s - n < wid w" for n using that True by linarith
    then have "marked w' = {n \<in> insert (unat s) H. unat s - n < wid w}"
      using sp(3) mk wid_pos [OF inv(1)] by auto
    then show ?thesis using sp inv fin mx acc_wid [OF a] by (simp add: tracks_def)
  next
    case le: False
    then have mx: "Max (insert (unat s) H) = Max H" using fin False
      by (subst Max_insert) (simp_all add: max_absorb2 not_less del: Max_less_iff Max_ge_iff)
    show ?thesis
    proof (cases ok)
      case True
      then have "top w' = Some (Max H)" "marked w' = insert (unat s) (marked w)"
        "Max H - unat s < wid w" using spec le by (auto split: if_splits)
      with True mk inv fin mx acc_wid [OF a] show ?thesis by (auto simp: tracks_def)
    next
      case nok: False
      then have "top w' = Some (Max H)" "marked w' = marked w"
        using spec le by (auto split: if_splits)
      with nok mk inv fin False acc_wid [OF a] show ?thesis by (simp add: tracks_def)
    qed
  qed
qed

lemma run_tracks:
  "tracks w H \<Longrightarrow> run_accept acc w ss = (as, w') \<Longrightarrow>
     tracks w' (H \<union> unat ` set as) \<and> wid w' = wid w \<and> distinct as \<and> H \<inter> unat ` set as = {}"
proof (induction ss arbitrary: w H as)
  case Nil
  then show ?case by simp
next
  case (Cons s ss)
  obtain ok w1 where a: "acc w s = (ok, w1)" by (cases "acc w s")
  obtain rest where r: "run_accept acc w1 ss = (rest, w')" and as: "as = (if ok then s # rest else rest)"
    using Cons.prems(2) a by (auto split: prod.splits)
  let ?H = "if ok then insert (unat s) H else H"
  have t1: "tracks w1 ?H" using Cons.prems(1) a by (rule acc_tracks)
  note IH = Cons.IH [OF t1 r]
  have "unat s \<notin> H" if ok
    using that acc_fresh [OF Cons.prems(1) a] Cons.prems(1) Max_ge [of H "unat s"]
    by (auto simp: fresh_def tracks_def leD)
  then show ?case using IH as acc_wid [OF a] by (cases ok) auto
qed

lemma run_distinct: "invar w \<Longrightarrow> top w = None \<Longrightarrow> distinct (fst (run_accept acc w ss))"
  using run_tracks [of w "{}" ss] by (cases "run_accept acc w ss") (simp add: tracks_def)

lemma run_fresh:
  "invar w \<Longrightarrow> top w = None \<Longrightarrow> run_accept acc w ss = (as, w') \<Longrightarrow>
     fst (acc w' s) \<longleftrightarrow> fresh (wid w) (unat ` set as) (unat s)"
  using run_tracks [of w "{}" ss as w'] acc_fresh [of w' "unat ` set as" s]
  by (cases "acc w' s") (auto simp: tracks_def)

end

lemma accept_refines:
  assumes "rw_inv rw" "accept rw seq = (ok, rw')"
  shows "rw_inv rw'"
    and "spec_accept (unat (rw_width rw)) (rw_top rw) (rw_marked rw) (unat seq) =
           (ok, rw_top rw', rw_marked rw')"
proof -
  consider (first) "\<not> rw_seen rw" | (ahead) "rw_seen rw" "rw_high rw < seq"
    | (behind) "rw_seen rw" "seq \<le> rw_high rw" by fastforce
  then have "rw_inv rw' \<and> spec_accept (unat (rw_width rw)) (rw_top rw) (rw_marked rw) (unat seq) =
           (ok, rw_top rw', rw_marked rw')"
  proof cases
    case first
    with accept_first [OF assms(1) first assms(2)] show ?thesis by (simp add: rw_top_def)
  next
    case ahead
    with accept_ahead [OF assms(1) ahead assms(2)] show ?thesis
      by (simp add: rw_top_def word_less_nat)
  next
    case behind
    with accept_behind [OF assms(1) behind assms(2)] show ?thesis
      by (auto simp: rw_top_def word_le_nat)
  qed
  then show "rw_inv rw'" "spec_accept (unat (rw_width rw)) (rw_top rw) (rw_marked rw) (unat seq) =
           (ok, rw_top rw', rw_marked rw')" by auto
qed

lemma accept_width: "accept rw seq = (ok, rw') \<Longrightarrow> rw_width rw' = rw_width rw"
  unfolding accept_def Let_def by (auto split: if_splits)

lemma rw_inv_width: "rw_inv rw \<Longrightarrow> 0 < unat (rw_width rw)"
  by (auto simp: rw_inv_def)

interpretation window: replay_filter accept rw_inv "\<lambda>rw. unat (rw_width rw)" rw_top rw_marked
proof
  show "0 < unat (rw_width w)" if "rw_inv w" for w using that by (rule rw_inv_width)
  show "rw_inv w'" if "rw_inv w" "accept w s = (ok, w')" for w s ok w'
    using that by (rule accept_refines)
  show "unat (rw_width w') = unat (rw_width w)" if "accept w s = (ok, w')" for w s ok w'
    using that by (simp add: accept_width)
  show "spec_accept (unat (rw_width w)) (rw_top w) (rw_marked w) (unat s) =
          (ok, rw_top w', rw_marked w')" if "rw_inv w" "accept w s = (ok, w')" for w s ok w'
    using that by (rule accept_refines)
qed

text \<open>
  C2. What a run admits is decided by the admitted numbers alone: after any sequence of
  calls on a new window, \<open>accept\<close> returns true exactly when the number is ahead of every
  number admitted so far, or less than the window's width behind the highest of them and
  not yet admitted.
\<close>

theorem accept_iff_fresh:
  assumes "width_bits \<le> - 64"
    and "run_accept accept (ReplayWindow width_bits) seqs = (as, rw)"
  shows "fst (accept rw seq) \<longleftrightarrow>
           fresh (unat (rw_width (ReplayWindow width_bits))) (unat ` set as) (unat seq)"
  using ReplayWindow_inv [OF assms(1)] assms(2) by (rule window.run_fresh)

theorem accept_iff_fresh_witness:
  "run_accept accept (ReplayWindow 64) [5, 3, 5, 70] = ([5, 3, 70], snd (run_accept accept (ReplayWindow 64) [5, 3, 5, 70])) \<and>
   (fst (accept (snd (run_accept accept (ReplayWindow 64) [5, 3, 5, 70])) 7) \<longleftrightarrow>
      fresh (unat (rw_width (ReplayWindow 64))) (unat ` set [5, 3, 70 :: u64]) (unat (7 :: u64)))"
proof -
  have run: "run_accept accept (ReplayWindow 64) [5, 3, 5, 70] =
               ([5, 3, 70], snd (run_accept accept (ReplayWindow 64) [5, 3, 5, 70]))"
    by code_simp
  show ?thesis using run accept_iff_fresh [OF _ run, of 7] by simp
qed

text \<open>
  C7. No replay: whatever sequence of numbers a new window is given, no number is admitted
  twice.
\<close>

theorem accept_no_replay:
  assumes "width_bits \<le> - 64"
  shows "distinct (fst (run_accept accept (ReplayWindow width_bits) seqs))"
  using ReplayWindow_inv [OF assms] by (rule window.run_distinct)

theorem accept_no_replay_witness:
  "distinct (fst (run_accept accept (ReplayWindow 1024) [1, 2, 1, 2, 3000, 2]))"
  by (rule accept_no_replay) simp

text \<open>
  C21. The bitmap implements the abstract window: one call of \<open>accept\<close> keeps the invariant
  (so every word index stays inside the vector) and acts on the highest number and the
  admitted numbers in reach as the abstract filter does.
\<close>

theorem accept_refinement:
  assumes "rw_inv rw"
  shows "rw_inv (snd (accept rw seq)) \<and>
    spec_accept (unat (rw_width rw)) (rw_top rw) (rw_marked rw) (unat seq) =
      (fst (accept rw seq), rw_top (snd (accept rw seq)), rw_marked (snd (accept rw seq)))"
  using accept_refines [OF assms, of seq] by (cases "accept rw seq") simp

theorem accept_refinement_witness:
  "rw_inv (snd (accept (ReplayWindow 1024) 9))"
  using accept_refinement [of "ReplayWindow 1024" 9] ReplayWindow_inv(1) [of 1024] by simp

end
