(* ===== verification/Bytes.thy ===== *)
theory Bytes
  imports Prelude
begin

text \<open>
  The byte-level helpers of the sources: \<open>load32_le\<close>, \<open>store32_le\<close>, \<open>store64_be\<close>,
  \<open>rotl32\<close> and \<open>ct_eq16\<close> of \<open>src/src/core/simd_crypto.c\<close>, and \<open>ct_eq\<close> of
  \<open>src/src/core/proto.cpp\<close>.  A pointer argument is the list of the bytes from that
  address on.  The number a little-endian byte string stands for is \<open>le_num\<close>; the lemmas
  relate loads and stores to it and show that the constant-time comparisons decide equality.
\<close>

section \<open>Paths\<close>

text \<open>
  The paths of \<open>simd_crypto.c\<close>.  Which of them a build contains and a processor supports
  is decided by the preprocessor and by \<open>resolve_paths\<close>; the dispatcher only sees the tag.
\<close>

datatype path = PATH_PORTABLE | PATH_X86 | PATH_ARM

section \<open>Loads, stores and rotation\<close>

definition load32_le :: "bytes \<Rightarrow> u32" where
  "load32_le p = ucast (p ! 0) OR push_bit 8 (ucast (p ! 1)) OR
                 push_bit 16 (ucast (p ! 2)) OR push_bit 24 (ucast (p ! 3))"

definition store32_le :: "u32 \<Rightarrow> bytes" where
  "store32_le v = [ucast v, ucast (drop_bit 8 v), ucast (drop_bit 16 v), ucast (drop_bit 24 v)]"

definition store64_be :: "u64 \<Rightarrow> bytes" where
  "store64_be v = map (\<lambda>i. ucast (drop_bit (56 - 8 * i) v)) [0..<8]"

definition rotl32 :: "u32 \<Rightarrow> nat \<Rightarrow> u32" where
  "rotl32 x n = push_bit n x OR drop_bit (32 - n) x"

section \<open>Constant-time comparison\<close>

fun ct_diff :: "u8 \<Rightarrow> bytes \<Rightarrow> bytes \<Rightarrow> nat \<Rightarrow> u8" where
  "ct_diff d a b 0 = d"
| "ct_diff d a b (Suc n) = ct_diff (d OR (a ! 0 XOR b ! 0)) (drop 1 a) (drop 1 b) n"

definition ct_eq :: "bytes \<Rightarrow> bytes \<Rightarrow> nat \<Rightarrow> bool" where
  "ct_eq a b n \<longleftrightarrow> ct_diff 0 a b n = 0"

definition ct_eq16 :: "bytes \<Rightarrow> bytes \<Rightarrow> bool" where
  "ct_eq16 a b \<longleftrightarrow> ct_diff 0 a b 16 = 0"

section \<open>Lemmas\<close>

lemma length_store32_le [simp, len_simps]: "length (store32_le v) = 4"
  by (simp add: store32_le_def)

lemma length_store64_be [simp, len_simps]: "length (store64_be v) = 8"
  by (simp add: store64_be_def)

lemma word_or_eq_0_iff: "x OR y = 0 \<longleftrightarrow> x = 0 \<and> y = (0 :: 'a::len word)"
  by (auto simp: or_eq_0_iff)

lemma word_xor_eq_0_iff: "x XOR y = 0 \<longleftrightarrow> x = (y :: 'a::len word)"
  by (metis xor_self_eq xor.right_neutral xor.assoc)

lemma ct_diff_0:
  "n \<le> length a \<Longrightarrow> n \<le> length b \<Longrightarrow> ct_diff d a b n = 0 \<longleftrightarrow> d = 0 \<and> take n a = take n b"
proof (induction n arbitrary: d a b)
  case 0
  then show ?case by simp
next
  case (Suc n)
  then obtain x xs y ys where "a = x # xs" "b = y # ys"
    by (metis Suc_le_length_iff)
  with Suc show ?case by (auto simp: word_or_eq_0_iff word_xor_eq_0_iff)
qed

text \<open>Both comparisons decide equality of the prefixes they read.\<close>

lemma ct_eq_iff: "n \<le> length a \<Longrightarrow> n \<le> length b \<Longrightarrow> ct_eq a b n \<longleftrightarrow> take n a = take n b"
  by (simp add: ct_eq_def ct_diff_0)

lemma ct_eq16_iff: "length a = 16 \<Longrightarrow> length b = 16 \<Longrightarrow> ct_eq16 a b \<longleftrightarrow> a = b"
  by (simp add: ct_eq16_def ct_diff_0)

subsection \<open>Little-endian numbers\<close>

fun le_num :: "bytes \<Rightarrow> nat" where
  "le_num [] = 0"
| "le_num (b # bs) = unat b + 256 * le_num bs"

lemma le_num_append: "le_num (a @ b) = le_num a + 256 ^ length a * le_num b"
  by (induction a) (auto simp: algebra_simps)

lemma le_num_lt: "le_num a < 256 ^ length a"
proof (induction a)
  case Nil
  then show ?case by simp
next
  case (Cons b a)
  have "256 * (le_num a + 1) \<le> 256 * 256 ^ length a"
    using Cons.IH by (intro mult_le_mono) auto
  then show ?case using unat_u8_lt [of b] by simp
qed

lemma le_num_replicate_0 [simp]: "le_num (replicate n 0) = 0"
  by (induction n) auto

lemma le_num_drop: "le_num (drop k a) = le_num a div 256 ^ k"
proof (induction k arbitrary: a)
  case 0
  then show ?case by simp
next
  case (Suc k)
  show ?case
  proof (cases a)
    case (Cons b as)
    have "le_num a div 256 = le_num as" using unat_u8_lt [of b] by (simp add: Cons)
    then show ?thesis using Suc [of as] by (simp add: Cons div_mult2_eq del: le_num.simps)
  qed simp
qed

lemma le_num_take: "le_num (take k a) = le_num a mod 256 ^ k"
proof (cases "k \<le> length a")
  case True
  have "le_num a = le_num (take k a) + 256 ^ k * le_num (drop k a)"
    using le_num_append [of "take k a" "drop k a"] True by simp
  moreover have "le_num (take k a) < 256 ^ k" using le_num_lt [of "take k a"] True by simp
  ultimately show ?thesis by simp
next
  case False
  then have "(256::nat) ^ length a \<le> 256 ^ k" by (intro power_increasing) auto
  with le_num_lt [of a] have "le_num a < 256 ^ k" by (rule less_le_trans)
  with False show ?thesis by simp
qed

lemma le_num_inj: "length a = length b \<Longrightarrow> le_num a = le_num b \<Longrightarrow> a = b"
proof (induction a b rule: list_induct2)
  case (Cons x xs y ys)
  have "unat x = unat y"
    using arg_cong [OF Cons.prems, of "\<lambda>n. n mod 256"] unat_u8_lt [of x] unat_u8_lt [of y] by simp
  with Cons show ?case by (simp add: word_unat_eq_iff)
qed simp

subsection \<open>Loads and stores as numbers\<close>

lemma unat_load32_le:
  assumes "4 \<le> length p"
  shows "unat (load32_le p) = le_num (take 4 p)"
proof -
  obtain a b c d q where p: "p = a # b # c # d # q"
    using assms by (auto simp: numeral_eq_Suc Suc_le_length_iff)
  have u: "unat (ucast x :: u32) = unat x" for x :: u8
    using unat_u8_lt [of x] by (simp add: unsigned_ucast_eq take_bit_nat_eq_self)
  have "unat (load32_le p) =
     unat a + 2 ^ 8 * unat b + 2 ^ 16 * unat c + 2 ^ 24 * unat d"
    unfolding load32_le_def using unat_u8_lt [of a] unat_u8_lt [of b] unat_u8_lt [of c] unat_u8_lt [of d]
    by (simp add: p unat_or_push u or.assoc [symmetric])
  then show ?thesis by (simp add: p)
qed

lemma le_num_store32_le: "le_num (store32_le v) = unat v"
proof -
  define n where "n = unat v"
  have d: "n div 65536 = n div 256 div 256" "n div 16777216 = n div 256 div 256 div 256"
    by (simp_all flip: div_mult2_eq)
  have "n = n mod 256 + 256 * (n div 256 mod 256 + 256 *
          (n div 65536 mod 256 + 256 * (n div 16777216)))"
    unfolding d by simp
  moreover have "n div 16777216 mod 256 = n div 16777216"
    using unat_u32_lt [of v] by (simp add: n_def)
  ultimately show ?thesis
    by (simp add: store32_le_def unsigned_ucast_eq take_bit_eq_mod drop_bit_eq_div unat_div
        flip: n_def)
qed

lemma load_store32 [simp]: "load32_le (store32_le v @ q) = v"
  using unat_load32_le [of "store32_le v @ q"] le_num_store32_le [of v]
  by (simp add: word_unat_eq_iff)

lemma store_load32: "length p = 4 \<Longrightarrow> store32_le (load32_le p) = p"
  by (intro le_num_inj) (simp_all add: le_num_store32_le unat_load32_le)

section \<open>Padding\<close>

text \<open>The zero padding to whole blocks that both AEAD standards prescribe.\<close>

definition pad16 :: "bytes \<Rightarrow> bytes" where
  "pad16 m = m @ replicate ((16 - length m mod 16) mod 16) 0"

lemma dvd_length_pad16: "16 dvd length (pad16 m)"
proof -
  define q r where "q = length m div 16" and "r = length m mod 16"
  have m: "length m = 16 * q + r" and r: "r < 16" by (simp_all add: q_def r_def)
  have "r \<noteq> 0 \<Longrightarrow> 16 * q + r + (16 - r) = 16 * (q + 1)" using r by simp
  then show ?thesis
    unfolding pad16_def length_append length_replicate r_def [symmetric] unfolding m using r
    by (cases "r = 0") simp_all
qed

end
