(* ===== verification/ChaCha.thy ===== *)
theory ChaCha
  imports Bytes
begin

text \<open>
  ChaCha20 of \<open>src/src/core/simd_crypto.c\<close>: the portable block function, the AVX2 path
  that computes four blocks in two interleaved register sets, the NEON path, and the
  dispatcher.  A 128-bit register is the list of its four 32-bit lanes, lowest first; a
  256-bit register is the pair of its low and high 128-bit halves.  The lemmas show that the
  vector paths compute the portable key stream and that encryption is its own inverse.
\<close>

section \<open>Portable\<close>

text \<open>The macro \<open>QR(a, b, c, d)\<close>, first on four words, then on positions of the state.\<close>

definition qr :: "u32 \<Rightarrow> u32 \<Rightarrow> u32 \<Rightarrow> u32 \<Rightarrow> u32 \<times> u32 \<times> u32 \<times> u32" where
  "qr a b c d =
     (let a = a + b; d = d XOR a; d = rotl32 d 16;
          c = c + d; b = b XOR c; b = rotl32 b 12;
          a = a + b; d = d XOR a; d = rotl32 d 8;
          c = c + d; b = b XOR c; b = rotl32 b 7
      in (a, b, c, d))"

definition QR :: "nat \<Rightarrow> nat \<Rightarrow> nat \<Rightarrow> nat \<Rightarrow> u32 list \<Rightarrow> u32 list" where
  "QR i j k l x =
     (case qr (x ! i) (x ! j) (x ! k) (x ! l) of
        (a, b, c, d) \<Rightarrow> x[i := a, j := b, k := c, l := d])"

definition double_round :: "u32 list \<Rightarrow> u32 list" where
  "double_round x =
     (let x = QR 0 4 8 12 x; x = QR 1 5 9 13 x; x = QR 2 6 10 14 x; x = QR 3 7 11 15 x;
          x = QR 0 5 10 15 x; x = QR 1 6 11 12 x; x = QR 2 7 8 13 x
      in QR 3 4 9 14 x)"

definition chacha_block_portable :: "u32 list \<Rightarrow> bytes" where
  "chacha_block_portable st =
     (let x = (double_round ^^ 10) st
      in concat (map (\<lambda>i. store32_le (x ! i + st ! i)) [0..<16]))"

definition kSigma :: bytes where
  "kSigma = map of_char ''expand 32-byte k''"

definition chacha_state :: "bytes \<Rightarrow> bytes \<Rightarrow> u32 \<Rightarrow> u32 list" where
  "chacha_state key nonce counter =
     map (\<lambda>i. load32_le (drop (4 * i) kSigma)) [0..<4] @
     map (\<lambda>i. load32_le (drop (4 * i) key)) [0..<8] @ [counter] @
     map (\<lambda>i. load32_le (drop (4 * i) nonce)) [0..<3]"

text \<open>The loop of \<open>chacha_xor_portable\<close> and of \<open>chacha_xor_neon\<close>, over the block function.\<close>

function xor_blocks :: "(u32 list \<Rightarrow> bytes) \<Rightarrow> u32 list \<Rightarrow> bytes \<Rightarrow> bytes" where
  "xor_blocks blk st inp =
     (if inp = [] then []
      else xor_bytes (take 64 inp) (blk st) @
           xor_blocks blk (st[12 := st ! 12 + 1]) (drop 64 inp))"
  by pat_completeness auto
termination
  by (relation "measure (\<lambda>(blk, st, inp). length inp)") auto

declare xor_blocks.simps [simp del]

definition chacha_xor_portable :: "bytes \<Rightarrow> bytes \<Rightarrow> u32 \<Rightarrow> bytes \<Rightarrow> bytes" where
  "chacha_xor_portable key nonce counter inp =
     xor_blocks chacha_block_portable (chacha_state key nonce counter) inp"

section \<open>AVX2\<close>

type_synonym m128 = "u32 list"
type_synonym m256 = "m128 \<times> m128"

definition m256_lanes :: "(m128 \<Rightarrow> m128) \<Rightarrow> m256 \<Rightarrow> m256" where
  "m256_lanes f x = (f (fst x), f (snd x))"

definition m256_lanes2 :: "(m128 \<Rightarrow> m128 \<Rightarrow> m128) \<Rightarrow> m256 \<Rightarrow> m256 \<Rightarrow> m256" where
  "m256_lanes2 f x y = (f (fst x) (fst y), f (snd x) (snd y))"

definition mm256_add_epi32 :: "m256 \<Rightarrow> m256 \<Rightarrow> m256" where
  "mm256_add_epi32 = m256_lanes2 (map2 (+))"

definition mm256_xor_si256 :: "m256 \<Rightarrow> m256 \<Rightarrow> m256" where
  "mm256_xor_si256 = m256_lanes2 (map2 (XOR))"

text \<open>
  \<open>_mm256_shuffle_epi8\<close>: within each 128-bit half, byte \<open>i\<close> of the result is the byte that
  the mask's byte \<open>i\<close> names.  \<open>_mm256_shuffle_epi32\<close> selects 32-bit lanes within each half
  by the two-bit fields of its immediate.
\<close>

definition shuffle_epi8 :: "nat list \<Rightarrow> m128 \<Rightarrow> m128" where
  "shuffle_epi8 m x =
     (let bs = concat (map store32_le x); r = map (\<lambda>i. bs ! i) m
      in map (\<lambda>k. load32_le (drop (4 * k) r)) [0..<4])"

definition shuffle_epi32 :: "nat \<Rightarrow> m128 \<Rightarrow> m128" where
  "shuffle_epi32 imm x = map (\<lambda>k. x ! (imm div 4 ^ k mod 4)) [0..<4]"

definition rotl_avx2_16 :: "m256 \<Rightarrow> m256" where
  "rotl_avx2_16 = m256_lanes (shuffle_epi8 (rev [13,12,15,14, 9,8,11,10, 5,4,7,6, 1,0,3,2]))"

definition rotl_avx2_8 :: "m256 \<Rightarrow> m256" where
  "rotl_avx2_8 = m256_lanes (shuffle_epi8 (rev [14,13,12,15, 10,9,8,11, 6,5,4,7, 2,1,0,3]))"

definition rotl_avx2 :: "m256 \<Rightarrow> nat \<Rightarrow> m256" where
  "rotl_avx2 x n =
     m256_lanes2 (map2 (OR)) (m256_lanes (map (push_bit n)) x) (m256_lanes (map (drop_bit (32 - n))) x)"

type_synonym m256x4 = "m256 \<times> m256 \<times> m256 \<times> m256"

text \<open>The four statement lines that appear before and after the diagonal shuffles.\<close>

definition quarter_avx2 :: "m256x4 \<Rightarrow> m256x4" where
  "quarter_avx2 = (\<lambda>(a, b, c, d).
     let a = mm256_add_epi32 a b; d = mm256_xor_si256 d a; d = rotl_avx2_16 d;
         c = mm256_add_epi32 c d; b = mm256_xor_si256 b c; b = rotl_avx2 b 12;
         a = mm256_add_epi32 a b; d = mm256_xor_si256 d a; d = rotl_avx2_8 d;
         c = mm256_add_epi32 c d; b = mm256_xor_si256 b c; b = rotl_avx2 b 7
     in (a, b, c, d))"

definition mm256_shuffle_epi32 :: "m256 \<Rightarrow> nat \<Rightarrow> m256" where
  "mm256_shuffle_epi32 x imm = m256_lanes (shuffle_epi32 imm) x"

definition round_avx2 :: "m256x4 \<Rightarrow> m256x4" where
  "round_avx2 v =
     (case quarter_avx2 v of (a, b, c, d) \<Rightarrow>
      case quarter_avx2 (a, mm256_shuffle_epi32 b 0x39, mm256_shuffle_epi32 c 0x4E,
                            mm256_shuffle_epi32 d 0x93) of (a, b, c, d) \<Rightarrow>
      (a, mm256_shuffle_epi32 b 0x93, mm256_shuffle_epi32 c 0x4E, mm256_shuffle_epi32 d 0x39))"

definition mm_add_epi32 :: "m128 \<Rightarrow> m128 \<Rightarrow> m128" where
  "mm_add_epi32 = map2 (+)"

definition broadcastsi128 :: "m128 \<Rightarrow> m256" where
  "broadcastsi128 x = (x, x)"

definition m128_bytes :: "m128 \<Rightarrow> bytes" where
  "m128_bytes x = concat (map store32_le x)"

definition add4_avx2 :: "m256x4 \<Rightarrow> m256x4 \<Rightarrow> m256x4" where
  "add4_avx2 = (\<lambda>(a, b, c, d) (a0, b0, c0, d0).
     (mm256_add_epi32 a a0, mm256_add_epi32 b b0, mm256_add_epi32 c c0, mm256_add_epi32 d d0))"

definition chacha_2blocks_avx2 :: "u32 list \<Rightarrow> bytes" where
  "chacha_2blocks_avx2 st =
     (let s0 = take 4 st; s1 = take 4 (drop 4 st); s2 = take 4 (drop 8 st); s3 = take 4 (drop 12 st);
          v0 = (broadcastsi128 s0, broadcastsi128 s1, broadcastsi128 s2,
                (s3, mm_add_epi32 s3 [1, 0, 0, 0]))
      in case add4_avx2 ((round_avx2 ^^ 10) v0) v0 of (a, b, c, d) \<Rightarrow>
         m128_bytes (fst a) @ m128_bytes (fst b) @ m128_bytes (fst c) @ m128_bytes (fst d) @
         m128_bytes (snd a) @ m128_bytes (snd b) @ m128_bytes (snd c) @ m128_bytes (snd d))"

text \<open>
  \<open>_mm256_permute2x128_si256\<close> with the immediates the code uses: \<open>0x20\<close> joins the low
  halves of its arguments, \<open>0x31\<close> the high halves.  The two chains of the four-block
  routine share no register, so interleaving them is running them side by side.
\<close>

definition permute2x128_20 :: "m256 \<Rightarrow> m256 \<Rightarrow> m256" where
  "permute2x128_20 a b = (fst a, fst b)"

definition permute2x128_31 :: "m256 \<Rightarrow> m256 \<Rightarrow> m256" where
  "permute2x128_31 a b = (snd a, snd b)"

definition m256_bytes :: "m256 \<Rightarrow> bytes" where
  "m256_bytes x = m128_bytes (fst x) @ m128_bytes (snd x)"

definition chacha_4blocks_avx2 :: "u32 list \<Rightarrow> bytes \<Rightarrow> bytes" where
  "chacha_4blocks_avx2 st inp =
     (let s0 = take 4 st; s1 = take 4 (drop 4 st); s2 = take 4 (drop 8 st); s3 = take 4 (drop 12 st);
          a0 = broadcastsi128 s0; b0 = broadcastsi128 s1; c0 = broadcastsi128 s2;
          d0 = (s3, mm_add_epi32 s3 [1, 0, 0, 0]);
          d1 = mm256_add_epi32 d0 ([2, 0, 0, 0], [2, 0, 0, 0])
      in case (map_prod round_avx2 round_avx2 ^^ 10) ((a0, b0, c0, d0), (a0, b0, c0, d1)) of (v, V) \<Rightarrow>
         case add4_avx2 v (a0, b0, c0, d0) of (a, b, c, d) \<Rightarrow>
         case add4_avx2 V (a0, b0, c0, d1) of (A, B, C, D) \<Rightarrow>
         let os = [permute2x128_20 a b, permute2x128_20 c d, permute2x128_31 a b, permute2x128_31 c d,
                   permute2x128_20 A B, permute2x128_20 C D, permute2x128_31 A B, permute2x128_31 C D]
         in concat (map (\<lambda>i. xor_bytes (take 32 (drop (32 * i) inp)) (m256_bytes (os ! i))) [0..<8]))"

text \<open>
  \<open>chacha_xor_avx2\<close>: whole groups of 256 bytes, then one padded group for the rest, of
  which only the bytes asked for are copied out.
\<close>

function xor_avx2_loop :: "u32 list \<Rightarrow> bytes \<Rightarrow> bytes" where
  "xor_avx2_loop st inp =
     (if length inp \<ge> 256
      then chacha_4blocks_avx2 st (take 256 inp) @ xor_avx2_loop (st[12 := st ! 12 + 4]) (drop 256 inp)
      else if inp \<noteq> []
      then take (length inp) (chacha_4blocks_avx2 st (inp @ replicate (256 - length inp) 0))
      else [])"
  by pat_completeness auto
termination
  by (relation "measure (\<lambda>(st, inp). length inp)") auto

declare xor_avx2_loop.simps [simp del]

definition chacha_xor_avx2 :: "bytes \<Rightarrow> bytes \<Rightarrow> u32 \<Rightarrow> bytes \<Rightarrow> bytes" where
  "chacha_xor_avx2 key nonce counter inp = xor_avx2_loop (chacha_state key nonce counter) inp"

section \<open>NEON\<close>

text \<open>
  \<open>vsriq_n_u32(a, x, s)\<close> shifts \<open>x\<close> right by \<open>s\<close> and inserts the result into \<open>a\<close>, whose
  top \<open>s\<close> bits stay; \<open>vextq_u32(x, x, k)\<close> rotates the lanes down by \<open>k\<close>.
\<close>

definition vsri :: "u32 \<Rightarrow> u32 \<Rightarrow> nat \<Rightarrow> u32" where
  "vsri a x s = (a AND NOT (mask (32 - s))) OR drop_bit s x"

definition ROTL_NEON :: "m128 \<Rightarrow> nat \<Rightarrow> m128" where
  "ROTL_NEON x n = map2 (\<lambda>a y. vsri a y (32 - n)) (map (push_bit n) x) x"

definition vextq_u32 :: "m128 \<Rightarrow> m128 \<Rightarrow> nat \<Rightarrow> m128" where
  "vextq_u32 x y k = take 4 (drop k (x @ y))"

type_synonym m128x4 = "m128 \<times> m128 \<times> m128 \<times> m128"

definition quarter_neon :: "m128x4 \<Rightarrow> m128x4" where
  "quarter_neon = (\<lambda>(a, b, c, d).
     let a = map2 (+) a b; d = map2 (XOR) d a; d = ROTL_NEON d 16;
         c = map2 (+) c d; b = map2 (XOR) b c; b = ROTL_NEON b 12;
         a = map2 (+) a b; d = map2 (XOR) d a; d = ROTL_NEON d 8;
         c = map2 (+) c d; b = map2 (XOR) b c; b = ROTL_NEON b 7
     in (a, b, c, d))"

definition round_neon :: "m128x4 \<Rightarrow> m128x4" where
  "round_neon v =
     (case quarter_neon v of (a, b, c, d) \<Rightarrow>
      case quarter_neon (a, vextq_u32 b b 1, vextq_u32 c c 2, vextq_u32 d d 3) of (a, b, c, d) \<Rightarrow>
      (a, vextq_u32 b b 3, vextq_u32 c c 2, vextq_u32 d d 1))"

definition chacha_block_neon :: "u32 list \<Rightarrow> bytes" where
  "chacha_block_neon st =
     (let a0 = take 4 st; b0 = take 4 (drop 4 st); c0 = take 4 (drop 8 st); d0 = take 4 (drop 12 st)
      in case (round_neon ^^ 10) (a0, b0, c0, d0) of (a, b, c, d) \<Rightarrow>
         m128_bytes (map2 (+) a a0) @ m128_bytes (map2 (+) b b0) @
         m128_bytes (map2 (+) c c0) @ m128_bytes (map2 (+) d d0))"

definition chacha_xor_neon :: "bytes \<Rightarrow> bytes \<Rightarrow> u32 \<Rightarrow> bytes \<Rightarrow> bytes" where
  "chacha_xor_neon key nonce counter inp =
     xor_blocks chacha_block_neon (chacha_state key nonce counter) inp"

section \<open>Dispatch\<close>

fun chacha_xor :: "path \<Rightarrow> bytes \<Rightarrow> bytes \<Rightarrow> u32 \<Rightarrow> bytes \<Rightarrow> bytes" where
  "chacha_xor PATH_X86 key nonce counter inp = chacha_xor_avx2 key nonce counter inp"
| "chacha_xor PATH_ARM key nonce counter inp = chacha_xor_neon key nonce counter inp"
| "chacha_xor PATH_PORTABLE key nonce counter inp = chacha_xor_portable key nonce counter inp"

definition lr_chacha20_keystream :: "path \<Rightarrow> bytes \<Rightarrow> bytes \<Rightarrow> u32 \<Rightarrow> nat \<Rightarrow> bytes" where
  "lr_chacha20_keystream path key nonce counter len = chacha_xor path key nonce counter (replicate len 0)"

section \<open>Lengths and inversion\<close>

lemma length_concat_store [simp]: "length (concat (map (\<lambda>i. store32_le (f i)) xs)) = 4 * length xs"
  by (induction xs) auto

lemma length_m128_bytes [simp]: "length (m128_bytes x) = 4 * length x"
  by (induction x) (auto simp: m128_bytes_def)

lemma length_chacha_block_portable [simp]: "length (chacha_block_portable st) = 64"
  by (simp add: chacha_block_portable_def Let_def)

lemma xor_blocks_Nil [simp]: "xor_blocks blk st [] = []"
  by (subst xor_blocks.simps) simp

lemma length_xor_blocks:
  "(\<And>st. length (blk st) = 64) \<Longrightarrow> length (xor_blocks blk st inp) = length inp"
proof (induction blk st inp rule: xor_blocks.induct)
  case (1 blk st inp)
  then show ?case by (subst xor_blocks.simps) auto
qed

lemma xor_blocks_twice:
  assumes "\<And>st. length (blk st) = 64"
  shows "xor_blocks blk st (xor_blocks blk st inp) = inp"
  using assms
proof (induction blk st inp rule: xor_blocks.induct)
  case (1 blk st inp)
  show ?case
  proof (cases "inp = []")
    case True
    then show ?thesis by (simp add: xor_blocks.simps [of blk st])
  next
    case False
    let ?a = "xor_bytes (take 64 inp) (blk st)"
    let ?r = "xor_blocks blk (st[12 := st ! 12 + 1]) (drop 64 inp)"
    have e: "xor_blocks blk st inp = ?a @ ?r" using False by (subst xor_blocks.simps) simp
    have la: "length ?a = min 64 (length inp)" using "1.prems" by simp
    then have "?a \<noteq> []" using False by (metis length_greater_0_conv list.size(3) min_less_iff_conj zero_less_numeral)
    have t: "take 64 (?a @ ?r) = ?a" and d: "drop 64 (?a @ ?r) = ?r"
      using la length_xor_blocks [of blk, OF "1.prems"] by (auto simp: min_def split: if_splits)
    have "xor_blocks blk st (?a @ ?r) = xor_bytes ?a (blk st) @ xor_blocks blk (st[12 := st ! 12 + 1]) ?r"
    proof -
      have ne: "?a @ ?r \<noteq> []" using \<open>?a \<noteq> []\<close> by simp
      show ?thesis by (subst xor_blocks.simps, subst if_not_P [OF ne]) (simp only: t d)
    qed
    also have "\<dots> = take 64 inp @ drop 64 inp"
      using "1.IH" [OF False] "1.prems" by simp
    finally show ?thesis using e by simp
  qed
qed

section \<open>The vector paths compute the portable key stream\<close>

definition qa :: "u32 \<Rightarrow> u32 \<Rightarrow> u32 \<Rightarrow> u32 \<Rightarrow> u32" where "qa a b c d = fst (qr a b c d)"
definition qb :: "u32 \<Rightarrow> u32 \<Rightarrow> u32 \<Rightarrow> u32 \<Rightarrow> u32" where "qb a b c d = fst (snd (qr a b c d))"
definition qc :: "u32 \<Rightarrow> u32 \<Rightarrow> u32 \<Rightarrow> u32 \<Rightarrow> u32" where "qc a b c d = fst (snd (snd (qr a b c d)))"
definition qd :: "u32 \<Rightarrow> u32 \<Rightarrow> u32 \<Rightarrow> u32 \<Rightarrow> u32" where "qd a b c d = snd (snd (snd (qr a b c d)))"

lemmas q_defs = qa_def qb_def qc_def qd_def

lemma qr_parts: "qr a b c d = (qa a b c d, qb a b c d, qc a b c d, qd a b c d)"
  by (simp add: q_defs)

lemma vsri_rotl: "n \<le> 32 \<Longrightarrow> vsri (push_bit n x) x (32 - n) = rotl32 x n"
  by (rule bit_word_eqI) (auto simp: vsri_def rotl32_def bit_simps)

lemma ROTL_NEON_rotl: "n \<le> 32 \<Longrightarrow> ROTL_NEON x n = map (\<lambda>y. rotl32 y n) x"
  by (induction x) (auto simp: ROTL_NEON_def vsri_rotl)

lemma list4E:
  assumes "length x = 4"
  obtains a b c d where "x = [a, b, c, d]"
  using assms by (auto simp: numeral_eq_Suc length_Suc_conv)

definition rows4 :: "m128x4 \<Rightarrow> u32 list" where
  "rows4 = (\<lambda>(a, b, c, d). a @ b @ c @ d)"

definition wf4 :: "m128x4 \<Rightarrow> bool" where
  "wf4 = (\<lambda>(a, b, c, d). length a = 4 \<and> length b = 4 \<and> length c = 4 \<and> length d = 4)"

lemma quarter_neon_lanes:
  "quarter_neon ([a0, a1, a2, a3], [b0, b1, b2, b3], [c0, c1, c2, c3], [d0, d1, d2, d3]) =
     ([qa a0 b0 c0 d0, qa a1 b1 c1 d1, qa a2 b2 c2 d2, qa a3 b3 c3 d3],
      [qb a0 b0 c0 d0, qb a1 b1 c1 d1, qb a2 b2 c2 d2, qb a3 b3 c3 d3],
      [qc a0 b0 c0 d0, qc a1 b1 c1 d1, qc a2 b2 c2 d2, qc a3 b3 c3 d3],
      [qd a0 b0 c0 d0, qd a1 b1 c1 d1, qd a2 b2 c2 d2, qd a3 b3 c3 d3])"
  by (simp add: quarter_neon_def q_defs qr_def Let_def ROTL_NEON_rotl)

lemma vextq_lanes:
  "vextq_u32 [a, b, c, d] [a, b, c, d] (Suc 0) = [b, c, d, a]"
  "vextq_u32 [a, b, c, d] [a, b, c, d] 2 = [c, d, a, b]"
  "vextq_u32 [a, b, c, d] [a, b, c, d] 3 = [d, a, b, c]"
  by (simp_all add: vextq_u32_def numeral_eq_Suc)

lemma round_neon_double_round:
  assumes "wf4 v"
  shows "wf4 (round_neon v)" "double_round (rows4 v) = rows4 (round_neon v)"
proof -
  obtain a0 a1 a2 a3 b0 b1 b2 b3 c0 c1 c2 c3 d0 d1 d2 d3 where
    v: "v = ([a0, a1, a2, a3], [b0, b1, b2, b3], [c0, c1, c2, c3], [d0, d1, d2, d3])"
    using assms by (cases v) (auto simp: wf4_def elim!: list4E)
  note r = round_neon_def quarter_neon_lanes vextq_lanes
  show "wf4 (round_neon v)" by (simp add: v r wf4_def)
  have "rows4 (round_neon v) =
    [qa (qa a0 b0 c0 d0) (qb a1 b1 c1 d1) (qc a2 b2 c2 d2) (qd a3 b3 c3 d3),
     qa (qa a1 b1 c1 d1) (qb a2 b2 c2 d2) (qc a3 b3 c3 d3) (qd a0 b0 c0 d0),
     qa (qa a2 b2 c2 d2) (qb a3 b3 c3 d3) (qc a0 b0 c0 d0) (qd a1 b1 c1 d1),
     qa (qa a3 b3 c3 d3) (qb a0 b0 c0 d0) (qc a1 b1 c1 d1) (qd a2 b2 c2 d2),
     qb (qa a3 b3 c3 d3) (qb a0 b0 c0 d0) (qc a1 b1 c1 d1) (qd a2 b2 c2 d2),
     qb (qa a0 b0 c0 d0) (qb a1 b1 c1 d1) (qc a2 b2 c2 d2) (qd a3 b3 c3 d3),
     qb (qa a1 b1 c1 d1) (qb a2 b2 c2 d2) (qc a3 b3 c3 d3) (qd a0 b0 c0 d0),
     qb (qa a2 b2 c2 d2) (qb a3 b3 c3 d3) (qc a0 b0 c0 d0) (qd a1 b1 c1 d1),
     qc (qa a2 b2 c2 d2) (qb a3 b3 c3 d3) (qc a0 b0 c0 d0) (qd a1 b1 c1 d1),
     qc (qa a3 b3 c3 d3) (qb a0 b0 c0 d0) (qc a1 b1 c1 d1) (qd a2 b2 c2 d2),
     qc (qa a0 b0 c0 d0) (qb a1 b1 c1 d1) (qc a2 b2 c2 d2) (qd a3 b3 c3 d3),
     qc (qa a1 b1 c1 d1) (qb a2 b2 c2 d2) (qc a3 b3 c3 d3) (qd a0 b0 c0 d0),
     qd (qa a1 b1 c1 d1) (qb a2 b2 c2 d2) (qc a3 b3 c3 d3) (qd a0 b0 c0 d0),
     qd (qa a2 b2 c2 d2) (qb a3 b3 c3 d3) (qc a0 b0 c0 d0) (qd a1 b1 c1 d1),
     qd (qa a3 b3 c3 d3) (qb a0 b0 c0 d0) (qc a1 b1 c1 d1) (qd a2 b2 c2 d2),
     qd (qa a0 b0 c0 d0) (qb a1 b1 c1 d1) (qc a2 b2 c2 d2) (qd a3 b3 c3 d3)]"
    by (simp add: v r rows4_def)
  then show "double_round (rows4 v) = rows4 (round_neon v)"
    by (simp add: v rows4_def double_round_def QR_def qr_parts Let_def eval_nat_numeral)
qed

lemma rounds_neon:
  "wf4 v \<Longrightarrow> wf4 ((round_neon ^^ n) v) \<and> (double_round ^^ n) (rows4 v) = rows4 ((round_neon ^^ n) v)"
  by (induction n) (auto simp: round_neon_double_round)

lemma m128_bytes_append [simp]: "m128_bytes (x @ y) = m128_bytes x @ m128_bytes y"
  by (simp add: m128_bytes_def)

lemma map2_append:
  "length a = length c \<Longrightarrow> map2 f (a @ b) (c @ d) = map2 f a c @ map2 f b d"
  by simp

lemma concat_store_map2:
  "length x = n \<Longrightarrow> length y = n \<Longrightarrow>
   concat (map (\<lambda>i. store32_le (x ! i + y ! i)) [0..<n]) = m128_bytes (map2 (+) x y)"
  by (simp add: m128_bytes_def) (rule arg_cong [of _ _ concat], rule nth_equalityI, auto)

lemma rows4_split:
  assumes "length st = 16"
  shows "wf4 (take 4 st, take 4 (drop 4 st), take 4 (drop 8 st), take 4 (drop 12 st))"
    and "rows4 (take 4 st, take 4 (drop 4 st), take 4 (drop 8 st), take 4 (drop 12 st)) = st"
proof -
  show "wf4 (take 4 st, take 4 (drop 4 st), take 4 (drop 8 st), take 4 (drop 12 st))"
    using assms by (simp add: wf4_def)
  have "drop 4 st = take 4 (drop 4 st) @ drop 8 st" "drop 8 st = take 4 (drop 8 st) @ drop 12 st"
    using append_take_drop_id [of 4 "drop 4 st"] append_take_drop_id [of 4 "drop 8 st"] by simp_all
  then have "st = take 4 st @ take 4 (drop 4 st) @ take 4 (drop 8 st) @ drop 12 st"
    by (metis append_take_drop_id)
  then show "rows4 (take 4 st, take 4 (drop 4 st), take 4 (drop 8 st), take 4 (drop 12 st)) = st"
    using assms by (simp add: rows4_def)
qed

lemma length_rows4: "wf4 v \<Longrightarrow> length (rows4 v) = 16"
  by (cases v) (simp add: wf4_def rows4_def)

lemma block_portable_rows:
  assumes "wf4 v"
  shows "chacha_block_portable (rows4 v) = m128_bytes (map2 (+) (rows4 ((round_neon ^^ 10) v)) (rows4 v))"
  using rounds_neon [OF assms, of 10] assms
  by (simp add: chacha_block_portable_def Let_def concat_store_map2 length_rows4)

lemma map2_rows4:
  "wf4 (a, b, c, d) \<Longrightarrow> wf4 (a', b', c', d') \<Longrightarrow>
   map2 f (rows4 (a, b, c, d)) (rows4 (a', b', c', d')) =
     map2 f a a' @ map2 f b b' @ map2 f c c' @ map2 f d d'"
  by (simp add: rows4_def wf4_def)

lemma block_neon_eq:
  assumes "length st = 16"
  shows "chacha_block_neon st = chacha_block_portable st"
proof -
  let ?v = "(take 4 st, take 4 (drop 4 st), take 4 (drop 8 st), take 4 (drop 12 st))"
  note wf = rows4_split(1) [OF assms] and st = rows4_split(2) [OF assms]
  obtain a b c d where r: "(round_neon ^^ 10) ?v = (a, b, c, d)" by (metis prod_cases4)
  then have "wf4 (a, b, c, d)" using rounds_neon [OF wf, of 10] by simp
  with wf r show ?thesis
    using block_portable_rows [OF wf] by (simp add: st chacha_block_neon_def Let_def map2_rows4 [OF _ wf, of a b c d, unfolded st])
qed

subsection \<open>AVX2\<close>

lemma u32_bit_ge: "32 \<le> n \<Longrightarrow> bit (x :: u32) n \<longleftrightarrow> False"
  using bit_imp_le_length [of x n] by auto

lemma load_rot16:
  "load32_le (ucast (drop_bit 16 x) # ucast (drop_bit 24 x) # ucast x # ucast (drop_bit 8 x) # q) =
     rotl32 x 16" for x :: u32
proof (rule bit_word_eqI)
  fix n assume "n < LENGTH(32)"
  then consider "n < 8" | "8 \<le> n \<and> n < 16" | "16 \<le> n \<and> n < 24" | "24 \<le> n \<and> n < 32"
    by fastforce
  then show "bit (load32_le (ucast (drop_bit 16 x) # ucast (drop_bit 24 x) # ucast x # ucast (drop_bit 8 x) # q)) n =
      bit (rotl32 x 16) n"
    by cases (auto simp: load32_le_def rotl32_def bit_simps u32_bit_ge)
qed

lemma load_rot8:
  "load32_le (ucast (drop_bit 24 x) # ucast x # ucast (drop_bit 8 x) # ucast (drop_bit 16 x) # q) =
     rotl32 x 8" for x :: u32
proof (rule bit_word_eqI)
  fix n assume "n < LENGTH(32)"
  then consider "n < 8" | "8 \<le> n \<and> n < 16" | "16 \<le> n \<and> n < 24" | "24 \<le> n \<and> n < 32"
    by fastforce
  then show "bit (load32_le (ucast (drop_bit 24 x) # ucast x # ucast (drop_bit 8 x) # ucast (drop_bit 16 x) # q)) n =
      bit (rotl32 x 8) n"
    by cases (auto simp: load32_le_def rotl32_def bit_simps u32_bit_ge)
qed

lemma shuffle_epi8_rot16:
  "length x = 4 \<Longrightarrow> shuffle_epi8 (rev [13,12,15,14, 9,8,11,10, 5,4,7,6, 1,0,3,2]) x = map (\<lambda>y. rotl32 y 16) x"
  by (erule list4E) (simp add: shuffle_epi8_def store32_le_def Let_def upt_rec load_rot16)

lemma shuffle_epi8_rot8:
  "length x = 4 \<Longrightarrow> shuffle_epi8 (rev [14,13,12,15, 10,9,8,11, 6,5,4,7, 2,1,0,3]) x = map (\<lambda>y. rotl32 y 8) x"
  by (erule list4E) (simp add: shuffle_epi8_def store32_le_def Let_def upt_rec load_rot8)

lemma shuffle_epi32_vext:
  assumes "length x = 4"
  shows "shuffle_epi32 0x39 x = vextq_u32 x x 1" "shuffle_epi32 0x4E x = vextq_u32 x x 2"
    "shuffle_epi32 0x93 x = vextq_u32 x x 3"
  by (rule list4E [OF assms], simp add: shuffle_epi32_def vextq_lanes upt_rec)+

definition lo4 :: "m256x4 \<Rightarrow> m128x4" where
  "lo4 = (\<lambda>(a, b, c, d). (fst a, fst b, fst c, fst d))"

definition hi4 :: "m256x4 \<Rightarrow> m128x4" where
  "hi4 = (\<lambda>(a, b, c, d). (snd a, snd b, snd c, snd d))"

lemmas m256_defs = m256_lanes_def m256_lanes2_def mm256_add_epi32_def mm256_xor_si256_def
  mm256_shuffle_epi32_def lo4_def hi4_def

lemma rotl_avx2_lanes: "rotl_avx2 x n = (map (\<lambda>y. rotl32 y n) (fst x), map (\<lambda>y. rotl32 y n) (snd x))"
  by (auto simp: rotl_avx2_def m256_defs rotl32_def zip_map_map zip_same_conv_map)

lemma rotl_avx2_bytes:
  assumes "length (fst x) = 4" "length (snd x) = 4"
  shows "rotl_avx2_16 x = (map (\<lambda>y. rotl32 y 16) (fst x), map (\<lambda>y. rotl32 y 16) (snd x))"
    and "rotl_avx2_8 x = (map (\<lambda>y. rotl32 y 8) (fst x), map (\<lambda>y. rotl32 y 8) (snd x))"
  unfolding rotl_avx2_16_def rotl_avx2_8_def m256_lanes_def
  by (simp_all only: shuffle_epi8_rot16 shuffle_epi8_rot8 assms)

lemma m256_pair_ops:
  "mm256_add_epi32 (x, x') (y, y') = (map2 (+) x y, map2 (+) x' y')"
  "mm256_xor_si256 (x, x') (y, y') = (map2 (XOR) x y, map2 (XOR) x' y')"
  "rotl_avx2 (x, x') n = (map (\<lambda>y. rotl32 y n) x, map (\<lambda>y. rotl32 y n) x')"
  "length x = 4 \<Longrightarrow> length x' = 4 \<Longrightarrow>
     rotl_avx2_16 (x, x') = (map (\<lambda>y. rotl32 y 16) x, map (\<lambda>y. rotl32 y 16) x')"
  "length x = 4 \<Longrightarrow> length x' = 4 \<Longrightarrow>
     rotl_avx2_8 (x, x') = (map (\<lambda>y. rotl32 y 8) x, map (\<lambda>y. rotl32 y 8) x')"
  by (simp_all add: m256_defs rotl_avx2_lanes rotl_avx2_bytes)

lemma ROTL_NEON_numerals:
  "ROTL_NEON x 16 = map (\<lambda>y. rotl32 y 16) x" "ROTL_NEON x 12 = map (\<lambda>y. rotl32 y 12) x"
  "ROTL_NEON x 8 = map (\<lambda>y. rotl32 y 8) x" "ROTL_NEON x 7 = map (\<lambda>y. rotl32 y 7) x"
  by (simp_all add: ROTL_NEON_rotl)

lemma quarter_avx2_lanes:
  assumes "wf4 (lo4 v)" "wf4 (hi4 v)"
  shows "lo4 (quarter_avx2 v) = quarter_neon (lo4 v)" "hi4 (quarter_avx2 v) = quarter_neon (hi4 v)"
proof -
  obtain a a' b b' c c' d d' where v: "v = ((a, a'), (b, b'), (c, c'), (d, d'))"
    by (metis prod.collapse)
  have l: "length a = 4" "length b = 4" "length c = 4" "length d = 4"
    "length a' = 4" "length b' = 4" "length c' = 4" "length d' = 4"
    using assms by (simp_all add: v wf4_def lo4_def hi4_def)
  show "lo4 (quarter_avx2 v) = quarter_neon (lo4 v)" "hi4 (quarter_avx2 v) = quarter_neon (hi4 v)"
    by (simp_all only: v quarter_avx2_def quarter_neon_def Let_def prod.case m256_pair_ops ROTL_NEON_numerals
        length_map length_zip min.idem l lo4_def hi4_def fst_conv snd_conv)
qed

lemma quarter_neon_wf: "wf4 v \<Longrightarrow> wf4 (quarter_neon v)"
  by (cases v) (auto simp: wf4_def quarter_neon_def ROTL_NEON_rotl Let_def)

lemma round_avx2_lanes:
  assumes "wf4 (lo4 v)" "wf4 (hi4 v)"
  shows "lo4 (round_avx2 v) = round_neon (lo4 v)" "hi4 (round_avx2 v) = round_neon (hi4 v)"
proof -
  obtain a b c d where q: "quarter_avx2 v = (a, b, c, d)" by (metis prod_cases4)
  note l = quarter_avx2_lanes [OF assms, unfolded q]
  have wf: "wf4 (lo4 (a, b, c, d))" "wf4 (hi4 (a, b, c, d))"
    using l assms quarter_neon_wf by auto
  let ?w = "(a, mm256_shuffle_epi32 b 0x39, mm256_shuffle_epi32 c 0x4E, mm256_shuffle_epi32 d 0x93)"
  have lo: "lo4 ?w = (fst a, vextq_u32 (fst b) (fst b) 1, vextq_u32 (fst c) (fst c) 2, vextq_u32 (fst d) (fst d) 3)"
    and hi: "hi4 ?w = (snd a, vextq_u32 (snd b) (snd b) 1, vextq_u32 (snd c) (snd c) 2, vextq_u32 (snd d) (snd d) 3)"
    using wf by (simp_all add: wf4_def m256_defs shuffle_epi32_vext)
  have wf2: "wf4 (lo4 ?w)" "wf4 (hi4 ?w)"
    unfolding lo hi using wf by (auto simp: wf4_def lo4_def hi4_def vextq_u32_def)
  obtain a' b' c' d' where q2: "quarter_avx2 ?w = (a', b', c', d')" by (metis prod_cases4)
  note l2 = quarter_avx2_lanes [OF wf2, unfolded q2]
  have wf3: "wf4 (lo4 (a', b', c', d'))" "wf4 (hi4 (a', b', c', d'))"
    using l2 wf2 quarter_neon_wf by auto
  have e: "round_avx2 v = (a', mm256_shuffle_epi32 b' 0x93, mm256_shuffle_epi32 c' 0x4E, mm256_shuffle_epi32 d' 0x39)"
    unfolding round_avx2_def q prod.case q2 ..
  have qn: "quarter_neon (lo4 v) = (fst a, fst b, fst c, fst d)" "quarter_neon (hi4 v) = (snd a, snd b, snd c, snd d)"
    using l by (simp_all add: lo4_def hi4_def)
  show "lo4 (round_avx2 v) = round_neon (lo4 v)"
    unfolding e round_neon_def qn prod.case lo [symmetric] l2(1) [symmetric]
    using wf3 by (simp add: wf4_def m256_defs shuffle_epi32_vext)
  show "hi4 (round_avx2 v) = round_neon (hi4 v)"
    unfolding e round_neon_def qn prod.case hi [symmetric] l2(2) [symmetric]
    using wf3 by (simp add: wf4_def m256_defs shuffle_epi32_vext)
qed

lemma rounds_avx2_lanes:
  assumes "wf4 (lo4 v)" "wf4 (hi4 v)"
  shows "lo4 ((round_avx2 ^^ n) v) = (round_neon ^^ n) (lo4 v)"
    and "hi4 ((round_avx2 ^^ n) v) = (round_neon ^^ n) (hi4 v)"
  using assms by (induction n) (auto simp: round_avx2_lanes rounds_neon)

lemma avx2_out:
  assumes "wf4 (lo4 v)" "wf4 (hi4 v)" "add4_avx2 ((round_avx2 ^^ 10) v) v = (a, b, c, d)"
  shows "m128_bytes (fst a) @ m128_bytes (fst b) @ m128_bytes (fst c) @ m128_bytes (fst d) =
           chacha_block_portable (rows4 (lo4 v))"
    and "m128_bytes (snd a) @ m128_bytes (snd b) @ m128_bytes (snd c) @ m128_bytes (snd d) =
           chacha_block_portable (rows4 (hi4 v))"
proof -
  obtain a0 b0 c0 d0 where v: "v = (a0, b0, c0, d0)" by (metis prod_cases4)
  obtain p q r s where w: "(round_avx2 ^^ 10) v = (p, q, r, s)" by (metis prod_cases4)
  have e: "a = mm256_add_epi32 p a0" "b = mm256_add_epi32 q b0" "c = mm256_add_epi32 r c0" "d = mm256_add_epi32 s d0"
    using assms(3) unfolding w unfolding v by (simp_all add: add4_avx2_def)
  have lo: "(round_neon ^^ 10) (lo4 v) = (fst p, fst q, fst r, fst s)"
    and hi: "(round_neon ^^ 10) (hi4 v) = (snd p, snd q, snd r, snd s)"
    using rounds_avx2_lanes [OF assms(1,2), of 10] by (simp_all add: w lo4_def hi4_def)
  have wf: "wf4 (fst p, fst q, fst r, fst s)" "wf4 (snd p, snd q, snd r, snd s)"
    using rounds_neon assms(1,2) lo hi by metis+
  have v4: "lo4 v = (fst a0, fst b0, fst c0, fst d0)" "hi4 v = (snd a0, snd b0, snd c0, snd d0)"
    by (simp_all add: v lo4_def hi4_def)
  show "m128_bytes (fst a) @ m128_bytes (fst b) @ m128_bytes (fst c) @ m128_bytes (fst d) =
           chacha_block_portable (rows4 (lo4 v))"
    unfolding block_portable_rows [OF assms(1)] lo
    using map2_rows4 [OF wf(1) assms(1) [unfolded v4], of "(+)"]
    by (simp add: v4 e mm256_add_epi32_def m256_lanes2_def)
  show "m128_bytes (snd a) @ m128_bytes (snd b) @ m128_bytes (snd c) @ m128_bytes (snd d) =
           chacha_block_portable (rows4 (hi4 v))"
    unfolding block_portable_rows [OF assms(2)] hi
    using map2_rows4 [OF wf(2) assms(2) [unfolded v4], of "(+)"]
    by (simp add: v4 e mm256_add_epi32_def m256_lanes2_def)
qed

definition ctr_add :: "u32 \<Rightarrow> u32 list \<Rightarrow> u32 list" where
  "ctr_add n st = st[12 := st ! 12 + n]"

lemma length_ctr_add [simp]: "length (ctr_add n st) = length st"
  by (simp add: ctr_add_def)

lemma ctr_add_add [simp]: "length st = 16 \<Longrightarrow> ctr_add m (ctr_add n st) = ctr_add (n + m) st"
  by (simp add: ctr_add_def add.assoc)

lemma ctr_add_0 [simp]: "ctr_add 0 st = st"
  by (simp add: ctr_add_def)

definition rows_at :: "u32 \<Rightarrow> u32 list \<Rightarrow> m128x4" where
  "rows_at n st = (take 4 st, take 4 (drop 4 st), take 4 (drop 8 st), mm_add_epi32 (take 4 (drop 12 st)) [n, 0, 0, 0])"

lemma rows_at:
  assumes "length st = 16"
  shows "wf4 (rows_at n st)" "rows4 (rows_at n st) = ctr_add n st"
proof -
  show "wf4 (rows_at n st)" using assms by (simp add: wf4_def rows_at_def mm_add_epi32_def)
  obtain p q r s where d: "drop 12 st = [p, q, r, s]" by (rule list4E [of "drop 12 st"]) (simp add: assms)
  have st: "st = take 12 st @ [p, q, r, s]" using d by (metis append_take_drop_id)
  have "take 12 st = take 4 st @ take 4 (drop 4 st) @ take 4 (drop 8 st)"
    using take_add [of 4 8 st] take_add [of 4 4 "drop 4 st"] by simp
  moreover have "ctr_add n st = take 12 st @ [p + n, q, r, s]"
    unfolding ctr_add_def using assms
    by (subst (1 2) st) (simp add: list_update_append nth_append)
  ultimately show "rows4 (rows_at n st) = ctr_add n st"
    by (simp add: rows4_def rows_at_def mm_add_epi32_def d)
qed

lemma rows_at_0:
  assumes "length st = 16"
  shows "rows_at 0 st = (take 4 st, take 4 (drop 4 st), take 4 (drop 8 st), take 4 (drop 12 st))"
proof -
  obtain p q r s where d: "drop 12 st = [p, q, r, s]" by (rule list4E [of "drop 12 st"]) (simp add: assms)
  then show ?thesis by (simp add: rows_at_def mm_add_epi32_def)
qed

lemma chacha_2blocks_avx2_eq:
  assumes "length st = 16"
  shows "chacha_2blocks_avx2 st = chacha_block_portable st @ chacha_block_portable (ctr_add 1 st)"
proof -
  let ?v = "(broadcastsi128 (take 4 st), broadcastsi128 (take 4 (drop 4 st)), broadcastsi128 (take 4 (drop 8 st)),
        (take 4 (drop 12 st), mm_add_epi32 (take 4 (drop 12 st)) [1, 0, 0, 0]))"
  have l: "lo4 ?v = rows_at 0 st" and h: "hi4 ?v = rows_at 1 st"
    using assms by (simp_all add: lo4_def hi4_def rows_at_0 broadcastsi128_def rows_at_def [of 1])
  obtain a b c d where r: "add4_avx2 ((round_avx2 ^^ 10) ?v) ?v = (a, b, c, d)" by (metis prod_cases4)
  have "wf4 (lo4 ?v)" "wf4 (hi4 ?v)" unfolding l h by (simp_all add: rows_at assms)
  from avx2_out [OF this r] show ?thesis
    unfolding chacha_2blocks_avx2_def Let_def r l h by (simp add: rows_at assms)
qed

lemma map_prod_funpow:
  "(map_prod f g ^^ n) (x, y) = ((f ^^ n) x, (g ^^ n) y)" for f :: "'a \<Rightarrow> 'a" and g :: "'b \<Rightarrow> 'b"
  by (induction n) auto

lemma xor_bytes_chunks:
  "(\<And>k. k \<in> set ks \<Longrightarrow> length k = w) \<Longrightarrow>
   concat (map (\<lambda>i. xor_bytes (take w (drop (w * i) x)) (ks ! i)) [0..<length ks]) = xor_bytes x (concat ks)"
proof (induction ks arbitrary: x)
  case Nil
  then show ?case by (simp add: xor_bytes_def)
next
  case (Cons k ks)
  have "concat (map (\<lambda>i. xor_bytes (take w (drop (w * i) x)) ((k # ks) ! i)) [0..<length (k # ks)]) =
     xor_bytes (take w x) k @
     concat (map (\<lambda>i. xor_bytes (take w (drop (w * i) (drop w x))) (ks ! i)) [0..<length ks])"
    by (simp add: upt_conv_Cons map_Suc_upt [symmetric] del: upt_Suc) (simp add: comp_def add.commute)
  also have "\<dots> = xor_bytes x (k @ concat ks)"
    using Cons.prems by (subst Cons.IH) (auto intro!: xor_bytes_append2)
  finally show ?case by simp
qed

definition stream :: "(u32 list \<Rightarrow> bytes) \<Rightarrow> u32 list \<Rightarrow> nat \<Rightarrow> bytes" where
  "stream blk st n = concat (map (\<lambda>i. blk (ctr_add (of_nat i) st)) [0..<n])"

lemma stream_Suc:
  "length st = 16 \<Longrightarrow> stream blk st (Suc n) = blk st @ stream blk (ctr_add 1 st) n"
  by (simp add: stream_def upt_conv_Cons map_Suc_upt [symmetric] comp_def del: upt_Suc)

lemma xor_blocks_stream:
  assumes "\<And>st. length (blk st) = 64"
  shows "length st = 16 \<Longrightarrow> length x \<le> 64 * n \<Longrightarrow> xor_blocks blk st x = xor_bytes x (stream blk st n)"
proof (induction n arbitrary: st x)
  case 0
  then show ?case by simp
next
  case (Suc n)
  have "xor_blocks blk st x = xor_bytes (take 64 x) (blk st) @ xor_blocks blk (ctr_add 1 st) (drop 64 x)"
    by (subst xor_blocks.simps) (simp add: ctr_add_def)
  also have "\<dots> = xor_bytes (take 64 x) (blk st) @ xor_bytes (drop 64 x) (stream blk (ctr_add 1 st) n)"
    using Suc.prems by (subst Suc.IH) auto
  also have "\<dots> = xor_bytes x (stream blk st (Suc n))"
    using Suc.prems assms by (simp add: stream_Suc xor_bytes_append2)
  finally show ?case .
qed

lemma xor_blocks_split:
  assumes "\<And>st. length (blk st) = 64"
  shows "length st = 16 \<Longrightarrow> length x = 64 * n \<Longrightarrow>
     xor_blocks blk st (x @ y) = xor_blocks blk st x @ xor_blocks blk (ctr_add (of_nat n) st) y"
proof (induction n arbitrary: st x)
  case 0
  then show ?case by simp
next
  case (Suc n)
  then have ne: "x \<noteq> []" by auto
  have s: "xor_blocks blk st z = xor_bytes (take 64 z) (blk st) @ xor_blocks blk (ctr_add 1 st) (drop 64 z)" for z
    by (subst xor_blocks.simps) (simp add: ctr_add_def)
  have "xor_blocks blk st (x @ y) =
      xor_bytes (take 64 x) (blk st) @ xor_blocks blk (ctr_add 1 st) (drop 64 x @ y)"
    using Suc.prems by (subst s) simp
  also have "xor_blocks blk (ctr_add 1 st) (drop 64 x @ y) =
      xor_blocks blk (ctr_add 1 st) (drop 64 x) @ xor_blocks blk (ctr_add (of_nat (Suc n)) st) y"
    using Suc.prems by (subst Suc.IH) (auto simp: add.commute)
  also have "xor_bytes (take 64 x) (blk st) @ \<dots> = xor_blocks blk st x @ xor_blocks blk (ctr_add (of_nat (Suc n)) st) y"
    using s [of x] by simp
  finally show ?case .
qed

lemma concat_m256_bytes:
  "m256_bytes (permute2x128_20 a b) @ m256_bytes (permute2x128_20 c d) =
     m128_bytes (fst a) @ m128_bytes (fst b) @ m128_bytes (fst c) @ m128_bytes (fst d)"
  "m256_bytes (permute2x128_31 a b) @ m256_bytes (permute2x128_31 c d) =
     m128_bytes (snd a) @ m128_bytes (snd b) @ m128_bytes (snd c) @ m128_bytes (snd d)"
  by (simp_all add: m256_bytes_def permute2x128_20_def permute2x128_31_def)

lemma add4_avx2_wf:
  assumes "wf4 (lo4 v)" "wf4 (hi4 v)" "add4_avx2 ((round_avx2 ^^ 10) v) v = (a, b, c, d)"
  shows "wf4 (lo4 (a, b, c, d))" "wf4 (hi4 (a, b, c, d))"
proof -
  have "wf4 (lo4 ((round_avx2 ^^ 10) v))" "wf4 (hi4 ((round_avx2 ^^ 10) v))"
    using rounds_avx2_lanes [OF assms(1,2)] rounds_neon assms(1,2) by simp_all
  then show "wf4 (lo4 (a, b, c, d))" "wf4 (hi4 (a, b, c, d))"
    unfolding assms(3) [symmetric] using assms(1,2)
    by (cases v; cases "(round_avx2 ^^ 10) v"; simp add: add4_avx2_def wf4_def m256_defs)+
qed

lemma avx2_stores:
  assumes "wf4 (lo4 v)" "wf4 (hi4 v)" "add4_avx2 ((round_avx2 ^^ 10) v) v = (a, b, c, d)"
  defines "os \<equiv> [permute2x128_20 a b, permute2x128_20 c d, permute2x128_31 a b, permute2x128_31 c d]"
  shows "concat (map m256_bytes os) = chacha_block_portable (rows4 (lo4 v)) @ chacha_block_portable (rows4 (hi4 v))"
    and "\<And>o1. o1 \<in> set os \<Longrightarrow> length (m256_bytes o1) = 32"
proof -
  have "concat (map m256_bytes os) = (m256_bytes (permute2x128_20 a b) @ m256_bytes (permute2x128_20 c d)) @
      (m256_bytes (permute2x128_31 a b) @ m256_bytes (permute2x128_31 c d))"
    by (simp add: os_def)
  also have "\<dots> = chacha_block_portable (rows4 (lo4 v)) @ chacha_block_portable (rows4 (hi4 v))"
    unfolding concat_m256_bytes avx2_out [OF assms(1-3)] ..
  finally show "concat (map m256_bytes os) =
      chacha_block_portable (rows4 (lo4 v)) @ chacha_block_portable (rows4 (hi4 v))" .
  show "\<And>o1. o1 \<in> set os \<Longrightarrow> length (m256_bytes o1) = 32"
    using add4_avx2_wf [OF assms(1-3)]
    by (auto simp: os_def m256_bytes_def permute2x128_20_def permute2x128_31_def wf4_def lo4_def hi4_def)
qed

lemma chacha_4blocks_avx2_eq:
  assumes "length st = 16"
  shows "chacha_4blocks_avx2 st inp = xor_bytes inp (stream chacha_block_portable st 4)"
proof -
  let ?s3 = "take 4 (drop 12 st)"
  let ?d0 = "(?s3, mm_add_epi32 ?s3 [1, 0, 0, 0])"
  let ?d1 = "mm256_add_epi32 ?d0 ([2, 0, 0, 0], [2, 0, 0, 0])"
  let ?v = "(broadcastsi128 (take 4 st), broadcastsi128 (take 4 (drop 4 st)), broadcastsi128 (take 4 (drop 8 st)), ?d0)"
  let ?V = "(broadcastsi128 (take 4 st), broadcastsi128 (take 4 (drop 4 st)), broadcastsi128 (take 4 (drop 8 st)), ?d1)"
  obtain p q r s where d: "drop 12 st = [p, q, r, s]" by (rule list4E [of "drop 12 st"]) (simp add: assms)
  have l: "lo4 ?v = rows_at 0 st" "hi4 ?v = rows_at 1 st" "lo4 ?V = rows_at 2 st" "hi4 ?V = rows_at 3 st"
    by (simp_all add: lo4_def hi4_def rows_at_def broadcastsi128_def mm_add_epi32_def mm256_add_epi32_def
        m256_lanes2_def d add.assoc)
  have wf: "wf4 (lo4 ?v)" "wf4 (hi4 ?v)" "wf4 (lo4 ?V)" "wf4 (hi4 ?V)"
    unfolding l by (simp_all add: rows_at assms)
  obtain a b c d where r: "add4_avx2 ((round_avx2 ^^ 10) ?v) ?v = (a, b, c, d)" by (metis prod_cases4)
  obtain A B C D where R: "add4_avx2 ((round_avx2 ^^ 10) ?V) ?V = (A, B, C, D)" by (metis prod_cases4)
  let ?os = "[permute2x128_20 a b, permute2x128_20 c d, permute2x128_31 a b, permute2x128_31 c d]"
  let ?OS = "[permute2x128_20 A B, permute2x128_20 C D, permute2x128_31 A B, permute2x128_31 C D]"
  note s = avx2_stores [OF wf(1,2) r] and S = avx2_stores [OF wf(3,4) R]
  have len: "\<And>k. k \<in> set (map m256_bytes (?os @ ?OS)) \<Longrightarrow> length k = 32"
    unfolding set_map set_append using s(2) S(2) by blast
  have n8: "length (map m256_bytes (?os @ ?OS)) = 8" by simp
  have "chacha_4blocks_avx2 st inp =
      concat (map (\<lambda>i. xor_bytes (take 32 (drop (32 * i) inp)) (map m256_bytes (?os @ ?OS) ! i)) [0..<8])"
    unfolding chacha_4blocks_avx2_def Let_def map_prod_funpow prod.case r R
    by (rule arg_cong [where f = concat], rule map_cong [OF refl], subst nth_map) simp_all
  also have "\<dots> = xor_bytes inp (concat (map m256_bytes (?os @ ?OS)))"
    by (rule xor_bytes_chunks [where w = 32 and ks = "map m256_bytes (?os @ ?OS)" and x = inp, OF len, unfolded n8])
  also have "concat (map m256_bytes (?os @ ?OS)) = stream chacha_block_portable st 4"
    unfolding map_append concat_append s(1) S(1) l
    by (simp add: rows_at assms stream_Suc numeral_eq_Suc) (simp add: stream_def)
  finally show ?thesis .
qed

lemma xor_avx2_loop_eq:
  "length st = 16 \<Longrightarrow> xor_avx2_loop st inp = xor_blocks chacha_block_portable st inp"
proof (induction st inp rule: xor_avx2_loop.induct)
  case (1 st inp)
  let ?blk = chacha_block_portable
  have l: "\<And>st. length (?blk st) = 64" by simp
  show ?case
  proof (cases "length inp \<ge> 256")
    case True
    have "xor_avx2_loop st inp = xor_bytes (take 256 inp) (stream ?blk st 4) @ xor_blocks ?blk (ctr_add 4 st) (drop 256 inp)"
      using 1 True by (subst xor_avx2_loop.simps) (simp add: chacha_4blocks_avx2_eq ctr_add_def)
    also have "\<dots> = xor_blocks ?blk st (take 256 inp) @ xor_blocks ?blk (ctr_add (of_nat 4) st) (drop 256 inp)"
      using 1(2) by (simp add: xor_blocks_stream [OF l, where n = 4])
    also have "\<dots> = xor_blocks ?blk st (take 256 inp @ drop 256 inp)"
      by (rule xor_blocks_split [OF l 1(2), symmetric]) (simp add: True)
    finally show ?thesis by simp
  next
    case False
    then have "xor_avx2_loop st inp = take (length inp) (xor_bytes (inp @ replicate (256 - length inp) 0) (stream ?blk st 4))"
      using 1(2) by (subst xor_avx2_loop.simps) (simp add: chacha_4blocks_avx2_eq)
    also have "\<dots> = xor_bytes inp (stream ?blk st 4)"
      by (simp add: take_xor_bytes xor_bytes_take_right)
    also have "\<dots> = xor_blocks ?blk st inp"
      using False 1(2) by (simp add: xor_blocks_stream [OF l, where n = 4])
    finally show ?thesis .
  qed
qed

lemma xor_blocks_cong:
  "(\<And>st. length st = 16 \<Longrightarrow> f st = g st) \<Longrightarrow> length st = 16 \<Longrightarrow> xor_blocks f st inp = xor_blocks g st inp"
proof (induction f st inp rule: xor_blocks.induct)
  case (1 f st inp)
  then show ?case by (subst (1 2) xor_blocks.simps) simp
qed

lemma length_chacha_state [simp]: "length (chacha_state key nonce counter) = 16"
  by (simp add: chacha_state_def)

lemma chacha_xor_eq_portable:
  "chacha_xor path key nonce counter inp = chacha_xor_portable key nonce counter inp"
proof (cases path)
  case PATH_X86
  then show ?thesis by (simp add: chacha_xor_avx2_def chacha_xor_portable_def xor_avx2_loop_eq)
next
  case PATH_ARM
  then show ?thesis
    using xor_blocks_cong [of chacha_block_neon chacha_block_portable, OF block_neon_eq]
    by (simp add: chacha_xor_neon_def chacha_xor_portable_def)
qed simp

declare chacha_xor.simps [simp del]

lemma length_chacha_xor [simp, len_simps]: "length (chacha_xor path key nonce counter inp) = length inp"
  by (simp add: chacha_xor_eq_portable chacha_xor_portable_def length_xor_blocks)

lemma chacha_xor_chacha_xor [simp]:
  "chacha_xor path key nonce counter (chacha_xor path' key nonce counter inp) = inp"
  by (simp add: chacha_xor_eq_portable chacha_xor_portable_def xor_blocks_twice)

section \<open>Properties\<close>


text \<open>The quarter round on the test vector of RFC 8439, section 2.1.1.\<close>

lemma qr_rfc8439:
  "qr 0x11111111 0x01020304 0x9b8d6f43 0x01234567 = (0xea2a92f4, 0xcb1cf8ce, 0x4581472e, 0x5881c4bb)"
  by code_simp

end
