(* ===== verification/Poly1305.thy ===== *)
theory Poly1305
  imports Bytes
begin

text \<open>
  Poly1305 of \<open>src/src/core/simd_crypto.c\<close>: \<open>poly1305_init\<close>, \<open>poly1305_blocks\<close>,
  \<open>poly1305_update\<close> and \<open>poly1305_finish\<close> with their five 26-bit limbs in 32-bit words and
  their 64-bit products, at the widths the code uses.  The reference definition is the
  arithmetic of RFC 8439 on natural numbers; the lemmas show that no product or carry wraps,
  that a block step multiplies modulo \<open>2^130 - 5\<close>, that the buffering of \<open>update\<close> is
  independent of how the message is cut, and that \<open>finish\<close> computes the RFC's tag.
\<close>

section \<open>The code\<close>

type_synonym limbs = "u32 \<times> u32 \<times> u32 \<times> u32 \<times> u32"

record poly1305_state =
  p_r :: limbs
  p_h :: limbs
  p_pad :: "u32 list"
  p_leftover :: nat
  p_buffer :: bytes
  p_final :: bool

text \<open>\<open>poly1305_init\<close> leaves the buffer as it finds it.\<close>

definition poly1305_init :: "poly1305_state \<Rightarrow> bytes \<Rightarrow> poly1305_state" where
  "poly1305_init st key =
     st\<lparr> p_r := (load32_le key AND 0x3ffffff,
                 drop_bit 2 (load32_le (drop 3 key)) AND 0x3ffff03,
                 drop_bit 4 (load32_le (drop 6 key)) AND 0x3ffc0ff,
                 drop_bit 6 (load32_le (drop 9 key)) AND 0x3f03fff,
                 drop_bit 8 (load32_le (drop 12 key)) AND 0x00fffff),
         p_h := (0, 0, 0, 0, 0),
         p_pad := map (\<lambda>i. load32_le (drop (16 + 4 * i) key)) [0..<4],
         p_leftover := 0,
         p_final := False \<rparr>"

text \<open>The body of the loop of \<open>poly1305_blocks\<close>: add the block, multiply, propagate carries.\<close>

definition poly_add :: "u32 \<Rightarrow> limbs \<Rightarrow> bytes \<Rightarrow> limbs" where
  "poly_add hibit = (\<lambda>(h0, h1, h2, h3, h4) m.
     (h0 + (load32_le m AND 0x3ffffff),
      h1 + (drop_bit 2 (load32_le (drop 3 m)) AND 0x3ffffff),
      h2 + (drop_bit 4 (load32_le (drop 6 m)) AND 0x3ffffff),
      h3 + (drop_bit 6 (load32_le (drop 9 m)) AND 0x3ffffff),
      h4 + (drop_bit 8 (load32_le (drop 12 m)) OR hibit)))"

definition dot5 :: "limbs \<Rightarrow> limbs \<Rightarrow> u64" where
  "dot5 = (\<lambda>(a0, a1, a2, a3, a4) (b0, b1, b2, b3, b4).
     ucast a0 * ucast b0 + ucast a1 * ucast b1 + ucast a2 * ucast b2 + ucast a3 * ucast b3 +
     ucast a4 * ucast b4)"

definition poly_mul :: "limbs \<Rightarrow> limbs \<Rightarrow> u64 \<times> u64 \<times> u64 \<times> u64 \<times> u64" where
  "poly_mul = (\<lambda>(r0, r1, r2, r3, r4) h.
     let s1 = r1 * 5; s2 = r2 * 5; s3 = r3 * 5; s4 = r4 * 5
     in (dot5 h (r0, s4, s3, s2, s1), dot5 h (r1, r0, s4, s3, s2), dot5 h (r2, r1, r0, s4, s3),
         dot5 h (r3, r2, r1, r0, s4), dot5 h (r4, r3, r2, r1, r0)))"

definition poly_carry :: "u64 \<times> u64 \<times> u64 \<times> u64 \<times> u64 \<Rightarrow> limbs" where
  "poly_carry = (\<lambda>(d0, d1, d2, d3, d4).
     let c = drop_bit 26 d0; h0 = ucast d0 AND 0x3ffffff;
         d1 = d1 + c; c = drop_bit 26 d1; h1 = ucast d1 AND 0x3ffffff;
         d2 = d2 + c; c = drop_bit 26 d2; h2 = ucast d2 AND 0x3ffffff;
         d3 = d3 + c; c = drop_bit 26 d3; h3 = ucast d3 AND 0x3ffffff;
         d4 = d4 + c; c = drop_bit 26 d4; h4 = ucast d4 AND 0x3ffffff;
         h0 = h0 + ucast (c * 5); c = ucast (drop_bit 26 h0) :: u64; h0 = h0 AND 0x3ffffff;
         h1 = h1 + ucast c
     in (h0, h1, h2, h3, h4))"

fun poly_loop :: "u32 \<Rightarrow> limbs \<Rightarrow> limbs \<Rightarrow> bytes \<Rightarrow> nat \<Rightarrow> limbs" where
  "poly_loop hibit r h m n =
     (if n \<ge> 16 then poly_loop hibit r (poly_carry (poly_mul r (poly_add hibit h m))) (drop 16 m) (n - 16)
      else h)"

declare poly_loop.simps [simp del]

definition poly1305_blocks :: "poly1305_state \<Rightarrow> bytes \<Rightarrow> nat \<Rightarrow> poly1305_state" where
  "poly1305_blocks st m n =
     (let hibit = (if p_final st then 0 else 2 ^ 24)
      in st\<lparr> p_h := poly_loop hibit (p_r st) (p_h st) m n \<rparr>)"

definition memcpy_at :: "bytes \<Rightarrow> nat \<Rightarrow> bytes \<Rightarrow> bytes" where
  "memcpy_at buf off src = take off buf @ src @ drop (off + length src) buf"

text \<open>The part of \<open>poly1305_update\<close> after the pending block, then the whole of it.\<close>

definition update_tail :: "poly1305_state \<Rightarrow> bytes \<Rightarrow> poly1305_state" where
  "update_tail st m =
     (let (st, m) = (if length m \<ge> 16
                     then let want = length m - length m mod 16
                          in (poly1305_blocks st m want, drop want m)
                     else (st, m))
      in if m \<noteq> []
         then st\<lparr> p_buffer := memcpy_at (p_buffer st) (p_leftover st) m,
                  p_leftover := p_leftover st + length m \<rparr>
         else st)"

definition poly1305_update :: "poly1305_state \<Rightarrow> bytes \<Rightarrow> poly1305_state" where
  "poly1305_update st m =
     (if p_leftover st \<noteq> 0
      then let want = 16 - p_leftover st;
               want = (if want > length m then length m else want);
               st = st\<lparr> p_buffer := memcpy_at (p_buffer st) (p_leftover st) (take want m),
                        p_leftover := p_leftover st + want \<rparr>
           in if p_leftover st < 16 then st
              else update_tail ((poly1305_blocks st (p_buffer st) 16)\<lparr> p_leftover := 0 \<rparr>) (drop want m)
      else update_tail st m)"

text \<open>\<open>poly1305_finish\<close>: the last, padded block; the full carry; the selection; the pad.\<close>

definition finish_carry :: "limbs \<Rightarrow> limbs" where
  "finish_carry = (\<lambda>(h0, h1, h2, h3, h4).
     let c = drop_bit 26 h1; h1 = h1 AND 0x3ffffff;
         h2 = h2 + c; c = drop_bit 26 h2; h2 = h2 AND 0x3ffffff;
         h3 = h3 + c; c = drop_bit 26 h3; h3 = h3 AND 0x3ffffff;
         h4 = h4 + c; c = drop_bit 26 h4; h4 = h4 AND 0x3ffffff;
         h0 = h0 + c * 5; c = drop_bit 26 h0; h0 = h0 AND 0x3ffffff;
         h1 = h1 + c
     in (h0, h1, h2, h3, h4))"

definition finish_select :: "limbs \<Rightarrow> limbs" where
  "finish_select = (\<lambda>(h0, h1, h2, h3, h4).
     let g0 = h0 + 5; c = drop_bit 26 g0; g0 = g0 AND 0x3ffffff;
         g1 = h1 + c; c = drop_bit 26 g1; g1 = g1 AND 0x3ffffff;
         g2 = h2 + c; c = drop_bit 26 g2; g2 = g2 AND 0x3ffffff;
         g3 = h3 + c; c = drop_bit 26 g3; g3 = g3 AND 0x3ffffff;
         g4 = h4 + c - 2 ^ 26;
         msk = drop_bit 31 g4 - 1;
         g0 = g0 AND msk; g1 = g1 AND msk; g2 = g2 AND msk; g3 = g3 AND msk; g4 = g4 AND msk;
         msk = NOT msk
     in ((h0 AND msk) OR g0, (h1 AND msk) OR g1, (h2 AND msk) OR g2, (h3 AND msk) OR g3,
         (h4 AND msk) OR g4))"

definition finish_pack :: "limbs \<Rightarrow> u32 list" where
  "finish_pack = (\<lambda>(h0, h1, h2, h3, h4).
     [(h0 OR push_bit 26 h1) AND 0xffffffff,
      (drop_bit 6 h1 OR push_bit 20 h2) AND 0xffffffff,
      (drop_bit 12 h2 OR push_bit 14 h3) AND 0xffffffff,
      (drop_bit 18 h3 OR push_bit 8 h4) AND 0xffffffff])"

definition finish_pad :: "u32 list \<Rightarrow> u32 list \<Rightarrow> u32 list" where
  "finish_pad h pad =
     (let f = ucast (h ! 0) + ucast (pad ! 0) :: u64; h0 = ucast f;
          f = ucast (h ! 1) + ucast (pad ! 1) + drop_bit 32 f; h1 = ucast f;
          f = ucast (h ! 2) + ucast (pad ! 2) + drop_bit 32 f; h2 = ucast f;
          f = ucast (h ! 3) + ucast (pad ! 3) + drop_bit 32 f; h3 = ucast f
      in [h0, h1, h2, h3])"

definition poly1305_finish :: "poly1305_state \<Rightarrow> bytes" where
  "poly1305_finish st =
     (let st = (if p_leftover st \<noteq> 0
                then let b = take (p_leftover st) (p_buffer st) @ [1] @ replicate (15 - p_leftover st) 0;
                         st = st\<lparr> p_buffer := b, p_final := True \<rparr>
                     in poly1305_blocks st (p_buffer st) 16
                else st)
      in concat (map store32_le (finish_pad (finish_pack (finish_select (finish_carry (p_h st)))) (p_pad st))))"

section \<open>The reference definition\<close>

text \<open>RFC 8439, section 2.5: the accumulator over 16-byte blocks, each with a byte 1 appended.\<close>

definition P1305 :: nat where
  "P1305 = 2 ^ 130 - 5"

function poly_acc :: "nat \<Rightarrow> nat \<Rightarrow> bytes \<Rightarrow> nat" where
  "poly_acc r a msg =
     (if msg = [] then a
      else poly_acc r ((a + le_num (take 16 msg @ [1])) * r mod P1305) (drop 16 msg))"
  by pat_completeness auto
termination
  by (relation "measure (\<lambda>(r, a, msg). length msg)") auto

declare poly_acc.simps [simp del]

definition clamp :: "nat \<Rightarrow> nat" where
  "clamp r = r AND 0x0ffffffc0ffffffc0ffffffc0fffffff"

definition poly1305_spec :: "bytes \<Rightarrow> bytes \<Rightarrow> nat" where
  "poly1305_spec key msg =
     (poly_acc (clamp (le_num (take 16 key))) 0 msg + le_num (take 16 (drop 16 key))) mod 2 ^ 128"

section \<open>Limb arithmetic\<close>

definition val5 :: "nat \<times> nat \<times> nat \<times> nat \<times> nat \<Rightarrow> nat" where
  "val5 = (\<lambda>(a0, a1, a2, a3, a4). a0 + 2 ^ 26 * a1 + 2 ^ 52 * a2 + 2 ^ 78 * a3 + 2 ^ 104 * a4)"

definition nats5 :: "limbs \<Rightarrow> nat \<times> nat \<times> nat \<times> nat \<times> nat" where
  "nats5 = (\<lambda>(a0, a1, a2, a3, a4). (unat a0, unat a1, unat a2, unat a3, unat a4))"

abbreviation limbs_val :: "limbs \<Rightarrow> nat" where
  "limbs_val h \<equiv> val5 (nats5 h)"

definition limbs26 :: "limbs \<Rightarrow> bool" where
  "limbs26 = (\<lambda>(r0, r1, r2, r3, r4). unat r0 < 2 ^ 26 \<and> unat r1 < 2 ^ 26 \<and> unat r2 < 2 ^ 26 \<and>
     unat r3 < 2 ^ 26 \<and> unat r4 < 2 ^ 26)"

definition h_ok :: "limbs \<Rightarrow> bool" where
  "h_ok = (\<lambda>(h0, h1, h2, h3, h4). unat h0 < 2 ^ 26 \<and> unat h1 < 2 ^ 26 + 64 \<and> unat h2 < 2 ^ 26 \<and>
     unat h3 < 2 ^ 26 \<and> unat h4 < 2 ^ 26)"

definition a_ok :: "limbs \<Rightarrow> bool" where
  "a_ok = (\<lambda>(h0, h1, h2, h3, h4). unat h0 < 2 ^ 27 + 64 \<and> unat h1 < 2 ^ 27 + 64 \<and> unat h2 < 2 ^ 27 + 64 \<and>
     unat h3 < 2 ^ 27 + 64 \<and> unat h4 < 2 ^ 27 + 64)"

lemma unat_mask26: "unat (x AND 0x3ffffff) = unat x mod 2 ^ 26" for x :: u32
proof -
  have "x AND 0x3ffffff = take_bit 26 x" by (simp add: take_bit_eq_mask mask_eq_exp_minus_1)
  moreover have "unat (take_bit 26 x) = take_bit 26 (unat x)" by (rule unsigned_take_bit_eq)
  ultimately show ?thesis by (simp only: take_bit_eq_mod [of 26 "unat x"])
qed

lemma unat_drop: "unat (drop_bit n x) = unat x div 2 ^ n" for x :: "'a::len word"
  by (metis unat_drop_bit_eq drop_bit_eq_div)

lemma unat_add_small: "unat x + unat y < 2 ^ LENGTH('a) \<Longrightarrow> unat (x + y) = unat x + unat y"
  for x y :: "'a::len word"
  by (simp add: unat_word_ariths)

lemma unat_ucast_up: "unat (ucast x :: u64) = unat x" for x :: u32
  using unat_u32_lt [of x] by (simp add: unsigned_ucast_eq take_bit_nat_eq_self)

lemma unat_ucast_down: "unat (ucast x :: u32) = unat x mod 2 ^ 32" for x :: u64
  by (simp add: unsigned_ucast_eq take_bit_eq_mod)


lemma dot5_nat:
  assumes "unat a0 < 2 ^ 28" "unat a1 < 2 ^ 28" "unat a2 < 2 ^ 28" "unat a3 < 2 ^ 28" "unat a4 < 2 ^ 28"
    and "unat b0 < 2 ^ 29" "unat b1 < 2 ^ 29" "unat b2 < 2 ^ 29" "unat b3 < 2 ^ 29" "unat b4 < 2 ^ 29"
  shows "unat (dot5 (a0, a1, a2, a3, a4) (b0, b1, b2, b3, b4)) =
     unat a0 * unat b0 + unat a1 * unat b1 + unat a2 * unat b2 + unat a3 * unat b3 + unat a4 * unat b4"
proof -
  have "unat x * unat y < 2 ^ 57" if "unat x < 2 ^ 28" "unat y < 2 ^ 29" for x y :: u32
    using mult_strict_mono' [OF that] by simp
  note b = this [OF assms(1,6)] this [OF assms(2,7)] this [OF assms(3,8)] this [OF assms(4,9)] this [OF assms(5,10)]
  have "unat a0 * unat b0 + unat a1 * unat b1 + unat a2 * unat b2 + unat a3 * unat b3 + unat a4 * unat b4 < 2 ^ 64"
    using b by simp
  then show ?thesis
    by (simp add: dot5_def unat_word_ariths unat_ucast_up mod_simps)
qed

lemma unat_times5: "unat x < 2 ^ 26 \<Longrightarrow> unat (x * 5) = 5 * unat x" for x :: u32
  by (simp add: unat_word_ariths)

lemma mul5_identity:
  fixes B :: int
  shows "(h0 + B * h1 + B^2 * h2 + B^3 * h3 + B^4 * h4) * (r0 + B * r1 + B^2 * r2 + B^3 * r3 + B^4 * r4) =
     (h0 * r0 + h1 * (5 * r4) + h2 * (5 * r3) + h3 * (5 * r2) + h4 * (5 * r1)) +
     B * (h0 * r1 + h1 * r0 + h2 * (5 * r4) + h3 * (5 * r3) + h4 * (5 * r2)) +
     B^2 * (h0 * r2 + h1 * r1 + h2 * r0 + h3 * (5 * r4) + h4 * (5 * r3)) +
     B^3 * (h0 * r3 + h1 * r2 + h2 * r1 + h3 * r0 + h4 * (5 * r4)) +
     B^4 * (h0 * r4 + h1 * r3 + h2 * r2 + h3 * r1 + h4 * r0) +
     (B^5 - 5) * ((h1 * r4 + h2 * r3 + h3 * r2 + h4 * r1) + B * (h2 * r4 + h3 * r3 + h4 * r2) +
       B^2 * (h3 * r4 + h4 * r3) + B^3 * (h4 * r4))"
  by algebra

definition mul5_rest :: "nat \<times> nat \<times> nat \<times> nat \<times> nat \<Rightarrow> nat \<times> nat \<times> nat \<times> nat \<times> nat \<Rightarrow> nat" where
  "mul5_rest = (\<lambda>(h0, h1, h2, h3, h4) (r0, r1, r2, r3, r4).
     (h1 * r4 + h2 * r3 + h3 * r2 + h4 * r1) + 2 ^ 26 * (h2 * r4 + h3 * r3 + h4 * r2) +
       2 ^ 52 * (h3 * r4 + h4 * r3) + 2 ^ 78 * (h4 * r4))"

lemma mul5_nat:
  fixes h0 h1 h2 h3 h4 r0 r1 r2 r3 r4 :: nat
  shows "val5 (h0, h1, h2, h3, h4) * val5 (r0, r1, r2, r3, r4) =
     val5 (h0 * r0 + h1 * (5 * r4) + h2 * (5 * r3) + h3 * (5 * r2) + h4 * (5 * r1),
           h0 * r1 + h1 * r0 + h2 * (5 * r4) + h3 * (5 * r3) + h4 * (5 * r2),
           h0 * r2 + h1 * r1 + h2 * r0 + h3 * (5 * r4) + h4 * (5 * r3),
           h0 * r3 + h1 * r2 + h2 * r1 + h3 * r0 + h4 * (5 * r4),
           h0 * r4 + h1 * r3 + h2 * r2 + h3 * r1 + h4 * r0) +
     P1305 * mul5_rest (h0, h1, h2, h3, h4) (r0, r1, r2, r3, r4)" (is "?l = ?r")
proof -
  have P: "int P1305 = (2 ^ 26) ^ 5 - 5" by (simp add: P1305_def)
  have "int ?l = int ?r"
    unfolding val5_def mul5_rest_def prod.case of_nat_add of_nat_mult of_nat_power P
    using mul5_identity [of "int h0" "2 ^ 26" "int h1" "int h2" "int h3" "int h4"
        "int r0" "int r1" "int r2" "int r3" "int r4"]
    by simp
  then show ?thesis by (simp only: of_nat_eq_iff)
qed

definition unats5 :: "u64 \<times> u64 \<times> u64 \<times> u64 \<times> u64 \<Rightarrow> nat \<times> nat \<times> nat \<times> nat \<times> nat" where
  "unats5 = (\<lambda>(a0, a1, a2, a3, a4). (unat a0, unat a1, unat a2, unat a3, unat a4))"

definition d_ok :: "u64 \<times> u64 \<times> u64 \<times> u64 \<times> u64 \<Rightarrow> bool" where
  "d_ok = (\<lambda>(d0, d1, d2, d3, d4). unat d0 < 2 ^ 60 \<and> unat d1 < 2 ^ 60 \<and> unat d2 < 2 ^ 60 \<and>
     unat d3 < 2 ^ 60 \<and> unat d4 < 5 * ((2 ^ 27 + 64) * 2 ^ 26))"

lemma prod_bounds:
  fixes x y :: nat
  assumes "x < 2 ^ 27 + 64" "y < 2 ^ 26"
  shows "x * y < (2 ^ 27 + 64) * 2 ^ 26" "x * (5 * y) < 5 * ((2 ^ 27 + 64) * 2 ^ 26)"
  using mult_strict_mono' [OF assms] by simp_all

lemma poly_mul_ok:
  assumes "limbs26 r" "a_ok h"
  shows "d_ok (poly_mul r h)" "limbs_val h * limbs_val r = val5 (unats5 (poly_mul r h)) + P1305 * mul5_rest (nats5 h) (nats5 r)"
proof -
  obtain r0 r1 r2 r3 r4 where r: "r = (r0, r1, r2, r3, r4)" by (metis prod_cases5)
  obtain h0 h1 h2 h3 h4 where h: "h = (h0, h1, h2, h3, h4)" by (metis prod_cases5)
  have rb: "unat r0 < 2 ^ 26" "unat r1 < 2 ^ 26" "unat r2 < 2 ^ 26" "unat r3 < 2 ^ 26" "unat r4 < 2 ^ 26"
    using assms(1) by (simp_all add: r limbs26_def)
  have hb: "unat h0 < 2 ^ 27 + 64" "unat h1 < 2 ^ 27 + 64" "unat h2 < 2 ^ 27 + 64" "unat h3 < 2 ^ 27 + 64" "unat h4 < 2 ^ 27 + 64"
    using assms(2) by (simp_all add: h a_ok_def)
  have hb': "unat h0 < 2 ^ 28" "unat h1 < 2 ^ 28" "unat h2 < 2 ^ 28" "unat h3 < 2 ^ 28" "unat h4 < 2 ^ 28"
    using hb by simp_all
  have rb': "unat r0 < 2 ^ 29" "unat r1 < 2 ^ 29" "unat r2 < 2 ^ 29" "unat r3 < 2 ^ 29" "unat r4 < 2 ^ 29"
    "unat (r1 * 5) < 2 ^ 29" "unat (r2 * 5) < 2 ^ 29" "unat (r3 * 5) < 2 ^ 29" "unat (r4 * 5) < 2 ^ 29"
    using rb by (simp_all add: unat_times5)
  note s = unat_times5 [OF rb(2)] unat_times5 [OF rb(3)] unat_times5 [OF rb(4)] unat_times5 [OF rb(5)]
  note d = dot5_nat [OF hb'] rb' s
  have e: "unats5 (poly_mul r h) =
    (unat h0 * unat r0 + unat h1 * (5 * unat r4) + unat h2 * (5 * unat r3) + unat h3 * (5 * unat r2) + unat h4 * (5 * unat r1),
     unat h0 * unat r1 + unat h1 * unat r0 + unat h2 * (5 * unat r4) + unat h3 * (5 * unat r3) + unat h4 * (5 * unat r2),
     unat h0 * unat r2 + unat h1 * unat r1 + unat h2 * unat r0 + unat h3 * (5 * unat r4) + unat h4 * (5 * unat r3),
     unat h0 * unat r3 + unat h1 * unat r2 + unat h2 * unat r1 + unat h3 * unat r0 + unat h4 * (5 * unat r4),
     unat h0 * unat r4 + unat h1 * unat r3 + unat h2 * unat r2 + unat h3 * unat r1 + unat h4 * unat r0)"
    unfolding poly_mul_def unats5_def r h prod.case Let_def
    by (simp only: dot5_nat hb' rb') (simp only: s)
  show "limbs_val h * limbs_val r = val5 (unats5 (poly_mul r h)) + P1305 * mul5_rest (nats5 h) (nats5 r)"
    unfolding e unfolding r h nats5_def prod.case by (rule mul5_nat)
  obtain d0 d1 d2 d3 d4 where dd: "poly_mul r h = (d0, d1, d2, d3, d4)" by (metis prod_cases5)
  note pb = prod_bounds [OF hb(1) rb(1)] prod_bounds [OF hb(1) rb(2)] prod_bounds [OF hb(1) rb(3)] prod_bounds [OF hb(1) rb(4)] prod_bounds [OF hb(1) rb(5)]
    prod_bounds [OF hb(2) rb(1)] prod_bounds [OF hb(2) rb(2)] prod_bounds [OF hb(2) rb(3)] prod_bounds [OF hb(2) rb(4)] prod_bounds [OF hb(2) rb(5)]
    prod_bounds [OF hb(3) rb(1)] prod_bounds [OF hb(3) rb(2)] prod_bounds [OF hb(3) rb(3)] prod_bounds [OF hb(3) rb(4)] prod_bounds [OF hb(3) rb(5)]
    prod_bounds [OF hb(4) rb(1)] prod_bounds [OF hb(4) rb(2)] prod_bounds [OF hb(4) rb(3)] prod_bounds [OF hb(4) rb(4)] prod_bounds [OF hb(4) rb(5)]
    prod_bounds [OF hb(5) rb(1)] prod_bounds [OF hb(5) rb(2)] prod_bounds [OF hb(5) rb(3)] prod_bounds [OF hb(5) rb(4)] prod_bounds [OF hb(5) rb(5)]
  show "d_ok (poly_mul r h)"
    using e pb unfolding dd unats5_def d_ok_def prod.case prod.inject by simp
qed


lemma poly_carry_ok:
  assumes "d_ok d"
  shows "h_ok (poly_carry d)" "\<exists>c. val5 (unats5 d) = limbs_val (poly_carry d) + P1305 * c"
proof -
  obtain d0 d1 d2 d3 d4 where d: "d = (d0, d1, d2, d3, d4)" by (metis prod_cases5)
  have b: "unat d0 < 2 ^ 60" "unat d1 < 2 ^ 60" "unat d2 < 2 ^ 60" "unat d3 < 2 ^ 60"
    "unat d4 < 5 * ((2 ^ 27 + 64) * 2 ^ 26)"
    using assms by (simp_all add: d d_ok_def)
  define c0 where "c0 = drop_bit 26 d0"
  define e1 where "e1 = d1 + c0" define c1 where "c1 = drop_bit 26 e1"
  define e2 where "e2 = d2 + c1" define c2 where "c2 = drop_bit 26 e2"
  define e3 where "e3 = d3 + c2" define c3 where "c3 = drop_bit 26 e3"
  define e4 where "e4 = d4 + c3" define c4 where "c4 = drop_bit 26 e4"
  define h0 where "h0 = (ucast d0 AND 0x3ffffff :: u32)"
  define k0 where "k0 = h0 + ucast (c4 * 5)"
  define h1 where "h1 = (ucast e1 AND 0x3ffffff :: u32)"
  define k1 where "k1 = h1 + ucast (ucast (drop_bit 26 k0) :: u64)"
  have e: "poly_carry d = (k0 AND 0x3ffffff, k1, ucast e2 AND 0x3ffffff, ucast e3 AND 0x3ffffff, ucast e4 AND 0x3ffffff)"
    unfolding poly_carry_def d prod.case Let_def k1_def h1_def k0_def h0_def c4_def e4_def c3_def e3_def c2_def e2_def c1_def e1_def c0_def ..
  have m: "unat (ucast x AND 0x3ffffff :: u32) = unat x mod 2 ^ 26" for x :: u64
    by (simp add: unat_mask26 unat_ucast_down mod_mod_cancel)
  have n0: "unat c0 = unat d0 div 2 ^ 26" by (simp only: c0_def unat_drop)
  have l0: "unat c0 < 2 ^ 35" unfolding n0 using b(1) by simp
  have n1: "unat e1 = unat d1 + unat c0" unfolding e1_def by (rule unat_add_small) (use b(2) l0 in simp)
  have n1': "unat c1 = unat e1 div 2 ^ 26" by (simp only: c1_def unat_drop)
  have l1: "unat c1 < 2 ^ 35" unfolding n1' n1 using b(2) l0 by simp
  have n2: "unat e2 = unat d2 + unat c1" unfolding e2_def by (rule unat_add_small) (use b(3) l1 in simp)
  have n2': "unat c2 = unat e2 div 2 ^ 26" by (simp only: c2_def unat_drop)
  have l2: "unat c2 < 2 ^ 35" unfolding n2' n2 using b(3) l1 by simp
  have n3: "unat e3 = unat d3 + unat c2" unfolding e3_def by (rule unat_add_small) (use b(4) l2 in simp)
  have n3': "unat c3 = unat e3 div 2 ^ 26" by (simp only: c3_def unat_drop)
  have l3: "unat c3 < 2 ^ 35" unfolding n3' n3 using b(4) l2 by simp
  have n4: "unat e4 = unat d4 + unat c3" unfolding e4_def by (rule unat_add_small) (use b l3 in simp)
  have n4': "unat c4 = unat e4 div 2 ^ 26" by (simp only: c4_def unat_drop)
  have l4: "unat c4 < 5 * 2 ^ 27 + 1000" using b(5) l3 n4 n4' by simp
  have c5: "unat (ucast (c4 * 5) :: u32) = unat c4 * 5"
    using l4 by (simp add: unat_ucast_down unat_word_ariths)
  have h0: "unat h0 = unat d0 mod 2 ^ 26" and h1: "unat h1 = unat e1 mod 2 ^ 26" unfolding h0_def h1_def by (rule m)+
  have k0: "unat k0 = unat h0 + unat c4 * 5"
    unfolding k0_def c5 [symmetric] by (rule unat_add_small) (use l4 c5 h0 in simp)
  have "unat k0 < 64 * 2 ^ 26" unfolding k0 using l4 h0 by simp
  then have l5: "unat k0 div 2 ^ 26 < 64" by simp
  have "unat (ucast (ucast (drop_bit 26 k0) :: u64) :: u32) = unat k0 div 2 ^ 26"
    using unat_u32_lt [of k0] l5 by (simp add: unat_ucast_down unat_ucast_up unat_drop)
  then have k1: "unat k1 = unat h1 + unat k0 div 2 ^ 26"
    unfolding k1_def using l5 h1 by (subst unat_add_small) simp_all
  have k0m: "unat (k0 AND 0x3ffffff) = unat k0 mod 2 ^ 26" by (rule unat_mask26)
  show "h_ok (poly_carry d)"
    unfolding e h_ok_def prod.case m k0m k1 using l5 h1 by simp
  have s: "x = x mod 2 ^ 26 + 2 ^ 26 * (x div 2 ^ 26)" for x :: nat by simp
  have "unat d0 + 2 ^ 26 * unat d1 + 2 ^ 52 * unat d2 + 2 ^ 78 * unat d3 + 2 ^ 104 * unat d4 =
      unat h0 + 2 ^ 26 * unat h1 + 2 ^ 52 * (unat e2 mod 2 ^ 26) + 2 ^ 78 * (unat e3 mod 2 ^ 26) +
      2 ^ 104 * (unat e4 mod 2 ^ 26) + 2 ^ 130 * unat c4"
    using s [of "unat d0"] s [of "unat e1"] s [of "unat e2"] s [of "unat e3"] s [of "unat e4"]
    unfolding h0 h1 n0 [symmetric] n1' [symmetric] n2' [symmetric] n3' [symmetric] n4' [symmetric]
    using n1 n2 n3 n4 by simp
  moreover have "unat h0 + 2 ^ 26 * unat h1 + 5 * unat c4 = unat k0 mod 2 ^ 26 + 2 ^ 26 * unat k1"
    using k0 k1 s [of "unat k0"] by simp
  ultimately have "val5 (unats5 d) = limbs_val (poly_carry d) + P1305 * unat c4"
    unfolding e unfolding d unats5_def nats5_def val5_def prod.case m k0m P1305_def by simp
  then show "\<exists>c. val5 (unats5 d) = limbs_val (poly_carry d) + P1305 * c" ..
qed


lemma mod_div_mod: "b + c \<le> a \<Longrightarrow> x mod 2 ^ a div 2 ^ b mod 2 ^ c = x div 2 ^ b mod 2 ^ c" for x :: nat
proof -
  assume "b + c \<le> a"
  then have "min c (a - b) = c" by simp
  then have "take_bit c (drop_bit b (take_bit a x)) = take_bit c (drop_bit b x)"
    by (simp add: drop_bit_take_bit take_bit_take_bit)
  then show ?thesis by (simp add: take_bit_eq_mod drop_bit_eq_div)
qed

lemma telescope26:
  "x0 = m0 + 2 ^ 26 * x1 \<Longrightarrow> x1 = m1 + 2 ^ 26 * x2 \<Longrightarrow> x2 = m2 + 2 ^ 26 * x3 \<Longrightarrow> x3 = m3 + 2 ^ 26 * x4 \<Longrightarrow>
   x0 = m0 + 2 ^ 26 * m1 + 2 ^ 52 * m2 + 2 ^ 78 * m3 + 2 ^ 104 * x4" for x0 x1 x2 x3 x4 :: nat
  by simp

lemma split26:
  "x = x mod 2 ^ 26 + 2 ^ 26 * (x div 2 ^ 26 mod 2 ^ 26) + 2 ^ 52 * (x div 2 ^ 52 mod 2 ^ 26) +
     2 ^ 78 * (x div 2 ^ 78 mod 2 ^ 26) + 2 ^ 104 * (x div 2 ^ 104)" for x :: nat
proof -
  have s: "y = y mod 2 ^ 26 + 2 ^ 26 * (y div 2 ^ 26)" for y :: nat by simp
  have d: "x div 2 ^ 52 = x div 2 ^ 26 div 2 ^ 26" "x div 2 ^ 78 = x div 2 ^ 52 div 2 ^ 26"
    "x div 2 ^ 104 = x div 2 ^ 78 div 2 ^ 26"
    by (simp_all flip: div_mult2_eq)
  show ?thesis
    by (rule telescope26 [OF s s [of "x div 2 ^ 26", folded d(1)] s [of "x div 2 ^ 52", folded d(2)]
          s [of "x div 2 ^ 78", folded d(3)]])
qed

lemma unat_load32_drop:
  assumes "16 \<le> length m" "k \<le> 12"
  shows "unat (load32_le (drop k m)) = le_num (take 16 m) div 2 ^ (8 * k) mod 2 ^ 32"
proof -
  have "take 4 (drop k m) = take 4 (drop k (take 16 m))"
    using assms by (simp add: drop_take min_def)
  then have "unat (load32_le (drop k m)) = le_num (take 16 m) div 256 ^ k mod 256 ^ 4"
    using assms by (simp add: unat_load32_le le_num_take le_num_drop)
  moreover have "(256::nat) ^ k = 2 ^ (8 * k)" by (simp add: power_mult)
  ultimately show ?thesis by simp
qed

lemma block_limbs:
  assumes "16 \<le> length m"
  defines "M \<equiv> le_num (take 16 m)"
  shows "unat (load32_le m AND 0x3ffffff) = M mod 2 ^ 26"
    and "unat (drop_bit 2 (load32_le (drop 3 m)) AND 0x3ffffff) = M div 2 ^ 26 mod 2 ^ 26"
    and "unat (drop_bit 4 (load32_le (drop 6 m)) AND 0x3ffffff) = M div 2 ^ 52 mod 2 ^ 26"
    and "unat (drop_bit 6 (load32_le (drop 9 m)) AND 0x3ffffff) = M div 2 ^ 78 mod 2 ^ 26"
    and "unat (drop_bit 8 (load32_le (drop 12 m))) = M div 2 ^ 104"
    and "M div 2 ^ 104 < 2 ^ 24"
proof -
  note l = unat_load32_drop [OF assms(1), folded M_def]
  have M: "M < 2 ^ 128" using le_num_lt [of "take 16 m"] assms(1) by (simp add: M_def)
  have dd: "x div 2 ^ a div 2 ^ b = x div 2 ^ (a + b)" for x a b :: nat
    by (simp add: power_add div_mult2_eq)
  show "unat (load32_le m AND 0x3ffffff) = M mod 2 ^ 26"
    using l [of 0] by (simp add: unat_mask26 mod_mod_cancel)
  show "unat (drop_bit 2 (load32_le (drop 3 m)) AND 0x3ffffff) = M div 2 ^ 26 mod 2 ^ 26"
    using mod_div_mod [of 2 26 32 "M div 2 ^ 24"] dd [of M 24 2] by (simp only: unat_mask26 unat_drop l) simp
  show "unat (drop_bit 4 (load32_le (drop 6 m)) AND 0x3ffffff) = M div 2 ^ 52 mod 2 ^ 26"
    using mod_div_mod [of 4 26 32 "M div 2 ^ 48"] dd [of M 48 4] by (simp only: unat_mask26 unat_drop l) simp
  show "unat (drop_bit 6 (load32_le (drop 9 m)) AND 0x3ffffff) = M div 2 ^ 78 mod 2 ^ 26"
    using mod_div_mod [of 6 26 32 "M div 2 ^ 72"] dd [of M 72 6] by (simp only: unat_mask26 unat_drop l) simp
  show lt: "M div 2 ^ 104 < 2 ^ 24" using M by simp
  have "M div 2 ^ 96 < 2 ^ 32" using M by simp
  then have "M div 2 ^ 96 mod 2 ^ 32 = M div 2 ^ 96" by (rule mod_less)
  then show "unat (drop_bit 8 (load32_le (drop 12 m))) = M div 2 ^ 104"
    using l [of 12] dd [of M 96 8] by (simp only: unat_drop) simp
qed

lemma val5_split:
  "val5 (x mod 2 ^ 26, x div 2 ^ 26 mod 2 ^ 26, x div 2 ^ 52 mod 2 ^ 26, x div 2 ^ 78 mod 2 ^ 26, x div 2 ^ 104) = x"
  unfolding val5_def prod.case by (rule split26 [symmetric])

lemma val5_add:
  "val5 (a0 + b0, a1 + b1, a2 + b2, a3 + b3, a4 + (b4 + c)) =
     val5 (a0, a1, a2, a3, a4) + val5 (b0, b1, b2, b3, b4) + c * 2 ^ 104"
  by (simp add: val5_def distrib_left)

lemma unat_or_hibit: "unat x < 2 ^ 24 \<Longrightarrow> unat (x OR 2 ^ 24) = unat x + 2 ^ 24" for x :: u32
  using unat_or_push [of x 24 "1"] by simp

lemma poly_add_ok:
  assumes "h_ok h" "16 \<le> length m" "hibit = 0 \<or> hibit = 2 ^ 24"
  shows "a_ok (poly_add hibit h m)"
    "limbs_val (poly_add hibit h m) = limbs_val h + le_num (take 16 m) + unat hibit * 2 ^ 104"
proof -
  obtain h0 h1 h2 h3 h4 where h: "h = (h0, h1, h2, h3, h4)" by (metis prod_cases5)
  have hb: "unat h0 < 2 ^ 26" "unat h1 < 2 ^ 26 + 64" "unat h2 < 2 ^ 26" "unat h3 < 2 ^ 26" "unat h4 < 2 ^ 26"
    using assms(1) by (simp_all add: h h_ok_def)
  define M where "M = le_num (take 16 m)"
  note b = block_limbs [OF assms(2), folded M_def]
  have o: "unat (drop_bit 8 (load32_le (drop 12 m)) OR hibit) = M div 2 ^ 104 + unat hibit"
    using assms(3) unat_or_hibit [of "drop_bit 8 (load32_le (drop 12 m))"] b(5,6) by auto
  have hl: "unat hibit \<le> 2 ^ 24" using assms(3) by auto
  have m: "x mod 2 ^ 26 < 2 ^ 26" for x :: nat by simp
  have s0: "unat (h0 + (load32_le m AND 0x3ffffff)) = unat h0 + M mod 2 ^ 26"
    unfolding b(1) [symmetric] by (rule unat_add_small) (use hb(1) b(1) m [of M] in simp)
  have s1: "unat (h1 + (drop_bit 2 (load32_le (drop 3 m)) AND 0x3ffffff)) = unat h1 + M div 2 ^ 26 mod 2 ^ 26"
    unfolding b(2) [symmetric] by (rule unat_add_small) (use hb(2) b(2) m [of "M div 2 ^ 26"] in simp)
  have s2: "unat (h2 + (drop_bit 4 (load32_le (drop 6 m)) AND 0x3ffffff)) = unat h2 + M div 2 ^ 52 mod 2 ^ 26"
    unfolding b(3) [symmetric] by (rule unat_add_small) (use hb(3) b(3) m [of "M div 2 ^ 52"] in simp)
  have s3: "unat (h3 + (drop_bit 6 (load32_le (drop 9 m)) AND 0x3ffffff)) = unat h3 + M div 2 ^ 78 mod 2 ^ 26"
    unfolding b(4) [symmetric] by (rule unat_add_small) (use hb(4) b(4) m [of "M div 2 ^ 78"] in simp)
  have s4: "unat (h4 + (drop_bit 8 (load32_le (drop 12 m)) OR hibit)) = unat h4 + (M div 2 ^ 104 + unat hibit)"
    unfolding o [symmetric] by (rule unat_add_small) (use hb(5) o b(6) hl in simp)
  have pw: "(2::nat) ^ 27 = 2 * 2 ^ 26" "(2::nat) ^ 24 + 2 ^ 24 \<le> 2 ^ 26" by simp_all
  show "a_ok (poly_add hibit h m)"
    unfolding poly_add_def a_ok_def h prod.case s0 s1 s2 s3 s4
    using hb b(6) hl m [of M] m [of "M div 2 ^ 26"] m [of "M div 2 ^ 52"] m [of "M div 2 ^ 78"] pw
    by - (intro conjI; linarith)
  show "limbs_val (poly_add hibit h m) = limbs_val h + le_num (take 16 m) + unat hibit * 2 ^ 104"
    unfolding poly_add_def h nats5_def prod.case s0 s1 s2 s3 s4 M_def [symmetric] val5_add
    by (simp only: val5_split)
qed


lemma poly_step:
  assumes "limbs26 r" "h_ok h" "16 \<le> length m" "hibit = 0 \<or> hibit = 2 ^ 24"
  defines "h' \<equiv> poly_carry (poly_mul r (poly_add hibit h m))"
  shows "h_ok h'"
    "limbs_val h' mod P1305 = (limbs_val h + le_num (take 16 m) + unat hibit * 2 ^ 104) * limbs_val r mod P1305"
proof -
  note a = poly_add_ok [OF assms(2-4)]
  note m = poly_mul_ok [OF assms(1) a(1)]
  note c = poly_carry_ok [OF m(1), folded h'_def]
  show "h_ok h'" by (rule c(1))
  obtain k where "val5 (unats5 (poly_mul r (poly_add hibit h m))) = limbs_val h' + P1305 * k"
    using c(2) by blast
  then have "limbs_val (poly_add hibit h m) * limbs_val r =
     limbs_val h' + P1305 * (k + mul5_rest (nats5 (poly_add hibit h m)) (nats5 r))"
    unfolding m(2) by (simp add: distrib_left)
  then show "limbs_val h' mod P1305 =
      (limbs_val h + le_num (take 16 m) + unat hibit * 2 ^ 104) * limbs_val r mod P1305"
    unfolding a(2) by simp
qed

lemma poly_acc_Nil [simp]: "poly_acc r a [] = a"
  by (subst poly_acc.simps) simp

lemma poly_acc_step:
  "msg \<noteq> [] \<Longrightarrow> poly_acc r a msg = poly_acc r ((a + le_num (take 16 msg @ [1])) * r mod P1305) (drop 16 msg)"
  by (subst poly_acc.simps) simp

lemma poly_acc_cong: "a mod P1305 = b mod P1305 \<Longrightarrow> poly_acc r a msg mod P1305 = poly_acc r b msg mod P1305"
proof (cases "msg = []")
  case False
  assume "a mod P1305 = b mod P1305"
  then have "(a + x) * r mod P1305 = (b + x) * r mod P1305" for x
    by (metis mod_add_left_eq mod_mult_left_eq)
  then show ?thesis by (simp add: poly_acc_step [OF False])
qed simp

lemma poly_acc_append:
  "length x = 16 * n \<Longrightarrow> poly_acc r a (x @ y) = poly_acc r (poly_acc r a x) y"
proof (induction n arbitrary: a x)
  case (Suc n)
  then have ne: "x \<noteq> []" by auto
  show ?case
    using Suc.prems Suc.IH [of "drop 16 x"] poly_acc_step [of "x @ y" r a] ne
    by (simp add: poly_acc_step [OF ne])
qed simp

lemma poly_loop_ok:
  assumes "limbs26 r"
  shows "h_ok h \<Longrightarrow> 16 * n \<le> length m \<Longrightarrow>
     h_ok (poly_loop (2 ^ 24) r h m (16 * n)) \<and>
     limbs_val (poly_loop (2 ^ 24) r h m (16 * n)) mod P1305 =
       poly_acc (limbs_val r) (limbs_val h) (take (16 * n) m) mod P1305"
proof (induction n arbitrary: h m)
  case 0
  then show ?case by (subst (1 2) poly_loop.simps) simp
next
  case (Suc n)
  let ?h = "poly_carry (poly_mul r (poly_add (2 ^ 24) h m))"
  have lm: "16 \<le> length m" using Suc.prems by simp
  note s = poly_step [OF assms Suc.prems(1) lm, of "2 ^ 24", simplified disj_absorb simp_thms]
  have e: "poly_loop (2 ^ 24) r h m (16 * Suc n) = poly_loop (2 ^ 24) r ?h (drop 16 m) (16 * n)"
    by (subst poly_loop.simps) simp
  have ne: "take (16 * Suc n) m \<noteq> []" using lm by auto
  have v: "le_num (take 16 m @ [1]) = le_num (take 16 m) + unat (2 ^ 24 :: u32) * 2 ^ 104"
    using lm by (simp add: le_num_append)
  have t: "take 16 (take (16 * Suc n) m) = take 16 m" "drop 16 (take (16 * Suc n) m) = take (16 * n) (drop 16 m)"
    by (simp_all add: drop_take)
  have "poly_acc (limbs_val r) (limbs_val h) (take (16 * Suc n) m) mod P1305 =
      poly_acc (limbs_val r) (limbs_val ?h) (take (16 * n) (drop 16 m)) mod P1305"
    unfolding poly_acc_step [OF ne] t v
    by (rule poly_acc_cong) (use s(2) in \<open>simp add: add.assoc\<close>)
  with Suc.IH [of ?h "drop 16 m"] s(1) Suc.prems(2) show ?case
    unfolding e by simp
qed


section \<open>The final reduction\<close>

lemma finish_carry_ok:
  assumes "h_ok h"
  shows "limbs26 (finish_carry h)" "limbs_val (finish_carry h) mod P1305 = limbs_val h mod P1305"
proof -
  obtain h0 h1 h2 h3 h4 where h: "h = (h0, h1, h2, h3, h4)" by (metis prod_cases5)
  have hb: "unat h0 < 2 ^ 26" "unat h1 < 2 ^ 26 + 64" "unat h2 < 2 ^ 26" "unat h3 < 2 ^ 26" "unat h4 < 2 ^ 26"
    using assms by (simp_all add: h h_ok_def)
  define c1 where "c1 = drop_bit 26 h1"
  define e2 where "e2 = h2 + c1" define c2 where "c2 = drop_bit 26 e2"
  define e3 where "e3 = h3 + c2" define c3 where "c3 = drop_bit 26 e3"
  define e4 where "e4 = h4 + c3" define c4 where "c4 = drop_bit 26 e4"
  define k0 where "k0 = h0 + c4 * 5" define c5 where "c5 = drop_bit 26 k0"
  define k1 where "k1 = (h1 AND 0x3ffffff) + c5"
  have e: "finish_carry h = (k0 AND 0x3ffffff, k1, e2 AND 0x3ffffff, e3 AND 0x3ffffff, e4 AND 0x3ffffff)"
    unfolding finish_carry_def h prod.case Let_def k1_def c5_def k0_def c4_def e4_def c3_def e3_def c2_def e2_def c1_def ..
  have n1: "unat c1 = unat h1 div 2 ^ 26" by (simp only: c1_def unat_drop)
  have n2: "unat e2 = unat h2 + unat c1" unfolding e2_def by (rule unat_add_small) (use hb n1 in simp)
  have n2': "unat c2 = unat e2 div 2 ^ 26" by (simp only: c2_def unat_drop)
  have l2: "unat c2 \<le> 1" using hb(2,3) n1 n2 n2' by simp
  have n3: "unat e3 = unat h3 + unat c2" unfolding e3_def by (rule unat_add_small) (use hb(4) l2 in simp)
  have n3': "unat c3 = unat e3 div 2 ^ 26" by (simp only: c3_def unat_drop)
  have l3: "unat c3 \<le> 1" using hb(4) l2 n3 n3' by simp
  have n4: "unat e4 = unat h4 + unat c3" unfolding e4_def by (rule unat_add_small) (use hb(5) l3 in simp)
  have n4': "unat c4 = unat e4 div 2 ^ 26" by (simp only: c4_def unat_drop)
  have l4: "unat c4 \<le> 1" using hb(5) l3 n4 n4' by simp
  have m5: "unat (c4 * 5) = 5 * unat c4" by (rule unat_times5) (use l4 in simp)
  have n0: "unat k0 = unat h0 + 5 * unat c4"
    unfolding k0_def m5 [symmetric] by (rule unat_add_small) (use hb(1) l4 m5 in simp)
  have n5: "unat c5 = unat k0 div 2 ^ 26" by (simp only: c5_def unat_drop)
  have l5: "unat c5 \<le> 1" using hb(1) l4 n0 n5 by simp
  have k1: "unat k1 = unat h1 mod 2 ^ 26 + unat c5"
    unfolding k1_def using l5 by (subst unat_add_small) (simp_all add: unat_mask26)
  have k1b: "unat k1 < 2 ^ 26"
  proof (cases "unat h1 < 2 ^ 26")
    case True
    then have "unat c1 = 0" using n1 by simp
    then have "unat c2 = 0" using n2 n2' hb(3) by simp
    then have "unat c3 = 0" using n3 n3' hb(4) by simp
    then have "unat c4 = 0" using n4 n4' hb(5) by simp
    then have "unat c5 = 0" using n5 n0 hb(1) by simp
    then show ?thesis using k1 by simp
  next
    case False
    then have "unat h1 mod 2 ^ 26 = unat h1 - 2 ^ 26" using hb(2) by (simp add: mod_if)
    then show ?thesis using k1 l5 hb(2) False by simp
  qed
  show "limbs26 (finish_carry h)"
    unfolding e limbs26_def prod.case unat_mask26 using k1b by simp
  have s: "x = x mod 2 ^ 26 + 2 ^ 26 * (x div 2 ^ 26)" for x :: nat by simp
  have "unat h0 + 2 ^ 26 * unat h1 + 2 ^ 52 * unat h2 + 2 ^ 78 * unat h3 + 2 ^ 104 * unat h4 =
      unat h0 + 2 ^ 26 * (unat h1 mod 2 ^ 26) + 2 ^ 52 * (unat e2 mod 2 ^ 26) + 2 ^ 78 * (unat e3 mod 2 ^ 26) +
      2 ^ 104 * (unat e4 mod 2 ^ 26) + 2 ^ 130 * unat c4"
    using s [of "unat h1"] s [of "unat e2"] s [of "unat e3"] s [of "unat e4"]
    unfolding n1 [symmetric] n2' [symmetric] n3' [symmetric] n4' [symmetric]
    using n2 n3 n4 by simp
  moreover have "unat h0 + 2 ^ 26 * (unat h1 mod 2 ^ 26) + 5 * unat c4 = unat k0 mod 2 ^ 26 + 2 ^ 26 * unat k1"
    using n0 k1 s [of "unat k0"] n5 by simp
  ultimately have "limbs_val h = limbs_val (finish_carry h) + P1305 * unat c4"
    unfolding e unfolding h nats5_def val5_def prod.case unat_mask26 P1305_def by simp
  then show "limbs_val (finish_carry h) mod P1305 = limbs_val h mod P1305" by simp
qed

lemma limbs26_lt: "limbs26 h \<Longrightarrow> limbs_val h < 2 ^ 130"
  by (cases h) (simp add: limbs26_def nats5_def val5_def)

lemma finish_select_ok:
  assumes "limbs26 h"
  shows "limbs26 (finish_select h)" "limbs_val (finish_select h) = limbs_val h mod P1305"
proof -
  obtain h0 h1 h2 h3 h4 where h: "h = (h0, h1, h2, h3, h4)" by (metis prod_cases5)
  have hb: "unat h0 < 2 ^ 26" "unat h1 < 2 ^ 26" "unat h2 < 2 ^ 26" "unat h3 < 2 ^ 26" "unat h4 < 2 ^ 26"
    using assms by (simp_all add: h limbs26_def)
  define t0 where "t0 = h0 + 5" define c0 where "c0 = drop_bit 26 t0"
  define t1 where "t1 = h1 + c0" define c1 where "c1 = drop_bit 26 t1"
  define t2 where "t2 = h2 + c1" define c2 where "c2 = drop_bit 26 t2"
  define t3 where "t3 = h3 + c2" define c3 where "c3 = drop_bit 26 t3"
  define t4 where "t4 = h4 + c3" define g4 where "g4 = t4 - 2 ^ 26"
  define msk where "msk = drop_bit 31 g4 - 1"
  have e: "finish_select h = ((h0 AND NOT msk) OR ((t0 AND 0x3ffffff) AND msk), (h1 AND NOT msk) OR ((t1 AND 0x3ffffff) AND msk),
     (h2 AND NOT msk) OR ((t2 AND 0x3ffffff) AND msk), (h3 AND NOT msk) OR ((t3 AND 0x3ffffff) AND msk), (h4 AND NOT msk) OR (g4 AND msk))"
    unfolding finish_select_def h prod.case Let_def msk_def g4_def t4_def c3_def t3_def c2_def t2_def c1_def t1_def c0_def t0_def ..
  have n0: "unat t0 = unat h0 + 5" unfolding t0_def using hb(1) by (subst unat_add_small) simp_all
  have n0': "unat c0 = unat t0 div 2 ^ 26" by (simp only: c0_def unat_drop)
  have l0: "unat c0 \<le> 1" using hb(1) n0 n0' by simp
  have n1: "unat t1 = unat h1 + unat c0" unfolding t1_def by (rule unat_add_small) (use hb(2) l0 in simp)
  have n1': "unat c1 = unat t1 div 2 ^ 26" by (simp only: c1_def unat_drop)
  have l1: "unat c1 \<le> 1" using hb(2) l0 n1 n1' by simp
  have n2: "unat t2 = unat h2 + unat c1" unfolding t2_def by (rule unat_add_small) (use hb(3) l1 in simp)
  have n2': "unat c2 = unat t2 div 2 ^ 26" by (simp only: c2_def unat_drop)
  have l2: "unat c2 \<le> 1" using hb(3) l1 n2 n2' by simp
  have n3: "unat t3 = unat h3 + unat c2" unfolding t3_def by (rule unat_add_small) (use hb(4) l2 in simp)
  have n3': "unat c3 = unat t3 div 2 ^ 26" by (simp only: c3_def unat_drop)
  have l3: "unat c3 \<le> 1" using hb(4) l2 n3 n3' by simp
  have n4: "unat t4 = unat h4 + unat c3" unfolding t4_def by (rule unat_add_small) (use hb(5) l3 in simp)
  have s: "x = x mod 2 ^ 26 + 2 ^ 26 * (x div 2 ^ 26)" for x :: nat by simp
  have sum: "limbs_val h + 5 = unat t0 mod 2 ^ 26 + 2 ^ 26 * (unat t1 mod 2 ^ 26) + 2 ^ 52 * (unat t2 mod 2 ^ 26) +
      2 ^ 78 * (unat t3 mod 2 ^ 26) + 2 ^ 104 * unat t4"
    using s [of "unat t0"] s [of "unat t1"] s [of "unat t2"] s [of "unat t3"]
    unfolding n0' [symmetric] n1' [symmetric] n2' [symmetric] n3' [symmetric] h nats5_def val5_def prod.case
    using n0 n1 n2 n3 n4 by simp
  have "limbs26 (finish_select h) \<and> limbs_val (finish_select h) = limbs_val h mod P1305"
  proof (cases "unat t4 < 2 ^ 26")
    case True
    have "unat g4 = unat t4 + 2 ^ 32 - 2 ^ 26"
      unfolding g4_def using True by (simp add: unat_sub_if')
    then have "unat (drop_bit 31 g4) = 1" unfolding unat_drop using True by simp
    then have "drop_bit 31 g4 = 1" by (metis unat_1 word_unat_eq_iff)
    then have "msk = 0" by (simp add: msk_def)
    then have "finish_select h = h" unfolding e by (simp add: h)
    moreover have "limbs_val h + 5 < 2 ^ 130" using sum True mod_less_divisor [of "2 ^ 26"] s by simp
    ultimately show ?thesis using assms by (simp add: P1305_def)
  next
    case False
    then have t4: "unat t4 = 2 ^ 26" using n4 hb(5) l3 by simp
    then have "t4 = 2 ^ 26" by (simp add: word_unat_eq_iff)
    then have g: "g4 = 0" by (simp add: g4_def)
    then have "msk = - 1" by (simp add: msk_def)
    then have f: "finish_select h = (t0 AND 0x3ffffff, t1 AND 0x3ffffff, t2 AND 0x3ffffff, t3 AND 0x3ffffff, 0)"
      unfolding e by (simp add: g)
    have "limbs_val h = P1305 + limbs_val (finish_select h)"
      using sum unfolding f nats5_def val5_def prod.case unat_mask26 t4 P1305_def by simp
    moreover have "limbs_val h < 2 * P1305" using limbs26_lt [OF assms] by (simp add: P1305_def)
    ultimately have "limbs_val (finish_select h) = limbs_val h mod P1305" by simp
    moreover have "limbs26 (finish_select h)" unfolding f limbs26_def prod.case unat_mask26 by simp
    ultimately show ?thesis by simp
  qed
  then show "limbs26 (finish_select h)" "limbs_val (finish_select h) = limbs_val h mod P1305" by simp_all
qed


definition val4 :: "u32 list \<Rightarrow> nat" where
  "val4 w = unat (w ! 0) + 2 ^ 32 * unat (w ! 1) + 2 ^ 64 * unat (w ! 2) + 2 ^ 96 * unat (w ! 3)"

lemma repack_id:
  fixes a0 :: nat
  shows "a1 = m1 + 2 ^ 6 * q1 \<Longrightarrow> a2 = m2 + 2 ^ 12 * q2 \<Longrightarrow> a3 = m3 + 2 ^ 18 * q3 \<Longrightarrow> a4 = m4 + 2 ^ 24 * q4 \<Longrightarrow>
    a0 + 2 ^ 26 * a1 + 2 ^ 52 * a2 + 2 ^ 78 * a3 + 2 ^ 104 * a4 =
    (a0 + 2 ^ 26 * m1) + 2 ^ 32 * (q1 + 2 ^ 20 * m2) + 2 ^ 64 * (q2 + 2 ^ 14 * m3) +
      2 ^ 96 * (q3 + 2 ^ 8 * m4) + 2 ^ 128 * q4"
  by simp

lemma words_lt:
  fixes w0 :: nat
  shows "w0 < 2 ^ 32 \<Longrightarrow> w1 < 2 ^ 32 \<Longrightarrow> w2 < 2 ^ 32 \<Longrightarrow> w3 < 2 ^ 32 \<Longrightarrow>
    w0 + 2 ^ 32 * w1 + 2 ^ 64 * w2 + 2 ^ 96 * w3 < 2 ^ 128"
  by simp

lemma repack:
  fixes a0 a1 a2 a3 a4 :: nat
  assumes "a0 < 2 ^ 26" "a1 < 2 ^ 26" "a2 < 2 ^ 26" "a3 < 2 ^ 26" "a4 < 2 ^ 26"
  shows "(a0 + 2 ^ 26 * (a1 mod 2 ^ 6)) + 2 ^ 32 * (a1 div 2 ^ 6 + 2 ^ 20 * (a2 mod 2 ^ 12)) +
     2 ^ 64 * (a2 div 2 ^ 12 + 2 ^ 14 * (a3 mod 2 ^ 18)) + 2 ^ 96 * (a3 div 2 ^ 18 + 2 ^ 8 * (a4 mod 2 ^ 24)) =
     val5 (a0, a1, a2, a3, a4) mod 2 ^ 128" (is "?l = _")
proof -
  have s: "x = x mod 2 ^ n + 2 ^ n * (x div 2 ^ n)" for x n :: nat by simp
  have e: "val5 (a0, a1, a2, a3, a4) = ?l + 2 ^ 128 * (a4 div 2 ^ 24)"
    unfolding val5_def prod.case by (rule repack_id) (rule s)+
  have "a0 + 2 ^ 26 * (a1 mod 2 ^ 6) < 2 ^ 32" "a1 div 2 ^ 6 + 2 ^ 20 * (a2 mod 2 ^ 12) < 2 ^ 32"
    "a2 div 2 ^ 12 + 2 ^ 14 * (a3 mod 2 ^ 18) < 2 ^ 32" "a3 div 2 ^ 18 + 2 ^ 8 * (a4 mod 2 ^ 24) < 2 ^ 32"
    using assms by simp_all
  then have "?l < 2 ^ 128" by (rule words_lt)
  then show ?thesis unfolding e by simp
qed

lemma finish_pack_ok:
  assumes "limbs26 h"
  shows "length (finish_pack h) = 4" "val4 (finish_pack h) = limbs_val h mod 2 ^ 128"
proof -
  obtain h0 h1 h2 h3 h4 where h: "h = (h0, h1, h2, h3, h4)" by (metis prod_cases5)
  have hb: "unat h0 < 2 ^ 26" "unat h1 < 2 ^ 26" "unat h2 < 2 ^ 26" "unat h3 < 2 ^ 26" "unat h4 < 2 ^ 26"
    using assms by (simp_all add: h limbs26_def)
  have full: "x AND 0xffffffff = x" for x :: u32
  proof -
    have "(0xffffffff :: u32) = - 1" by simp
    then show ?thesis by (metis and.right_neutral)
  qed
  have w0: "unat (h0 OR push_bit 26 h1) = unat h0 + 2 ^ 26 * (unat h1 mod 2 ^ 6)"
    using unat_or_push [of h0 26 h1] hb by simp
  have w1: "unat (drop_bit 6 h1 OR push_bit 20 h2) = unat h1 div 2 ^ 6 + 2 ^ 20 * (unat h2 mod 2 ^ 12)"
    using unat_or_push [of "drop_bit 6 h1" 20 h2, unfolded unat_drop] hb by simp
  have w2: "unat (drop_bit 12 h2 OR push_bit 14 h3) = unat h2 div 2 ^ 12 + 2 ^ 14 * (unat h3 mod 2 ^ 18)"
    using unat_or_push [of "drop_bit 12 h2" 14 h3, unfolded unat_drop] hb by simp
  have w3: "unat (drop_bit 18 h3 OR push_bit 8 h4) = unat h3 div 2 ^ 18 + 2 ^ 8 * (unat h4 mod 2 ^ 24)"
    using unat_or_push [of "drop_bit 18 h3" 8 h4, unfolded unat_drop] hb by simp
  show "length (finish_pack h) = 4" by (simp add: finish_pack_def h)
  have "finish_pack h = [h0 OR push_bit 26 h1, drop_bit 6 h1 OR push_bit 20 h2,
      drop_bit 12 h2 OR push_bit 14 h3, drop_bit 18 h3 OR push_bit 8 h4]"
    by (simp only: finish_pack_def h prod.case full)
  then have "val4 (finish_pack h) = unat (h0 OR push_bit 26 h1) + 2 ^ 32 * unat (drop_bit 6 h1 OR push_bit 20 h2) +
      2 ^ 64 * unat (drop_bit 12 h2 OR push_bit 14 h3) + 2 ^ 96 * unat (drop_bit 18 h3 OR push_bit 8 h4)"
    by (simp add: val4_def)
  then show "val4 (finish_pack h) = limbs_val h mod 2 ^ 128"
    unfolding w0 w1 w2 w3 repack [OF hb] h nats5_def prod.case .
qed

lemma add_carry32:
  fixes a b :: u32 and f :: u64
  assumes "unat f \<le> 2 ^ 33"
  defines "f' \<equiv> ucast a + ucast b + drop_bit 32 f"
  shows "unat f' = unat a + unat b + unat f div 2 ^ 32" "unat f' \<le> 2 ^ 33"
    "unat (ucast f' :: u32) + 2 ^ 32 * (unat f' div 2 ^ 32) = unat a + unat b + unat f div 2 ^ 32"
proof -
  have d: "unat f div 2 ^ 32 \<le> 2" using assms(1) by simp
  show e: "unat f' = unat a + unat b + unat f div 2 ^ 32"
    unfolding f'_def using unat_u32_lt [of a] unat_u32_lt [of b] d
    by (simp add: unat_word_ariths unat_ucast_up unat_drop)
  show "unat f' \<le> 2 ^ 33" unfolding e using unat_u32_lt [of a] unat_u32_lt [of b] d by simp
  have "unat f' mod 2 ^ 32 + 2 ^ 32 * (unat f' div 2 ^ 32) = unat f'" by simp
  then show "unat (ucast f' :: u32) + 2 ^ 32 * (unat f' div 2 ^ 32) = unat a + unat b + unat f div 2 ^ 32"
    unfolding unat_ucast_down e .
qed


lemma carry_id32:
  fixes x0 :: nat
  assumes "o0 + 2 ^ 32 * c0 = x0" "o1 + 2 ^ 32 * c1 = x1 + c0" "o2 + 2 ^ 32 * c2 = x2 + c1" "o3 + 2 ^ 32 * c3 = x3 + c2"
    and "o0 < 2 ^ 32" "o1 < 2 ^ 32" "o2 < 2 ^ 32" "o3 < 2 ^ 32"
  shows "o0 + 2 ^ 32 * o1 + 2 ^ 64 * o2 + 2 ^ 96 * o3 = (x0 + 2 ^ 32 * x1 + 2 ^ 64 * x2 + 2 ^ 96 * x3) mod 2 ^ 128"
proof -
  have "x0 + 2 ^ 32 * x1 + 2 ^ 64 * x2 + 2 ^ 96 * x3 =
      (o0 + 2 ^ 32 * o1 + 2 ^ 64 * o2 + 2 ^ 96 * o3) + 2 ^ 128 * c3"
    using assms(1-4) by simp
  moreover have "o0 + 2 ^ 32 * o1 + 2 ^ 64 * o2 + 2 ^ 96 * o3 < 2 ^ 128" by (rule words_lt) (rule assms)+
  ultimately show ?thesis by simp
qed

lemma finish_pad_ok:
  shows "length (finish_pad h pad) = 4" "val4 (finish_pad h pad) = (val4 h + val4 pad) mod 2 ^ 128"
proof -
  define f0 :: u64 where "f0 = ucast (h ! 0) + ucast (pad ! 0) + drop_bit 32 0"
  define f1 where "f1 = ucast (h ! 1) + ucast (pad ! 1) + drop_bit 32 f0"
  define f2 where "f2 = ucast (h ! 2) + ucast (pad ! 2) + drop_bit 32 f1"
  define f3 where "f3 = ucast (h ! 3) + ucast (pad ! 3) + drop_bit 32 f2"
  have e: "finish_pad h pad = [ucast f0, ucast f1, ucast f2, ucast f3]"
    unfolding finish_pad_def Let_def f3_def f2_def f1_def f0_def by simp
  show "length (finish_pad h pad) = 4" by (simp add: e)
  note a0 = add_carry32 [of 0 "h ! 0" "pad ! 0", folded f0_def, simplified]
  note a1 = add_carry32 [of f0 "h ! 1" "pad ! 1", folded f1_def]
  note a2 = add_carry32 [of f1 "h ! 2" "pad ! 2", folded f2_def]
  note a3 = add_carry32 [of f2 "h ! 3" "pad ! 3", folded f3_def]
  have l: "unat f0 \<le> 2 ^ 33" "unat f1 \<le> 2 ^ 33" "unat f2 \<le> 2 ^ 33"
    using a0 a1 a2 by simp_all
  have c: "unat (ucast f0 :: u32) + 2 ^ 32 * (unat f0 div 2 ^ 32) = unat (h ! 0) + unat (pad ! 0)"
    using add_carry32(3) [of 0 "h ! 0" "pad ! 0", folded f0_def] by simp
  have "val4 (finish_pad h pad) = unat (ucast f0 :: u32) + 2 ^ 32 * unat (ucast f1 :: u32) +
      2 ^ 64 * unat (ucast f2 :: u32) + 2 ^ 96 * unat (ucast f3 :: u32)"
    by (simp add: e val4_def)
  also have "\<dots> = ((unat (h ! 0) + unat (pad ! 0)) + 2 ^ 32 * (unat (h ! 1) + unat (pad ! 1)) +
      2 ^ 64 * (unat (h ! 2) + unat (pad ! 2)) + 2 ^ 96 * (unat (h ! 3) + unat (pad ! 3))) mod 2 ^ 128"
    by (rule carry_id32 [OF c a1(3) [OF l(1)] a2(3) [OF l(2)] a3(3) [OF l(3)]]) (simp_all add: unat_u32_lt)
  also have "\<dots> = (val4 h + val4 pad) mod 2 ^ 128"
    by (simp add: val4_def distrib_left ac_simps)
  finally show "val4 (finish_pad h pad) = (val4 h + val4 pad) mod 2 ^ 128" .
qed

lemma le_num_stores:
  "length w = 4 \<Longrightarrow> le_num (concat (map store32_le w)) = val4 w"
proof -
  assume "length w = 4"
  then obtain a b c d where w: "w = [a, b, c, d]" by (auto simp: numeral_eq_Suc length_Suc_conv)
  show ?thesis
    by (simp add: w le_num_append le_num_store32_le val4_def)
qed


section \<open>Initialisation and the clamp\<close>

lemma unat_and: "unat (x AND y) = unat x AND unat y" for x y :: u32
  by (rule unsigned_and_eq)

lemma unat_and_sub: "m AND k = m \<Longrightarrow> unat (x AND m) = unat (x AND k) AND unat m" for x m k :: u32
  unfolding unat_and [symmetric] by (simp add: and.assoc) (metis and.commute)

lemmas unat_and_mask26 = unat_and_sub [of _ "0x3ffffff"]

lemma clamp_limbs:
  "clamp M = val5 ((M mod 2 ^ 26) AND 0x3ffffff, (M div 2 ^ 26 mod 2 ^ 26) AND 0x3ffff03,
     (M div 2 ^ 52 mod 2 ^ 26) AND 0x3ffc0ff, (M div 2 ^ 78 mod 2 ^ 26) AND 0x3f03fff, (M div 2 ^ 104) AND 0x00fffff)"
proof -
  let ?C = "0x0ffffffc0ffffffc0ffffffc0fffffff :: nat"
  have a: "(M AND ?C) div 2 ^ k mod 2 ^ 26 = (M div 2 ^ k mod 2 ^ 26) AND (?C div 2 ^ k mod 2 ^ 26)" for k
    unfolding drop_bit_eq_div [symmetric] take_bit_eq_mod [symmetric] by (simp only: drop_bit_and take_bit_and)
  have b: "(M AND ?C) div 2 ^ 104 = (M div 2 ^ 104) AND (?C div 2 ^ 104)"
    unfolding drop_bit_eq_div [symmetric] by (simp only: drop_bit_and)
  have c: "?C mod 2 ^ 26 = 0x3ffffff" "?C div 2 ^ 26 mod 2 ^ 26 = 0x3ffff03" "?C div 2 ^ 52 mod 2 ^ 26 = 0x3ffc0ff"
    "?C div 2 ^ 78 mod 2 ^ 26 = 0x3f03fff" "?C div 2 ^ 104 = 0x00fffff"
    by simp_all
  have a0: "(M AND ?C) mod 2 ^ 26 = (M mod 2 ^ 26) AND (?C mod 2 ^ 26)" using a [of 0] by simp
  show ?thesis
    unfolding clamp_def by (rule val5_split [of "M AND ?C", unfolded a a0 b c, symmetric])
qed

lemma poly1305_init_ok:
  assumes "32 \<le> length key"
  shows "limbs26 (p_r (poly1305_init st key))"
    and "limbs_val (p_r (poly1305_init st key)) = clamp (le_num (take 16 key))"
    and "val4 (p_pad (poly1305_init st key)) = le_num (take 16 (drop 16 key))"
proof -
  define M where "M = le_num (take 16 key)"
  have l: "16 \<le> length key" using assms by simp
  note b = block_limbs [OF l, folded M_def]
  have u: "unat (0x3ffffff :: u32) = 0x3ffffff" "unat (0x3ffff03 :: u32) = 0x3ffff03" "unat (0x3ffc0ff :: u32) = 0x3ffc0ff"
    "unat (0x3f03fff :: u32) = 0x3f03fff" "unat (0x00fffff :: u32) = 0x00fffff"
    by simp_all
  have r0: "unat (load32_le key AND 0x3ffffff) = M mod 2 ^ 26 AND 0x3ffffff"
    by (subst unat_and_mask26 [OF and.idem]) (simp only: b u)
  have r1: "unat (drop_bit 2 (load32_le (drop 3 key)) AND 0x3ffff03) = M div 2 ^ 26 mod 2 ^ 26 AND 0x3ffff03"
    by (subst unat_and_mask26) (simp, simp only: b u)
  have r2: "unat (drop_bit 4 (load32_le (drop 6 key)) AND 0x3ffc0ff) = M div 2 ^ 52 mod 2 ^ 26 AND 0x3ffc0ff"
    by (subst unat_and_mask26) (simp, simp only: b u)
  have r3: "unat (drop_bit 6 (load32_le (drop 9 key)) AND 0x3f03fff) = M div 2 ^ 78 mod 2 ^ 26 AND 0x3f03fff"
    by (subst unat_and_mask26) (simp, simp only: b u)
  have r4: "unat (drop_bit 8 (load32_le (drop 12 key)) AND 0x00fffff) = M div 2 ^ 104 AND 0x00fffff"
    by (simp only: unat_and b u)
  note r = r0 r1 r2 r3 r4
  have lt: "unat (x AND m) < 2 ^ 26" if "unat m < 2 ^ 26" for x m :: u32
    using that word_and_le1 [of x m] by (simp only: word_le_nat_alt) 
  have pr: "p_r (poly1305_init st key) = (load32_le key AND 0x3ffffff,
      drop_bit 2 (load32_le (drop 3 key)) AND 0x3ffff03, drop_bit 4 (load32_le (drop 6 key)) AND 0x3ffc0ff,
      drop_bit 6 (load32_le (drop 9 key)) AND 0x3f03fff, drop_bit 8 (load32_le (drop 12 key)) AND 0x00fffff)"
    by (simp only: poly1305_init_def) simp
  show "limbs26 (p_r (poly1305_init st key))"
    unfolding poly1305_init_def limbs26_def by (simp add: lt [simplified])
  show "limbs_val (p_r (poly1305_init st key)) = clamp (le_num (take 16 key))"
    unfolding pr M_def [symmetric] clamp_limbs nats5_def prod.case r ..
  have p: "p_pad (poly1305_init st key) = [load32_le (drop 16 key), load32_le (drop 20 key), load32_le (drop 24 key), load32_le (drop 28 key)]"
    by (simp add: poly1305_init_def upt_rec)
  have "take 16 (drop 16 key) = take 4 (drop 16 key) @ take 4 (drop 20 key) @ take 4 (drop 24 key) @ take 4 (drop 28 key)"
    using take_add [of 4 12 "drop 16 key"] take_add [of 4 8 "drop 20 key"] take_add [of 4 4 "drop 24 key"] by simp
  then show "val4 (p_pad (poly1305_init st key)) = le_num (take 16 (drop 16 key))"
    unfolding p val4_def using assms by (simp add: le_num_append unat_load32_le)
qed


section \<open>Buffering\<close>

text \<open>
  \<open>poly_repr r st full rest\<close>: the state has absorbed the whole blocks \<open>full\<close> and holds the
  bytes \<open>rest\<close> of a block that is not complete.
\<close>

definition poly_repr :: "nat \<Rightarrow> poly1305_state \<Rightarrow> bytes \<Rightarrow> bytes \<Rightarrow> bool" where
  "poly_repr r st full rest \<longleftrightarrow>
     limbs26 (p_r st) \<and> limbs_val (p_r st) = r \<and> h_ok (p_h st) \<and> \<not> p_final st \<and> length (p_buffer st) = 16 \<and>
     p_leftover st = length rest \<and> length rest < 16 \<and> take (length rest) (p_buffer st) = rest \<and>
     16 dvd length full \<and> limbs_val (p_h st) mod P1305 = poly_acc r 0 full mod P1305"

lemma poly1305_blocks_fields [simp]:
  "p_r (poly1305_blocks st m n) = p_r st" "p_pad (poly1305_blocks st m n) = p_pad st"
  "p_leftover (poly1305_blocks st m n) = p_leftover st" "p_buffer (poly1305_blocks st m n) = p_buffer st"
  "p_final (poly1305_blocks st m n) = p_final st"
  by (simp_all add: poly1305_blocks_def Let_def)

lemma length_memcpy_at [simp]: "off + length src \<le> length buf \<Longrightarrow> length (memcpy_at buf off src) = length buf"
  by (simp add: memcpy_at_def)

lemma take_memcpy_at:
  "off \<le> length buf \<Longrightarrow> take (off + length src) (memcpy_at buf off src) = take off buf @ src"
  by (simp add: memcpy_at_def)

lemma blocks_repr:
  assumes "limbs26 (p_r st)" "h_ok (p_h st)" "\<not> p_final st" "16 dvd length full" "16 dvd n" "n \<le> length m"
    and "limbs_val (p_h st) mod P1305 = poly_acc (limbs_val (p_r st)) 0 full mod P1305"
  shows "h_ok (p_h (poly1305_blocks st m n))"
    "limbs_val (p_h (poly1305_blocks st m n)) mod P1305 = poly_acc (limbs_val (p_r st)) 0 (full @ take n m) mod P1305"
proof -
  obtain k where k: "n = 16 * k" using assms(5) by (auto simp: dvd_def)
  obtain j where j: "length full = 16 * j" using assms(4) by (auto simp: dvd_def)
  have e: "p_h (poly1305_blocks st m n) = poly_loop (2 ^ 24) (p_r st) (p_h st) m (16 * k)"
    using assms(3) by (simp add: poly1305_blocks_def Let_def k)
  note l = poly_loop_ok [OF assms(1,2), of k m] 
  show "h_ok (p_h (poly1305_blocks st m n))" unfolding e using l assms(6) k by simp
  have "limbs_val (p_h (poly1305_blocks st m n)) mod P1305 =
      poly_acc (limbs_val (p_r st)) (limbs_val (p_h st)) (take n m) mod P1305"
    unfolding e using l assms(6) k by simp
  also have "\<dots> = poly_acc (limbs_val (p_r st)) (poly_acc (limbs_val (p_r st)) 0 full) (take n m) mod P1305"
    by (rule poly_acc_cong) (rule assms(7))
  also have "\<dots> = poly_acc (limbs_val (p_r st)) 0 (full @ take n m) mod P1305"
    by (simp only: poly_acc_append [OF j])
  finally show "limbs_val (p_h (poly1305_blocks st m n)) mod P1305 =
      poly_acc (limbs_val (p_r st)) 0 (full @ take n m) mod P1305" .
qed

lemma update_tail_repr:
  assumes "poly_repr r st full []"
  shows "\<exists>full' rest'. full' @ rest' = full @ m \<and> poly_repr r (update_tail st m) full' rest'"
    and "p_pad (update_tail st m) = p_pad st"
proof -
  define want where "want = length m - length m mod 16"
  define s1 where "s1 = (if length m \<ge> 16 then poly1305_blocks st m want else st)"
  have w: "16 dvd want" "want \<le> length m" "length (drop want m) = length m mod 16"
    unfolding want_def using mod_less_eq_dividend [of "length m" 16] by (simp_all add: dvd_minus_mod)
  have w0: "\<not> length m \<ge> 16 \<Longrightarrow> want = 0" by (simp add: want_def)
  have e: "update_tail st m = (if drop want m \<noteq> []
      then s1\<lparr>p_buffer := memcpy_at (p_buffer s1) (p_leftover s1) (drop want m),
                p_leftover := p_leftover s1 + length (drop want m)\<rparr> else s1)"
    unfolding update_tail_def s1_def by (simp add: want_def [symmetric] w0 Let_def)
  have f: "p_leftover s1 = 0" "length (p_buffer s1) = 16" "\<not> p_final s1" "p_r s1 = p_r st" "p_pad s1 = p_pad st"
    using assms by (simp_all add: s1_def poly_repr_def)
  show "p_pad (update_tail st m) = p_pad st" unfolding e by (simp add: f)
  have h: "h_ok (p_h s1)" "limbs_val (p_h s1) mod P1305 = poly_acc r 0 (full @ take want m) mod P1305"
    using assms blocks_repr [of st full want m] w w0 by (auto simp: s1_def poly_repr_def)
  have lt: "length (drop want m) < 16" unfolding w(3) by simp
  have "poly_repr r (update_tail st m) (full @ take want m) (drop want m)"
    using assms f h w lt take_memcpy_at [of 0 "p_buffer s1" "drop want m"]
    unfolding e poly_repr_def by (auto simp del: length_drop)
  then show "\<exists>full' rest'. full' @ rest' = full @ m \<and> poly_repr r (update_tail st m) full' rest'"
    by (intro exI [of _ "full @ take want m"] exI [of _ "drop want m"]) simp
qed


lemma poly1305_update_repr:
  assumes "poly_repr r st full rest"
  shows "\<exists>full' rest'. full' @ rest' = full @ rest @ m \<and> poly_repr r (poly1305_update st m) full' rest'"
    and "p_pad (poly1305_update st m) = p_pad st"
proof -
  define want where "want = (if 16 - p_leftover st > length m then length m else 16 - p_leftover st)"
  define s1 where "s1 = st\<lparr> p_buffer := memcpy_at (p_buffer st) (p_leftover st) (take want m), p_leftover := p_leftover st + want \<rparr>"
  define s2 where "s2 = (poly1305_blocks s1 (p_buffer s1) 16)\<lparr> p_leftover := 0 \<rparr>"
  have e: "poly1305_update st m = (if p_leftover st \<noteq> 0
      then if p_leftover s1 < 16 then s1 else update_tail s2 (drop want m) else update_tail st m)"
    unfolding poly1305_update_def Let_def want_def [symmetric] s1_def [symmetric] s2_def [symmetric] ..
  have a: "p_leftover st = length rest" "length rest < 16" "length (p_buffer st) = 16" "take (length rest) (p_buffer st) = rest"
    using assms by (simp_all add: poly_repr_def)
  have wl: "length (take want m) = want" "want \<le> 16 - length rest" by (auto simp: want_def a)
  have b: "take (length rest + want) (p_buffer s1) = rest @ take want m" "length (p_buffer s1) = 16"
    using take_memcpy_at [of "length rest" "p_buffer st" "take want m"] a wl by (simp_all add: s1_def)
  have "(\<exists>full' rest'. full' @ rest' = full @ rest @ m \<and> poly_repr r (poly1305_update st m) full' rest') \<and>
      p_pad (poly1305_update st m) = p_pad st"
  proof -
    consider "rest = []" | "rest \<noteq> []" "p_leftover s1 < 16" | "rest \<noteq> []" "\<not> p_leftover s1 < 16" by blast
    then show ?thesis
    proof cases
      case 1
      then show ?thesis using update_tail_repr [of r st full m] assms a by (simp add: e)
    next
      case 2
      then have "want = length m" using a by (auto simp: want_def s1_def split: if_splits)
      then have "poly_repr r s1 full (rest @ m)"
        using assms b 2 a by (simp add: poly_repr_def s1_def)
      then show ?thesis using 2 a by (auto simp: e s1_def)
    next
      case 3
      then have wm: "length rest + want = 16" using a wl by (simp add: s1_def)
      have full: "take 16 (p_buffer s1) = rest @ take want m" using b(1) unfolding wm .
      have "poly_repr r s2 (full @ rest @ take want m) []"
        using assms blocks_repr [of s1 full 16 "p_buffer s1"] b wm full wl
        by (auto simp: poly_repr_def s2_def s1_def)
      note u = update_tail_repr [OF this, of "drop want m"]
      have "p_pad s2 = p_pad st" by (simp add: s2_def s1_def)
      then show ?thesis using u 3 a by (simp add: e)
    qed
  qed
  then show "\<exists>full' rest'. full' @ rest' = full @ rest @ m \<and> poly_repr r (poly1305_update st m) full' rest'"
    "p_pad (poly1305_update st m) = p_pad st" by blast+
qed

lemma poly_acc_lt: "a < P1305 \<Longrightarrow> poly_acc r a msg < P1305"
proof (induction r a msg rule: poly_acc.induct)
  case (1 r a msg)
  then show ?case by (subst poly_acc.simps) (simp add: P1305_def)
qed

lemma poly1305_finish_ok:
  assumes "poly_repr r st full rest"
  shows "length (poly1305_finish st) = 16"
    "le_num (poly1305_finish st) = (poly_acc r 0 (full @ rest) + val4 (p_pad st)) mod 2 ^ 128"
proof -
  define b where "b = rest @ [1] @ replicate (15 - length rest) 0"
  define s1 where "s1 = st\<lparr> p_buffer := b, p_final := True \<rparr>"
  define s2 where "s2 = (if rest \<noteq> [] then poly1305_blocks s1 b 16 else st)"
  define h where "h = p_h s2"
  have a: "limbs26 (p_r st)" "limbs_val (p_r st) = r" "h_ok (p_h st)" "16 dvd length full" "length rest < 16"
    "limbs_val (p_h st) mod P1305 = poly_acc r 0 full mod P1305"
    using assms by (simp_all add: poly_repr_def)
  have e: "poly1305_finish st = concat (map store32_le (finish_pad (finish_pack (finish_select (finish_carry h))) (p_pad st)))"
    unfolding poly1305_finish_def h_def s2_def s1_def b_def using assms by (auto simp: poly_repr_def Let_def)
  have lb: "length b = 16" using a(5) by (simp add: b_def)
  have vb: "le_num (take 16 b) = le_num (take 16 rest @ [1])" using lb a(5) by (simp add: b_def le_num_append)
  have "h_ok h \<and> limbs_val h mod P1305 = poly_acc r 0 (full @ rest) mod P1305"
  proof (cases "rest = []")
    case False
    have hh: "h = poly_carry (poly_mul (p_r st) (poly_add 0 (p_h st) b))"
      unfolding h_def s2_def s1_def poly1305_blocks_def Let_def using False
      by (simp add: poly_loop.simps [of _ _ _ _ 16] poly_loop.simps [of _ _ _ _ 0])
    note s = poly_step [OF a(1,3), of b 0, folded hh]
    obtain j where j: "length full = 16 * j" using a(4) by (auto simp: dvd_def)
    have d: "drop 16 rest = []" using a(5) by simp
    have "poly_acc r 0 (full @ rest) = (poly_acc r 0 full + le_num (take 16 rest @ [1])) * r mod P1305"
      unfolding poly_acc_append [OF j] poly_acc_step [OF False] d by simp
    also have "\<dots> = (limbs_val (p_h st) + le_num (take 16 b)) * r mod P1305"
      unfolding vb using a(6) by (metis mod_add_left_eq mod_mult_left_eq)
    also have "\<dots> = limbs_val h mod P1305" using s(2) lb a(2) by simp
    finally show ?thesis using s(1) lb by simp
  qed (use a in \<open>simp add: h_def s2_def\<close>)
  then have hh: "h_ok h" and v: "limbs_val h mod P1305 = poly_acc r 0 (full @ rest)"
    using poly_acc_lt [of 0 r "full @ rest"] by (simp_all add: P1305_def)
  note c = finish_carry_ok [OF hh]
  note s = finish_select_ok [OF c(1)]
  note p = finish_pack_ok [OF s(1)]
  show "length (poly1305_finish st) = 16"
    unfolding e using finish_pad_ok(1) by (simp add: length_concat comp_def sum_list_triv)
  show "le_num (poly1305_finish st) = (poly_acc r 0 (full @ rest) + val4 (p_pad st)) mod 2 ^ 128"
    unfolding e le_num_stores [OF finish_pad_ok(1)] finish_pad_ok(2) p(2) s(2) c(2) v by (simp add: mod_add_left_eq)
qed

definition poly1305_mac :: "poly1305_state \<Rightarrow> bytes \<Rightarrow> bytes list \<Rightarrow> bytes" where
  "poly1305_mac st key ms = poly1305_finish (fold (\<lambda>m st. poly1305_update st m) ms (poly1305_init st key))"

lemma fold_update_repr:
  "poly_repr r st full rest \<Longrightarrow>
   (\<exists>full' rest'. full' @ rest' = full @ rest @ concat ms \<and>
      poly_repr r (fold (\<lambda>m st. poly1305_update st m) ms st) full' rest') \<and>
   p_pad (fold (\<lambda>m st. poly1305_update st m) ms st) = p_pad st"
proof (induction ms arbitrary: st full rest)
  case (Cons m ms)
  obtain full' rest' where f: "full' @ rest' = full @ rest @ m" "poly_repr r (poly1305_update st m) full' rest'"
    using poly1305_update_repr(1) [OF Cons.prems] by blast
  from Cons.IH [OF f(2)] f(1) show ?case
    using poly1305_update_repr(2) [OF Cons.prems, of m] by simp (metis append_assoc)
qed auto

lemma poly1305_mac_spec:
  assumes "32 \<le> length key" "length (p_buffer st) = 16"
  shows "length (poly1305_mac st key ms) = 16" "le_num (poly1305_mac st key ms) = poly1305_spec key (concat ms)"
proof -
  let ?st = "poly1305_init st key" and ?r = "clamp (le_num (take 16 key))"
  let ?s = "fold (\<lambda>m st. poly1305_update st m) ms ?st"
  note i = poly1305_init_ok [OF assms(1), of st]
  have z: "p_h ?st = (0, 0, 0, 0, 0)" "\<not> p_final ?st" "p_buffer ?st = p_buffer st" "p_leftover ?st = 0"
    by (simp_all add: poly1305_init_def)
  have "poly_repr ?r ?st [] []"
    using i assms(2) unfolding poly_repr_def z by (simp add: h_ok_def nats5_def val5_def z)
  from fold_update_repr [OF this, of ms] obtain full rest where
    f: "full @ rest = concat ms" "poly_repr ?r ?s full rest" and p: "p_pad ?s = p_pad ?st" by auto
  show "length (poly1305_mac st key ms) = 16"
    unfolding poly1305_mac_def by (rule poly1305_finish_ok(1) [OF f(2)])
  show "le_num (poly1305_mac st key ms) = poly1305_spec key (concat ms)"
    unfolding poly1305_mac_def poly1305_finish_ok(2) [OF f(2)] f(1) p i(3) poly1305_spec_def ..
qed

end
