(* ===== verification/ChaPoly.thy ===== *)
theory ChaPoly
  imports ChaCha Poly1305
begin

text \<open>
  The ChaCha20-Poly1305 AEAD of \<open>src/src/core/simd_crypto.c\<close>: \<open>chap_tag\<close>, \<open>lr_chap_new\<close>,
  \<open>lr_chap_seal\<close> and \<open>lr_chap_open\<close>.  The Poly1305 state is an uninitialised local of
  \<open>chap_tag\<close>; its contents on entry are the argument \<open>stk\<close>, and the lemmas show that nothing
  depends on it.  The reference is RFC 8439, section 2.8.
\<close>

section \<open>The code\<close>

record lr_chap_ctx =
  chap_key :: bytes
  chap_ctx_path :: path

definition lr_chap_new :: "path \<Rightarrow> bytes \<Rightarrow> lr_chap_ctx" where
  "lr_chap_new pth key = \<lparr> chap_key = take 32 key, chap_ctx_path = pth \<rparr>"

definition kZeroPad :: bytes where
  "kZeroPad = replicate 16 0"

definition len_bytes :: "nat \<Rightarrow> bytes" where
  "len_bytes n = map (\<lambda>i. ucast (drop_bit (8 * i) (of_nat n :: u64))) [0..<8]"

definition absorb_padded :: "bytes \<Rightarrow> poly1305_state \<Rightarrow> poly1305_state" where
  "absorb_padded m st =
     (if m \<noteq> []
      then let st = poly1305_update st m
           in if length m mod 16 \<noteq> 0 then poly1305_update st (take (16 - length m mod 16) kZeroPad) else st
      else st)"

definition chap_tag :: "poly1305_state \<Rightarrow> bytes \<Rightarrow> bytes \<Rightarrow> bytes \<Rightarrow> bytes" where
  "chap_tag stk mac_key aad ct =
     (let st = poly1305_init stk mac_key;
          st = absorb_padded aad st;
          st = absorb_padded ct st;
          lens = len_bytes (length aad) @ len_bytes (length ct);
          st = poly1305_update st lens
      in poly1305_finish st)"

definition lr_chap_seal :: "poly1305_state \<Rightarrow> lr_chap_ctx \<Rightarrow> bytes \<Rightarrow> bytes \<Rightarrow> bytes \<Rightarrow> bytes" where
  "lr_chap_seal stk c nonce aad pt =
     (let mac_key = chacha_xor (chap_ctx_path c) (chap_key c) nonce 0 (replicate 64 0);
          out = (if pt \<noteq> [] then chacha_xor (chap_ctx_path c) (chap_key c) nonce 1 pt else [])
      in out @ chap_tag stk mac_key aad out)"

definition lr_chap_open :: "poly1305_state \<Rightarrow> lr_chap_ctx \<Rightarrow> bytes \<Rightarrow> bytes \<Rightarrow> bytes \<Rightarrow> bytes option" where
  "lr_chap_open stk c nonce aad ct =
     (if length ct < 16 then None
      else let body = length ct - 16;
               mac_key = chacha_xor (chap_ctx_path c) (chap_key c) nonce 0 (replicate 64 0);
               tag = chap_tag stk mac_key aad (take body ct)
           in if \<not> ct_eq16 tag (drop body ct) then None
              else if body \<noteq> 0 then Some (chacha_xor (chap_ctx_path c) (chap_key c) nonce 1 (take body ct))
              else Some [])"

section \<open>The reference definition\<close>

definition le64 :: "nat \<Rightarrow> bytes" where
  "le64 n = map (\<lambda>i. of_nat (n div 256 ^ i)) [0..<8]"

definition chap_mac_data :: "bytes \<Rightarrow> bytes \<Rightarrow> bytes" where
  "chap_mac_data aad ct = pad16 aad @ pad16 ct @ le64 (length aad) @ le64 (length ct)"

definition stk_ok :: "poly1305_state \<Rightarrow> bool" where
  "stk_ok stk \<longleftrightarrow> length (p_buffer stk) = 16"

section \<open>Lemmas\<close>

lemma len_bytes_le64: "len_bytes n = le64 n"
proof -
  have "ucast (drop_bit (8 * i) (of_nat n :: u64)) = (of_nat (n div 256 ^ i) :: u8)" if "i < 8" for i
  proof (rule bit_word_eqI)
    fix k assume "k < LENGTH(8)"
    then have "8 * i + k < 64" using that by simp
    moreover have "n div 256 ^ i = drop_bit (8 * i) n" by (simp add: drop_bit_eq_div power_mult)
    ultimately show "bit (ucast (drop_bit (8 * i) (of_nat n :: u64)) :: u8) k = bit (of_nat (n div 256 ^ i) :: u8) k"
      using \<open>k < LENGTH(8)\<close> by (simp add: bit_simps bit_of_nat_iff)
  qed
  then show ?thesis by (simp add: len_bytes_def le64_def)
qed

definition absorb_chunks :: "bytes \<Rightarrow> bytes list" where
  "absorb_chunks m = (if m \<noteq> [] then m # (if length m mod 16 \<noteq> 0 then [take (16 - length m mod 16) kZeroPad] else []) else [])"

lemma absorb_padded_fold: "absorb_padded m st = fold (\<lambda>m st. poly1305_update st m) (absorb_chunks m) st"
  by (simp add: absorb_padded_def absorb_chunks_def Let_def)

lemma concat_absorb_chunks: "concat (absorb_chunks m) = pad16 m"
  by (auto simp: absorb_chunks_def pad16_def kZeroPad_def)

lemma chap_tag_mac:
  "chap_tag stk mac_key aad ct =
     poly1305_mac stk mac_key (absorb_chunks aad @ absorb_chunks ct @ [len_bytes (length aad) @ len_bytes (length ct)])"
  by (simp add: chap_tag_def poly1305_mac_def absorb_padded_fold Let_def)

lemma chap_tag_spec:
  assumes "stk_ok stk" "32 \<le> length mac_key"
  shows "length (chap_tag stk mac_key aad ct) = 16"
    "le_num (chap_tag stk mac_key aad ct) = poly1305_spec mac_key (chap_mac_data aad ct)"
  using assms unfolding stk_ok_def chap_tag_mac chap_mac_data_def
  by (simp_all add: poly1305_mac_spec concat_absorb_chunks len_bytes_le64)

lemma chap_tag_stk:
  assumes "stk_ok stk" "stk_ok stk'" "32 \<le> length mac_key"
  shows "chap_tag stk mac_key aad ct = chap_tag stk' mac_key aad ct"
  by (rule le_num_inj) (simp_all add: chap_tag_spec assms)

lemma chap_body:
  "(if pt \<noteq> [] then chacha_xor pth k nonce 1 pt else []) = chacha_xor pth k nonce 1 pt"
proof -
  have "length (chacha_xor pth k nonce 1 []) = 0" by (simp only: length_chacha_xor list.size)
  then show ?thesis by (cases pt) (simp_all del: length_chacha_xor)
qed

lemma length_lr_chap_seal [simp, len_simps]:
  "stk_ok stk \<Longrightarrow> length (lr_chap_seal stk c nonce aad pt) = length pt + 16"
  unfolding lr_chap_seal_def Let_def chap_body by (simp add: chap_tag_spec)

lemma lr_chap_open_eq:
  "lr_chap_open stk c nonce aad ct =
     (if length ct < 16 then None
      else let body = take (length ct - 16) ct;
               mac_key = chacha_xor (chap_ctx_path c) (chap_key c) nonce 0 (replicate 64 0)
           in if ct_eq16 (chap_tag stk mac_key aad body) (drop (length ct - 16) ct)
              then Some (chacha_xor (chap_ctx_path c) (chap_key c) nonce 1 body) else None)"
  using chap_body [of "take (length ct - 16) ct" "chap_ctx_path c" "chap_key c" nonce]
  unfolding lr_chap_open_def Let_def by (auto split: if_splits)

text \<open>What \<open>lr_chap_open\<close> accepts is exactly what \<open>lr_chap_seal\<close> writes.\<close>

lemma chap_open_iff_seal:
  assumes "stk_ok stk" "stk_ok stk'"
  shows "lr_chap_open stk c nonce aad ct = Some pt \<longleftrightarrow> ct = lr_chap_seal stk' c nonce aad pt"
proof -
  let ?x = "chacha_xor (chap_ctx_path c) (chap_key c) nonce"
  let ?k = "?x 0 (replicate 64 0)"
  have l: "32 \<le> length ?k" by simp
  note t = chap_tag_spec(1) [OF _ l]
  show ?thesis
  proof
    assume a: "lr_chap_open stk c nonce aad ct = Some pt"
    then have n: "16 \<le> length ct" by (auto simp: lr_chap_open_eq split: if_splits)
    let ?b = "take (length ct - 16) ct"
    from a n have e: "ct_eq16 (chap_tag stk ?k aad ?b) (drop (length ct - 16) ct)" and p: "pt = ?x 1 ?b"
      by (auto simp: lr_chap_open_eq Let_def split: if_splits)
    from e n t [OF assms(1)] have "chap_tag stk ?k aad ?b = drop (length ct - 16) ct"
      by (subst (asm) ct_eq16_iff) simp_all
    moreover have "?x 1 pt = ?b" by (simp add: p)
    ultimately show "ct = lr_chap_seal stk' c nonce aad pt"
      unfolding lr_chap_seal_def Let_def chap_body
      using chap_tag_stk [OF assms l, of aad ?b] by simp
  next
    assume a: "ct = lr_chap_seal stk' c nonce aad pt"
    then have c: "ct = ?x 1 pt @ chap_tag stk' ?k aad (?x 1 pt)"
      unfolding lr_chap_seal_def Let_def chap_body .
    have "length ct = length pt + 16" unfolding a by (simp add: assms)
    then have b: "take (length ct - 16) ct = ?x 1 pt" "drop (length ct - 16) ct = chap_tag stk' ?k aad (?x 1 pt)"
      and n: "\<not> length ct < 16" unfolding c by simp_all
    show "lr_chap_open stk c nonce aad ct = Some pt"
      unfolding lr_chap_open_eq Let_def b using n chap_tag_stk [OF assms l, of aad "?x 1 pt"]
      by (simp add: ct_eq16_iff t assms)
  qed
qed

section \<open>Properties\<close>


text \<open>
  C3. Opening accepts exactly what sealing writes: \<open>lr_chap_open\<close> returns \<open>pt\<close> on a buffer if and
  only if the buffer is \<open>lr_chap_seal\<close> of \<open>pt\<close> under the same key, nonce and associated data.
  So the round trip holds, no shorter and no altered buffer is accepted, and the two calls need
  not find the same bytes on the stack.
\<close>

theorem chap_open_exact:
  "stk_ok stk \<Longrightarrow> stk_ok stk' \<Longrightarrow>
   lr_chap_open stk c nonce aad ct = Some pt \<longleftrightarrow> ct = lr_chap_seal stk' c nonce aad pt"
  by (rule chap_open_iff_seal)

definition stk_zero :: poly1305_state where
  "stk_zero = \<lparr> p_r = (0, 0, 0, 0, 0), p_h = (0, 0, 0, 0, 0), p_pad = [], p_leftover = 0,
     p_buffer = replicate 16 0, p_final = False \<rparr>"

lemma stk_zero_ok [simp]: "stk_ok stk_zero"
  by (simp add: stk_ok_def stk_zero_def)


theorem chap_open_exact_witness:
  "stk_ok stk_zero \<and>
   lr_chap_open stk_zero (lr_chap_new PATH_ARM (replicate 32 7)) (replicate 12 1) [1, 2]
     (lr_chap_seal stk_zero (lr_chap_new PATH_ARM (replicate 32 7)) (replicate 12 1) [1, 2] [3, 4, 5]) = Some [3, 4, 5]"
  using chap_open_exact [of stk_zero stk_zero "lr_chap_new PATH_ARM (replicate 32 7)" "replicate 12 1" "[1, 2]"
      "lr_chap_seal stk_zero (lr_chap_new PATH_ARM (replicate 32 7)) (replicate 12 1) [1, 2] [3, 4, 5]" "[3, 4, 5]"]
  by simp

end
