(* ===== verification/Gcm.thy ===== *)
theory Gcm
  imports Bytes
begin

text \<open>
  The portable path of AES-256-GCM in \<open>src/src/core/simd_crypto.c\<close>: the key expansion, the block cipher, the
  four-bit GHASH tables and counter mode.  The references are GHASH and counter mode of SP 800-38D; the
  lemmas show that the tables multiply in its field.
\<close>

section \<open>AES-256\<close>

definition kSbox :: "bytes" where
  "kSbox = [
    0x63, 0x7c, 0x77, 0x7b, 0xf2, 0x6b, 0x6f, 0xc5, 0x30, 0x01, 0x67, 0x2b, 0xfe, 0xd7, 0xab, 0x76,
    0xca, 0x82, 0xc9, 0x7d, 0xfa, 0x59, 0x47, 0xf0, 0xad, 0xd4, 0xa2, 0xaf, 0x9c, 0xa4, 0x72, 0xc0,
    0xb7, 0xfd, 0x93, 0x26, 0x36, 0x3f, 0xf7, 0xcc, 0x34, 0xa5, 0xe5, 0xf1, 0x71, 0xd8, 0x31, 0x15,
    0x04, 0xc7, 0x23, 0xc3, 0x18, 0x96, 0x05, 0x9a, 0x07, 0x12, 0x80, 0xe2, 0xeb, 0x27, 0xb2, 0x75,
    0x09, 0x83, 0x2c, 0x1a, 0x1b, 0x6e, 0x5a, 0xa0, 0x52, 0x3b, 0xd6, 0xb3, 0x29, 0xe3, 0x2f, 0x84,
    0x53, 0xd1, 0x00, 0xed, 0x20, 0xfc, 0xb1, 0x5b, 0x6a, 0xcb, 0xbe, 0x39, 0x4a, 0x4c, 0x58, 0xcf,
    0xd0, 0xef, 0xaa, 0xfb, 0x43, 0x4d, 0x33, 0x85, 0x45, 0xf9, 0x02, 0x7f, 0x50, 0x3c, 0x9f, 0xa8,
    0x51, 0xa3, 0x40, 0x8f, 0x92, 0x9d, 0x38, 0xf5, 0xbc, 0xb6, 0xda, 0x21, 0x10, 0xff, 0xf3, 0xd2,
    0xcd, 0x0c, 0x13, 0xec, 0x5f, 0x97, 0x44, 0x17, 0xc4, 0xa7, 0x7e, 0x3d, 0x64, 0x5d, 0x19, 0x73,
    0x60, 0x81, 0x4f, 0xdc, 0x22, 0x2a, 0x90, 0x88, 0x46, 0xee, 0xb8, 0x14, 0xde, 0x5e, 0x0b, 0xdb,
    0xe0, 0x32, 0x3a, 0x0a, 0x49, 0x06, 0x24, 0x5c, 0xc2, 0xd3, 0xac, 0x62, 0x91, 0x95, 0xe4, 0x79,
    0xe7, 0xc8, 0x37, 0x6d, 0x8d, 0xd5, 0x4e, 0xa9, 0x6c, 0x56, 0xf4, 0xea, 0x65, 0x7a, 0xae, 0x08,
    0xba, 0x78, 0x25, 0x2e, 0x1c, 0xa6, 0xb4, 0xc6, 0xe8, 0xdd, 0x74, 0x1f, 0x4b, 0xbd, 0x8b, 0x8a,
    0x70, 0x3e, 0xb5, 0x66, 0x48, 0x03, 0xf6, 0x0e, 0x61, 0x35, 0x57, 0xb9, 0x86, 0xc1, 0x1d, 0x9e,
    0xe1, 0xf8, 0x98, 0x11, 0x69, 0xd9, 0x8e, 0x94, 0x9b, 0x1e, 0x87, 0xe9, 0xce, 0x55, 0x28, 0xdf,
    0x8c, 0xa1, 0x89, 0x0d, 0xbf, 0xe6, 0x42, 0x68, 0x41, 0x99, 0x2d, 0x0f, 0xb0, 0x54, 0xbb, 0x16]"

definition sbox :: "u8 \<Rightarrow> u8" where
  "sbox x = kSbox ! unat x"

definition xtime :: "u8 \<Rightarrow> u8" where
  "xtime x = push_bit 1 x XOR (drop_bit 7 x * 0x1b)"

text \<open>One iteration of the loop over \<open>w[i]\<close>, with the running round constant.\<close>

definition expand_step :: "nat \<Rightarrow> bytes list \<times> u8 \<Rightarrow> bytes list \<times> u8" where
  "expand_step i = (\<lambda>(w, rcon).
     let t = w ! (i - 1);
         (t, rcon) =
           (if i mod 8 = 0
            then ([sbox (t ! 1) XOR rcon, sbox (t ! 2), sbox (t ! 3), sbox (t ! 0)], xtime rcon)
            else if i mod 8 = 4 then (map sbox t, rcon)
            else (t, rcon))
     in (w @ [map (\<lambda>j. w ! (i - 8) ! j XOR t ! j) [0..<4]], rcon))"

definition aes256_expand_portable :: "bytes \<Rightarrow> bytes list" where
  "aes256_expand_portable key =
     (let w = map (\<lambda>i. map (\<lambda>j. key ! (4 * i + j)) [0..<4]) [0..<8];
          w = fst (fold expand_step [8..<60] (w, 1))
      in map (\<lambda>r. concat (map (\<lambda>c. w ! (4 * r + c)) [0..<4])) [0..<15])"

definition sub_shift :: "bytes \<Rightarrow> bytes" where
  "sub_shift s = concat (map (\<lambda>c. map (\<lambda>j. sbox (s ! (4 * ((c + j) mod 4) + j))) [0..<4]) [0..<4])"

definition mix_columns :: "bytes \<Rightarrow> bytes" where
  "mix_columns t = concat (map (\<lambda>c.
     let a0 = t ! (4 * c); a1 = t ! (4 * c + 1); a2 = t ! (4 * c + 2); a3 = t ! (4 * c + 3);
         x = a0 XOR a1 XOR a2 XOR a3
     in [a0 XOR x XOR xtime (a0 XOR a1), a1 XOR x XOR xtime (a1 XOR a2),
         a2 XOR x XOR xtime (a2 XOR a3), a3 XOR x XOR xtime (a3 XOR a0)]) [0..<4])"

definition aes_round :: "bytes list \<Rightarrow> nat \<Rightarrow> bytes \<Rightarrow> bytes" where
  "aes_round rk r s =
     (let t = sub_shift s; s = (if r \<noteq> 14 then mix_columns t else t)
      in map (\<lambda>i. s ! i XOR rk ! r ! i) [0..<16])"

definition aes256_encrypt_portable :: "bytes list \<Rightarrow> bytes \<Rightarrow> bytes" where
  "aes256_encrypt_portable rk inp =
     fold (aes_round rk) [1..<15] (map (\<lambda>i. inp ! i XOR rk ! 0 ! i) [0..<16])"

section \<open>GHASH\<close>

definition load64_be :: "bytes \<Rightarrow> u64" where
  "load64_be b = fold (\<lambda>x a. push_bit 8 a OR ucast x) (take 8 b) 0"

text \<open>The halving step of \<open>ghash_tables_init\<close> on the pair \<open>(hi, lo)\<close>.\<close>

definition table_halve :: "u64 \<times> u64 \<Rightarrow> u64 \<times> u64" where
  "table_halve = (\<lambda>(hi, lo).
     let t = ucast (lo AND 1) * 0xe1000000 :: u32;
         lo' = drop_bit 1 lo OR push_bit 63 hi;
         hi' = drop_bit 1 hi XOR push_bit 32 (ucast t)
     in (hi', lo'))"

definition table_fill :: "nat \<Rightarrow> (u64 \<times> u64) list \<Rightarrow> (u64 \<times> u64) list" where
  "table_fill i T = fold (\<lambda>j T. T[i + j := (fst (T ! i) XOR fst (T ! j), snd (T ! i) XOR snd (T ! j))]) [1..<i] T"

definition ghash_tables_init :: "bytes \<Rightarrow> (u64 \<times> u64) list" where
  "ghash_tables_init H =
     (let v = (load64_be H, load64_be (drop 8 H));
          T = (replicate 16 (0, 0))[8 := v];
          v = table_halve v; T = T[4 := v];
          v = table_halve v; T = T[2 := v];
          v = table_halve v; T = T[1 := v]
      in table_fill 8 (table_fill 4 (table_fill 2 T)))"

definition kLast4 :: "u64 list" where
  "kLast4 = [0x0000, 0x1c20, 0x3840, 0x2460, 0x7080, 0x6ca0, 0x48c0, 0x54e0,
             0xe100, 0xfd20, 0xd940, 0xc560, 0x9180, 0x8da0, 0xa9c0, 0xb5e0]"

text \<open>Shift \<open>(zh, zl)\<close> right by four with reduction, then add the table entry of a nibble.\<close>

definition ghash_nibble :: "(u64 \<times> u64) list \<Rightarrow> u8 \<Rightarrow> u64 \<times> u64 \<Rightarrow> u64 \<times> u64" where
  "ghash_nibble T n = (\<lambda>(zh, zl).
     let rem = unat (zl AND 0x0f);
         zl = drop_bit 4 zl OR push_bit 60 zh;
         zh = drop_bit 4 zh;
         zh = zh XOR push_bit 48 (kLast4 ! rem)
     in (zh XOR fst (T ! unat n), zl XOR snd (T ! unat n)))"

definition ghash_block_portable :: "(u64 \<times> u64) list \<Rightarrow> bytes \<Rightarrow> bytes" where
  "ghash_block_portable T x =
     (let z = T ! unat (x ! 15 AND 0x0f);
          z = fold (\<lambda>i z. let z = (if i \<noteq> 15 then ghash_nibble T (x ! i AND 0x0f) z else z)
                          in ghash_nibble T (drop_bit 4 (x ! i)) z) (rev [0..<16]) z
      in store64_be (fst z) @ store64_be (snd z))"

definition xor_into :: "bytes \<Rightarrow> bytes \<Rightarrow> bytes" where
  "xor_into y d = xor_bytes (take (length d) y) d @ drop (length d) y"

function ghash_update_portable :: "(u64 \<times> u64) list \<Rightarrow> bytes \<Rightarrow> bytes \<Rightarrow> bytes" where
  "ghash_update_portable T y data =
     (if length data \<ge> 16
      then ghash_update_portable T (ghash_block_portable T (xor_into y (take 16 data))) (drop 16 data)
      else if data \<noteq> [] then ghash_block_portable T (xor_into y data)
      else y)"
  by pat_completeness auto
termination
  by (relation "measure (\<lambda>(T, y, data). length data)") auto

declare ghash_update_portable.simps [simp del]

section \<open>Counter mode\<close>

definition ctr_inc :: "bytes \<Rightarrow> bytes" where
  "ctr_inc ctr =
     (let v = push_bit 24 (ucast (ctr ! 12)) OR push_bit 16 (ucast (ctr ! 13)) OR
              push_bit 8 (ucast (ctr ! 14)) OR ucast (ctr ! 15) :: u32;
          v = v + 1
      in ctr[12 := ucast (drop_bit 24 v), 13 := ucast (drop_bit 16 v), 14 := ucast (drop_bit 8 v), 15 := ucast v])"

function aes_ctr_portable :: "bytes list \<Rightarrow> bytes \<Rightarrow> bytes \<Rightarrow> bytes \<times> bytes" where
  "aes_ctr_portable rk ctr inp =
     (if inp = [] then (ctr, [])
      else let ks = aes256_encrypt_portable rk ctr;
               (ctr', out) = aes_ctr_portable rk (ctr_inc ctr) (drop 16 inp)
           in (ctr', xor_bytes (take 16 inp) ks @ out))"
  by pat_completeness auto
termination
  by (relation "measure (\<lambda>(rk, ctr, inp). length inp)") auto

declare aes_ctr_portable.simps [simp del]

section \<open>Lemmas\<close>

lemma fold_aes_round_length: "length s = 16 \<Longrightarrow> length (fold (aes_round rk) rs s) = 16"
  by (induction rs arbitrary: s) (simp_all add: aes_round_def Let_def)

lemma length_aes256_encrypt_portable [simp]: "length (aes256_encrypt_portable rk inp) = 16"
  by (simp add: aes256_encrypt_portable_def fold_aes_round_length)

lemma aes_ctr_Nil [simp]: "aes_ctr_portable rk ctr [] = (ctr, [])"
  by (subst aes_ctr_portable.simps) simp

lemma aes_ctr_step:
  "inp \<noteq> [] \<Longrightarrow> aes_ctr_portable rk ctr inp =
     (fst (aes_ctr_portable rk (ctr_inc ctr) (drop 16 inp)),
      xor_bytes (take 16 inp) (aes256_encrypt_portable rk ctr) @ snd (aes_ctr_portable rk (ctr_inc ctr) (drop 16 inp)))"
  by (subst aes_ctr_portable.simps) (simp add: Let_def split: prod.split)

lemma length_aes_ctr [simp]: "length (snd (aes_ctr_portable rk ctr inp)) = length inp"
proof (induction rk ctr inp rule: aes_ctr_portable.induct)
  case (1 rk ctr inp)
  then show ?case by (cases "inp = []") (simp_all add: aes_ctr_step [of inp])
qed

lemma aes_ctr_twice: "snd (aes_ctr_portable rk ctr (snd (aes_ctr_portable rk ctr inp))) = inp"
proof (induction rk ctr inp rule: aes_ctr_portable.induct)
  case (1 rk ctr inp)
  show ?case
  proof (cases "inp = []")
    case False
    let ?ks = "aes256_encrypt_portable rk ctr"
    let ?a = "xor_bytes (take 16 inp) ?ks" and ?r = "snd (aes_ctr_portable rk (ctr_inc ctr) (drop 16 inp))"
    have IH: "snd (aes_ctr_portable rk (ctr_inc ctr) ?r) = drop 16 inp" using 1 False by simp
    have la: "length ?a = min 16 (length inp)" by simp
    have "?a \<noteq> []" using la False by (metis length_greater_0_conv list.size(3) min_less_iff_conj zero_less_numeral)
    then have ne: "?a @ ?r \<noteq> []" by simp
    have d: "take 16 (?a @ ?r) = ?a" "drop 16 (?a @ ?r) = ?r" by (auto simp: min_def)
    have "snd (aes_ctr_portable rk ctr (?a @ ?r)) = xor_bytes ?a ?ks @ snd (aes_ctr_portable rk (ctr_inc ctr) ?r)"
      unfolding aes_ctr_step [OF ne, of rk ctr] d by simp
    also have "\<dots> = inp" unfolding IH by simp
    finally show ?thesis unfolding aes_ctr_step [OF False, of rk ctr] by simp
  qed simp
qed

lemma length_ghash_block [simp]: "length (ghash_block_portable T x) = 16"
  by (simp add: ghash_block_portable_def Let_def)

lemma length_ghash_update [simp]: "length y = 16 \<Longrightarrow> length (ghash_update_portable T y data) = 16"
proof (induction T y data rule: ghash_update_portable.induct)
  case (1 T y data)
  then show ?case by (subst ghash_update_portable.simps) simp
qed

section \<open>GHASH is multiplication in the field of SP 800-38D\<close>

type_synonym blk = "u64 \<times> u64"

definition bx :: "blk \<Rightarrow> blk \<Rightarrow> blk" where
  "bx a b = (fst a XOR fst b, snd a XOR snd b)"

definition b0 :: blk where
  "b0 = (0, 0)"

definition bsel :: "bool \<Rightarrow> blk \<Rightarrow> blk" where
  "bsel c a = (if c then a else b0)"

definition block_bit :: "bytes \<Rightarrow> nat \<Rightarrow> bool" where
  "block_bit x i = bit (x ! (i div 8)) (7 - i mod 8)"

text \<open>The right shift of algorithm 1 of SP 800-38D: reduce by \<open>R = 11100001 || 0^120\<close>.\<close>

definition gf_halve :: "blk \<Rightarrow> blk" where
  "gf_halve v =
     (let s = (drop_bit 1 (fst v), drop_bit 1 (snd v) OR push_bit 63 (fst v))
      in if bit (snd v) 0 then (fst s XOR 0xe100000000000000, snd s) else s)"

definition gf_mul :: "bytes \<Rightarrow> blk \<Rightarrow> blk" where
  "gf_mul x H = fst (fold (\<lambda>i (Z, V). (if block_bit x i then bx Z V else Z, gf_halve V)) [0..<128] (b0, H))"

lemma bx_assoc: "bx (bx a b) c = bx a (bx b c)"
  by (simp add: bx_def xor.assoc)

lemma bx_commute: "bx a b = bx b a"
  by (simp add: bx_def xor.commute)

lemma bx_left_commute: "bx a (bx b c) = bx b (bx a c)"
  by (metis bx_assoc bx_commute)

lemmas bx_ac = bx_assoc bx_commute bx_left_commute

lemma bx_b0 [simp]: "bx a b0 = a" "bx b0 a = a"
  by (simp_all add: bx_def b0_def)

lemma gf_halve_alt:
  "gf_halve v = (drop_bit 1 (fst v) XOR (if bit (snd v) 0 then 0xe100000000000000 else 0),
                 drop_bit 1 (snd v) OR push_bit 63 (fst v))"
  by (simp add: gf_halve_def Let_def)

lemma table_halve_gf: "table_halve v = gf_halve v"
proof -
  have "lo AND 1 = (if bit lo 0 then 1 else 0)" for lo :: u64
    by (rule bit_word_eqI) (auto simp: bit_simps intro: gr0I)
  then show ?thesis by (cases v) (simp add: table_halve_def gf_halve_alt Let_def)
qed

lemma gf_halve_bx: "gf_halve (bx a b) = bx (gf_halve a) (gf_halve b)"
proof -
  have "drop_bit 1 (x XOR y) OR push_bit 63 (u XOR v) =
      (drop_bit 1 x OR push_bit 63 u) XOR (drop_bit 1 y OR push_bit 63 v)" for x y u v :: u64
    by (rule bit_word_eqI) (auto simp: bit_simps dest: bit_imp_le_length)
  then show ?thesis
    by (auto simp: gf_halve_alt bx_def drop_bit_xor bit_xor_iff xor.assoc xor.left_commute)
qed

lemma gf_halve_b0 [simp]: "gf_halve b0 = b0"
  by (simp add: gf_halve_alt b0_def)

lemma gf_halve_pow_bx: "(gf_halve ^^ n) (bx a b) = bx ((gf_halve ^^ n) a) ((gf_halve ^^ n) b)"
  by (induction n) (simp_all add: gf_halve_bx)

lemma gf_halve_pow_b0 [simp]: "(gf_halve ^^ n) b0 = b0"
  by (induction n) simp_all

text \<open>Four halvings at once, as \<open>ghash_block_portable\<close> does them.\<close>

lemma low_nibble: "unat (lo AND 0x0f :: u64) =
    of_bool (bit lo 0) + 2 * of_bool (bit lo 1) + 4 * of_bool (bit lo 2) + 8 * of_bool (bit lo 3)"
proof -
  have i: "[0..<4] = [0, 1, 2, 3]" by (simp add: upt_rec)
  have "unat (lo AND 0x0f) = take_bit 4 (unat lo)"
    using take_bit_eq_mask [of 4 lo] by (simp add: mask_eq_exp_minus_1 flip: unsigned_take_bit_eq)
  also have "\<dots> = horner_sum of_bool 2 (map (bit (unat lo)) [0..<4])"
    by (simp only: horner_sum_bit_eq_take_bit)
  also have "\<dots> = of_bool (bit lo 0) + 2 * of_bool (bit lo 1) + 4 * of_bool (bit lo 2) + 8 * of_bool (bit lo 3)"
    unfolding i by (simp add: bit_unsigned_iff algebra_simps)
  finally show ?thesis .
qed

lemma last4:
  "push_bit 48 (kLast4 ! unat (lo AND 0x0f :: u64)) =
     drop_bit 3 (if bit lo 0 then 0xe100000000000000 else 0) XOR drop_bit 2 (if bit lo 1 then 0xe100000000000000 else 0) XOR
     drop_bit 1 (if bit lo 2 then 0xe100000000000000 else 0) XOR (if bit lo 3 then 0xe100000000000000 else (0 :: u64))"
  unfolding low_nibble
  by (cases "bit lo 0"; cases "bit lo 1"; cases "bit lo 2"; cases "bit lo 3") (simp_all add: kLast4_def)

definition redc :: "bool \<Rightarrow> u64" where
  "redc b = (if b then 0xe100000000000000 else 0)"

lemma redc_low: "\<not> bit (redc b) 0" "\<not> bit (redc b) 1" "\<not> bit (redc b) 2" "\<not> bit (redc b) 3"
  by (simp_all add: redc_def)

lemma halve_step:
  assumes "k < 4" "\<not> bit e 0"
  shows "gf_halve (drop_bit k hi XOR e, drop_bit k lo OR push_bit (64 - k) hi) =
     (drop_bit (Suc k) hi XOR (drop_bit 1 e XOR redc (bit lo k)), drop_bit (Suc k) lo OR push_bit (64 - Suc k) hi)"
proof -
  have b: "bit (drop_bit k lo OR push_bit (64 - k) hi) 0 = bit lo k"
    using assms(1) by (auto simp: bit_simps)
  have l: "drop_bit 1 (drop_bit k lo OR push_bit (64 - k) hi) OR push_bit 63 (drop_bit k hi XOR e) =
      drop_bit (Suc k) lo OR push_bit (64 - Suc k) hi"
  proof (rule bit_word_eqI)
    fix n assume "n < LENGTH(64)"
    then consider "n = 63" | "n < 63" by fastforce
    then show "bit (drop_bit 1 (drop_bit k lo OR push_bit (64 - k) hi) OR push_bit 63 (drop_bit k hi XOR e)) n =
        bit (drop_bit (Suc k) lo OR push_bit (64 - Suc k) hi) n"
      using assms by cases (auto simp: bit_simps add.commute dest: bit_imp_le_length)
  qed
  show ?thesis
    unfolding gf_halve_alt fst_conv snd_conv b l redc_def [symmetric]
    by (simp add: drop_bit_xor xor.assoc)
qed

lemma halve4:
  "(gf_halve ^^ 4) (hi, lo) =
     (drop_bit 4 hi XOR push_bit 48 (kLast4 ! unat (lo AND 0x0f)), drop_bit 4 lo OR push_bit 60 hi)"
proof -
  define e1 where "e1 = redc (bit lo 0)"
  define e2 where "e2 = drop_bit 1 e1 XOR redc (bit lo 1)"
  define e3 where "e3 = drop_bit 1 e2 XOR redc (bit lo 2)"
  define e4 where "e4 = drop_bit 1 e3 XOR redc (bit lo 3)"
  have z: "\<not> bit e1 0" "\<not> bit e2 0" "\<not> bit e3 0"
    using redc_low by (simp_all add: e1_def e2_def e3_def bit_simps numeral_2_eq_2)
  have s1: "gf_halve (hi, lo) = (drop_bit (Suc 0) hi XOR e1, drop_bit (Suc 0) lo OR push_bit 63 hi)"
    using halve_step [of 0 0 hi lo] by (simp add: e1_def)
  have s2: "gf_halve (drop_bit (Suc 0) hi XOR e1, drop_bit (Suc 0) lo OR push_bit 63 hi) =
      (drop_bit 2 hi XOR e2, drop_bit 2 lo OR push_bit 62 hi)"
    using halve_step [of 1 e1 hi lo] z by (simp add: e2_def numeral_2_eq_2)
  have s3: "gf_halve (drop_bit 2 hi XOR e2, drop_bit 2 lo OR push_bit 62 hi) =
      (drop_bit 3 hi XOR e3, drop_bit 3 lo OR push_bit 61 hi)"
    using halve_step [of 2 e2 hi lo] z by (simp add: e3_def)
  have s4: "gf_halve (drop_bit 3 hi XOR e3, drop_bit 3 lo OR push_bit 61 hi) =
      (drop_bit 4 hi XOR e4, drop_bit 4 lo OR push_bit 60 hi)"
    using halve_step [of 3 e3 hi lo] z by (simp add: e4_def)
  have e4: "e4 = push_bit 48 (kLast4 ! unat (lo AND 0x0f))"
    unfolding last4 redc_def [symmetric] e4_def e3_def e2_def e1_def
    by (simp add: drop_bit_xor xor.assoc numeral_2_eq_2 numeral_3_eq_3)
  have "(gf_halve ^^ 4) (hi, lo) = gf_halve (gf_halve (gf_halve (gf_halve (hi, lo))))"
    by (simp add: numeral_eq_Suc)
  then show ?thesis unfolding s1 s2 s3 s4 e4 .
qed

lemma ghash_nibble_eq: "ghash_nibble T n z = bx ((gf_halve ^^ 4) z) (T ! unat n)"
  by (cases z) (simp add: ghash_nibble_def halve4 bx_def Let_def)


definition lin4 :: "bool \<Rightarrow> bool \<Rightarrow> bool \<Rightarrow> bool \<Rightarrow> blk \<Rightarrow> blk" where
  "lin4 a b c d V =
     bx (bsel a V) (bx (bsel b (gf_halve V)) (bx (bsel c (gf_halve (gf_halve V)))
       (bsel d (gf_halve (gf_halve (gf_halve V))))))"

lemma tables_explicit:
  fixes H :: bytes
  defines "v \<equiv> (load64_be H, load64_be (drop 8 H))"
  defines "h1 \<equiv> gf_halve v" defines "h2 \<equiv> gf_halve h1" defines "h3 \<equiv> gf_halve h2"
  shows "ghash_tables_init H = [b0, h3, h2, bx h2 h3, h1, bx h1 h3, bx h1 h2, bx h1 (bx h2 h3),
     v, bx v h3, bx v h2, bx v (bx h2 h3), bx v h1, bx v (bx h1 h3), bx v (bx h1 h2), bx v (bx h1 (bx h2 h3))]"
proof -
  have r: "replicate 16 b0 = [b0, b0, b0, b0, b0, b0, b0, b0, b0, b0, b0, b0, b0, b0, b0, b0]"
    by (simp add: numeral_eq_Suc)
  have i: "[1..<2] = [1]" "[1..<4] = [1, 2, 3]" "[1..<8] = [1, 2, 3, 4, 5, 6, 7::nat]" by (simp_all add: upt_rec)
  show ?thesis
    unfolding ghash_tables_init_def Let_def table_halve_gf v_def [symmetric] h1_def [symmetric]
      h2_def [symmetric] h3_def [symmetric] table_fill_def i b0_def [symmetric] r bx_def [symmetric]
    by simp
qed

lemma table_lookup:
  assumes "n < 16"
  shows "ghash_tables_init H ! n = lin4 (bit n 3) (bit n 2) (bit n 1) (bit n 0) (load64_be H, load64_be (drop 8 H))"
proof -
  have "[0..<16] = [0, 1, 2, 3, 4, 5, 6, 7, 8, 9, 10, 11, 12, 13, 14, 15]" by (simp add: upt_rec)
  then have "n \<in> set [0, 1, 2, 3, 4, 5, 6, 7, 8, 9, 10, 11, 12, 13, 14, 15]"
    using assms by (metis atLeastLessThan_iff atLeastLessThan_upt le0)
  then have "n \<in> {0, 1, 2, 3, 4, 5, 6, 7, 8, 9, 10, 11, 12, 13, 14, 15}" by (simp only: list.set)
  then show ?thesis
    unfolding tables_explicit lin4_def bsel_def by (elim insertE) (simp_all add: bit_0)
qed

fun tailsum :: "bytes \<Rightarrow> blk \<Rightarrow> nat \<Rightarrow> nat \<Rightarrow> blk" where
  "tailsum x V m 0 = b0"
| "tailsum x V m (Suc r) = bx (bsel (block_bit x m) V) (gf_halve (tailsum x V (Suc m) r))"

lemma gf_halve_pow_bsel: "(gf_halve ^^ n) (bsel c V) = bsel c ((gf_halve ^^ n) V)"
  by (simp add: bsel_def)

lemma gf_mul_fold:
  "fst (fold (\<lambda>i (Z, V). (if block_bit x i then bx Z V else Z, gf_halve V)) [m..<m + r] (Z, (gf_halve ^^ m) V)) =
     bx Z ((gf_halve ^^ m) (tailsum x V m r))"
proof (induction r arbitrary: m Z)
  case (Suc r)
  have u: "[m..<m + Suc r] = m # [Suc m..<Suc m + r]" by (simp add: upt_rec)
  have b: "(if c then bx Z W else Z) = bx Z (bsel c W)" for c W by (simp add: bsel_def)
  show ?case
    unfolding u using Suc.IH [of "Suc m" "bx Z (bsel (block_bit x m) ((gf_halve ^^ m) V))"]
    by (simp add: b gf_halve_pow_bx gf_halve_pow_bsel bx_assoc funpow_swap1)
qed simp

lemma gf_mul_tailsum: "gf_mul x V = tailsum x V 0 128"
  using gf_mul_fold [of x 0 128 b0 V] by (simp add: gf_mul_def)

lemma tailsum4:
  "tailsum x V m (4 + r) =
     bx ((gf_halve ^^ 4) (tailsum x V (4 + m) r))
        (lin4 (block_bit x m) (block_bit x (1 + m)) (block_bit x (2 + m)) (block_bit x (3 + m)) V)"
proof -
  have s: "gf_halve (bsel c W) = bsel c (gf_halve W)" for c W using gf_halve_pow_bsel [of 1 c W] by simp
  show ?thesis
    by (simp add: numeral_eq_Suc lin4_def gf_halve_bx s) (simp add: bx_ac)
qed

lemma nibble_lookup:
  "ghash_tables_init H ! unat (b AND 0x0f :: u8) = lin4 (bit b 3) (bit b 2) (bit b 1) (bit b 0) (load64_be H, load64_be (drop 8 H))"
  "ghash_tables_init H ! unat (drop_bit 4 b) = lin4 (bit b 7) (bit b 6) (bit b 5) (bit b 4) (load64_be H, load64_be (drop 8 H))"
proof -
  have m: "b AND 0x0f = take_bit 4 b" by (simp add: take_bit_eq_mask mask_eq_exp_minus_1)
  have l: "unat (take_bit 4 b) < 16" unfolding unsigned_take_bit_eq using take_bit_nat_less_exp [of 4 "unat b"] by simp
  show "ghash_tables_init H ! unat (b AND 0x0f) = lin4 (bit b 3) (bit b 2) (bit b 1) (bit b 0) (load64_be H, load64_be (drop 8 H))"
    unfolding m table_lookup [OF l] by (simp add: bit_simps unsigned_take_bit_eq)
  have d: "unat (drop_bit 4 b) < 16"
    unfolding unat_drop_bit_eq drop_bit_eq_div [of 4 "unat b"] using unat_u8_lt [of b] by simp
  show "ghash_tables_init H ! unat (drop_bit 4 b) = lin4 (bit b 7) (bit b 6) (bit b 5) (bit b 4) (load64_be H, load64_be (drop 8 H))"
    by (subst table_lookup [OF d]) (simp add: unat_drop_bit_eq bit_simps)
qed

lemma ghash_byte:
  fixes H :: bytes
  defines "V \<equiv> (load64_be H, load64_be (drop 8 H))" and "T \<equiv> ghash_tables_init H"
  shows "i < 16 \<Longrightarrow> ghash_nibble T (x ! i AND 0x0f) (tailsum x V (8 * i + 8) r) = tailsum x V (8 * i + 4) (4 + r)"
    and "i < 16 \<Longrightarrow> ghash_nibble T (drop_bit 4 (x ! i)) (tailsum x V (8 * i + 4) r) = tailsum x V (8 * i) (4 + r)"
proof -
  have bb: "block_bit x (8 * i + k) = bit (x ! i) (7 - k)" if "k < 8" for k
    using that by (simp add: block_bit_def)
  show "ghash_nibble T (x ! i AND 0x0f) (tailsum x V (8 * i + 8) r) = tailsum x V (8 * i + 4) (4 + r)"
    unfolding ghash_nibble_eq T_def nibble_lookup tailsum4 V_def
    using bb [of 4] bb [of 5] bb [of 6] bb [of 7] by (simp add: algebra_simps)
  show "ghash_nibble T (drop_bit 4 (x ! i)) (tailsum x V (8 * i + 4) r) = tailsum x V (8 * i) (4 + r)"
    unfolding ghash_nibble_eq T_def nibble_lookup tailsum4 V_def
    using bb [of 0] bb [of 1] bb [of 2] bb [of 3] by (simp add: algebra_simps)
qed

lemma ghash_block_gf_mul:
  "ghash_block_portable (ghash_tables_init H) x =
     (let z = gf_mul x (load64_be H, load64_be (drop 8 H)) in store64_be (fst z) @ store64_be (snd z))"
proof -
  let ?V = "(load64_be H, load64_be (drop 8 H))" and ?T = "ghash_tables_init H"
  let ?f = "\<lambda>i z. let z = (if i \<noteq> 15 then ghash_nibble ?T (x ! i AND 0x0f) z else z) in ghash_nibble ?T (drop_bit 4 (x ! i)) z"
  have "tailsum x ?V 124 (4 + 0) = ?T ! unat (x ! 15 AND 0x0f)"
    unfolding tailsum4 nibble_lookup by (simp add: block_bit_def)
  then have z0: "?T ! unat (x ! 15 AND 0x0f) = tailsum x ?V 124 4" by simp
  have f15: "?f 15 (tailsum x ?V 124 4) = tailsum x ?V 120 8"
    using ghash_byte(2) [of 15 H x 4] by simp
  have "fold ?f (rev [15 - n..<15]) (tailsum x ?V 120 8) = tailsum x ?V (8 * (15 - n)) (8 + 8 * n)" if "n \<le> 15" for n
    using that
  proof (induction n)
    case (Suc n)
    have u: "rev [15 - Suc n..<15] = rev [15 - n..<15] @ [15 - Suc n]"
      using Suc.prems upt_conv_Cons [of "15 - Suc n" 15] Suc_diff_Suc [of n 15] by simp
    have ne: "14 - n \<noteq> (15::nat)" by arith
    have i: "8 * (15 - n) = 8 * (15 - Suc n) + 8" using Suc.prems by simp
    have st: "?f (15 - Suc n) (tailsum x ?V (8 * (15 - Suc n) + 8) (8 + 8 * n)) = tailsum x ?V (8 * (15 - Suc n)) (4 + (4 + (8 + 8 * n)))"
      using Suc.prems ghash_byte [of "15 - Suc n" H x] ne by simp
    have IH: "fold ?f (rev [15 - n..<15]) (tailsum x ?V 120 8) = tailsum x ?V (8 * (15 - Suc n) + 8) (8 + 8 * n)"
      unfolding i [symmetric] using Suc by (simp del: Let_def)
    have r: "8 + 8 * Suc n = 4 + (4 + (8 + 8 * n))" by simp
    show ?case unfolding u fold_append comp_apply IH r by (simp only: fold_simps st)
  qed simp
  from this [of 15] have "fold ?f (rev [0..<15]) (tailsum x ?V 120 8) = tailsum x ?V 0 128" by simp
  moreover have "rev [0..<16] = 15 # rev [0..<15]" by (simp add: upt_Suc_append [of 0 15, simplified] numeral_eq_Suc)
  ultimately have "fold ?f (rev [0..<16]) (?T ! unat (x ! 15 AND 0x0f)) = gf_mul x ?V"
    unfolding z0 gf_mul_tailsum using f15 by simp
  then show ?thesis unfolding ghash_block_portable_def Let_def by simp
qed

text \<open>GHASH over whole blocks, and counter mode, as SP 800-38D defines them.\<close>

definition gf_mul_bytes :: "bytes \<Rightarrow> bytes \<Rightarrow> bytes" where
  "gf_mul_bytes H x =
     (let z = gf_mul x (load64_be H, load64_be (drop 8 H)) in store64_be (fst z) @ store64_be (snd z))"

function ghash_spec :: "bytes \<Rightarrow> bytes \<Rightarrow> bytes \<Rightarrow> bytes" where
  "ghash_spec H y msg =
     (if msg = [] then y else ghash_spec H (gf_mul_bytes H (xor_bytes y (take 16 msg))) (drop 16 msg))"
  by pat_completeness auto
termination
  by (relation "measure (\<lambda>(H, y, msg). length msg)") auto

declare ghash_spec.simps [simp del]

lemma ghash_spec_Nil [simp]: "ghash_spec H y [] = y"
  by (subst ghash_spec.simps) simp

lemma ghash_spec_step:
  "msg \<noteq> [] \<Longrightarrow> ghash_spec H y msg = ghash_spec H (gf_mul_bytes H (xor_bytes y (take 16 msg))) (drop 16 msg)"
  by (subst ghash_spec.simps) simp

lemma length_gf_mul_bytes [simp]: "length (gf_mul_bytes H x) = 16"
  by (simp add: gf_mul_bytes_def Let_def)

lemma length_ghash_spec [simp]: "length y = 16 \<Longrightarrow> length (ghash_spec H y msg) = 16"
proof (induction H y msg rule: ghash_spec.induct)
  case (1 H y msg)
  then show ?case by (cases "msg = []") (simp_all add: ghash_spec_step [of msg])
qed

lemma ghash_spec_append:
  "length a = 16 * n \<Longrightarrow> ghash_spec H y (a @ b) = ghash_spec H (ghash_spec H y a) b"
proof (induction n arbitrary: y a)
  case (Suc n)
  then have "a \<noteq> []" "a @ b \<noteq> []" by auto
  with Suc show ?case by (simp add: ghash_spec_step [of "a @ b"] ghash_spec_step [of a])
qed simp

lemma ghash_spec_append_dvd: "16 dvd length a \<Longrightarrow> ghash_spec H y (a @ b) = ghash_spec H (ghash_spec H y a) b"
  by (auto simp: dvd_def intro: ghash_spec_append)

lemma xor_into_pad:
  "length y = 16 \<Longrightarrow> length d \<le> 16 \<Longrightarrow> xor_into y d = xor_bytes y (d @ replicate (16 - length d) 0)"
  by (rule nth_equalityI) (auto simp: xor_into_def nth_append)

lemma pad16_step: "16 \<le> length d \<Longrightarrow> take 16 (pad16 d) = take 16 d \<and> drop 16 (pad16 d) = pad16 (drop 16 d) \<and> pad16 d \<noteq> []"
  by (auto simp: pad16_def mod_if [of "length d" 16] le_mod_geq)

lemma pad16_short: "d \<noteq> [] \<Longrightarrow> length d < 16 \<Longrightarrow> pad16 d = d @ replicate (16 - length d) 0"
  by (simp add: pad16_def)

lemma ghash_update_spec:
  "length y = 16 \<Longrightarrow> ghash_update_portable (ghash_tables_init H) y data = ghash_spec H y (pad16 data)"
proof (induction "ghash_tables_init H" y data rule: ghash_update_portable.induct)
  case (1 y data)
  have b: "ghash_block_portable (ghash_tables_init H) x = gf_mul_bytes H x" for x
    by (simp add: ghash_block_gf_mul gf_mul_bytes_def)
  consider "16 \<le> length data" | "data \<noteq> []" "length data < 16" | "data = []" by linarith
  then show ?case
  proof cases
    case 1
    then show ?thesis
      using "1.hyps"(1) [OF 1] "1.prems" pad16_step [OF 1] xor_into_pad [of y "take 16 data"]
      by (subst ghash_update_portable.simps, subst ghash_spec.simps) (simp add: b)
  next
    case 2
    then show ?thesis
      using "1.prems" by (subst ghash_update_portable.simps, subst ghash_spec.simps) (simp add: b pad16_short xor_into_pad)
  next
    case 3
    then show ?thesis by (subst ghash_update_portable.simps) (simp add: pad16_def)
  qed
qed

definition gctr_stream :: "bytes list \<Rightarrow> bytes \<Rightarrow> nat \<Rightarrow> bytes" where
  "gctr_stream rk ctr n = concat (map (\<lambda>i. aes256_encrypt_portable rk ((ctr_inc ^^ i) ctr)) [0..<n])"

lemma aes_ctr_gctr:
  "length inp \<le> 16 * n \<Longrightarrow> snd (aes_ctr_portable rk ctr inp) = xor_bytes inp (gctr_stream rk ctr n)"
proof (induction n arbitrary: ctr inp)
  case (Suc n)
  show ?case
  proof (cases "inp = []")
    case False
    have "gctr_stream rk ctr (Suc n) = aes256_encrypt_portable rk ctr @ gctr_stream rk (ctr_inc ctr) n"
      by (simp add: gctr_stream_def upt_conv_Cons map_Suc_upt [symmetric] comp_def funpow_swap1 del: upt_Suc)
    then show ?thesis
      using Suc.IH [of "drop 16 inp" "ctr_inc ctr"] Suc.prems
        xor_bytes_append [of "take 16 inp" "aes256_encrypt_portable rk ctr" "drop 16 inp"]
      unfolding aes_ctr_step [OF False] by (simp add: xor_bytes_append2)
  qed simp
qed simp

lemma fst_aes_ctr_16: "length inp = 16 \<Longrightarrow> fst (aes_ctr_portable rk ctr inp) = ctr_inc ctr"
  using aes_ctr_step [of inp rk ctr] by (cases "inp = []") auto

end
