(* ===== verification/Registers.thy ===== *)
theory Registers
  imports Gcm
begin

text \<open>
  The 128-bit registers of \<open>src/src/core/simd_crypto.c\<close> and the instructions its AES-GCM paths use, as the
  architecture manuals define them.  A register is a 128-bit word; memory holds its bytes lowest first.
  The AES instructions are defined by the transformations of FIPS 197, where a state of sixteen bytes is
  filled column by column and the S-box is the table of the standard, and the carry-less product as the sum
  of shifted copies.  The lemmas give the bits of every instruction and relate the transformations to the
  portable rounds.
\<close>

section \<open>Registers and memory\<close>

type_synonym m128i = "128 word"

definition reg_load :: "bytes \<Rightarrow> m128i" where
  "reg_load p = fold (\<lambda>i a. a OR push_bit (8 * i) (ucast (p ! i))) [0..<16] 0"

definition reg_store :: "m128i \<Rightarrow> bytes" where
  "reg_store x = map (\<lambda>i. ucast (drop_bit (8 * i) x)) [0..<16]"

lemma bit_reg_load_fold:
  "bit (fold (\<lambda>i a. a OR push_bit (8 * i) (ucast (p ! i :: u8))) [0..<n] (0 :: m128i)) k \<longleftrightarrow>
     k < 128 \<and> k < 8 * n \<and> bit (p ! (k div 8)) (k mod 8)"
proof (induction n)
  case (Suc n)
  have s: "bit (push_bit (8 * n) (ucast (p ! n)) :: m128i) k \<longleftrightarrow> k < 128 \<and> k div 8 = n \<and> bit (p ! n) (k mod 8)"
  proof (cases "k div 8 = n")
    case True
    then have "8 * n \<le> k" "k - 8 * n = k mod 8" by (linarith, simp add: minus_div_mult_eq_mod [symmetric] mult.commute)
    with True show ?thesis by (auto simp: bit_push_bit_iff bit_ucast_iff possible_bit_word)
  next
    case False
    then have "k < 8 * n \<or> 8 \<le> k - 8 * n" by linarith
    then have "\<not> (8 * n \<le> k \<and> bit (p ! n) (k - 8 * n))"
      using bit_imp_le_length [of "p ! n" "k - 8 * n"] by force
    then show ?thesis unfolding bit_push_bit_iff bit_ucast_iff using False by blast
  qed
  have "k < 8 * Suc n \<longleftrightarrow> k < 8 * n \<or> k div 8 = n" 
    using div_less_iff_less_mult [of 8 k "Suc n"] div_less_iff_less_mult [of 8 k n] by (auto simp: mult.commute less_Suc_eq)
  with Suc s show ?case by (auto simp: bit_or_iff)
qed simp

lemma bit_reg_load: "bit (reg_load p) k \<longleftrightarrow> k < 128 \<and> bit (p ! (k div 8)) (k mod 8)"
  using bit_reg_load_fold [of p 16 k] by (auto simp: reg_load_def)

lemma length_reg_store [simp]: "length (reg_store x) = 16"
  by (simp add: reg_store_def)

lemma bit_reg_store: "i < 16 \<Longrightarrow> bit (reg_store x ! i) k \<longleftrightarrow> k < 8 \<and> bit x (8 * i + k)"
  by (auto simp: reg_store_def bit_simps)

lemma reg_store_load: "i < 16 \<Longrightarrow> reg_store (reg_load p) ! i = p ! i"
  by (rule bit_word_eqI) (simp add: bit_reg_store bit_reg_load)

lemma reg_store_load_list: "length p = 16 \<Longrightarrow> reg_store (reg_load p) = p"
  by (rule nth_equalityI) (simp_all add: reg_store_load)

lemma reg_load_store [simp]: "reg_load (reg_store x) = x"
  by (rule bit_word_eqI) (simp add: bit_reg_store bit_reg_load)

lemma reg_load_cong: "(\<And>i. i < 16 \<Longrightarrow> p ! i = q ! i) \<Longrightarrow> reg_load p = reg_load q"
  by (rule bit_word_eqI) (simp add: bit_reg_load)

lemma reg_eqI: "(\<And>i. i < 16 \<Longrightarrow> reg_store x ! i = reg_store y ! i) \<Longrightarrow> x = y"
  by (metis reg_load_cong reg_load_store)

lemma reg_store_xor: "reg_store (x XOR y) = xor_bytes (reg_store x) (reg_store y)"
  by (rule nth_equalityI; simp; rule bit_word_eqI; simp add: bit_reg_store bit_simps)

section \<open>Lanes and shifts\<close>

text \<open>
  \<open>_mm_slli_si128\<close> and \<open>_mm_srli_si128\<close> shift the whole register by bytes, \<open>_mm_slli_epi32\<close> and
  \<open>_mm_srli_epi32\<close> every 32-bit lane by bits.
\<close>

definition lane :: "m128i \<Rightarrow> nat \<Rightarrow> u32" where
  "lane x i = ucast (drop_bit (32 * i) x)"

definition of_lanes :: "u32 \<Rightarrow> u32 \<Rightarrow> u32 \<Rightarrow> u32 \<Rightarrow> m128i" where
  "of_lanes a b c d = ucast a OR push_bit 32 (ucast b) OR push_bit 64 (ucast c) OR push_bit 96 (ucast d)"

definition mm_slli_si128 :: "m128i \<Rightarrow> nat \<Rightarrow> m128i" where
  "mm_slli_si128 x n = push_bit (8 * n) x"

definition mm_srli_si128 :: "m128i \<Rightarrow> nat \<Rightarrow> m128i" where
  "mm_srli_si128 x n = drop_bit (8 * n) x"

definition map_lanes :: "(u32 \<Rightarrow> u32) \<Rightarrow> m128i \<Rightarrow> m128i" where
  "map_lanes f x = of_lanes (f (lane x 0)) (f (lane x 1)) (f (lane x 2)) (f (lane x 3))"

definition mm_slli_epi32 :: "m128i \<Rightarrow> nat \<Rightarrow> m128i" where
  "mm_slli_epi32 x n = map_lanes (push_bit n) x"

definition mm_srli_epi32 :: "m128i \<Rightarrow> nat \<Rightarrow> m128i" where
  "mm_srli_epi32 x n = map_lanes (drop_bit n) x"

definition mm_shuffle_epi32 :: "m128i \<Rightarrow> nat \<Rightarrow> m128i" where
  "mm_shuffle_epi32 x imm =
     of_lanes (lane x (imm mod 4)) (lane x (imm div 4 mod 4)) (lane x (imm div 16 mod 4)) (lane x (imm div 64 mod 4))"

definition mm_insert_epi32 :: "m128i \<Rightarrow> u32 \<Rightarrow> nat \<Rightarrow> m128i" where
  "mm_insert_epi32 x v i = (let g = (\<lambda>j. if j = i then v else lane x j) in of_lanes (g 0) (g 1) (g 2) (g 3))"

text \<open>\<open>_mm_shuffle_epi8\<close> with a mask whose bytes are all below 16.\<close>

definition mm_shuffle_epi8 :: "m128i \<Rightarrow> m128i \<Rightarrow> m128i" where
  "mm_shuffle_epi8 x m = reg_load (map (\<lambda>i. reg_store x ! unat (reg_store m ! i AND 0x0f)) [0..<16])"

lemma bit_lane: "bit (lane x i) k \<longleftrightarrow> k < 32 \<and> bit x (32 * i + k)"
  by (auto simp: lane_def bit_simps)

lemma bit_of_lanes:
  "bit (of_lanes a b c d) k \<longleftrightarrow>
     (k < 32 \<and> bit a k) \<or> (32 \<le> k \<and> k < 64 \<and> bit b (k - 32)) \<or> (64 \<le> k \<and> k < 96 \<and> bit c (k - 64)) \<or> (96 \<le> k \<and> k < 128 \<and> bit d (k - 96))"
  by (auto simp: of_lanes_def bit_simps dest: bit_imp_le_length)

lemma lane_of_lanes [simp]:
  "lane (of_lanes a b c d) 0 = a" "lane (of_lanes a b c d) (Suc 0) = b" "lane (of_lanes a b c d) 2 = c" "lane (of_lanes a b c d) 3 = d"
  by (rule bit_word_eqI; force simp: bit_lane bit_of_lanes)+

lemma of_lanes_lane: "of_lanes (lane x 0) (lane x 1) (lane x 2) (lane x 3) = x"
proof (rule bit_word_eqI)
  fix k :: nat assume "k < LENGTH(128)"
  then consider "k < 32" | "32 \<le> k" "k < 64" | "64 \<le> k" "k < 96" | "96 \<le> k" "k < 128" by fastforce
  then show "bit (of_lanes (lane x 0) (lane x 1) (lane x 2) (lane x 3)) k = bit x k"
    by cases (auto simp: bit_lane bit_of_lanes)
qed

lemma lanes_eqI: "lane x 0 = lane y 0 \<Longrightarrow> lane x 1 = lane y 1 \<Longrightarrow> lane x 2 = lane y 2 \<Longrightarrow> lane x 3 = lane y 3 \<Longrightarrow> x = y"
  using of_lanes_lane [of x] of_lanes_lane [of y] by simp

section \<open>Carry-less multiplication\<close>

text \<open>The sum, which is XOR, of the first \<open>n\<close> values of a function.\<close>

primrec xsum :: "(nat \<Rightarrow> 'a::len word) \<Rightarrow> nat \<Rightarrow> 'a word" where
  "xsum f 0 = 0"
| "xsum f (Suc n) = xsum f n XOR f n"

definition clmul64 :: "u64 \<Rightarrow> u64 \<Rightarrow> m128i" where
  "clmul64 a b = xsum (\<lambda>i. if bit a i then push_bit i (ucast b) else 0) 64"

definition reg_half :: "m128i \<Rightarrow> nat \<Rightarrow> u64" where
  "reg_half x i = ucast (drop_bit (64 * i) x)"

text \<open>\<open>_mm_clmulepi64_si128\<close>: bit 0 of the immediate selects a half of the first operand, bit 4 one of the second.\<close>

definition mm_clmulepi64_si128 :: "m128i \<Rightarrow> m128i \<Rightarrow> nat \<Rightarrow> m128i" where
  "mm_clmulepi64_si128 a b imm = clmul64 (reg_half a (imm mod 2)) (reg_half b (imm div 16 mod 2))"

section \<open>AES\<close>

text \<open>The transformations of FIPS 197 on a state of sixteen bytes, column by column.\<close>

definition SubBytes :: "bytes \<Rightarrow> bytes" where
  "SubBytes s = map sbox s"

definition ShiftRows :: "bytes \<Rightarrow> bytes" where
  "ShiftRows s = map (\<lambda>i. s ! ((i + 4 * (i mod 4)) mod 16)) [0..<16]"

definition times2 :: "u8 \<Rightarrow> u8" where
  "times2 x = (if bit x 7 then push_bit 1 x XOR 0x1b else push_bit 1 x)"

definition times3 :: "u8 \<Rightarrow> u8" where
  "times3 x = times2 x XOR x"

definition mix_column :: "u8 \<Rightarrow> u8 \<Rightarrow> u8 \<Rightarrow> u8 \<Rightarrow> bytes" where
  "mix_column a b c d =
     [times2 a XOR times3 b XOR c XOR d, a XOR times2 b XOR times3 c XOR d,
      a XOR b XOR times2 c XOR times3 d, times3 a XOR b XOR c XOR times2 d]"

definition MixColumns :: "bytes \<Rightarrow> bytes" where
  "MixColumns s = concat (map (\<lambda>c. mix_column (s ! (4 * c)) (s ! (4 * c + 1)) (s ! (4 * c + 2)) (s ! (4 * c + 3))) [0..<4])"

text \<open>\<open>_mm_aesenc_si128\<close>, \<open>_mm_aesenclast_si128\<close> and \<open>_mm_aeskeygenassist_si128\<close>.\<close>

definition mm_aesenc_si128 :: "m128i \<Rightarrow> m128i \<Rightarrow> m128i" where
  "mm_aesenc_si128 a k = reg_load (MixColumns (SubBytes (ShiftRows (reg_store a)))) XOR k"

definition mm_aesenclast_si128 :: "m128i \<Rightarrow> m128i \<Rightarrow> m128i" where
  "mm_aesenclast_si128 a k = reg_load (SubBytes (ShiftRows (reg_store a))) XOR k"

definition SubWord :: "u32 \<Rightarrow> u32" where
  "SubWord w = load32_le (map sbox (store32_le w))"

definition RotWord :: "u32 \<Rightarrow> u32" where
  "RotWord w = load32_le (rotate1 (store32_le w))"

definition mm_aeskeygenassist_si128 :: "m128i \<Rightarrow> u8 \<Rightarrow> m128i" where
  "mm_aeskeygenassist_si128 a rcon =
     (let x1 = SubWord (lane a 1); x3 = SubWord (lane a 3)
      in of_lanes x1 (RotWord x1 XOR ucast rcon) x3 (RotWord x3 XOR ucast rcon))"

lemma xtime_times2: "xtime x = times2 x"
proof -
  have "drop_bit 7 x = of_bool (bit x 7)"
  proof (rule bit_word_eqI)
    fix n :: nat
    show "bit (drop_bit 7 x) n = bit (of_bool (bit x 7) :: u8) n"
      using bit_imp_le_length [of x "7 + n"] by (cases "n = 0") (auto simp: bit_drop_bit_eq bit_1_iff)
  qed
  then show ?thesis by (simp add: xtime_def times2_def)
qed

lemma xtime_xor: "xtime (x XOR y) = xtime x XOR xtime y"
  by (simp add: xtime_times2 times2_def bit_xor_iff push_bit_xor xor.assoc xor.commute xor.left_commute)

lemma upt4: "[0..<4] = [0, 1, 2, 3::nat]"
  by (simp add: upt_rec)

lemma upt16: "[0..<16] = [0, 1, 2, 3, 4, 5, 6, 7, 8, 9, 10, 11, 12, 13, 14, 15::nat]"
  by (simp add: upt_rec)

lemma mix_columns_fips: "mix_columns t = MixColumns t"
proof -
  have "[a XOR (a XOR b XOR c XOR d) XOR xtime (a XOR b), b XOR (a XOR b XOR c XOR d) XOR xtime (b XOR c),
        c XOR (a XOR b XOR c XOR d) XOR xtime (c XOR d), d XOR (a XOR b XOR c XOR d) XOR xtime (d XOR a)] = mix_column a b c d" for a b c d
    by (simp add: mix_column_def times3_def xtime_xor flip: xtime_times2) (simp add: xor.assoc xor.commute xor.left_commute)
  then show ?thesis by (simp add: mix_columns_def MixColumns_def Let_def)
qed

lemma sub_shift_fips: "sub_shift s = SubBytes (ShiftRows s)"
  unfolding sub_shift_def SubBytes_def ShiftRows_def upt4 upt16 by simp (simp only: numeral_2_eq_2)

end
