(* ===== verification/Field.thy ===== *)
theory Field
  imports Registers
begin

text \<open>
  The field of GHASH on 128-bit registers in the reflected order of the vector paths: bit \<open>127 - i\<close> is the
  coefficient of \<open>x^i\<close>, so multiplication by \<open>x\<close> is a right shift with reduction.  The product is bilinear
  and associative; the reduction of a 256-bit carry-less product, written with the shifts of \<open>gf_finish\<close>,
  computes it; and it is the product of SP 800-38D that the portable tables compute.
\<close>

section \<open>Sums\<close>

lemma xsum_xor: "xsum (\<lambda>i. f i XOR g i) n = xsum f n XOR xsum g n"
  by (induction n) (simp_all add: xor.assoc xor.left_commute)

lemma xsum_cong: "(\<And>i. i < n \<Longrightarrow> f i = g i) \<Longrightarrow> xsum f n = xsum g n"
  by (induction n) simp_all

lemma xsum_add: "xsum f (m + n) = xsum f m XOR xsum (\<lambda>i. f (m + i)) n"
  by (induction n) (simp_all add: xor.assoc)

lemma xsum_zero [simp]: "xsum (\<lambda>i. 0) n = 0"
  by (induction n) simp_all

lemma xsum_rev: "xsum (\<lambda>i. f (n - Suc i)) n = xsum f n"
proof (induction n)
  case (Suc n)
  have "xsum (\<lambda>i. f (Suc n - Suc i)) (1 + n) = f n XOR xsum (\<lambda>i. f (n - Suc i)) n"
    by (subst xsum_add) simp
  with Suc show ?case by (simp add: xor.commute)
qed simp

definition linear_word :: "('a::len word \<Rightarrow> 'b::len word) \<Rightarrow> bool" where
  "linear_word f \<longleftrightarrow> (\<forall>x y. f (x XOR y) = f x XOR f y)"

lemma linear_word_xor: "linear_word f \<Longrightarrow> f (x XOR y) = f x XOR f y"
  by (simp add: linear_word_def)

lemma linear_word_0: "linear_word f \<Longrightarrow> f 0 = 0"
  using linear_word_xor [of f 0 0] by simp

lemma linear_word_xsum: "linear_word f \<Longrightarrow> f (xsum g n) = xsum (\<lambda>i. f (g i)) n"
  by (induction n) (simp_all add: linear_word_0 linear_word_xor)

lemma linear_word_if: "linear_word f \<Longrightarrow> f (if c then x else 0) = (if c then f x else 0)"
  by (simp add: linear_word_0)

lemma linear_word_pow: "linear_word f \<Longrightarrow> linear_word (f ^^ n)" for f :: "'a::len word \<Rightarrow> 'a word"
  by (induction n) (simp_all add: linear_word_def)

lemma linear_word_shift [simp]: "linear_word (push_bit n)" "linear_word (drop_bit n)" "linear_word ucast"
  by (auto simp: linear_word_def push_bit_xor drop_bit_xor intro!: bit_word_eqI simp: bit_simps)

text \<open>A word is the sum of its bits.\<close>

lemma xsum_bits: "xsum (\<lambda>i. if bit x i then push_bit i 1 else 0) LENGTH('a) = (x :: 'a::len word)"
proof -
  have "bit (xsum (\<lambda>i. if bit x i then push_bit i 1 else 0) n :: 'a word) k \<longleftrightarrow> k < n \<and> bit x k" for n k
    by (induction n) (auto simp: bit_simps less_Suc_eq dest: bit_imp_le_length)
  then show ?thesis by (intro bit_word_eqI) simp
qed

section \<open>The product\<close>

definition halve :: "m128i \<Rightarrow> m128i" where
  "halve v = drop_bit 1 v XOR (if bit v 0 then push_bit 120 0xe1 else 0)"

definition gf_prod :: "m128i \<Rightarrow> m128i \<Rightarrow> m128i" where
  "gf_prod a b = xsum (\<lambda>i. if bit a (127 - i) then (halve ^^ i) b else 0) 128"

lemma linear_halve [simp]: "linear_word halve"
  by (simp add: linear_word_def halve_def drop_bit_xor bit_xor_iff xor.assoc xor.left_commute)

lemmas linear_halve_pow = linear_word_pow [OF linear_halve]

lemma gf_prod_xor_left: "gf_prod (a XOR b) c = gf_prod a c XOR gf_prod b c"
  unfolding gf_prod_def xsum_xor [symmetric] by (rule xsum_cong) (simp add: bit_xor_iff)

lemma gf_prod_xor_right: "gf_prod a (b XOR c) = gf_prod a b XOR gf_prod a c"
  unfolding gf_prod_def xsum_xor [symmetric] by (rule xsum_cong) (simp add: linear_word_xor [OF linear_halve_pow])

lemma gf_prod_halve_right: "gf_prod a ((halve ^^ n) b) = (halve ^^ n) (gf_prod a b)"
  unfolding gf_prod_def linear_word_xsum [OF linear_halve_pow]
  by (rule xsum_cong) (simp add: linear_word_if [OF linear_halve_pow] add.commute flip: comp_apply [of "halve ^^ _" "halve ^^ _"] funpow_add)

text \<open>The unit of the field, \<open>x^0\<close>.\<close>

definition gf_one :: m128i where
  "gf_one = push_bit 127 1"

lemma halve_monomial: "Suc k < 128 \<Longrightarrow> halve (push_bit (Suc k) 1) = push_bit k 1"
proof -
  assume "Suc k < 128"
  then have "drop_bit 1 (push_bit (Suc k) 1 :: m128i) = push_bit k 1"
    by (intro bit_word_eqI) (auto simp: bit_simps)
  then show ?thesis by (simp add: halve_def bit_simps)
qed

lemma halve_pow_one: "i \<le> 127 \<Longrightarrow> (halve ^^ i) gf_one = push_bit (127 - i) 1"
proof (induction i)
  case (Suc i)
  then have e: "127 - i = Suc (127 - Suc i)" "Suc (127 - Suc i) < 128" by simp_all
  have "(halve ^^ Suc i) gf_one = halve (push_bit (127 - i) 1)" using Suc by simp
  then show ?case unfolding e(1) by (simp only: halve_monomial [OF e(2)])
qed (simp add: gf_one_def)

lemma gf_prod_one [simp]: "gf_prod a gf_one = a"
proof -
  have "gf_prod a gf_one = xsum (\<lambda>i. (\<lambda>j. if bit a j then push_bit j 1 else 0) (128 - Suc i)) 128"
    unfolding gf_prod_def by (rule xsum_cong) (simp add: halve_pow_one)
  also have "\<dots> = xsum (\<lambda>j. if bit a j then push_bit j 1 else 0) 128" by (rule xsum_rev)
  also have "\<dots> = a" using xsum_bits [of a] by simp
  finally show ?thesis .
qed

lemma xsum_single: "k < n \<Longrightarrow> xsum (\<lambda>i. if i = k then f i else 0) n = f k"
proof (induction n)
  case (Suc n)
  have "k = n \<Longrightarrow> xsum (\<lambda>i. if i = k then f i else 0) n = 0" using xsum_cong [of n "\<lambda>i. if i = k then f i else 0" "\<lambda>i. 0"] by simp
  with Suc show ?case by (cases "k = n") auto
qed simp

lemma gf_prod_monomial: "k < 128 \<Longrightarrow> gf_prod (push_bit k 1) c = (halve ^^ (127 - k)) c"
proof -
  assume k: "k < 128"
  then have "i < 128 \<Longrightarrow> bit (push_bit k 1 :: m128i) (127 - i) \<longleftrightarrow> i = 127 - k" for i
    by (auto simp: bit_simps)
  then have "gf_prod (push_bit k 1) c = xsum (\<lambda>i. if i = 127 - k then (halve ^^ i) c else 0) 128"
    unfolding gf_prod_def by (intro xsum_cong) simp
  also have "\<dots> = (halve ^^ (127 - k)) c" by (rule xsum_single) simp
  finally show ?thesis .
qed

text \<open>The reduction: \<open>x^128 = 1 + x + x^2 + x^7\<close>.\<close>

lemma halve_pow_add: "(halve ^^ m) ((halve ^^ n) c) = (halve ^^ (m + n)) c"
  by (simp add: funpow_add)

lemma halve_128: "(halve ^^ 128) c = c XOR halve c XOR (halve ^^ 2) c XOR (halve ^^ 7) c"
proof -
  have g: "(halve ^^ n) c = gf_prod c ((halve ^^ n) gf_one)" for n
    using gf_prod_halve_right [of c n gf_one] by simp
  have e: "(halve ^^ 128) gf_one = halve 1"
    using halve_pow_one [of 127] halve_pow_add [of 1 127 gf_one] by simp
  have "halve 1 = push_bit 127 1 XOR push_bit 126 1 XOR push_bit 125 1 XOR push_bit 120 1" by (simp add: halve_def)
  then have "halve 1 = (halve ^^ 0) gf_one XOR (halve ^^ 1) gf_one XOR (halve ^^ 2) gf_one XOR (halve ^^ 7) gf_one"
    using halve_pow_one [of 0] halve_pow_one [of 1] halve_pow_one [of 2] halve_pow_one [of 7]
    by (simp only: diff_zero) (simp del: push_bit_of_1 funpow.simps)
  then show ?thesis
    using g [of 128] g [of 0] g [of 1] g [of 2] g [of 7] by (simp only: e gf_prod_xor_right) simp
qed

lemma linear_gf_prod [simp]: "linear_word (\<lambda>a. gf_prod a c)" "linear_word (gf_prod c)"
  by (simp_all add: linear_word_def gf_prod_xor_left gf_prod_xor_right)

lemma linear_eqI:
  fixes f g :: "m128i \<Rightarrow> m128i"
  assumes "linear_word f" "linear_word g" "\<And>k. k < 128 \<Longrightarrow> f (push_bit k 1) = g (push_bit k 1)"
  shows "f x = g x"
proof -
  have "f x = xsum (\<lambda>i. f (if bit x i then push_bit i 1 else 0)) 128"
    using linear_word_xsum [OF assms(1), of "\<lambda>i. if bit x i then push_bit i 1 else 0" 128] xsum_bits [of x] by simp
  also have "\<dots> = xsum (\<lambda>i. g (if bit x i then push_bit i 1 else 0)) 128"
    using assms by (intro xsum_cong) (simp add: linear_word_0)
  also have "\<dots> = g x"
    using linear_word_xsum [OF assms(2), of "\<lambda>i. if bit x i then push_bit i 1 else 0" 128] xsum_bits [of x] by simp
  finally show ?thesis .
qed

lemma gf_prod_halve_left: "gf_prod (halve b) c = halve (gf_prod b c)"
proof (rule linear_eqI [where x = b])
  show "linear_word (\<lambda>b. gf_prod (halve b) c)" "linear_word (\<lambda>b. halve (gf_prod b c))"
    using linear_halve by (simp_all add: linear_word_def gf_prod_xor_left)
  fix k :: nat assume k: "k < 128"
  show "gf_prod (halve (push_bit k 1)) c = halve (gf_prod (push_bit k 1) c)"
  proof (cases k)
    case 0
    have h: "halve 1 = push_bit 127 1 XOR push_bit 126 1 XOR push_bit 125 1 XOR push_bit 120 1" by (simp add: halve_def)
    have "gf_prod (halve 1) c = (halve ^^ 128) c"
      unfolding h gf_prod_xor_left by (simp add: gf_prod_monomial halve_128 del: push_bit_of_1)
    also have "\<dots> = halve (gf_prod (push_bit 0 1) c)"
      using gf_prod_monomial [of 0 c] halve_pow_add [of 1 127 c] by simp
    finally show ?thesis using 0 by simp
  next
    case (Suc j)
    then have j: "127 - j = Suc (127 - k)" using k by simp
    have "gf_prod (halve (push_bit k 1)) c = gf_prod (push_bit j 1) c" using halve_monomial [of j] k Suc by simp
    also have "\<dots> = halve (gf_prod (push_bit k 1) c)" using gf_prod_monomial [of j c] gf_prod_monomial [OF k, of c] k Suc j by simp
    finally show ?thesis .
  qed
qed

lemma gf_prod_halve_left_pow: "gf_prod ((halve ^^ n) b) c = (halve ^^ n) (gf_prod b c)"
  by (induction n) (simp_all add: gf_prod_halve_left)

lemma gf_prod_assoc: "gf_prod (gf_prod a b) c = gf_prod a (gf_prod b c)"
proof (rule linear_eqI [where x = a])
  show "linear_word (\<lambda>a. gf_prod (gf_prod a b) c)" "linear_word (\<lambda>a. gf_prod a (gf_prod b c))"
    by (simp_all add: linear_word_def gf_prod_xor_left)
qed (simp add: gf_prod_monomial gf_prod_halve_left_pow del: push_bit_of_1)

section \<open>The reduction of a carry-less product\<close>

definition clmul128 :: "m128i \<Rightarrow> m128i \<Rightarrow> 256 word" where
  "clmul128 a b = xsum (\<lambda>i. if bit a i then push_bit i (ucast b) else 0) 128"

text \<open>The two phases of the reduction by shifts, on the low half of the product shifted left by one.\<close>

definition fold_up :: "m128i \<Rightarrow> m128i" where
  "fold_up l = l XOR push_bit 127 l XOR push_bit 126 l XOR push_bit 121 l"

definition fold_down :: "m128i \<Rightarrow> m128i" where
  "fold_down l = l XOR drop_bit 1 l XOR drop_bit 2 l XOR drop_bit 7 l"

definition gf_reduce :: "256 word \<Rightarrow> m128i" where
  "gf_reduce z = ucast (drop_bit 127 z) XOR fold_down (fold_up (push_bit 1 (ucast z)))"

lemma linear_fold [simp]: "linear_word fold_up" "linear_word fold_down"
  by (simp_all add: linear_word_def fold_up_def fold_down_def push_bit_xor drop_bit_xor)
    (simp_all add: xor.assoc xor.left_commute xor.commute)

lemma linear_gf_reduce [simp]: "linear_word gf_reduce"
  unfolding linear_word_def gf_reduce_def
  by (simp add: linear_word_xor [OF linear_word_shift(1)] linear_word_xor [OF linear_word_shift(2)] linear_word_xor [OF linear_word_shift(3)]
      linear_word_xor [OF linear_fold(1)] linear_word_xor [OF linear_fold(2)]) (simp add: xor.assoc xor.left_commute)

lemma fold_monomial:
  "7 \<le> k \<Longrightarrow> k < 128 \<Longrightarrow> fold_down (fold_up (push_bit k 1)) = push_bit (k - 7) 0xe1"
proof -
  assume k: "7 \<le> k" "k < 128"
  have "fold_up (push_bit k 1) = push_bit k 1"
    unfolding fold_up_def using k by (intro bit_word_eqI) (auto simp: bit_simps)
  moreover have "fold_down (push_bit k 1) = push_bit (k - 7) 0xe1"
  proof -
    obtain j where j: "k = j + 7" using k le_iff_add by (metis add.commute)
    have "drop_bit n (push_bit (j + 7) 1 :: m128i) = push_bit (j + (7 - n)) 1" if "n \<le> 7" for n
      using that k j by (intro bit_word_eqI) (auto simp: bit_simps)
    then have "fold_down (push_bit (j + 7) 1) = push_bit (j + 7) 1 XOR push_bit (j + 6) 1 XOR push_bit (j + 5) 1 XOR push_bit (j + 0) 1"
      by (simp add: fold_down_def add.commute del: push_bit_of_1)
    also have "\<dots> = push_bit j (push_bit 7 1 XOR push_bit 6 1 XOR push_bit 5 1 XOR push_bit 0 1)"
      by (simp only: push_bit_xor push_bit_push_bit)
    finally show ?thesis using j by simp
  qed
  ultimately show ?thesis by simp
qed

lemma halve_push_bit: "\<not> bit h 127 \<Longrightarrow> halve (push_bit 1 h) = h"
proof -
  assume "\<not> bit h 127"
  then have "bit h n \<Longrightarrow> Suc n < 128" for n using bit_imp_le_length [of h n] by (cases "n = 127") auto
  then have "drop_bit 1 (push_bit 1 h) = h"
    by (intro bit_word_eqI) (auto simp: bit_simps simp del: push_bit_Suc)
  then show ?thesis by (simp add: halve_def bit_simps del: push_bit_Suc)
qed

lemma fold_step: "halve (of_bool (bit l 127) XOR fold_down (fold_up (push_bit 1 l))) = fold_down (fold_up l)"
proof (rule linear_eqI [where x = l])
  show "linear_word (\<lambda>l. halve (of_bool (bit l 127) XOR fold_down (fold_up (push_bit 1 l))))"
    "linear_word (\<lambda>l. fold_down (fold_up l))"
    unfolding linear_word_def
    by (auto simp: bit_xor_iff linear_word_xor [OF linear_word_shift(1)] linear_word_xor [OF linear_fold(1)]
      linear_word_xor [OF linear_fold(2)] linear_word_xor [OF linear_halve] linear_word_0 [OF linear_halve] xor.assoc xor.left_commute)
  fix k :: nat assume "k < 128"
  then consider "k = 127" | "7 \<le> k" "k < 127" | "k = 0" | "k = 1" | "k = 2" | "k = 3" | "k = 4" | "k = 5" | "k = 6"  by linarith
  then show "halve (of_bool (bit (push_bit k 1 :: m128i) 127) XOR fold_down (fold_up (push_bit 1 (push_bit k 1)))) = fold_down (fold_up (push_bit k 1))"
  proof cases
    case 2
    have "Suc k - 7 = 1 + (k - 7)" using 2 by simp
    then have "push_bit (Suc k - 7) 0xe1 = push_bit 1 (push_bit (k - 7) (0xe1 :: m128i))" by (simp only: push_bit_push_bit)
    moreover have "\<not> bit (push_bit (k - 7) (0xe1 :: m128i)) 127"
    proof -
      have "bit (take_bit 8 0xe1 :: m128i) m \<Longrightarrow> m < 8" for m by (simp only: bit_take_bit_iff)
      then have "bit (0xe1 :: m128i) m \<Longrightarrow> m < 8" for m by simp
      then show ?thesis using 2 by (force simp: bit_push_bit_iff)
    qed
    ultimately have "halve (push_bit (Suc k - 7) 0xe1) = push_bit (k - 7) 0xe1" by (metis halve_push_bit)
    moreover have "\<not> bit (push_bit k 1 :: m128i) 127" using 2 by (simp add: bit_simps)
    ultimately show ?thesis using 2 fold_monomial [of k] fold_monomial [of "Suc k"] by (simp del: push_bit_of_1 push_bit_Suc)
  qed (simp_all add: fold_up_def fold_down_def halve_def)
qed

lemma gf_reduce_top: "gf_reduce (push_bit 127 (ucast b)) = b"
proof -
  have "ucast (drop_bit 127 (push_bit 127 (ucast b :: 256 word))) = b"
    by (rule bit_word_eqI) (auto simp: bit_simps)
  moreover have "push_bit 1 (ucast (push_bit 127 (ucast b :: 256 word))) = (0 :: m128i)"
    by (rule bit_word_eqI) (auto simp: bit_simps simp del: push_bit_Suc)
  ultimately show ?thesis by (simp add: gf_reduce_def linear_word_0 del: push_bit_Suc One_nat_def)
qed

lemma gf_reduce_step:
  fixes b :: m128i
  assumes "i < 127"
  shows "halve (gf_reduce (push_bit (Suc i) (ucast b))) = gf_reduce (push_bit i (ucast b))"
proof -
  define h :: m128i where "h = ucast (drop_bit 127 (push_bit i (ucast b :: 256 word)))"
  define l :: m128i where "l = push_bit 1 (ucast (push_bit i (ucast b :: 256 word)))"
  have "ucast (drop_bit 127 (push_bit (Suc i) (ucast b :: 256 word))) = push_bit 1 h XOR of_bool (bit l 127)"
  proof (rule bit_word_eqI)
    fix n :: nat assume "n < LENGTH(128)"
    then show "bit (ucast (drop_bit 127 (push_bit (Suc i) (ucast b :: 256 word))) :: m128i) n = bit (push_bit 1 h XOR of_bool (bit l 127)) n"
      using assms unfolding h_def l_def by (cases n) (auto simp: bit_simps bit_1_iff Suc_le_eq simp del: push_bit_Suc)
  qed
  moreover have "push_bit 1 (ucast (push_bit (Suc i) (ucast b :: 256 word))) = push_bit 1 l"
    unfolding l_def by (intro bit_word_eqI) (auto simp: bit_simps simp del: push_bit_Suc)
  moreover have "\<not> bit h 127"
    unfolding h_def using assms bit_imp_le_length [of b "254 - i"] by (auto simp: bit_simps)
  then have "halve (push_bit 1 h) = h" by (rule halve_push_bit)
  ultimately have "halve (gf_reduce (push_bit (Suc i) (ucast b))) = h XOR fold_down (fold_up l)"
    using fold_step [of l] linear_word_xor [OF linear_halve, of "push_bit 1 h"]
    unfolding gf_reduce_def by (simp only: xor.assoc)
  then show ?thesis by (simp add: gf_reduce_def h_def l_def)
qed

lemma gf_reduce_shift: "i \<le> 127 \<Longrightarrow> gf_reduce (push_bit (127 - i) (ucast b)) = (halve ^^ i) b"
proof (induction i)
  case (Suc i)
  then have "127 - Suc i < 127" "Suc (127 - Suc i) = 127 - i" by simp_all
  with Suc gf_reduce_step [of "127 - Suc i" b] show ?case by (simp del: push_bit_Suc)
qed (simp add: gf_reduce_top)

lemma gf_reduce_clmul: "gf_reduce (clmul128 a b) = gf_prod a b"
proof -
  have "gf_reduce (clmul128 a b) = xsum (\<lambda>i. if bit a i then gf_reduce (push_bit i (ucast b)) else 0) 128"
    unfolding clmul128_def linear_word_xsum [OF linear_gf_reduce] by (simp add: linear_word_if)
  also have "\<dots> = xsum (\<lambda>i. if bit a (128 - Suc i) then gf_reduce (push_bit (128 - Suc i) (ucast b)) else 0) 128"
    by (rule xsum_rev [symmetric])
  also have "\<dots> = gf_prod a b" unfolding gf_prod_def by (rule xsum_cong) (simp add: gf_reduce_shift)
  finally show ?thesis .
qed

section \<open>Carry-less products from their quarters\<close>

text \<open>The 256-bit value of three accumulators, the middle one at bit 64 and the high one at bit 128.\<close>

definition clmul_join :: "m128i \<Rightarrow> m128i \<Rightarrow> m128i \<Rightarrow> 256 word" where
  "clmul_join lo mid hi = ucast lo XOR push_bit 64 (ucast mid) XOR push_bit 128 (ucast hi)"

lemma clmul_join_xor:
  "clmul_join (l XOR l') (m XOR m') (h XOR h') = clmul_join l m h XOR clmul_join l' m' h'"
  by (simp add: clmul_join_def linear_word_xor [OF linear_word_shift(1)] linear_word_xor [OF linear_word_shift(3)])
    (simp add: xor.assoc xor.left_commute)

lemma clmul_join_0 [simp]: "clmul_join 0 0 0 = 0"
  by (simp add: clmul_join_def)

lemma bit_reg_half: "bit (reg_half x i) k \<longleftrightarrow> k < 64 \<and> bit x (64 * i + k)"
  by (auto simp: reg_half_def bit_simps)

lemma ucast_clmul64: "(ucast (clmul64 u v) :: 256 word) = xsum (\<lambda>i. if bit u i then push_bit i (ucast v) else 0) 64"
proof -
  have "(ucast (push_bit i (ucast v :: m128i)) :: 256 word) = push_bit i (ucast v)" if "i < 64" for i
    using that by (intro bit_word_eqI) (auto simp: bit_simps dest: bit_imp_le_length)
  then show ?thesis
    unfolding clmul64_def linear_word_xsum [OF linear_word_shift(3)] by (intro xsum_cong) simp
qed

lemma clmul128_quarters:
  "clmul128 a b =
     clmul_join (clmul64 (reg_half a 0) (reg_half b 0)) (clmul64 (reg_half a 1) (reg_half b 0) XOR clmul64 (reg_half a 0) (reg_half b 1)) (clmul64 (reg_half a 1) (reg_half b 1))"
proof -
  have b: "(ucast b :: 256 word) = ucast (reg_half b 0) XOR push_bit 64 (ucast (reg_half b 1))"
  proof (rule bit_word_eqI)
    fix n :: nat assume "n < LENGTH(256)"
    then show "bit (ucast b :: 256 word) n = bit (ucast (reg_half b 0) XOR push_bit 64 (ucast (reg_half b 1)) :: 256 word) n"
      by (cases "n < 64") (auto simp: bit_simps bit_reg_half dest: bit_imp_le_length)
  qed
  have s: "xsum (\<lambda>i. if P i then push_bit (k + i) w else 0) n = push_bit k (xsum (\<lambda>i. if P i then push_bit i w else 0) n)"
    for P :: "nat \<Rightarrow> bool" and w :: "256 word" and k n
    unfolding linear_word_xsum [OF linear_word_shift(1)] by (rule xsum_cong) simp
  have p: "clmul128 a b = xsum (\<lambda>i. if bit (reg_half a 0) i then push_bit i (ucast b) else 0) 64 XOR
      push_bit 64 (xsum (\<lambda>i. if bit (reg_half a 1) i then push_bit i (ucast b) else 0) 64)"
  proof -
    have "clmul128 a b = xsum (\<lambda>i. if bit a i then push_bit i (ucast b) else 0) 64 XOR
        xsum (\<lambda>i. if bit a (64 + i) then push_bit (64 + i) (ucast b) else 0) 64"
      using xsum_add [of "\<lambda>i. if bit a i then push_bit i (ucast b) else 0" 64 64] by (simp add: clmul128_def)
    then show ?thesis unfolding s by (simp add: bit_reg_half cong: xsum_cong)
  qed
  have q: "xsum (\<lambda>i. if P i then push_bit i (ucast b :: 256 word) else 0) 64 =
      xsum (\<lambda>i. if P i then push_bit i (ucast (reg_half b 0)) else 0) 64 XOR
      push_bit 64 (xsum (\<lambda>i. if P i then push_bit i (ucast (reg_half b 1)) else 0) 64)" for P
    unfolding s [symmetric] xsum_xor [symmetric] by (rule xsum_cong) (simp add: b push_bit_xor add.commute)
  show ?thesis
    unfolding p q clmul_join_def ucast_clmul64 [symmetric]
    by (simp add: push_bit_xor linear_word_xor [OF linear_word_shift(3)]) (simp add: xor.assoc xor.left_commute xor.commute)
qed

section \<open>Shifts by lanes\<close>

lemma lane_pos: "32 * i \<le> k \<Longrightarrow> k < 32 * i + 32 \<Longrightarrow> k div 32 = i \<and> k mod 32 = k - 32 * i" for k i :: nat
  by (simp add: modulo_nat_def div_nat_eqI mult.commute)

lemma bit_map_lanes: "bit (map_lanes f x) k \<longleftrightarrow> k < 128 \<and> bit (f (lane x (k div 32))) (k mod 32)"
proof -
  consider "k < 32" | "32 \<le> k" "k < 64" | "64 \<le> k" "k < 96" | "96 \<le> k" "k < 128" | "128 \<le> k" by linarith
  then show ?thesis
    by cases (use lane_pos [of 0 k] lane_pos [of 1 k] lane_pos [of 2 k] lane_pos [of 3 k] in \<open>simp_all add: map_lanes_def bit_of_lanes\<close>)
qed

lemma bit_slli_epi32: "bit (mm_slli_epi32 x n) k \<longleftrightarrow> k < 128 \<and> n \<le> k mod 32 \<and> bit x (k - n)"
proof -
  have "32 * (k div 32) + (k mod 32 - n) = k - n" if "n \<le> k mod 32" using that by (simp add: minus_mod_eq_mult_div [symmetric])
  then show ?thesis by (auto simp: mm_slli_epi32_def bit_map_lanes bit_push_bit_iff bit_lane less_imp_diff_less)
qed

lemma bit_srli_epi32: "bit (mm_srli_epi32 x n) k \<longleftrightarrow> k < 128 \<and> k mod 32 + n < 32 \<and> bit x (k + n)"
proof -
  have "32 * (k div 32) + (n + k mod 32) = k + n" by simp
  then show ?thesis by (auto simp: mm_srli_epi32_def bit_map_lanes bit_drop_bit_eq bit_lane add.commute)
qed

lemma linear_lanes [simp]: "linear_word (\<lambda>x. mm_slli_epi32 x n)" "linear_word (\<lambda>x. mm_srli_epi32 x n)"
  by (auto simp: linear_word_def bit_slli_epi32 bit_srli_epi32 bit_xor_iff intro!: bit_word_eqI)

text \<open>A shift of the register is a shift of its lanes with the bits that cross a lane.\<close>

lemma shl1_lanes: "mm_slli_epi32 x 1 OR mm_slli_si128 (mm_srli_epi32 x 31) 4 = push_bit 1 x"
proof (rule bit_word_eqI)
  fix k :: nat assume "k < LENGTH(128)"
  then show "bit (mm_slli_epi32 x 1 OR mm_slli_si128 (mm_srli_epi32 x 31) 4) k = bit (push_bit 1 x) k"
    using le_mod_geq [of 32 k]
    by (cases "k < 32"; cases "k mod 32 = 0") (auto simp: bit_or_iff bit_slli_epi32 bit_srli_epi32 mm_slli_si128_def bit_push_bit_iff Suc_le_eq simp del: push_bit_Suc)
qed

lemma top_bit_lanes: "mm_srli_si128 (mm_srli_epi32 x 31) 12 = drop_bit 127 x"
proof (rule bit_word_eqI)
  fix k :: nat assume "k < LENGTH(128)"
  show "bit (mm_srli_si128 (mm_srli_epi32 x 31) 12) k = bit (drop_bit 127 x) k"
    using bit_imp_le_length [of x "127 + k"] by (cases "k = 0") (auto simp: bit_srli_epi32 mm_srli_si128_def bit_drop_bit_eq)
qed

lemma fold_up_lanes: "n < 32 \<Longrightarrow> mm_slli_si128 (mm_slli_epi32 x n) 12 = push_bit (96 + n) x"
proof (rule bit_word_eqI)
  fix k :: nat assume n: "n < 32" "k < LENGTH(128)"
  show "bit (mm_slli_si128 (mm_slli_epi32 x n) 12) k = bit (push_bit (96 + n) x) k"
    using n by (cases "96 \<le> k") (auto simp: bit_slli_epi32 mm_slli_si128_def bit_push_bit_iff)
qed

lemma shr_lanes: "0 < n \<Longrightarrow> n < 32 \<Longrightarrow> mm_srli_epi32 x n XOR mm_srli_si128 (mm_slli_epi32 x (32 - n)) 4 = drop_bit n x"
proof (rule bit_word_eqI)
  fix k :: nat assume n: "0 < n" "n < 32" "k < LENGTH(128)"
  have m: "k mod 32 = k - 96" if "96 \<le> k" using lane_pos [of 3 k] that n by simp
  have a: "32 + k - (32 - n) = n + k" "(32 + k) mod 32 = k mod 32" using n by simp_all
  have "bit x (n + k) \<Longrightarrow> k mod 32 + n < 32 \<or> k < 96" using m bit_imp_le_length [of x "n + k"] by (cases "96 \<le> k") auto
  then show "bit (mm_srli_epi32 x n XOR mm_srli_si128 (mm_slli_epi32 x (32 - n)) 4) k = bit (drop_bit n x) k"
    using n by (auto simp: bit_xor_iff bit_slli_epi32 bit_srli_epi32 mm_srli_si128_def bit_drop_bit_eq a add.commute)
qed

lemma fold_up_keeps:
  assumes "25 \<le> n" "n < 32"
  shows "mm_srli_si128 (mm_slli_epi32 (fold_up x) n) 4 = mm_srli_si128 (mm_slli_epi32 x n) 4"
proof (rule bit_word_eqI)
  fix k :: nat assume "k < LENGTH(128)"
  have "bit (fold_up x) m = bit x m" if "m < 121" for m
    using that by (auto simp: fold_up_def bit_xor_iff bit_push_bit_iff)
  moreover have "32 + k - n < 121" if "32 + k < 128" "n \<le> (32 + k) mod 32" using that assms by simp
  ultimately show "bit (mm_srli_si128 (mm_slli_epi32 (fold_up x) n) 4) k = bit (mm_srli_si128 (mm_slli_epi32 x n) 4) k"
    by (auto simp: mm_srli_si128_def bit_drop_bit_eq bit_slli_epi32)
qed

section \<open>The product of SP 800-38D\<close>

text \<open>Reversal of the sixteen bytes, which brings a block of memory into the reflected order.\<close>

definition swap128 :: "m128i \<Rightarrow> m128i" where
  "swap128 x = reg_load (rev (reg_store x))"

lemma reg_store_swap: "reg_store (swap128 x) = rev (reg_store x)"
  by (simp add: swap128_def reg_store_load_list)

lemma swap128_swap [simp]: "swap128 (swap128 x) = x"
  by (simp add: swap128_def reg_store_load_list)

lemma bit_swap128: "bit (swap128 x) k \<longleftrightarrow> k < 128 \<and> bit x (8 * (15 - k div 8) + k mod 8)"
proof (cases "k < 128")
  case True
  then have "k div 8 < 16" by simp
  then have "rev (reg_store x) ! (k div 8) = reg_store x ! (15 - k div 8)" by (simp add: rev_nth)
  with True show ?thesis by (simp add: swap128_def bit_reg_load bit_reg_store)
qed (simp add: swap128_def bit_reg_load)

lemma swap128_xor: "swap128 (x XOR y) = swap128 x XOR swap128 y"
  by (rule bit_word_eqI) (simp add: bit_swap128 bit_xor_iff)

lemma block_bit_swap: "i < 128 \<Longrightarrow> bit (swap128 (reg_load x)) (127 - i) \<longleftrightarrow> block_bit x i"
proof -
  assume "i < 128"
  then have q: "i div 8 < 16" by simp
  then have "127 - i = 8 * (15 - i div 8) + (7 - i mod 8)"
    using div_mult_mod_eq [of i 8] mod_less_divisor [of 8 i] by linarith
  moreover have "(8 * a + b) div 8 = a \<and> (8 * a + b) mod 8 = b" if "b < 8" for a b :: nat using that by simp
  moreover have "7 - i mod 8 < 8" by simp
  ultimately have d: "(127 - i) div 8 = 15 - i div 8" "(127 - i) mod 8 = 7 - i mod 8" by metis+
  have e: "127 - i < 128" "15 - (15 - i div 8) = i div 8" using q by simp_all
  have r: "7 - i mod 8 < 8" "8 * (i div 8) + (7 - i mod 8) < 128" using q by simp_all
  have b: "(8 * a + b) div 8 = a \<and> (8 * a + b) mod 8 = b" if "b < 8" for a b :: nat using that by simp
  show ?thesis unfolding bit_swap128 bit_reg_load block_bit_def d using e r b [OF r(1), of "i div 8"] by metis
qed

text \<open>The pair of 64-bit halves of the portable code as one register.\<close>

definition blk_reg :: "blk \<Rightarrow> m128i" where
  "blk_reg v = push_bit 64 (ucast (fst v)) OR ucast (snd v)"

lemma bit_blk_reg: "bit (blk_reg v) k \<longleftrightarrow> (if k < 64 then bit (snd v) k else k < 128 \<and> bit (fst v) (k - 64))"
  by (auto simp: blk_reg_def bit_simps dest: bit_imp_le_length)

lemma blk_reg_bx: "blk_reg (bx a b) = blk_reg a XOR blk_reg b"
  by (rule bit_word_eqI) (simp add: bit_blk_reg bit_xor_iff bx_def)

lemma blk_reg_b0 [simp]: "blk_reg b0 = 0"
  by (simp add: blk_reg_def b0_def)

lemma blk_reg_halve: "blk_reg (gf_halve v) = halve (blk_reg v)"
proof -
  have "blk_reg (drop_bit 1 (fst v), drop_bit 1 (snd v) OR push_bit 63 (fst v)) = drop_bit 1 (blk_reg v)"
  proof (rule bit_word_eqI)
    fix k :: nat assume "k < LENGTH(128)"
    then consider "k < 63" | "k = 63" | "64 \<le> k" "k < 128" by fastforce
    then show "bit (blk_reg (drop_bit 1 (fst v), drop_bit 1 (snd v) OR push_bit 63 (fst v))) k = bit (drop_bit 1 (blk_reg v)) k"
    proof cases
      case 3
      then have "Suc (k - 64) = Suc k - 64" by simp
      with 3 show ?thesis by (auto simp: bit_blk_reg bit_drop_bit_eq dest: bit_imp_le_length)
    qed (auto simp: bit_blk_reg bit_or_iff bit_push_bit_iff bit_drop_bit_eq dest: bit_imp_le_length)
  qed
  moreover have "blk_reg (0xe100000000000000, 0) = push_bit 120 0xe1" by (simp add: blk_reg_def)
  moreover have "gf_halve v = bx (drop_bit 1 (fst v), drop_bit 1 (snd v) OR push_bit 63 (fst v)) (bsel (bit (snd v) 0) (0xe100000000000000, 0))"
    by (simp add: gf_halve_alt bx_def bsel_def b0_def)
  moreover have "bit (blk_reg v) 0 = bit (snd v) 0" by (simp add: bit_blk_reg)
  ultimately show ?thesis by (simp add: halve_def blk_reg_bx bsel_def)
qed

lemma xsum_first: "xsum f (Suc n) = f 0 XOR xsum (\<lambda>i. f (Suc i)) n"
  using xsum_add [of f 1 n] by simp

lemma blk_reg_tailsum:
  "blk_reg (tailsum x V m r) = xsum (\<lambda>i. if block_bit x (m + i) then (halve ^^ i) (blk_reg V) else 0) r"
proof (induction r arbitrary: m)
  case (Suc r)
  have "halve (xsum (\<lambda>i. if block_bit x (Suc m + i) then (halve ^^ i) (blk_reg V) else 0) r) =
      xsum (\<lambda>i. if block_bit x (m + Suc i) then (halve ^^ Suc i) (blk_reg V) else 0) r"
    unfolding linear_word_xsum [OF linear_halve] by (rule xsum_cong) (simp add: linear_word_0)
  then show ?case
    using Suc [of "Suc m"] unfolding xsum_first by (simp add: blk_reg_bx blk_reg_halve bsel_def)
qed simp

lemma blk_reg_gf_mul: "blk_reg (gf_mul x V) = gf_prod (swap128 (reg_load x)) (blk_reg V)"
  unfolding gf_mul_tailsum blk_reg_tailsum gf_prod_def by (rule xsum_cong) (simp add: block_bit_swap)

lemma bit_load_be_fold:
  "length xs \<le> 8 \<Longrightarrow> bit (fold (\<lambda>x a. push_bit 8 a OR ucast x) xs (0 :: u64)) k \<longleftrightarrow>
     k < 8 * length xs \<and> bit (xs ! (length xs - 1 - k div 8) :: u8) (k mod 8)"
proof (induction xs arbitrary: k rule: rev_induct)
  case (snoc x xs)
  show ?case
  proof (cases "k < 8")
    case True
    then show ?thesis using snoc.prems by (simp add: bit_simps nth_append)
  next
    case False
    then obtain m where m: "k = 8 + m" using le_Suc_ex by (metis not_less)
    have "\<not> bit (ucast x :: u64) (8 + m)" using bit_imp_le_length [of x "8 + m"] by (auto simp: bit_simps)
    then have "bit (fold (\<lambda>x a. push_bit 8 a OR ucast x) (xs @ [x]) (0 :: u64)) k \<longleftrightarrow>
        8 + m < 64 \<and> m < 8 * length xs \<and> bit (xs ! (length xs - 1 - m div 8)) (m mod 8)"
      using snoc.IH [of m] snoc.prems m by (simp add: bit_or_iff bit_push_bit_iff)
    moreover have "m < 8 * length xs \<Longrightarrow> (xs @ [x]) ! (length xs - Suc (m div 8)) = xs ! (length xs - Suc (m div 8))"
      by (cases "xs = []") (simp_all add: nth_append)
    moreover have "length (xs @ [x]) - 1 - k div 8 = length xs - Suc (m div 8)" "k mod 8 = m mod 8" using m by simp_all
    ultimately show ?thesis using snoc.prems m by (auto simp del: fold_append)
  qed
qed simp

lemma blk_reg_load: "length H = 16 \<Longrightarrow> blk_reg (load64_be H, load64_be (drop 8 H)) = swap128 (reg_load H)"
proof (rule bit_word_eqI)
  fix k :: nat assume H: "length H = 16" and "k < LENGTH(128)"
  then have k: "k < 128" by simp
  have "bit (load64_be H) j \<longleftrightarrow> j < 64 \<and> bit (H ! (7 - j div 8)) (j mod 8)"
    "bit (load64_be (drop 8 H)) j \<longleftrightarrow> j < 64 \<and> bit (H ! (15 - j div 8)) (j mod 8)" for j
    using H bit_load_be_fold [of "take 8 H" j] bit_load_be_fold [of "take 8 (drop 8 H)" j] by (auto simp: load64_be_def)
  moreover have "bit (swap128 (reg_load H)) k \<longleftrightarrow> bit (H ! (15 - k div 8)) (k mod 8)"
    using k mod_less_divisor [of 8 k] by (simp add: bit_swap128 bit_reg_load) linarith
  moreover have "15 - k div 8 = 7 - (k - 64) div 8 \<and> k mod 8 = (k - 64) mod 8" if "\<not> k < 64"
  proof -
    obtain m where "k = 64 + m" using \<open>\<not> k < 64\<close> le_Suc_ex by (metis not_less)
    moreover have "(64 + m) div 8 = 8 + m div 8" "(64 + m) mod 8 = m mod 8" by presburger+
    ultimately show ?thesis by simp
  qed
  moreover have "k - 64 < 64" using k by simp
  ultimately show "bit (blk_reg (load64_be H, load64_be (drop 8 H))) k = bit (swap128 (reg_load H)) k"
    using k by (simp add: bit_blk_reg)
qed

lemma store_blk_reg: "store64_be (fst z) @ store64_be (snd z) = reg_store (swap128 (blk_reg z))"
proof (rule nth_equalityI)
  fix i assume "i < length (store64_be (fst z) @ store64_be (snd z))"
  then have i: "i < 16" by (simp add: store64_be_def)
  have "8 * (15 - i) + n - 64 = 56 + n - 8 * i" if "i < 8" for n using that by simp
  moreover have "8 * (15 - i) + n = 56 + n - 8 * (i - 8)" if "8 \<le> i" for n using that i by simp
  ultimately show "(store64_be (fst z) @ store64_be (snd z)) ! i = reg_store (swap128 (blk_reg z)) ! i"
    using i by (intro bit_word_eqI)
      (auto simp: store64_be_def nth_append bit_reg_store bit_swap128 bit_blk_reg bit_simps)
qed (simp add: store64_be_def)

lemma gf_mul_bytes_reg:
  "length H = 16 \<Longrightarrow> gf_mul_bytes H x = reg_store (swap128 (gf_prod (swap128 (reg_load x)) (swap128 (reg_load H))))"
  by (simp add: gf_mul_bytes_def Let_def store_blk_reg blk_reg_gf_mul blk_reg_load)

end
