(* ===== verification/Aesni.thy ===== *)
theory Aesni
  imports Field
begin

text \<open>
  The x86 path of AES-256-GCM in \<open>src/src/core/simd_crypto.c\<close>: key expansion and rounds with the AES
  instructions, GHASH by carry-less multiplication with four blocks per reduction, counter mode four blocks
  at a time, and the pass that does both.  The lemmas show that each routine computes what its portable
  counterpart computes.
\<close>

section \<open>AES\<close>

definition aes256_assist1 :: "m128i \<Rightarrow> m128i \<Rightarrow> m128i" where
  "aes256_assist1 a b =
     (let b = mm_shuffle_epi32 b 0xff;
          t = mm_slli_si128 a 4; a = a XOR t;
          t = mm_slli_si128 t 4; a = a XOR t;
          t = mm_slli_si128 t 4; a = a XOR t
      in a XOR b)"

definition aes256_assist2 :: "m128i \<Rightarrow> m128i \<Rightarrow> m128i" where
  "aes256_assist2 a c =
     (let b = mm_aeskeygenassist_si128 a 0x00;
          t = mm_shuffle_epi32 b 0xaa;
          x = mm_slli_si128 c 4; c = c XOR x;
          x = mm_slli_si128 x 4; c = c XOR x;
          x = mm_slli_si128 x 4; c = c XOR x
      in c XOR t)"

text \<open>The two statements for one round constant: the next two round keys from the last two.\<close>

definition expand_pair :: "u8 \<Rightarrow> m128i list \<Rightarrow> m128i list" where
  "expand_pair rcon rk =
     (let n = length rk;
          e = aes256_assist1 (rk ! (n - 2)) (mm_aeskeygenassist_si128 (rk ! (n - 1)) rcon)
      in rk @ [e, aes256_assist2 e (rk ! (n - 1))])"

definition aes256_expand_x86 :: "bytes \<Rightarrow> bytes list" where
  "aes256_expand_x86 key =
     (let rk = [reg_load key, reg_load (drop 16 key)];
          rk = fold expand_pair [0x01, 0x02, 0x04, 0x08, 0x10, 0x20] rk;
          rk = rk @ [aes256_assist1 (rk ! 12) (mm_aeskeygenassist_si128 (rk ! 13) 0x40)]
      in map reg_store rk)"

definition aes256_enc_x86 :: "bytes list \<Rightarrow> m128i \<Rightarrow> m128i" where
  "aes256_enc_x86 rkb b =
     (let b = b XOR reg_load (rkb ! 0);
          b = fold (\<lambda>r b. mm_aesenc_si128 b (reg_load (rkb ! r))) [1..<14] b
      in mm_aesenclast_si128 b (reg_load (rkb ! 14)))"

definition aes256_enc4_x86 :: "bytes list \<Rightarrow> m128i list \<Rightarrow> m128i list" where
  "aes256_enc4_x86 rkb b =
     (let k = reg_load (rkb ! 0); b = map (\<lambda>x. x XOR k) b;
          b = fold (\<lambda>r b. let k = reg_load (rkb ! r) in map (\<lambda>x. mm_aesenc_si128 x k) b) [1..<14] b;
          k = reg_load (rkb ! 14)
      in map (\<lambda>x. mm_aesenclast_si128 x k) b)"

section \<open>GHASH\<close>

definition kBswapMask :: bytes where
  "kBswapMask = [15, 14, 13, 12, 11, 10, 9, 8, 7, 6, 5, 4, 3, 2, 1, 0]"

type_synonym acc = "m128i \<times> m128i \<times> m128i"

definition clmul_acc :: "m128i \<Rightarrow> m128i \<Rightarrow> acc \<Rightarrow> acc" where
  "clmul_acc a b = (\<lambda>(lo, mid, hi).
     let t0 = mm_clmulepi64_si128 a b 0x00; t1 = mm_clmulepi64_si128 a b 0x01;
         t2 = mm_clmulepi64_si128 a b 0x10; t3 = mm_clmulepi64_si128 a b 0x11
     in (lo XOR t0, mid XOR (t1 XOR t2), hi XOR t3))"

definition gf_finish :: "acc \<Rightarrow> m128i" where
  "gf_finish = (\<lambda>(lo, mid, hi).
     let lo = lo XOR mm_slli_si128 mid 8;
         hi = hi XOR mm_srli_si128 mid 8;
         t4 = mm_srli_epi32 lo 31;
         t5 = mm_srli_epi32 hi 31;
         lo = mm_slli_epi32 lo 1;
         hi = mm_slli_epi32 hi 1;
         t6 = mm_srli_si128 t4 12;
         t5 = mm_slli_si128 t5 4;
         t4 = mm_slli_si128 t4 4;
         lo = lo OR t4;
         hi = hi OR (t5 OR t6);
         t7 = mm_slli_epi32 lo 31;
         t8 = mm_slli_epi32 lo 30;
         t9 = mm_slli_epi32 lo 25;
         t7 = t7 XOR (t8 XOR t9);
         t8 = mm_srli_si128 t7 4;
         t7 = mm_slli_si128 t7 12;
         lo = lo XOR t7;
         u1 = mm_srli_epi32 lo 1;
         u2 = mm_srli_epi32 lo 2;
         u3 = mm_srli_epi32 lo 7;
         u1 = u1 XOR (u2 XOR u3);
         u1 = u1 XOR t8;
         lo = lo XOR u1
     in hi XOR lo)"

definition gf_mul_x86 :: "m128i \<Rightarrow> m128i \<Rightarrow> m128i" where
  "gf_mul_x86 a b = gf_finish (clmul_acc a b (0, 0, 0))"

definition bswap_x86 :: "bytes \<Rightarrow> m128i" where
  "bswap_x86 p = mm_shuffle_epi8 (reg_load p) (reg_load kBswapMask)"

text \<open>The powers \<open>Hp[0..3]\<close> of the hash key.\<close>

definition gcm_init_x86 :: "bytes \<Rightarrow> bytes list" where
  "gcm_init_x86 H =
     (let h = bswap_x86 H; p1 = h; p2 = gf_mul_x86 p1 h; p3 = gf_mul_x86 p2 h; p4 = gf_mul_x86 p3 h
      in map reg_store [p1, p2, p3, p4])"

text \<open>Four blocks into one reduction, as the loops of \<open>ghash_x86\<close> and \<open>gcm_stitch_x86\<close> do it.\<close>

definition hash4_x86 :: "bytes list \<Rightarrow> m128i \<Rightarrow> m128i list \<Rightarrow> m128i" where
  "hash4_x86 Hp X g =
     gf_finish (clmul_acc (g ! 3) (reg_load (Hp ! 0)) (clmul_acc (g ! 2) (reg_load (Hp ! 1))
       (clmul_acc (g ! 1) (reg_load (Hp ! 2)) (clmul_acc (g ! 0 XOR X) (reg_load (Hp ! 3)) (0, 0, 0)))))"

function ghash_loop_x86 :: "bytes list \<Rightarrow> m128i \<Rightarrow> bytes \<Rightarrow> m128i" where
  "ghash_loop_x86 Hp X data =
     (if length data \<ge> 64
      then ghash_loop_x86 Hp (hash4_x86 Hp X (map (\<lambda>i. bswap_x86 (drop (16 * i) data)) [0..<4])) (drop 64 data)
      else if length data \<ge> 16
      then ghash_loop_x86 Hp (gf_mul_x86 (X XOR bswap_x86 data) (reg_load (Hp ! 0))) (drop 16 data)
      else if data \<noteq> []
      then gf_mul_x86 (X XOR bswap_x86 (data @ replicate (16 - length data) 0)) (reg_load (Hp ! 0))
      else X)"
  by pat_completeness auto
termination
  by (relation "measure (\<lambda>(Hp, X, data). length data)") auto

declare ghash_loop_x86.simps [simp del]

definition ghash_x86 :: "bytes list \<Rightarrow> bytes \<Rightarrow> bytes \<Rightarrow> bytes" where
  "ghash_x86 Hp y data = reg_store (mm_shuffle_epi8 (ghash_loop_x86 Hp (bswap_x86 y) data) (reg_load kBswapMask))"

section \<open>Counter mode\<close>

function aes_ctr_x86 :: "bytes list \<Rightarrow> bytes \<Rightarrow> bytes \<Rightarrow> bytes \<times> bytes" where
  "aes_ctr_x86 rk ctr inp =
     (if length inp \<ge> 64
      then let b = aes256_enc4_x86 rk (map (\<lambda>i. reg_load ((ctr_inc ^^ i) ctr)) [0..<4]);
               blks = map (\<lambda>i. reg_store (reg_load (drop (16 * i) inp) XOR b ! i)) [0..<4];
               (ctr', out) = aes_ctr_x86 rk ((ctr_inc ^^ 4) ctr) (drop 64 inp)
           in (ctr', concat blks @ out)
      else if inp \<noteq> []
      then let ks = aes256_enc_x86 rk (reg_load ctr);
               (ctr', out) = aes_ctr_x86 rk (ctr_inc ctr) (drop 16 inp)
           in (ctr', xor_bytes (take 16 inp) (reg_store ks) @ out)
      else (ctr, []))"
  by pat_completeness auto
termination
  by (relation "measure (\<lambda>(rk, ctr, inp). length inp)") auto

declare aes_ctr_x86.simps [simp del]

section \<open>Counter mode and GHASH in one pass\<close>

definition load_ctr32 :: "bytes \<Rightarrow> u32" where
  "load_ctr32 ctr =
     push_bit 24 (ucast (ctr ! 12)) OR push_bit 16 (ucast (ctr ! 13)) OR push_bit 8 (ucast (ctr ! 14)) OR ucast (ctr ! 15)"

definition store_ctr32 :: "u32 \<Rightarrow> bytes \<Rightarrow> bytes" where
  "store_ctr32 v ctr =
     ctr[12 := ucast (drop_bit 24 v), 13 := ucast (drop_bit 16 v), 14 := ucast (drop_bit 8 v), 15 := ucast v]"

definition bswap32 :: "u32 \<Rightarrow> u32" where
  "bswap32 v = load32_le (rev (store32_le v))"

definition ctr_block_x86 :: "m128i \<Rightarrow> u32 \<Rightarrow> m128i" where
  "ctr_block_x86 base v = mm_insert_epi32 base (bswap32 v) 3"

text \<open>The loops of \<open>gcm_stitch_x86\<close> on the 32-bit counter and the hash register; the blocks hashed are the output when encrypting and the input otherwise.\<close>

function stitch_loop_x86 :: "bytes list \<Rightarrow> bytes list \<Rightarrow> bool \<Rightarrow> m128i \<Rightarrow> u32 \<Rightarrow> m128i \<Rightarrow> bytes \<Rightarrow> u32 \<times> m128i \<times> bytes" where
  "stitch_loop_x86 rk Hp encrypt base ctr32 X inp =
     (if length inp \<ge> 64
      then let b = aes256_enc4_x86 rk (map (\<lambda>i. ctr_block_x86 base (ctr32 + of_nat i)) [0..<4]);
               d = map (\<lambda>i. reg_load (drop (16 * i) inp)) [0..<4];
               e = map (\<lambda>i. d ! i XOR b ! i) [0..<4];
               g = map (\<lambda>i. mm_shuffle_epi8 (if encrypt then e ! i else d ! i) (reg_load kBswapMask)) [0..<4];
               (ctr32', X', out) = stitch_loop_x86 rk Hp encrypt base (ctr32 + 4) (hash4_x86 Hp X g) (drop 64 inp)
           in (ctr32', X', concat (map reg_store e) @ out)
      else if inp \<noteq> []
      then let ks = aes256_enc_x86 rk (ctr_block_x86 base ctr32);
               o1 = xor_bytes (take 16 inp) (reg_store ks);
               blk = (if encrypt then o1 else take 16 inp);
               g0 = bswap_x86 (blk @ replicate (16 - length blk) 0);
               (ctr32', X', out) = stitch_loop_x86 rk Hp encrypt base (ctr32 + 1) (gf_mul_x86 (X XOR g0) (reg_load (Hp ! 0))) (drop 16 inp)
           in (ctr32', X', o1 @ out)
      else (ctr32, X, []))"
  by pat_completeness auto
termination
  by (relation "measure (\<lambda>(rk, Hp, encrypt, base, ctr32, X, inp). length inp)") auto

declare stitch_loop_x86.simps [simp del]

definition gcm_stitch_x86 :: "bytes list \<Rightarrow> bytes list \<Rightarrow> bytes \<Rightarrow> bytes \<Rightarrow> bytes \<Rightarrow> bool \<Rightarrow> bytes \<times> bytes \<times> bytes" where
  "gcm_stitch_x86 rk Hp ctr y inp encrypt =
     (case stitch_loop_x86 rk Hp encrypt (reg_load ctr) (load_ctr32 ctr) (bswap_x86 y) inp of
        (ctr32, X, out) \<Rightarrow> (store_ctr32 ctr32 ctr, reg_store (mm_shuffle_epi8 X (reg_load kBswapMask)), out))"

section \<open>GHASH multiplies in the field\<close>

lemma mm_shuffle_bswap: "mm_shuffle_epi8 x (reg_load kBswapMask) = swap128 x"
proof -
  have "unat (reg_store (reg_load kBswapMask) ! i AND 0x0f) = 15 - i" if "i < 16" for i
  proof -
    have "i \<in> set [0..<16]" using that by simp
    then have "i \<in> set [0, 1, 2, 3, 4, 5, 6, 7, 8, 9, 10, 11, 12, 13, 14, 15]" unfolding upt16 .
    then show ?thesis unfolding reg_store_load [OF that] kBswapMask_def by (auto simp: numeral_2_eq_2 [symmetric])
  qed
  then have "map (\<lambda>i. reg_store x ! unat (reg_store (reg_load kBswapMask) ! i AND 0x0f)) [0..<16] = rev (reg_store x)"
    by (intro nth_equalityI) (simp_all add: rev_nth)
  then show ?thesis by (simp add: mm_shuffle_epi8_def swap128_def)
qed

lemma bswap_x86_eq: "bswap_x86 p = swap128 (reg_load p)"
  by (simp add: bswap_x86_def mm_shuffle_bswap)

definition acc_join :: "acc \<Rightarrow> 256 word" where
  "acc_join = (\<lambda>(lo, mid, hi). clmul_join lo mid hi)"

lemma acc_join_0 [simp]: "acc_join (0, 0, 0) = 0"
  by (simp add: acc_join_def)

lemma acc_join_clmul: "acc_join (clmul_acc a b acc) = acc_join acc XOR clmul128 a b"
  by (cases acc) (simp add: acc_join_def clmul_acc_def Let_def clmul_join_xor clmul128_quarters mm_clmulepi64_si128_def)

lemma join_halves:
  "(ucast (clmul_join lo mid hi) :: m128i) = lo XOR push_bit 64 mid"
  "(ucast (drop_bit 127 (clmul_join lo mid hi)) :: m128i) =
     push_bit 1 (hi XOR drop_bit 64 mid) OR drop_bit 127 (lo XOR push_bit 64 mid)"
proof -
  show "(ucast (clmul_join lo mid hi) :: m128i) = lo XOR push_bit 64 mid"
    by (rule bit_word_eqI) (auto simp: clmul_join_def bit_simps)
  show "(ucast (drop_bit 127 (clmul_join lo mid hi)) :: m128i) = push_bit 1 (hi XOR drop_bit 64 mid) OR drop_bit 127 (lo XOR push_bit 64 mid)"
  proof (rule bit_word_eqI)
    fix k :: nat assume k: "k < LENGTH(128)"
    show "bit (ucast (drop_bit 127 (clmul_join lo mid hi)) :: m128i) k =
        bit (push_bit 1 (hi XOR drop_bit 64 mid) OR drop_bit 127 (lo XOR push_bit 64 mid)) k"
      using k by (cases k) (auto simp: clmul_join_def bit_simps Suc_diff_le simp del: push_bit_Suc dest: bit_imp_le_length)
  qed
qed

lemma gf_finish_reduce: "gf_finish acc = gf_reduce (acc_join acc)"
proof -
  obtain lo mid hi where acc: "acc = (lo, mid, hi)" by (cases acc)
  define L where "L = lo XOR push_bit 64 mid"
  define H where "H = hi XOR drop_bit 64 mid"
  define l where "l = push_bit 1 L"
  have s: "mm_slli_si128 mid 8 = push_bit 64 mid" "mm_srli_si128 mid 8 = drop_bit 64 mid"
    by (simp_all add: mm_slli_si128_def mm_srli_si128_def)
  have h: "mm_slli_epi32 H 1 OR (mm_slli_si128 (mm_srli_epi32 H 31) 4 OR mm_srli_si128 (mm_srli_epi32 L 31) 12) = push_bit 1 H OR drop_bit 127 L"
    using shl1_lanes [of H] by (simp only: top_bit_lanes or.assoc [symmetric])
  let ?t = "mm_slli_epi32 l 31 XOR (mm_slli_epi32 l 30 XOR mm_slli_epi32 l 25)"
  have up: "l XOR mm_slli_si128 ?t 12 = fold_up l"
  proof -
    have "mm_slli_si128 ?t 12 = push_bit 127 l XOR (push_bit 126 l XOR push_bit 121 l)"
      using fold_up_lanes [of 31 l] fold_up_lanes [of 30 l] fold_up_lanes [of 25 l] by (simp add: mm_slli_si128_def push_bit_xor)
    then show ?thesis by (simp add: fold_up_def xor.assoc)
  qed
  have t8: "mm_srli_si128 ?t 4 = mm_srli_si128 (mm_slli_epi32 (fold_up l) 31) 4 XOR
      (mm_srli_si128 (mm_slli_epi32 (fold_up l) 30) 4 XOR mm_srli_si128 (mm_slli_epi32 (fold_up l) 25) 4)"
    using fold_up_keeps [of 31 l] fold_up_keeps [of 30 l] fold_up_keeps [of 25 l] by (simp add: mm_srli_si128_def drop_bit_xor)
  have down: "x XOR ((mm_srli_epi32 x 1 XOR (mm_srli_epi32 x 2 XOR mm_srli_epi32 x 7)) XOR
      (mm_srli_si128 (mm_slli_epi32 x 31) 4 XOR (mm_srli_si128 (mm_slli_epi32 x 30) 4 XOR mm_srli_si128 (mm_slli_epi32 x 25) 4))) = fold_down x" for x
  proof -
    have "drop_bit 1 x = mm_srli_epi32 x 1 XOR mm_srli_si128 (mm_slli_epi32 x 31) 4"
      "drop_bit 2 x = mm_srli_epi32 x 2 XOR mm_srli_si128 (mm_slli_epi32 x 30) 4"
      "drop_bit 7 x = mm_srli_epi32 x 7 XOR mm_srli_si128 (mm_slli_epi32 x 25) 4"
      using shr_lanes [of 1 x] shr_lanes [of 2 x] shr_lanes [of 7 x] by simp_all
    then show ?thesis unfolding fold_down_def by (simp only: xor.assoc xor.left_commute xor.commute)
  qed
  have "gf_finish acc = (push_bit 1 H OR drop_bit 127 L) XOR fold_down (fold_up l)"
    unfolding acc gf_finish_def case_prod_conv Let_def s L_def [symmetric] H_def [symmetric] shl1_lanes h
    unfolding l_def [symmetric] up unfolding t8 down ..
  then show ?thesis by (simp only: acc acc_join_def case_prod_conv gf_reduce_def join_halves L_def H_def l_def)
qed

lemma gf_mul_x86_prod: "gf_mul_x86 a b = gf_prod a b"
  by (simp add: gf_mul_x86_def gf_finish_reduce acc_join_clmul gf_reduce_clmul)

text \<open>The powers of the hash key turn four products with one reduction into four steps of Horner's rule.\<close>

definition powers_of :: "m128i \<Rightarrow> bytes list \<Rightarrow> bool" where
  "powers_of h Hp \<longleftrightarrow> reg_load (Hp ! 0) = h \<and> reg_load (Hp ! 1) = gf_prod h h \<and> reg_load (Hp ! 2) = gf_prod (gf_prod h h) h \<and>
     reg_load (Hp ! 3) = gf_prod (gf_prod (gf_prod h h) h) h"

lemma gcm_init_powers: "powers_of (swap128 (reg_load H)) (gcm_init_x86 H)"
  by (simp add: powers_of_def gcm_init_x86_def Let_def gf_mul_x86_prod bswap_x86_eq)

lemma hash4_horner:
  assumes "powers_of h Hp"
  shows "hash4_x86 Hp X [g0, g1, g2, g3] =
    gf_prod (gf_prod (gf_prod (gf_prod (X XOR g0) h XOR g1) h XOR g2) h XOR g3) h"
proof -
  have "hash4_x86 Hp X [g0, g1, g2, g3] =
      gf_prod (g0 XOR X) (gf_prod (gf_prod (gf_prod h h) h) h) XOR gf_prod g1 (gf_prod (gf_prod h h) h) XOR gf_prod g2 (gf_prod h h) XOR gf_prod g3 h"
    using assms by (simp add: hash4_x86_def powers_of_def gf_finish_reduce acc_join_clmul linear_word_xor [OF linear_gf_reduce] gf_reduce_clmul numeral_eq_Suc xor.assoc)
  then show ?thesis by (simp add: gf_prod_xor_left gf_prod_assoc [symmetric] xor.commute [of g0 X] xor.assoc)
qed

text \<open>One block of GHASH on the register that holds the byte-reversed state.\<close>

lemma ghash_spec_block:
  assumes "length H = 16" "length y = 16" "16 \<le> length msg"
  shows "ghash_spec H y msg = ghash_spec H (reg_store (swap128 (gf_prod (swap128 (reg_load y) XOR swap128 (reg_load msg)) (swap128 (reg_load H))))) (drop 16 msg)"
proof -
  have "reg_load (xor_bytes y (take 16 msg)) = reg_load y XOR reg_load msg"
    by (rule reg_eqI) (use assms in \<open>simp add: reg_store_load reg_store_xor\<close>)
  then show ?thesis
    using assms ghash_spec_step [of msg H y] by (cases "msg = []") (simp_all add: gf_mul_bytes_reg swap128_xor)
qed

definition ghash_reg :: "bytes \<Rightarrow> m128i \<Rightarrow> bytes \<Rightarrow> m128i" where
  "ghash_reg H X msg = swap128 (reg_load (ghash_spec H (reg_store (swap128 X)) msg))"

lemma ghash_reg_block:
  assumes "length H = 16" "16 \<le> length msg"
  shows "ghash_reg H X msg = ghash_reg H (gf_prod (X XOR swap128 (reg_load msg)) (swap128 (reg_load H))) (drop 16 msg)"
  using ghash_spec_block [OF assms(1) _ assms(2), of "reg_store (swap128 X)"] by (simp add: ghash_reg_def)

lemma ghash_reg_Nil [simp]: "ghash_reg H X [] = X"
  by (simp add: ghash_reg_def)

lemma ghash_reg_block4:
  assumes "length H = 16" "64 \<le> length msg"
  shows "ghash_reg H X msg = (let h = swap128 (reg_load H); g = (\<lambda>k. swap128 (reg_load (drop k msg)))
    in ghash_reg H (gf_prod (gf_prod (gf_prod (gf_prod (X XOR g 0) h XOR g 16) h XOR g 32) h XOR g 48) h) (drop 64 msg))"
proof -
  have "ghash_reg H Y (drop k msg) = ghash_reg H (gf_prod (Y XOR swap128 (reg_load (drop k msg))) (swap128 (reg_load H))) (drop (16 + k) msg)"
    if "k \<le> 48" for Y k
    using ghash_reg_block [OF assms(1), of "drop k msg" Y] that assms(2) by simp
  from this [of 0] this [of 16] this [of 32] this [of 48] show ?thesis by (simp add: Let_def)
qed

lemma ghash_loop_spec:
  assumes "length H = 16" "powers_of (swap128 (reg_load H)) Hp"
  shows "ghash_loop_x86 Hp X data = ghash_reg H X (pad16 data)"
  using assms(2)
proof (induction Hp X data rule: ghash_loop_x86.induct)
  case (1 Hp X data)
  let ?h = "swap128 (reg_load H)"
  have h0: "reg_load (Hp ! 0) = ?h" using "1.prems" by (simp add: powers_of_def)
  consider "64 \<le> length data" | "length data < 64" "16 \<le> length data" | "length data < 16" "data \<noteq> []" | "data = []" by linarith
  then show ?case
  proof cases
    case 1
    have d: "reg_load (drop k (pad16 data)) = reg_load (drop k data)" if "k \<le> 48" for k
    proof (rule reg_load_cong)
      fix i :: nat assume "i < 16"
      then have "i < length data - k" "k \<le> length data" using 1 that by simp_all
      then show "drop k (pad16 data) ! i = drop k data ! i" by (simp add: pad16_def nth_append)
    qed
    have dd: "drop 64 (pad16 data) = pad16 (drop 64 data)"
    proof -
      obtain m where "length data = 64 + m" using 1 le_Suc_ex by blast
      moreover have "(64 + m) mod 16 = m mod 16" using mod_mult_self1 [of m 4 16] by (simp add: add.commute)
      ultimately show ?thesis by (simp add: pad16_def)
    qed
    have l: "64 \<le> length (pad16 data)" using 1 by (simp add: pad16_def)
    have d0: "reg_load (pad16 data) = reg_load data" using d [of 0] by simp
    have "ghash_reg H X (pad16 data) = ghash_reg H (hash4_x86 Hp X (map (\<lambda>i. bswap_x86 (drop (16 * i) data)) [0..<4])) (pad16 (drop 64 data))"
      unfolding upt4 list.map hash4_horner [OF "1.prems"] bswap_x86_eq ghash_reg_block4 [OF assms(1) l] Let_def dd by (simp add: d d0)
    then show ?thesis using 1 "1.IH"(1) "1.prems" by (subst ghash_loop_x86.simps) simp
  next
    case 2
    have p: "take 16 (pad16 data) = take 16 data" "drop 16 (pad16 data) = pad16 (drop 16 data)" "16 \<le> length (pad16 data)"
      using 2 pad16_step [of data] by (simp_all add: pad16_def)
    have "reg_load (pad16 data) = reg_load data" by (rule reg_load_cong) (metis 2(2) p(1) nth_take)
    then show ?thesis
      using 2 "1.IH"(2) "1.prems" ghash_reg_block [OF assms(1) p(3), of X] p(2) h0
      by (subst ghash_loop_x86.simps) (simp add: gf_mul_x86_prod bswap_x86_eq)
  next
    case 3
    then have p: "pad16 data = data @ replicate (16 - length data) 0" "16 \<le> length (pad16 data)" "drop 16 (pad16 data) = []"
      by (simp_all add: pad16_short)
    show ?thesis
      using 3 ghash_reg_block [OF assms(1) p(2), of X] p h0
      by (subst ghash_loop_x86.simps) (simp add: gf_mul_x86_prod bswap_x86_eq)
  next
    case 4
    then show ?thesis by (subst ghash_loop_x86.simps) (simp add: pad16_def)
  qed
qed

lemma ghash_x86_spec:
  assumes "length H = 16" "length y = 16"
  shows "ghash_x86 (gcm_init_x86 H) y data = ghash_spec H y (pad16 data)"
  unfolding ghash_x86_def mm_shuffle_bswap bswap_x86_eq ghash_loop_spec [OF assms(1) gcm_init_powers]
  using assms by (simp add: ghash_reg_def reg_store_load_list)

section \<open>The AES instructions compute the portable rounds\<close>

lemma reg_load_xor: "reg_load u XOR reg_load k = reg_load (map (\<lambda>i. u ! i XOR k ! i) [0..<16])"
  by (rule bit_word_eqI) (simp add: bit_xor_iff bit_reg_load div_less_iff_less_mult)

lemma ShiftRows_load: "ShiftRows (reg_store (reg_load s)) = ShiftRows s"
  by (simp add: ShiftRows_def reg_store_load)

lemma aesenc_round: "r \<noteq> 14 \<Longrightarrow> mm_aesenc_si128 (reg_load s) (reg_load (rk ! r)) = reg_load (aes_round rk r s)"
  by (simp add: mm_aesenc_si128_def aes_round_def Let_def ShiftRows_load sub_shift_fips mix_columns_fips reg_load_xor)

lemma aesenclast_round: "mm_aesenclast_si128 (reg_load s) (reg_load (rk ! 14)) = reg_load (aes_round rk 14 s)"
  by (simp add: mm_aesenclast_si128_def aes_round_def Let_def ShiftRows_load sub_shift_fips reg_load_xor)

lemma fold_aesenc:
  "14 \<notin> set rs \<Longrightarrow> fold (\<lambda>r b. mm_aesenc_si128 b (reg_load (rk ! r))) rs (reg_load s) = reg_load (fold (aes_round rk) rs s)"
proof (induction rs arbitrary: s)
  case (Cons r rs)
  then show ?case using aesenc_round [of r s rk] by simp
qed simp

lemma aes256_enc_x86_load: "aes256_enc_x86 rk (reg_load b) = reg_load (aes256_encrypt_portable rk b)"
proof -
  have u: "[Suc 0..<15] = [Suc 0..<14] @ [14::nat]" using upt_Suc_append [of "Suc 0" 14] by simp
  show ?thesis
    by (simp add: aes256_enc_x86_def Let_def reg_load_xor fold_aesenc aesenclast_round aes256_encrypt_portable_def u)
qed

lemma aes256_enc_x86_portable: "reg_store (aes256_enc_x86 rk (reg_load b)) = aes256_encrypt_portable rk b"
  by (simp add: aes256_enc_x86_load reg_store_load_list)

lemma fold_map_rounds: "fold (\<lambda>r. map (\<lambda>x. f x (g r))) rs b = map (\<lambda>x. fold (\<lambda>r x. f x (g r)) rs x) b"
  by (induction rs arbitrary: b) simp_all

lemma aes256_enc4_x86_map: "aes256_enc4_x86 rk b = map (aes256_enc_x86 rk) b"
  by (simp add: aes256_enc4_x86_def aes256_enc_x86_def Let_def comp_def
      fold_map_rounds [where f = mm_aesenc_si128 and g = "\<lambda>r. reg_load (rk ! r)"])

section \<open>Key expansion\<close>

text \<open>One step of the key expansion of FIPS 197 on words.\<close>

definition key_step :: "nat \<Rightarrow> u32 list \<times> u8 \<Rightarrow> u32 list \<times> u8" where
  "key_step i = (\<lambda>(w, rcon).
     let t = w ! (i - 1);
         (t, rcon) =
           (if i mod 8 = 0 then (RotWord (SubWord t) XOR ucast rcon, xtime rcon)
            else if i mod 8 = 4 then (SubWord t, rcon)
            else (t, rcon))
     in (w @ [w ! (i - 8) XOR t], rcon))"

lemma bit_load32: "bit (load32_le p) k \<longleftrightarrow> k < 32 \<and> bit (p ! (k div 8)) (k mod 8)"
proof (cases "k < 32")
  case True
  then have "k \<in> set [0..<32]" by simp
  moreover have "[0..<32] = [0,1,2,3,4,5,6,7,8,9,10,11,12,13,14,15,16,17,18,19,20,21,22,23,24,25,26,27,28,29,30,31::nat]" by (simp add: upt_rec)
  ultimately have "k \<in> {0,1,2,3,4,5,6,7,8,9,10,11,12,13,14,15,16,17,18,19,20,21,22,23,24,25,26,27,28,29,30,31}" by (simp only: list.set)
  then show ?thesis
    by (elim insertE) (simp_all add: load32_le_def bit_or_iff bit_push_bit_iff bit_ucast_iff, (auto dest: bit_imp_le_length)?)
qed (auto simp: load32_le_def bit_simps dest: bit_imp_le_length)

lemma load32_xor: "load32_le p XOR load32_le q = load32_le (map (\<lambda>j. p ! j XOR q ! j) [0..<4])"
  by (rule bit_word_eqI) (simp add: bit_xor_iff bit_load32 div_less_iff_less_mult)

lemma ucast_load32: "ucast rcon = load32_le [rcon, 0, 0, 0]"
  by (simp add: load32_le_def)

lemma list4: "length t = 4 \<Longrightarrow> t = [t ! 0, t ! 1, t ! 2, t ! 3]"
  by (rule nth_equalityI) (auto simp: less_Suc_eq numeral_eq_Suc)

lemma SubWord_load: "length t = 4 \<Longrightarrow> SubWord (load32_le t) = load32_le (map sbox t)"
  by (simp add: SubWord_def store_load32)

lemma RotWord_load: "length t = 4 \<Longrightarrow> RotWord (load32_le t) = load32_le (rotate1 t)"
  by (simp add: RotWord_def store_load32)

definition wf_words :: "bytes list \<Rightarrow> bool" where
  "wf_words w \<longleftrightarrow> (\<forall>t \<in> set w. length t = 4)"

lemma expand_step_words:
  assumes "wf_words w" "length w = i" "8 \<le> i"
  shows "wf_words (fst (expand_step i (w, rcon)))" "length (fst (expand_step i (w, rcon))) = Suc i"
    "key_step i (map load32_le w, rcon) = (map load32_le (fst (expand_step i (w, rcon))), snd (expand_step i (w, rcon)))"
proof -
  define t where "t = w ! (i - 1)"
  have t: "length t = 4" and u: "length (w ! (i - 8)) = 4" using assms by (simp_all add: wf_words_def t_def)
  have r: "rotate1 (map sbox t) = [sbox (t ! Suc 0), sbox (t ! 2), sbox (t ! 3), sbox (t ! 0)]"
    by (subst list4 [OF t]) simp
  have x: "load32_le [sbox (t ! Suc 0), sbox (t ! 2), sbox (t ! 3), sbox (t ! 0)] XOR load32_le [rcon, 0, 0, 0] =
      load32_le [sbox (t ! Suc 0) XOR rcon, sbox (t ! 2), sbox (t ! 3), sbox (t ! 0)]"
    unfolding load32_xor upt4 by (simp add: numeral_eq_Suc)
  show "wf_words (fst (expand_step i (w, rcon)))" "length (fst (expand_step i (w, rcon))) = Suc i"
    using assms by (auto simp: wf_words_def expand_step_def Let_def split: prod.split)
  have k: "load32_le (w ! (i - 8)) XOR load32_le p = load32_le (map (\<lambda>j. w ! (i - 8) ! j XOR p ! j) [0..<4])" for p
    by (rule load32_xor)
  have m: "map load32_le w ! (i - 1) = load32_le t" "map load32_le w ! (i - 8) = load32_le (w ! (i - 8))" using assms by (simp_all add: t_def)
  show "key_step i (map load32_le w, rcon) = (map load32_le (fst (expand_step i (w, rcon))), snd (expand_step i (w, rcon)))"
    unfolding key_step_def expand_step_def case_prod_conv Let_def m t_def [symmetric]
    by (simp add: SubWord_load [OF t] RotWord_load r ucast_load32 x k t)
qed

lemma fold_expand_words:
  assumes "wf_words w" "length w = 8"
  shows "wf_words (fst (fold expand_step [8..<8 + n] (w, rcon))) \<and> length (fst (fold expand_step [8..<8 + n] (w, rcon))) = 8 + n \<and>
    fold key_step [8..<8 + n] (map load32_le w, rcon) =
      (map load32_le (fst (fold expand_step [8..<8 + n] (w, rcon))), snd (fold expand_step [8..<8 + n] (w, rcon)))"
proof (induction n)
  case 0
  then show ?case using assms by simp
next
  case (Suc n)
  have u: "[8..<8 + Suc n] = [8..<8 + n] @ [8 + n]" using upt_Suc_append [of 8 "8 + n"] by simp
  show ?case
    unfolding u fold_append comp_apply fold_simps
    using Suc expand_step_words [of "fst (fold expand_step [8..<8 + n] (w, rcon))" "8 + n" "snd (fold expand_step [8..<8 + n] (w, rcon))"]
    by simp
qed

lemma of_lanes_xor: "of_lanes a b c d XOR of_lanes a' b' c' d' = of_lanes (a XOR a') (b XOR b') (c XOR c') (d XOR d')"
  by (rule bit_word_eqI) (auto simp: bit_xor_iff bit_of_lanes)

lemma slli_lanes: "mm_slli_si128 (of_lanes a b c d) 4 = of_lanes 0 a b c"
proof (rule bit_word_eqI)
  fix k :: nat assume "k < LENGTH(128)"
  then consider "k < 32" | "32 \<le> k" "k < 64" | "64 \<le> k" "k < 96" | "96 \<le> k" "k < 128" by fastforce
  then show "bit (mm_slli_si128 (of_lanes a b c d) 4) k = bit (of_lanes 0 a b c) k"
    by cases (auto simp: mm_slli_si128_def bit_push_bit_iff bit_of_lanes)
qed

definition key_chain :: "u32 \<Rightarrow> u32 \<Rightarrow> u32 \<Rightarrow> u32 \<Rightarrow> u32 \<Rightarrow> m128i" where
  "key_chain a b c d t = of_lanes (a XOR t) (b XOR (a XOR t)) (c XOR (b XOR (a XOR t))) (d XOR (c XOR (b XOR (a XOR t))))"

lemma shuffle_chain:
  "(((a XOR mm_slli_si128 a 4) XOR mm_slli_si128 (mm_slli_si128 a 4) 4) XOR mm_slli_si128 (mm_slli_si128 (mm_slli_si128 a 4) 4) 4) XOR of_lanes x x x x =
     key_chain (lane a 0) (lane a 1) (lane a 2) (lane a 3) x"
proof -
  obtain p q r s where a: "a = of_lanes p q r s" by (metis of_lanes_lane)
  show ?thesis unfolding a slli_lanes of_lanes_xor key_chain_def by (simp add: xor.assoc)
qed

lemma shuffle_assist:
  "mm_shuffle_epi32 (mm_aeskeygenassist_si128 b rcon) 0xff = (let x = RotWord (SubWord (lane b 3)) XOR ucast rcon in of_lanes x x x x)"
  "mm_shuffle_epi32 (mm_aeskeygenassist_si128 b rcon) 0xaa = (let x = SubWord (lane b 3) in of_lanes x x x x)"
  by (simp_all add: mm_shuffle_epi32_def mm_aeskeygenassist_si128_def Let_def)

lemma assist1_chain:
  "aes256_assist1 a (mm_aeskeygenassist_si128 b rcon) =
     key_chain (lane a 0) (lane a 1) (lane a 2) (lane a 3) (RotWord (SubWord (lane b 3)) XOR ucast rcon)"
  unfolding aes256_assist1_def shuffle_assist Let_def shuffle_chain ..

lemma assist2_chain:
  "aes256_assist2 a c = key_chain (lane c 0) (lane c 1) (lane c 2) (lane c 3) (SubWord (lane a 3))"
  unfolding aes256_assist2_def shuffle_assist Let_def shuffle_chain ..

text \<open>The round keys of the x86 path hold the words of the expansion, four to a register.\<close>

definition holds_words :: "u32 list \<Rightarrow> m128i list \<Rightarrow> bool" where
  "holds_words w rk \<longleftrightarrow> length w = 4 * length rk \<and>
     (\<forall>r < length rk. rk ! r = of_lanes (w ! (4 * r)) (w ! (4 * r + 1)) (w ! (4 * r + 2)) (w ! (4 * r + 3)))"

lemma holds_words_snoc:
  "holds_words w rk \<Longrightarrow> holds_words (w @ [a, b, c, d]) (rk @ [of_lanes a b c d])"
  by (auto simp: holds_words_def nth_append less_Suc_eq)

lemma key_step4:
  assumes "length w = n" "8 \<le> n" "n mod 8 = 0 \<or> n mod 8 = 4"
  shows "fold key_step [n..<n + 4] (w, rcon) =
    (let t = (if n mod 8 = 0 then RotWord (SubWord (w ! (n - 1))) XOR ucast rcon else SubWord (w ! (n - 1)));
         a = w ! (n - 8) XOR t; b = w ! (n - 7) XOR a; c = w ! (n - 6) XOR b; d = w ! (n - 5) XOR c
     in (w @ [a, b, c, d], if n mod 8 = 0 then xtime rcon else rcon))"
proof -
  have u: "[n..<n + 4] = [n, n + 1, n + 2, n + 3]" by (simp add: upt_rec)
  have m: "(n + j) mod 8 \<noteq> 0 \<and> (n + j) mod 8 \<noteq> 4" if "j \<in> {1, 2, 3}" for j
    using assms(3) that mod_add_left_eq [of n 8 j] by auto
  have d: "n + 1 - 8 = n - 7" "n + 2 - 8 = n - 6" "n + 3 - 8 = n - 5" using assms by simp_all
  show ?thesis
    unfolding u fold_simps using m [of 1] m [of 2] m [of 3] assms
    by (auto simp: key_step_def Let_def nth_append d)
qed

lemma holds_words_nth:
  assumes "holds_words w rk" "r < length rk"
  shows "lane (rk ! r) 0 = w ! (4 * r)" "lane (rk ! r) 1 = w ! (4 * r + 1)" "lane (rk ! r) 2 = w ! (4 * r + 2)" "lane (rk ! r) 3 = w ! (4 * r + 3)"
  using assms by (simp_all add: holds_words_def)

lemma key_step4_even:
  assumes "holds_words w rk" "length rk = 2 * q" "1 \<le> q"
  shows "\<exists>w'. fold key_step [8 * q..<8 * q + 4] (w, rcon) = (w', xtime rcon) \<and>
    holds_words w' (rk @ [aes256_assist1 (rk ! (2 * q - 2)) (mm_aeskeygenassist_si128 (rk ! (2 * q - 1)) rcon)])"
proof -
  have l: "length w = 8 * q" using assms by (simp add: holds_words_def)
  have i: "4 * (2 * q - 2) = 8 * q - 8" "4 * (2 * q - 2) + 1 = 8 * q - 7" "4 * (2 * q - 2) + 2 = 8 * q - 6" "4 * (2 * q - 2) + 3 = 8 * q - 5"
    "4 * (2 * q - 1) + 3 = 8 * q - 1" using assms(3) by simp_all
  have k: "2 * q - 2 < length rk" "2 * q - 1 < length rk" using assms by simp_all
  show ?thesis
    unfolding assist1_chain holds_words_nth [OF assms(1) k(1)] holds_words_nth [OF assms(1) k(2)] i(2-5) key_chain_def
    unfolding i(1) using key_step4 [OF l] assms(3) by (simp add: Let_def holds_words_snoc [OF assms(1)])
qed

lemma key_step4_odd:
  assumes "holds_words w rk" "length rk = 2 * q + 1" "1 \<le> q"
  shows "\<exists>w'. fold key_step [8 * q + 4..<8 * q + 8] (w, rcon) = (w', rcon) \<and> holds_words w' (rk @ [aes256_assist2 (rk ! (2 * q)) (rk ! (2 * q - 1))])"
proof -
  have l: "length w = 8 * q + 4" using assms by (simp add: holds_words_def)
  have i: "4 * (2 * q - 1) = 8 * q + 4 - 8" "4 * (2 * q - 1) + 1 = 8 * q + 4 - 7" "4 * (2 * q - 1) + 2 = 8 * q + 4 - 6" "4 * (2 * q - 1) + 3 = 8 * q + 4 - 5"
    "4 * (2 * q) + 3 = 8 * q + 4 - 1" using assms(3) by simp_all
  have k: "2 * q - 1 < length rk" "2 * q < length rk" using assms by simp_all
  have u: "8 * q + 8 = 8 * q + 4 + 4" "8 \<le> 8 * q + 4" "(8 * q + 4) mod 8 = 4" using assms(3) by simp_all
  show ?thesis
    unfolding assist2_chain holds_words_nth [OF assms(1) k(1)] holds_words_nth [OF assms(1) k(2)] i(2-5) key_chain_def u(1)
    unfolding i(1) using key_step4 [OF l u(2)] u(3) by (simp add: Let_def holds_words_snoc [OF assms(1)] del: upt_Suc)
qed

lemma key_pair:
  assumes "holds_words w rk" "length rk = 2 * q" "1 \<le> q"
  shows "\<exists>w'. fold key_step [8 * q..<8 * q + 8] (w, rcon) = (w', xtime rcon) \<and> holds_words w' (expand_pair rcon rk)"
proof -
  let ?e = "aes256_assist1 (rk ! (2 * q - 2)) (mm_aeskeygenassist_si128 (rk ! (2 * q - 1)) rcon)"
  obtain w1 where 1: "fold key_step [8 * q..<8 * q + 4] (w, rcon) = (w1, xtime rcon)" "holds_words w1 (rk @ [?e])"
    using key_step4_even [OF assms] by blast
  obtain w2 where 2: "fold key_step [8 * q + 4..<8 * q + 8] (w1, xtime rcon) = (w2, xtime rcon)"
    "holds_words w2 ((rk @ [?e]) @ [aes256_assist2 ?e (rk ! (2 * q - 1))])"
    using key_step4_odd [OF 1(2), of q] assms by (auto simp: nth_append)
  have "[8 * q..<8 * q + 8] = [8 * q..<8 * q + 4] @ [8 * q + 4..<8 * q + 8]" using upt_add_eq_append [of "8 * q" "8 * q + 4" 4] by (simp add: add.commute)
  then show ?thesis using 1 2 assms by (simp add: expand_pair_def Let_def)
qed

lemma length_expand_pair [simp]: "length (expand_pair rcon rk) = length rk + 2"
  by (simp add: expand_pair_def Let_def)

lemma key_pairs:
  assumes "holds_words w rk" "length rk = 2 * q" "1 \<le> q"
  shows "\<exists>w'. fold key_step [8 * q..<8 * (q + n)] (w, rcon) = (w', (xtime ^^ n) rcon) \<and>
    holds_words w' (fold expand_pair (map (\<lambda>i. (xtime ^^ i) rcon) [0..<n]) rk) \<and>
    length (fold expand_pair (map (\<lambda>i. (xtime ^^ i) rcon) [0..<n]) rk) = 2 * (q + n)"
proof (induction n)
  case 0
  then show ?case using assms by simp
next
  case (Suc n)
  let ?rk = "fold expand_pair (map (\<lambda>i. (xtime ^^ i) rcon) [0..<n]) rk"
  obtain w' where 1: "fold key_step [8 * q..<8 * (q + n)] (w, rcon) = (w', (xtime ^^ n) rcon)" "holds_words w' ?rk" "length ?rk = 2 * (q + n)"
    using Suc by blast
  obtain w2 where 2: "fold key_step [8 * (q + n)..<8 * (q + n) + 8] (w', (xtime ^^ n) rcon) = (w2, xtime ((xtime ^^ n) rcon))"
    "holds_words w2 (expand_pair ((xtime ^^ n) rcon) ?rk)"
    using key_pair [OF 1(2) 1(3) trans_le_add1 [OF assms(3)]] by blast
  have u: "[8 * q..<8 * (q + Suc n)] = [8 * q..<8 * (q + n)] @ [8 * (q + n)..<8 * (q + n) + 8]"
  proof -
    have e: "8 * (q + Suc n) = 8 * (q + n) + 8" by simp
    have "8 * q \<le> 8 * (q + n)" by simp
    then show ?thesis unfolding e by (rule upt_add_eq_append)
  qed
  show ?case unfolding u using 1 2 by (simp del: upt_Suc add: upt_Suc_append)
qed

lemma xtime_table: "map (\<lambda>i. (xtime ^^ i) 1) [0..<6] = [0x01, 0x02, 0x04, 0x08, 0x10, 0x20]" "(xtime ^^ 6) 1 = 0x40"
proof -
  have s: "(xtime ^^ (n + 1)) 1 = xtime ((xtime ^^ n) 1)" for n by simp
  have e: "xtime 1 = 2" "xtime 2 = 4" "xtime 4 = 8" "xtime 8 = 16" "xtime 16 = 32" "xtime 32 = 64" by (simp_all add: xtime_def)
  have "(xtime ^^ 2) 1 = 4" by (simp add: numeral_2_eq_2 e)
  then have x: "(xtime ^^ 1) 1 = 2" "(xtime ^^ 2) 1 = 4" "(xtime ^^ 3) 1 = 8" "(xtime ^^ 4) 1 = 16" "(xtime ^^ 5) 1 = 32" "(xtime ^^ 6) 1 = 64"
    using s [of 0] s [of 1] s [of 2] s [of 3] s [of 4] s [of 5] by (simp_all add: e)
  have "[0..<6] = [0, 1, 2, 3, 4, 5::nat]" by (simp add: upt_rec)
  then show "map (\<lambda>i. (xtime ^^ i) 1) [0..<6] = [0x01, 0x02, 0x04, 0x08, 0x10, 0x20]" using x by simp
  show "(xtime ^^ 6) 1 = 0x40" by (fact x)
qed

lemma reg_load_lanes:
  "reg_load p = of_lanes (load32_le (map (\<lambda>j. p ! j) [0..<4])) (load32_le (map (\<lambda>j. p ! (4 + j)) [0..<4]))
     (load32_le (map (\<lambda>j. p ! (8 + j)) [0..<4])) (load32_le (map (\<lambda>j. p ! (12 + j)) [0..<4]))"
proof (rule bit_word_eqI)
  fix k :: nat assume "k < LENGTH(128)"
  then have *: "k < 32 \<or> (\<exists>m < 32. k = 32 + m) \<or> (\<exists>m < 32. k = 64 + m) \<or> (\<exists>m < 32. k = 96 + m)"
    using le_Suc_ex [of 32 k] le_Suc_ex [of 64 k] le_Suc_ex [of 96 k] by (cases "k < 32"; cases "k < 64"; cases "k < 96") auto
  show "bit (reg_load p) k = bit (of_lanes (load32_le (map (\<lambda>j. p ! j) [0..<4])) (load32_le (map (\<lambda>j. p ! (4 + j)) [0..<4]))
     (load32_le (map (\<lambda>j. p ! (8 + j)) [0..<4])) (load32_le (map (\<lambda>j. p ! (12 + j)) [0..<4]))) k"
  proof -
    have q: "(8 * c + m) div 8 = c + m div 8 \<and> (8 * c + m) mod 8 = m mod 8" for c m :: nat by simp
    show ?thesis using * q [of 4] q [of 8] q [of 12]
      by (elim disjE exE conjE) (auto simp: bit_reg_load bit_of_lanes bit_load32 div_less_iff_less_mult)
  qed
qed

lemma reg_store_lanes: "reg_store (of_lanes a b c d) = store32_le a @ store32_le b @ store32_le c @ store32_le d"
proof (rule nth_equalityI)
  fix i assume "i < length (reg_store (of_lanes a b c d))"
  then have "i \<in> set [0..<16]" by simp
  then have "i \<in> set [0, 1, 2, 3, 4, 5, 6, 7, 8, 9, 10, 11, 12, 13, 14, 15]" unfolding upt16 .
  then show "reg_store (of_lanes a b c d) ! i = (store32_le a @ store32_le b @ store32_le c @ store32_le d) ! i"
    by (intro bit_word_eqI) (auto simp: bit_reg_store bit_of_lanes store32_le_def nth_append bit_simps)
qed simp

lemma aes256_expand_x86_portable:
  assumes "length key = 32"
  shows "aes256_expand_x86 key = aes256_expand_portable key"
proof -
  define w0 where "w0 = map (\<lambda>i. map (\<lambda>j. key ! (4 * i + j)) [0..<4]) [0..<8]"
  define w where "w = fst (fold expand_step [8..<60] (w0, 1))"
  define rk0 where "rk0 = [reg_load key, reg_load (drop 16 key)]"
  define rk6 where "rk6 = fold expand_pair [0x01, 0x02, 0x04, 0x08, 0x10, 0x20] rk0"
  define rk where "rk = rk6 @ [aes256_assist1 (rk6 ! 12) (mm_aeskeygenassist_si128 (rk6 ! 13) 0x40)]"
  have u8: "[0..<8] = [0, 1, 2, 3, 4, 5, 6, 7::nat]" by (simp add: upt_rec)
  have w0: "wf_words w0" "length w0 = 8" by (simp_all add: w0_def wf_words_def)
  have a2: "(\<forall>r < length rk0. P r) \<longleftrightarrow> P 0 \<and> P 1" for P by (auto simp: rk0_def less_Suc_eq)
  have h0: "holds_words (map load32_le w0) rk0"
    unfolding holds_words_def a2 unfolding rk0_def using assms
    by (simp add: w0_def u8 reg_load_lanes [of key] reg_load_lanes [of "drop 16 key"] upt4) (simp only: numeral_2_eq_2)
  obtain w6 where 6: "fold key_step [8..<56] (map load32_le w0, 1) = (w6, 0x40)" "holds_words w6 rk6" "length rk6 = 14"
    using key_pairs [OF h0, of 1 6 1] by (auto simp: xtime_table rk0_def rk6_def)
  obtain w7 where 7: "fold key_step [56..<60] (w6, 0x40) = (w7, xtime 0x40)" "holds_words w7 rk"
    using key_step4_even [OF 6(2), of 7 "0x40"] 6(3) by (auto simp: rk_def)
  have "[8..<60] = [8..<56] @ [56..<60::nat]" using upt_add_eq_append [of 8 56 4] by simp
  then have "fst (fold key_step [8..<60] (map load32_le w0, 1)) = w7" using 6 7 by simp
  moreover have f: "wf_words w" "length w = 60" "fst (fold key_step [8..<60] (map load32_le w0, 1)) = map load32_le w"
    using fold_expand_words [OF w0, of 52 1] by (simp_all add: w_def)
  ultimately have h: "holds_words (map load32_le w) rk" using 7 by simp
  have "reg_store (rk ! r) = concat (map (\<lambda>c. w ! (4 * r + c)) [0..<4])" if "r < 15" for r
  proof -
    have l: "4 * r + c < length w" if "c < 4" for c using that \<open>r < 15\<close> f(2) by simp
    have "store32_le (map load32_le w ! (4 * r + c)) = w ! (4 * r + c)" if "c < 4" for c
      using l [OF that] f(1) by (simp add: wf_words_def store_load32)
    from this [of 0] this [of 1] this [of 2] this [of 3] show ?thesis
      using h that 6(3) unfolding holds_words_def by (simp add: reg_store_lanes upt4 rk_def)
  qed
  moreover have "length rk = 15" using 6(3) by (simp add: rk_def)
  ultimately have "map reg_store rk = map (\<lambda>r. concat (map (\<lambda>c. w ! (4 * r + c)) [0..<4])) [0..<15]"
    by (intro nth_equalityI) simp_all
  then show ?thesis
    unfolding aes256_expand_x86_def aes256_expand_portable_def Let_def w0_def [symmetric] w_def [symmetric] rk0_def [symmetric]
      rk6_def [symmetric] rk_def [symmetric] .
qed

section \<open>Counter mode and the single pass\<close>

lemma reg_store_load_take: "16 \<le> length p \<Longrightarrow> reg_store (reg_load p) = take 16 p"
  by (rule nth_equalityI) (simp_all add: reg_store_load)

lemma aes_ctr_step4:
  assumes "64 \<le> length inp"
  shows "aes_ctr_portable rk ctr inp =
    (fst (aes_ctr_portable rk ((ctr_inc ^^ 4) ctr) (drop 64 inp)),
     concat (map (\<lambda>i. xor_bytes (take 16 (drop (16 * i) inp)) (aes256_encrypt_portable rk ((ctr_inc ^^ i) ctr))) [0..<4]) @
     snd (aes_ctr_portable rk ((ctr_inc ^^ 4) ctr) (drop 64 inp)))"
proof -
  have n: "drop k inp \<noteq> []" if "k \<le> 48" for k using assms that by simp
  have c: "(ctr_inc ^^ 2) ctr = ctr_inc (ctr_inc ctr)" "(ctr_inc ^^ 3) ctr = ctr_inc (ctr_inc (ctr_inc ctr))"
    "(ctr_inc ^^ 4) ctr = ctr_inc (ctr_inc (ctr_inc (ctr_inc ctr)))" by (simp_all add: numeral_eq_Suc)
  show ?thesis
    using aes_ctr_step [OF n [of 0], of rk ctr] aes_ctr_step [OF n [of 16], of rk "ctr_inc ctr"]
      aes_ctr_step [OF n [of 32], of rk "ctr_inc (ctr_inc ctr)"] aes_ctr_step [OF n [of 48], of rk "ctr_inc (ctr_inc (ctr_inc ctr))"]
    unfolding upt4 by (simp add: c)
qed

text \<open>Four blocks of counter mode with the four chains of the AES unit.\<close>

lemma enc4_blocks:
  assumes "64 \<le> length inp"
  shows "map (\<lambda>i. reg_store (reg_load (drop (16 * i) inp) XOR aes256_enc4_x86 rk (map (\<lambda>i. reg_load (c i)) [0..<4]) ! i)) [0..<4] =
    map (\<lambda>i. xor_bytes (take 16 (drop (16 * i) inp)) (aes256_encrypt_portable rk (c i))) [0..<4]"
  using assms by (intro nth_equalityI)
    (simp_all add: aes256_enc4_x86_map aes256_enc_x86_load reg_store_xor reg_store_load_take [of "aes256_encrypt_portable _ _"] reg_store_load_take [of "drop _ inp"])

lemma aes_ctr_x86_portable: "aes_ctr_x86 rk ctr inp = aes_ctr_portable rk ctr inp"
proof (induction rk ctr inp rule: aes_ctr_x86.induct)
  case (1 rk ctr inp)
  consider "64 \<le> length inp" | "length inp < 64" "inp \<noteq> []" | "inp = []" by linarith
  then show ?case
  proof cases
    case a: 1
    show ?thesis
      using a 1(1) by (subst aes_ctr_x86.simps, subst aes_ctr_step4 [OF a])
        (simp add: Let_def case_prod_unfold enc4_blocks [OF a, where c = "\<lambda>i. (ctr_inc ^^ i) ctr"])
  next
    case b: 2
    then show ?thesis
      using 1(2) by (subst aes_ctr_x86.simps, subst aes_ctr_step [OF b(2)]) (simp add: Let_def case_prod_unfold aes256_enc_x86_portable)
  next
    case 3
    then show ?thesis by (subst aes_ctr_x86.simps) simp
  qed
qed

lemma ctr_inc_store: "ctr_inc ctr = store_ctr32 (load_ctr32 ctr + 1) ctr"
  by (simp add: ctr_inc_def store_ctr32_def load_ctr32_def Let_def)

lemma bytes_of_u32:
  "push_bit 24 (ucast (ucast (drop_bit 24 v) :: u8)) OR push_bit 16 (ucast (ucast (drop_bit 16 v) :: u8)) OR
     push_bit 8 (ucast (ucast (drop_bit 8 v) :: u8)) OR ucast (ucast v :: u8) = v" for v :: u32
proof (rule bit_word_eqI)
  fix n :: nat assume "n < LENGTH(32)"
  then have "n < 32" by simp
  then consider "n < 8" | "8 \<le> n" "n < 16" | "16 \<le> n" "n < 24" | "24 \<le> n" "n < 32" by linarith
  then show "bit (push_bit 24 (ucast (ucast (drop_bit 24 v) :: u8)) OR push_bit 16 (ucast (ucast (drop_bit 16 v) :: u8)) OR
     push_bit 8 (ucast (ucast (drop_bit 8 v) :: u8)) OR ucast (ucast v :: u8) :: u32) n = bit v n"
    by cases (simp_all add: bit_or_iff bit_push_bit_iff bit_ucast_iff bit_drop_bit_eq, auto)
qed

lemma load_store_ctr32: "length ctr = 16 \<Longrightarrow> load_ctr32 (store_ctr32 v ctr) = v"
  by (simp add: load_ctr32_def store_ctr32_def bytes_of_u32)

lemma store_store_ctr32 [simp]: "store_ctr32 v (store_ctr32 u ctr) = store_ctr32 v ctr"
  by (simp add: store_ctr32_def list_update_swap)

lemma length_store_ctr32 [simp]: "length (store_ctr32 v ctr) = length ctr"
  by (simp add: store_ctr32_def)

lemma ctr_inc_store_ctr32: "length ctr = 16 \<Longrightarrow> ctr_inc (store_ctr32 v ctr) = store_ctr32 (v + 1) ctr"
  by (simp add: ctr_inc_store load_store_ctr32)

lemma ctr_inc_pow_store: "length ctr = 16 \<Longrightarrow> (ctr_inc ^^ i) (store_ctr32 v ctr) = store_ctr32 (v + of_nat i) ctr"
  by (induction i) (simp_all add: ctr_inc_store_ctr32 ac_simps)

lemma ctr_block_load: "length ctr = 16 \<Longrightarrow> ctr_block_x86 (reg_load ctr) v = reg_load (store_ctr32 v ctr)"
  unfolding ctr_block_x86_def mm_insert_epi32_def Let_def reg_load_lanes [of "store_ctr32 v ctr"] reg_load_lanes [of ctr]
  by (simp add: store_ctr32_def bswap32_def store32_le_def upt4)

lemma nth_concat_blocks:
  "\<forall>x \<in> set xs. length x = n \<Longrightarrow> i < length xs \<Longrightarrow> j < n \<Longrightarrow> drop (n * i) (concat xs) ! j = xs ! i ! j"
proof (induction xs arbitrary: i)
  case (Cons x xs)
  then show ?case by (cases i) (simp_all add: nth_append)
qed simp

lemma ghash_loop_64:
  "length d = 64 \<Longrightarrow> ghash_loop_x86 Hp X (d @ r) = ghash_loop_x86 Hp (hash4_x86 Hp X (map (\<lambda>i. bswap_x86 (drop (16 * i) d)) [0..<4])) r"
proof -
  assume d: "length d = 64"
  have "drop k (d @ r) ! i = drop k d ! i" if "k \<le> 48" "i < 16" for k i
  proof -
    have "i < 64 - k" using that by simp
    then show ?thesis using d that by (simp add: nth_append)
  qed
  then have g: "bswap_x86 (drop k (d @ r)) = bswap_x86 (drop k d)" if "k \<le> 48" for k
    unfolding bswap_x86_eq using that by (intro arg_cong [where f = swap128] reg_load_cong) blast
  have m: "map (\<lambda>i. bswap_x86 (drop (16 * i) (d @ r))) [0..<4] = map (\<lambda>i. bswap_x86 (drop (16 * i) d)) [0..<4]"
    by (intro map_cong refl g) auto
  have e: "drop 64 (d @ r) = r" using d by simp
  have "ghash_loop_x86 Hp X (d @ r) = ghash_loop_x86 Hp (hash4_x86 Hp X (map (\<lambda>i. bswap_x86 (drop (16 * i) (d @ r))) [0..<4])) (drop 64 (d @ r))"
    using d by (subst ghash_loop_x86.simps) (simp del: drop_append)
  then show ?thesis unfolding m e .
qed

lemma ghash_loop_16:
  assumes "d \<noteq> []" "length d \<le> 16" "length d < 16 \<longrightarrow> r = []" "length r < 48"
  shows "ghash_loop_x86 Hp X (d @ r) = ghash_loop_x86 Hp (gf_mul_x86 (X XOR bswap_x86 (d @ replicate (16 - length d) 0)) (reg_load (Hp ! 0))) r"
proof (cases "length d = 16")
  case True
  have "bswap_x86 (d @ r) = bswap_x86 d" using True by (auto simp: bswap_x86_eq nth_append intro!: arg_cong [where f = swap128] reg_load_cong)
  then show ?thesis using True assms by (subst ghash_loop_x86.simps) simp
next
  case False
  then show ?thesis using assms by (subst ghash_loop_x86.simps) (simp add: ghash_loop_x86.simps [of Hp _ "[]"])
qed

text \<open>The single pass is counter mode and GHASH over the ciphertext, whichever side that is.\<close>

lemma stitch_loop_eq:
  assumes "length ctr = 16"
  shows "\<exists>v'. stitch_loop_x86 rk Hp encrypt (reg_load ctr) v X inp =
      (v', ghash_loop_x86 Hp X (if encrypt then snd (aes_ctr_portable rk (store_ctr32 v ctr) inp) else inp), snd (aes_ctr_portable rk (store_ctr32 v ctr) inp)) \<and>
      fst (aes_ctr_portable rk (store_ctr32 v ctr) inp) = store_ctr32 v' ctr"
proof (induction rk Hp encrypt "reg_load ctr" v X inp rule: stitch_loop_x86.induct)
  case (1 rk Hp encrypt v X inp)
  consider "64 \<le> length inp" | "length inp < 64" "inp \<noteq> []" | "inp = []" by linarith
  then show ?case
  proof cases
    case a: 1
    define e where "e = map (\<lambda>i. xor_bytes (take 16 (drop (16 * i) inp)) (aes256_encrypt_portable rk (store_ctr32 (v + of_nat i) ctr))) [0..<4]"
    define b where "b = aes256_enc4_x86 rk (map (\<lambda>i. ctr_block_x86 (reg_load ctr) (v + of_nat i)) [0..<4])"
    define d where "d = map (\<lambda>i. reg_load (drop (16 * i) inp)) [0..<4]"
    define ev where "ev = map (\<lambda>i. d ! i XOR b ! i) [0..<4]"
    define g where "g = map (\<lambda>i. mm_shuffle_epi8 (if encrypt then ev ! i else d ! i) (reg_load kBswapMask)) [0..<4]"
    have ee: "map reg_store ev = e"
      using enc4_blocks [OF a, of rk "\<lambda>i. store_ctr32 (v + of_nat i) ctr"] unfolding ev_def e_def b_def d_def
      by (simp add: ctr_block_load [OF assms] comp_def cong: map_cong)
    have le: "length (concat e) = 64" "length e = 4" using a by (simp_all add: e_def upt4)
    have le16: "\<forall>x \<in> set e. length x = 16" using a by (auto simp: e_def)
    have st: "aes_ctr_portable rk (store_ctr32 v ctr) inp = (fst (aes_ctr_portable rk (store_ctr32 (v + 4) ctr) (drop 64 inp)),
        concat e @ snd (aes_ctr_portable rk (store_ctr32 (v + 4) ctr) (drop 64 inp)))"
      unfolding aes_ctr_step4 [OF a] ctr_inc_pow_store [OF assms] e_def by simp
    obtain v' where IH: "stitch_loop_x86 rk Hp encrypt (reg_load ctr) (v + 4) (hash4_x86 Hp X g) (drop 64 inp) =
        (v', ghash_loop_x86 Hp (hash4_x86 Hp X g) (if encrypt then snd (aes_ctr_portable rk (store_ctr32 (v + 4) ctr) (drop 64 inp)) else drop 64 inp),
         snd (aes_ctr_portable rk (store_ctr32 (v + 4) ctr) (drop 64 inp)))"
      "fst (aes_ctr_portable rk (store_ctr32 (v + 4) ctr) (drop 64 inp)) = store_ctr32 v' ctr"
      using 1(1) [OF a b_def d_def ev_def g_def] by blast
    have "mm_shuffle_epi8 (if encrypt then ev ! i else d ! i) (reg_load kBswapMask) =
        bswap_x86 (drop (16 * i) (if encrypt then concat e else take 64 inp))" if "i < 4" for i
    proof (cases encrypt)
      case True
      have "ev ! i = reg_load (e ! i)" using ee le(2) that by (metis length_map nth_map reg_load_store)
      also have "\<dots> = reg_load (drop (16 * i) (concat e))"
        using nth_concat_blocks [OF le16, of i] le(2) that by (intro reg_load_cong) simp
      finally show ?thesis using True by (simp add: mm_shuffle_bswap bswap_x86_eq)
    next
      case False
      have "reg_load (drop (16 * i) inp) = reg_load (drop (16 * i) (take 64 inp))"
        using a that by (intro reg_load_cong) simp
      then show ?thesis using False that by (simp add: mm_shuffle_bswap bswap_x86_eq d_def)
    qed
    then have g: "g = map (\<lambda>i. bswap_x86 (drop (16 * i) (if encrypt then concat e else take 64 inp))) [0..<4]"
      unfolding g_def by (intro map_cong refl) simp
    have X: "ghash_loop_x86 Hp X (if encrypt then concat e @ s else inp) = ghash_loop_x86 Hp (hash4_x86 Hp X g) (if encrypt then s else drop 64 inp)" for s
      using ghash_loop_64 [of "concat e" Hp X s] ghash_loop_64 [of "take 64 inp" Hp X "drop 64 inp"] le(1) a unfolding g by simp
    have "stitch_loop_x86 rk Hp encrypt (reg_load ctr) v X inp =
        (case stitch_loop_x86 rk Hp encrypt (reg_load ctr) (v + 4) (hash4_x86 Hp X g) (drop 64 inp) of
           (c, X', out) \<Rightarrow> (c, X', concat (map reg_store ev) @ out))"
      by (subst stitch_loop_x86.simps) (simp only: a if_True Let_def g_def ev_def d_def b_def)
    then show ?thesis unfolding st snd_conv fst_conv X IH ee by simp
  next
    case b: 2
    define o1 where "o1 = xor_bytes (take 16 inp) (aes256_encrypt_portable rk (store_ctr32 v ctr))"
    define blk where "blk = (if encrypt then o1 else take 16 inp)"
    define X1 where "X1 = gf_mul_x86 (X XOR bswap_x86 (blk @ replicate (16 - length blk) 0)) (reg_load (Hp ! 0))"
    have o: "xor_bytes (take 16 inp) (reg_store (aes256_enc_x86 rk (ctr_block_x86 (reg_load ctr) v))) = o1"
      by (simp add: o1_def ctr_block_load [OF assms] aes256_enc_x86_portable)
    have lo: "length o1 = min 16 (length inp)" by (simp add: o1_def)
    have st: "aes_ctr_portable rk (store_ctr32 v ctr) inp = (fst (aes_ctr_portable rk (store_ctr32 (v + 1) ctr) (drop 16 inp)),
        o1 @ snd (aes_ctr_portable rk (store_ctr32 (v + 1) ctr) (drop 16 inp)))"
      unfolding aes_ctr_step [OF b(2)] ctr_inc_store_ctr32 [OF assms] o1_def ..
    have n: "\<not> 64 \<le> length inp" using b by simp
    obtain v' where IH: "stitch_loop_x86 rk Hp encrypt (reg_load ctr) (v + 1) X1 (drop 16 inp) =
        (v', ghash_loop_x86 Hp X1 (if encrypt then snd (aes_ctr_portable rk (store_ctr32 (v + 1) ctr) (drop 16 inp)) else drop 16 inp),
         snd (aes_ctr_portable rk (store_ctr32 (v + 1) ctr) (drop 16 inp)))"
      "fst (aes_ctr_portable rk (store_ctr32 (v + 1) ctr) (drop 16 inp)) = store_ctr32 v' ctr"
      using 1(2) [OF n b(2) refl o [symmetric] blk_def refl] unfolding X1_def by blast
    have X: "ghash_loop_x86 Hp X (if encrypt then o1 @ t else inp) = ghash_loop_x86 Hp X1 (if encrypt then t else drop 16 inp)"
      if "length t = length (drop 16 inp)" for t
    proof -
      have "o1 \<noteq> []" "length o1 \<le> 16" "length o1 < 16 \<longrightarrow> t = []" "length t < 48" using lo b \<open>length t = _\<close> by (auto simp: min_def split: if_splits)
      from ghash_loop_16 [OF this, of Hp X] have "ghash_loop_x86 Hp X (o1 @ t) = ghash_loop_x86 Hp X1 t" if encrypt
        using that by (simp add: X1_def blk_def)
      moreover have "ghash_loop_x86 Hp X (take 16 inp @ drop 16 inp) = ghash_loop_x86 Hp X1 (drop 16 inp)" if "\<not> encrypt"
        using ghash_loop_16 [of "take 16 inp" "drop 16 inp" Hp X] b that by (auto simp: X1_def blk_def)
      ultimately show ?thesis by simp
    qed
    have e: "stitch_loop_x86 rk Hp encrypt (reg_load ctr) v X inp =
        (case stitch_loop_x86 rk Hp encrypt (reg_load ctr) (v + 1) X1 (drop 16 inp) of (c, X', out) \<Rightarrow> (c, X', o1 @ out))"
      by (subst stitch_loop_x86.simps) (simp only: n b(2) if_True if_False not_False_eq_True Let_def o X1_def blk_def)
    have l: "length (snd (aes_ctr_portable rk (store_ctr32 (v + 1) ctr) (drop 16 inp))) = length (drop 16 inp)" by simp
    show ?thesis unfolding e st snd_conv fst_conv X [OF l] IH by simp
  next
    case 3
    then show ?thesis by (subst stitch_loop_x86.simps) (auto simp: ghash_loop_x86.simps [of Hp X "[]"])
  qed
qed

lemma gcm_stitch_x86_eq:
  assumes "length ctr = 16"
  shows "gcm_stitch_x86 rk Hp ctr y inp encrypt =
    (let (ctr', out) = aes_ctr_x86 rk ctr inp in (ctr', ghash_x86 Hp y (if encrypt then out else inp), out))"
proof -
  have s: "store_ctr32 (load_ctr32 ctr) ctr = ctr"
  proof -
    have "ucast (drop_bit 24 (load_ctr32 ctr)) = ctr ! 12" "ucast (drop_bit 16 (load_ctr32 ctr)) = ctr ! 13"
      "ucast (drop_bit 8 (load_ctr32 ctr)) = ctr ! 14" "ucast (load_ctr32 ctr) = ctr ! 15"
      by (rule bit_word_eqI, auto simp: load_ctr32_def bit_simps dest: bit_imp_le_length)+
    then show ?thesis by (simp add: store_ctr32_def)
  qed
  from stitch_loop_eq [OF assms, of rk Hp encrypt "load_ctr32 ctr" "bswap_x86 y" inp, unfolded s] show ?thesis
    by (auto simp: gcm_stitch_x86_def aes_ctr_x86_portable ghash_x86_def case_prod_unfold Let_def)
qed

end
