(* ===== verification/Armv8.thy ===== *)
theory Armv8
  imports Aesni
begin

text \<open>
  The ARMv8 path of AES-256-GCM in \<open>src/src/core/simd_crypto.c\<close>: the AES rounds, GHASH by \<open>PMULL\<close> and counter
  mode.  A \<open>uint8x16_t\<close> is a 128-bit register, and \<open>vreinterpretq\<close> changes nothing but its type.  The code
  mirrors the x86 path, and the lemmas show that it computes the same.
\<close>

section \<open>Instructions\<close>

definition vaeseq_u8 :: "m128i \<Rightarrow> m128i \<Rightarrow> m128i" where
  "vaeseq_u8 b k = reg_load (SubBytes (ShiftRows (reg_store (b XOR k))))"

definition vaesmcq_u8 :: "m128i \<Rightarrow> m128i" where
  "vaesmcq_u8 b = reg_load (MixColumns (reg_store b))"

text \<open>\<open>vextq_u8(a, b, n)\<close>: the bytes from \<open>n\<close> on of \<open>a\<close> followed by those of \<open>b\<close>; \<open>vrev64q_u8\<close> reverses the bytes of each half.\<close>

definition vextq_u8 :: "m128i \<Rightarrow> m128i \<Rightarrow> nat \<Rightarrow> m128i" where
  "vextq_u8 a b n = reg_load (drop n (reg_store a @ reg_store b))"

definition vrev64q_u8 :: "m128i \<Rightarrow> m128i" where
  "vrev64q_u8 x = reg_load (rev (take 8 (reg_store x)) @ rev (drop 8 (reg_store x)))"

definition vmull_high_p64 :: "m128i \<Rightarrow> m128i \<Rightarrow> m128i" where
  "vmull_high_p64 a b = clmul64 (reg_half a 1) (reg_half b 1)"

definition vshlq_n_u32 :: "m128i \<Rightarrow> nat \<Rightarrow> m128i" where
  "vshlq_n_u32 x n = map_lanes (push_bit n) x"

definition vshrq_n_u32 :: "m128i \<Rightarrow> nat \<Rightarrow> m128i" where
  "vshrq_n_u32 x n = map_lanes (drop_bit n) x"

section \<open>AES\<close>

definition aes256_expand_arm :: "bytes \<Rightarrow> bytes list" where
  "aes256_expand_arm key = aes256_expand_portable key"

definition aes256_enc_arm :: "bytes list \<Rightarrow> m128i \<Rightarrow> m128i" where
  "aes256_enc_arm rkb b =
     (let b = fold (\<lambda>r b. vaesmcq_u8 (vaeseq_u8 b (reg_load (rkb ! r)))) [0..<13] b;
          b = vaeseq_u8 b (reg_load (rkb ! 13))
      in b XOR reg_load (rkb ! 14))"

definition aes256_enc4_arm :: "bytes list \<Rightarrow> m128i list \<Rightarrow> m128i list" where
  "aes256_enc4_arm rkb b =
     (let b = fold (\<lambda>r b. let k = reg_load (rkb ! r) in map (\<lambda>x. vaesmcq_u8 (vaeseq_u8 x k)) b) [0..<13] b;
          k13 = reg_load (rkb ! 13); k14 = reg_load (rkb ! 14)
      in map (\<lambda>x. vaeseq_u8 x k13 XOR k14) b)"

section \<open>GHASH\<close>

definition neon_bswap128 :: "m128i \<Rightarrow> m128i" where
  "neon_bswap128 x = (let r = vrev64q_u8 x in vextq_u8 r r 8)"

definition clmul_acc_arm :: "m128i \<Rightarrow> m128i \<Rightarrow> acc \<Rightarrow> acc" where
  "clmul_acc_arm a b = (\<lambda>(lo, mid, hi).
     let a0 = reg_half a 0; a1 = reg_half a 1; b0 = reg_half b 0; b1 = reg_half b 1;
         t0 = clmul64 a0 b0; t1 = clmul64 a1 b0; t2 = clmul64 a0 b1; t3 = vmull_high_p64 a b
     in (lo XOR t0, mid XOR (t1 XOR t2), hi XOR t3))"

definition gf_finish_arm :: "acc \<Rightarrow> m128i" where
  "gf_finish_arm = (\<lambda>(lo, mid, hi).
     let z = 0;
         lo = lo XOR vextq_u8 z mid 8;
         hi = hi XOR vextq_u8 mid z 8;
         l32 = lo; h32 = hi;
         t4 = vshrq_n_u32 l32 31;
         t5 = vshrq_n_u32 h32 31;
         l32 = vshlq_n_u32 l32 1;
         h32 = vshlq_n_u32 h32 1;
         t6 = vextq_u8 t4 z 12;
         t5 = vextq_u8 z t5 12;
         t4 = vextq_u8 z t4 12;
         lo = l32 OR t4;
         hi = h32 OR (t5 OR t6);
         t7 = vshlq_n_u32 lo 31 XOR (vshlq_n_u32 lo 30 XOR vshlq_n_u32 lo 25);
         t8 = vextq_u8 t7 z 4;
         t7 = vextq_u8 z t7 4;
         lo = lo XOR t7;
         u = vshrq_n_u32 lo 1 XOR (vshrq_n_u32 lo 2 XOR vshrq_n_u32 lo 7);
         u = u XOR t8;
         lo = lo XOR u
     in hi XOR lo)"

definition gf_mul_arm :: "m128i \<Rightarrow> m128i \<Rightarrow> m128i" where
  "gf_mul_arm a b = gf_finish_arm (clmul_acc_arm a b (0, 0, 0))"

definition gcm_init_arm :: "bytes \<Rightarrow> bytes list" where
  "gcm_init_arm H =
     (let h = neon_bswap128 (reg_load H); p1 = h; p2 = gf_mul_arm p1 h; p3 = gf_mul_arm p2 h; p4 = gf_mul_arm p3 h
      in map reg_store [p1, p2, p3, p4])"

function ghash_loop_arm :: "bytes list \<Rightarrow> m128i \<Rightarrow> bytes \<Rightarrow> m128i" where
  "ghash_loop_arm Hp X data =
     (if length data \<ge> 64
      then let b = map (\<lambda>i. neon_bswap128 (reg_load (drop (16 * i) data))) [0..<4];
               acc = clmul_acc_arm (b ! 0 XOR X) (reg_load (Hp ! 3)) (0, 0, 0);
               acc = clmul_acc_arm (b ! 1) (reg_load (Hp ! 2)) acc;
               acc = clmul_acc_arm (b ! 2) (reg_load (Hp ! 1)) acc;
               acc = clmul_acc_arm (b ! 3) (reg_load (Hp ! 0)) acc
           in ghash_loop_arm Hp (gf_finish_arm acc) (drop 64 data)
      else if length data \<ge> 16
      then ghash_loop_arm Hp (gf_mul_arm (X XOR neon_bswap128 (reg_load data)) (reg_load (Hp ! 0))) (drop 16 data)
      else if data \<noteq> []
      then gf_mul_arm (X XOR neon_bswap128 (reg_load (data @ replicate (16 - length data) 0))) (reg_load (Hp ! 0))
      else X)"
  by pat_completeness auto
termination
  by (relation "measure (\<lambda>(Hp, X, data). length data)") auto

declare ghash_loop_arm.simps [simp del]

definition ghash_arm :: "bytes list \<Rightarrow> bytes \<Rightarrow> bytes \<Rightarrow> bytes" where
  "ghash_arm Hp y data = reg_store (neon_bswap128 (ghash_loop_arm Hp (neon_bswap128 (reg_load y)) data))"

section \<open>Counter mode\<close>

function aes_ctr_arm :: "bytes list \<Rightarrow> bytes \<Rightarrow> bytes \<Rightarrow> bytes \<times> bytes" where
  "aes_ctr_arm rk ctr inp =
     (if length inp \<ge> 64
      then let b = aes256_enc4_arm rk (map (\<lambda>i. reg_load ((ctr_inc ^^ i) ctr)) [0..<4]);
               blks = map (\<lambda>i. reg_store (reg_load (drop (16 * i) inp) XOR b ! i)) [0..<4];
               (ctr', out) = aes_ctr_arm rk ((ctr_inc ^^ 4) ctr) (drop 64 inp)
           in (ctr', concat blks @ out)
      else if inp \<noteq> []
      then let ks = aes256_enc_arm rk (reg_load ctr);
               (ctr', out) = aes_ctr_arm rk (ctr_inc ctr) (drop 16 inp)
           in (ctr', xor_bytes (take 16 inp) (reg_store ks) @ out)
      else (ctr, []))"
  by pat_completeness auto
termination
  by (relation "measure (\<lambda>(rk, ctr, inp). length inp)") auto

declare aes_ctr_arm.simps [simp del]

section \<open>The path agrees with the x86 path\<close>

lemma arm_rounds:
  "n \<le> 13 \<Longrightarrow> fold (\<lambda>r b. vaesmcq_u8 (vaeseq_u8 b (reg_load (rk ! r)))) [0..<n] (reg_load inp) XOR reg_load (rk ! n) =
     reg_load (fold (aes_round rk) [1..<Suc n] (map (\<lambda>i. inp ! i XOR rk ! 0 ! i) [0..<16]))"
proof (induction n)
  case 0
  then show ?case by (simp add: reg_load_xor)
next
  case (Suc n)
  let ?f = "\<lambda>n. fold (\<lambda>r b. vaesmcq_u8 (vaeseq_u8 b (reg_load (rk ! r)))) [0..<n] (reg_load inp)"
  let ?s = "fold (aes_round rk) [1..<Suc n] (map (\<lambda>i. inp ! i XOR rk ! 0 ! i) [0..<16])"
  have "?f (Suc n) = reg_load (MixColumns (SubBytes (ShiftRows (reg_store (reg_load ?s)))))"
    using Suc by (simp add: vaesmcq_u8_def vaeseq_u8_def SubBytes_def ShiftRows_def reg_store_load_list)
  then have "?f (Suc n) XOR reg_load (rk ! Suc n) = mm_aesenc_si128 (reg_load ?s) (reg_load (rk ! Suc n))"
    by (simp add: mm_aesenc_si128_def)
  also have "\<dots> = reg_load (aes_round rk (Suc n) ?s)" using Suc.prems by (intro aesenc_round) simp
  finally show ?case by simp
qed

lemma aes256_enc_arm_load: "aes256_enc_arm rk (reg_load b) = aes256_enc_x86 rk (reg_load b)"
proof -
  let ?s = "fold (aes_round rk) [1..<Suc 13] (map (\<lambda>i. b ! i XOR rk ! 0 ! i) [0..<16])"
  have "aes256_enc_arm rk (reg_load b) = mm_aesenclast_si128 (reg_load ?s) (reg_load (rk ! 14))"
    unfolding aes256_enc_arm_def Let_def vaeseq_u8_def [of "fold _ [0..<13] _"] using arm_rounds [of 13 rk b] by (simp add: mm_aesenclast_si128_def)
  also have "\<dots> = reg_load (aes_round rk 14 ?s)" by (rule aesenclast_round)
  finally show ?thesis unfolding aes256_enc_x86_load aes256_encrypt_portable_def by (simp add: upt_Suc_append [of "Suc 0" 14, simplified])
qed

lemma aes256_enc4_arm_map: "aes256_enc4_arm rk b = map (aes256_enc_arm rk) b"
  by (simp add: aes256_enc4_arm_def aes256_enc_arm_def Let_def comp_def
      fold_map_rounds [where f = "\<lambda>x k. vaesmcq_u8 (vaeseq_u8 x k)" and g = "\<lambda>r. reg_load (rk ! r)"])

lemma bit_vextq:
  assumes "n \<le> 16"
  shows "bit (vextq_u8 a b n) k \<longleftrightarrow> k < 128 \<and> (if k + 8 * n < 128 then bit a (k + 8 * n) else bit b (k + 8 * n - 128))"
proof (cases "k < 128")
  case True
  have k: "8 * (k div 8) + k mod 8 = k" by simp
  have "drop n (reg_store a @ reg_store b) ! (k div 8) = (if n + k div 8 < 16 then reg_store a ! (n + k div 8) else reg_store b ! (n + k div 8 - 16))"
    using nth_drop [of n "reg_store a @ reg_store b" "k div 8"] assms by (simp add: nth_append del: drop_append)
  moreover have "n + k div 8 < 16 \<longleftrightarrow> k + 8 * n < 128" using k mod_less_divisor [of 8 k] by linarith
  moreover have "8 * (n + k div 8 - 16) + k mod 8 = k + 8 * n - 128" if "\<not> n + k div 8 < 16" using k that by linarith
  moreover have "8 * (n + k div 8) + k mod 8 = k + 8 * n" by (simp add: distrib_left)
  moreover have "n + k div 8 - 16 < 16" using assms True by simp
  ultimately show ?thesis using True by (simp add: vextq_u8_def bit_reg_load bit_reg_store)
qed (simp add: vextq_u8_def bit_reg_load)

lemma vextq_zero:
  "n \<le> 16 \<Longrightarrow> vextq_u8 0 x n = mm_slli_si128 x (16 - n)"
  "n \<le> 16 \<Longrightarrow> vextq_u8 x 0 n = mm_srli_si128 x n"
proof -
  assume n: "n \<le> 16"
  show "vextq_u8 0 x n = mm_slli_si128 x (16 - n)"
    using n by (intro bit_word_eqI) (auto simp: bit_vextq mm_slli_si128_def bit_push_bit_iff diff_mult_distrib2)
  show "vextq_u8 x 0 n = mm_srli_si128 x n"
    using n bit_imp_le_length by (intro bit_word_eqI) (auto simp: bit_vextq mm_srli_si128_def bit_drop_bit_eq add.commute, force dest: bit_imp_le_length)
qed

lemma neon_bswap_eq: "neon_bswap128 x = swap128 x"
proof -
  have l: "reg_store (vrev64q_u8 x) = rev (take 8 (reg_store x)) @ rev (drop 8 (reg_store x))"
    by (simp add: vrev64q_u8_def reg_store_load_list)
  have "rev (reg_store x) = rev (drop 8 (reg_store x)) @ rev (take 8 (reg_store x))"
    by (metis append_take_drop_id rev_append)
  moreover have "drop 8 (reg_store (vrev64q_u8 x) @ reg_store (vrev64q_u8 x)) ! i = (rev (drop 8 (reg_store x)) @ rev (take 8 (reg_store x))) ! i" if "i < 16" for i
  proof -
    have "i - 8 < 8" using that by simp
    then show ?thesis using that by (simp add: l nth_append)
  qed
  ultimately show ?thesis
    unfolding neon_bswap128_def Let_def vextq_u8_def swap128_def by (intro reg_load_cong) simp
qed

lemma clmul_acc_arm_eq: "clmul_acc_arm a b acc = clmul_acc a b acc"
  by (cases acc) (simp add: clmul_acc_arm_def clmul_acc_def mm_clmulepi64_si128_def vmull_high_p64_def Let_def)

lemma gf_finish_arm_eq: "gf_finish_arm acc = gf_finish acc"
  by (cases acc) (simp add: gf_finish_arm_def gf_finish_def Let_def vextq_zero vshlq_n_u32_def vshrq_n_u32_def
      mm_slli_epi32_def [symmetric] mm_srli_epi32_def [symmetric])

lemma gf_mul_arm_eq: "gf_mul_arm a b = gf_mul_x86 a b"
  by (simp add: gf_mul_arm_def gf_mul_x86_def gf_finish_arm_eq clmul_acc_arm_eq)

lemma gcm_init_arm_eq: "gcm_init_arm H = gcm_init_x86 H"
  by (simp add: gcm_init_arm_def gcm_init_x86_def gf_mul_arm_eq neon_bswap_eq bswap_x86_eq)

lemma ghash_loop_arm_eq: "ghash_loop_arm Hp X data = ghash_loop_x86 Hp X data"
proof (induction Hp X data rule: ghash_loop_arm.induct)
  case (1 Hp X data)
  let ?g = "map (\<lambda>i. neon_bswap128 (reg_load (drop (16 * i) data))) [0..<4]"
  have g: "map (\<lambda>i. bswap_x86 (drop (16 * i) data)) [0..<4] = ?g" by (simp add: neon_bswap_eq bswap_x86_eq)
  have h: "hash4_x86 Hp X ?g = gf_finish_arm (clmul_acc_arm (?g ! 3) (reg_load (Hp ! 0)) (clmul_acc_arm (?g ! 2) (reg_load (Hp ! 1))
      (clmul_acc_arm (?g ! 1) (reg_load (Hp ! 2)) (clmul_acc_arm (?g ! 0 XOR X) (reg_load (Hp ! 3)) (0, 0, 0)))))"
    by (simp only: hash4_x86_def gf_finish_arm_eq clmul_acc_arm_eq)
  consider "64 \<le> length data" | "length data < 64" "16 \<le> length data" | "length data < 16" by linarith
  then show ?case
  proof cases
    case a: 1
    show ?thesis
      using 1(1) [OF a refl refl refl refl refl] a by (subst ghash_loop_arm.simps, subst ghash_loop_x86.simps) (simp only: if_True Let_def g h)
  next
    case b: 2
    then show ?thesis
      using 1(2) by (subst ghash_loop_arm.simps, subst ghash_loop_x86.simps) (simp add: gf_mul_arm_eq neon_bswap_eq bswap_x86_eq)
  next
    case 3
    then show ?thesis
      by (subst ghash_loop_arm.simps, subst ghash_loop_x86.simps) (simp add: gf_mul_arm_eq neon_bswap_eq bswap_x86_eq)
  qed
qed

lemma ghash_arm_eq: "ghash_arm Hp y data = ghash_x86 Hp y data"
  by (simp add: ghash_arm_def ghash_x86_def ghash_loop_arm_eq neon_bswap_eq bswap_x86_eq mm_shuffle_bswap)

lemma aes_ctr_arm_portable: "aes_ctr_arm rk ctr inp = aes_ctr_portable rk ctr inp"
proof -
  have e: "aes256_enc4_arm rk (map (\<lambda>i. reg_load (c i)) [0..<4]) = aes256_enc4_x86 rk (map (\<lambda>i. reg_load (c i)) [0..<4])" for rk c
    by (simp add: aes256_enc4_arm_map aes256_enc4_x86_map aes256_enc_arm_load)
  have "aes_ctr_arm rk ctr inp = aes_ctr_x86 rk ctr inp"
  proof (induction rk ctr inp rule: aes_ctr_arm.induct)
    case (1 rk ctr inp)
    consider "64 \<le> length inp" | "length inp < 64" "inp \<noteq> []" | "inp = []" by linarith
    then show ?case
      by cases (use 1 in \<open>subst aes_ctr_arm.simps, subst aes_ctr_x86.simps, simp add: Let_def e aes256_enc_arm_load\<close>)+
  qed
  then show ?thesis by (simp add: aes_ctr_x86_portable)
qed

end
