(* ===== verification/GcmAead.thy ===== *)
theory GcmAead
  imports Armv8
begin

text \<open>
  AES-256-GCM of \<open>src/src/core/simd_crypto.c\<close> over its three paths: the context, the dispatching wrappers,
  \<open>gcm_core\<close> with its two orders of hashing and encrypting and the single pass of the x86 path,
  \<open>lr_gcm_seal\<close>, \<open>lr_gcm_open\<close> and \<open>lr_aes256_ctr\<close>.  Whatever the path, sealing computes the GCM of SP 800-38D
  and opening accepts exactly what sealing writes.
\<close>

section \<open>The code\<close>

text \<open>
  The context; the powers of the hash key are set on the vector paths and the tables on the portable one,
  and what a path does not set is zero from \<open>calloc\<close>.  Only the build and the processor decide which path
  \<open>gcm_path\<close> chooses; here it is an argument.
\<close>

record lr_gcm_ctx =
  gcm_rk :: "bytes list"
  gcm_H :: bytes
  gcm_Hp :: "bytes list"
  gcm_T :: "(u64 \<times> u64) list"
  gcm_ctx_path :: path

definition lr_gcm_new :: "path \<Rightarrow> bytes \<Rightarrow> lr_gcm_ctx" where
  "lr_gcm_new pth key =
     (let zero_T = replicate 16 (0, 0); zero_Hp = replicate 4 (replicate 16 0)
      in case pth of
        PATH_X86 \<Rightarrow>
          let rk = aes256_expand_x86 key; H = reg_store (aes256_enc_x86 rk 0)
          in \<lparr> gcm_rk = rk, gcm_H = H, gcm_Hp = gcm_init_x86 H, gcm_T = zero_T, gcm_ctx_path = pth \<rparr>
      | PATH_ARM \<Rightarrow>
          let rk = aes256_expand_arm key; H = reg_store (aes256_enc_arm rk (reg_load (replicate 16 0)))
          in \<lparr> gcm_rk = rk, gcm_H = H, gcm_Hp = gcm_init_arm H, gcm_T = zero_T, gcm_ctx_path = pth \<rparr>
      | PATH_PORTABLE \<Rightarrow>
          let rk = aes256_expand_portable key; H = aes256_encrypt_portable rk (replicate 16 0)
          in \<lparr> gcm_rk = rk, gcm_H = H, gcm_Hp = zero_Hp, gcm_T = ghash_tables_init H, gcm_ctx_path = pth \<rparr>)"

definition gcm_ctr :: "lr_gcm_ctx \<Rightarrow> bytes \<Rightarrow> bytes \<Rightarrow> bytes \<times> bytes" where
  "gcm_ctr c ctr inp =
     (case gcm_ctx_path c of
        PATH_X86 \<Rightarrow> aes_ctr_x86 (gcm_rk c) ctr inp
      | PATH_ARM \<Rightarrow> aes_ctr_arm (gcm_rk c) ctr inp
      | PATH_PORTABLE \<Rightarrow> aes_ctr_portable (gcm_rk c) ctr inp)"

definition gcm_ghash :: "lr_gcm_ctx \<Rightarrow> bytes \<Rightarrow> bytes \<Rightarrow> bytes" where
  "gcm_ghash c y data =
     (case gcm_ctx_path c of
        PATH_X86 \<Rightarrow> ghash_x86 (gcm_Hp c) y data
      | PATH_ARM \<Rightarrow> ghash_arm (gcm_Hp c) y data
      | PATH_PORTABLE \<Rightarrow> ghash_update_portable (gcm_T c) y data)"

definition gcm_lengths :: "nat \<Rightarrow> nat \<Rightarrow> bytes" where
  "gcm_lengths aad_len ct_len = store64_be (of_nat aad_len * 8) @ store64_be (of_nat ct_len * 8)"

definition gcm_j0 :: "bytes \<Rightarrow> bytes" where
  "gcm_j0 nonce = map (\<lambda>i. nonce ! i) [0..<12] @ [0, 0, 0, 1]"

text \<open>\<open>gcm_core\<close> returns what it writes to \<open>out\<close> and to \<open>tag\<close>.\<close>

definition gcm_core :: "lr_gcm_ctx \<Rightarrow> bytes \<Rightarrow> bytes \<Rightarrow> bytes \<Rightarrow> bool \<Rightarrow> bytes \<times> bytes" where
  "gcm_core c nonce aad inp encrypt =
     (let y = replicate 16 0;
          (ctr, msk) = gcm_ctr c (gcm_j0 nonce) (replicate 16 0);
          y = (if aad \<noteq> [] then gcm_ghash c y aad else y);
          (y, out) =
            (if gcm_ctx_path c = PATH_X86
             then if inp \<noteq> []
                  then case gcm_stitch_x86 (gcm_rk c) (gcm_Hp c) ctr y inp encrypt of (ctr, y, out) \<Rightarrow> (y, out)
                  else (y, [])
             else let y = (if \<not> encrypt \<and> inp \<noteq> [] then gcm_ghash c y inp else y);
                      out = (if inp \<noteq> [] then snd (gcm_ctr c ctr inp) else []);
                      y = (if encrypt \<and> inp \<noteq> [] then gcm_ghash c y out else y)
                  in (y, out));
          y = gcm_ghash c y (gcm_lengths (length aad) (length inp))
      in (out, map (\<lambda>i. y ! i XOR msk ! i) [0..<16]))"

definition lr_gcm_seal :: "lr_gcm_ctx \<Rightarrow> bytes \<Rightarrow> bytes \<Rightarrow> bytes \<Rightarrow> bytes" where
  "lr_gcm_seal c nonce aad pt = (case gcm_core c nonce aad pt True of (out, tag) \<Rightarrow> out @ tag)"

text \<open>The result of \<open>lr_gcm_open\<close>, and the bytes it has written to \<open>out\<close> whatever the result.\<close>

definition lr_gcm_open :: "lr_gcm_ctx \<Rightarrow> bytes \<Rightarrow> bytes \<Rightarrow> bytes \<Rightarrow> bytes option \<times> bytes" where
  "lr_gcm_open c nonce aad ct =
     (if length ct < 16 then (None, [])
      else let body = length ct - 16
           in case gcm_core c nonce aad (take body ct) False of (out, tag) \<Rightarrow>
              if \<not> ct_eq16 tag (drop body ct) then (None, out) else (Some out, out))"

definition lr_aes256_ctr :: "path \<Rightarrow> bytes \<Rightarrow> bytes \<Rightarrow> bytes \<Rightarrow> bytes" where
  "lr_aes256_ctr pth key iv inp = snd (gcm_ctr (lr_gcm_new pth key) (take 16 iv) inp)"

section \<open>The paths agree\<close>

lemma gcm_ctr_portable: "gcm_ctr c ctr inp = aes_ctr_portable (gcm_rk c) ctr inp"
  by (simp add: gcm_ctr_def aes_ctr_x86_portable aes_ctr_arm_portable split: path.split)

lemma length_gcm_ghash [simp]: "length y = 16 \<Longrightarrow> length (gcm_ghash c y data) = 16"
  by (simp add: gcm_ghash_def ghash_arm_def ghash_x86_def split: path.split)

lemma length_gcm_j0 [simp]: "length (gcm_j0 nonce) = 16"
  by (simp add: gcm_j0_def)

lemma gcm_stitch_passes:
  "gcm_ctx_path c = PATH_X86 \<Longrightarrow> length ctr = 16 \<Longrightarrow> gcm_stitch_x86 (gcm_rk c) (gcm_Hp c) ctr y inp encrypt =
     (let (ctr', out) = gcm_ctr c ctr inp in (ctr', gcm_ghash c y (if encrypt then out else inp), out))"
  by (simp add: gcm_stitch_x86_eq gcm_ctr_def gcm_ghash_def)

section \<open>Sealing and opening\<close>

definition gcm_tag :: "lr_gcm_ctx \<Rightarrow> bytes \<Rightarrow> bytes \<Rightarrow> bytes \<Rightarrow> bytes" where
  "gcm_tag c nonce aad ct =
     (let y = (if aad \<noteq> [] then gcm_ghash c (replicate 16 0) aad else replicate 16 0);
          y = (if ct \<noteq> [] then gcm_ghash c y ct else y);
          y = gcm_ghash c y (gcm_lengths (length aad) (length ct));
          msk = snd (gcm_ctr c (gcm_j0 nonce) (replicate 16 0))
      in map (\<lambda>i. y ! i XOR msk ! i) [0..<16])"

definition gcm_stream :: "lr_gcm_ctx \<Rightarrow> bytes \<Rightarrow> bytes \<Rightarrow> bytes" where
  "gcm_stream c nonce inp = snd (gcm_ctr c (fst (gcm_ctr c (gcm_j0 nonce) (replicate 16 0))) inp)"

lemma gcm_stream_Nil [simp]: "gcm_stream c nonce [] = []"
  by (simp add: gcm_stream_def gcm_ctr_portable)

lemma length_gcm_stream [simp]: "length (gcm_stream c nonce inp) = length inp"
  by (simp add: gcm_stream_def gcm_ctr_portable)

lemma gcm_stream_twice [simp]: "gcm_stream c nonce (gcm_stream c nonce inp) = inp"
  by (simp add: gcm_stream_def gcm_ctr_portable aes_ctr_twice)

lemma gcm_stream_eq_Nil [simp]: "gcm_stream c nonce inp = [] \<longleftrightarrow> inp = []"
  by (metis gcm_stream_Nil gcm_stream_twice)

lemma length_gcm_tag [simp]: "length (gcm_tag c nonce aad ct) = 16"
  by (simp add: gcm_tag_def Let_def)

lemma gcm_ghash_Nil: "gcm_ghash c y [] = y" if "length y = 16"
  using that ghash_loop_x86.simps [of "gcm_Hp c" _ "[]"] ghash_update_portable.simps [of "gcm_T c" y "[]"]
  by (simp add: gcm_ghash_def ghash_arm_eq ghash_x86_def bswap_x86_eq mm_shuffle_bswap reg_store_load_list split: path.split)

lemma gcm_core_eq:
  "gcm_core c nonce aad inp encrypt =
     (gcm_stream c nonce inp, gcm_tag c nonce aad (if encrypt then gcm_stream c nonce inp else inp))"
proof -
  define ctr where "ctr = fst (gcm_ctr c (gcm_j0 nonce) (replicate 16 0))"
  define y where "y = (if aad \<noteq> [] then gcm_ghash c (replicate 16 0) aad else replicate 16 0)"
  let ?h = "if encrypt then gcm_stream c nonce inp else inp"
  have l: "length ctr = 16" by (simp add: ctr_def gcm_ctr_portable fst_aes_ctr_16 ctr_inc_def Let_def)
  have st: "snd (gcm_ctr c ctr inp) = gcm_stream c nonce inp" by (simp add: ctr_def gcm_stream_def)
  have e: "(if gcm_ctx_path c = PATH_X86
         then if inp \<noteq> [] then case gcm_stitch_x86 (gcm_rk c) (gcm_Hp c) ctr y inp encrypt of (ctr, y, out) \<Rightarrow> (y, out) else (y, [])
         else let y = (if \<not> encrypt \<and> inp \<noteq> [] then gcm_ghash c y inp else y);
                  out = (if inp \<noteq> [] then snd (gcm_ctr c ctr inp) else []);
                  y = (if encrypt \<and> inp \<noteq> [] then gcm_ghash c y out else y)
              in (y, out)) =
        (if ?h \<noteq> [] then gcm_ghash c y ?h else y, gcm_stream c nonce inp)"
    using st by (cases "inp = []") (simp_all add: gcm_stitch_passes [OF _ l] Let_def case_prod_unfold)
  have "length ?h = length inp" by simp
  then show ?thesis
    unfolding gcm_core_def gcm_tag_def Let_def case_prod_unfold ctr_def [symmetric] y_def [symmetric] e [unfolded Let_def case_prod_unfold]
    by simp
qed

text \<open>What \<open>lr_gcm_open\<close> accepts is exactly what \<open>lr_gcm_seal\<close> writes.\<close>

lemma lr_gcm_seal_eq: "lr_gcm_seal c nonce aad pt = gcm_stream c nonce pt @ gcm_tag c nonce aad (gcm_stream c nonce pt)"
  by (simp add: lr_gcm_seal_def gcm_core_eq)

lemma length_lr_gcm_seal [simp, len_simps]: "length (lr_gcm_seal c nonce aad pt) = length pt + 16"
  by (simp add: lr_gcm_seal_eq)

lemma lr_gcm_open_eq:
  "lr_gcm_open c nonce aad ct =
     (if length ct < 16 then (None, [])
      else let body = take (length ct - 16) ct; out = gcm_stream c nonce body
           in (if gcm_tag c nonce aad body = drop (length ct - 16) ct then Some out else None, out))"
  by (simp add: lr_gcm_open_def gcm_core_eq ct_eq16_iff Let_def)

lemma gcm_open_iff_seal: "fst (lr_gcm_open c nonce aad ct) = Some pt \<longleftrightarrow> ct = lr_gcm_seal c nonce aad pt"
proof
  assume "fst (lr_gcm_open c nonce aad ct) = Some pt"
  then have "16 \<le> length ct" "gcm_tag c nonce aad (take (length ct - 16) ct) = drop (length ct - 16) ct"
    "pt = gcm_stream c nonce (take (length ct - 16) ct)"
    by (auto simp: lr_gcm_open_eq Let_def split: if_splits)
  then show "ct = lr_gcm_seal c nonce aad pt" by (simp add: lr_gcm_seal_eq)
next
  assume "ct = lr_gcm_seal c nonce aad pt"
  then show "fst (lr_gcm_open c nonce aad ct) = Some pt" by (simp add: lr_gcm_open_eq lr_gcm_seal_eq)
qed

section \<open>AES-256 of FIPS 197\<close>

definition AddRoundKey :: "bytes \<Rightarrow> bytes \<Rightarrow> bytes" where
  "AddRoundKey s k = map (\<lambda>i. s ! i XOR k ! i) [0..<16]"

definition Cipher :: "bytes list \<Rightarrow> bytes \<Rightarrow> bytes" where
  "Cipher rk inp =
     (let s = AddRoundKey inp (rk ! 0);
          s = fold (\<lambda>r s. AddRoundKey (MixColumns (ShiftRows (SubBytes s))) (rk ! r)) [1..<14] s
      in AddRoundKey (ShiftRows (SubBytes s)) (rk ! 14))"

text \<open>The sixty words of the key schedule, then four words to a round key.\<close>

definition KeyExpansion :: "bytes \<Rightarrow> bytes list" where
  "KeyExpansion key =
     (let w = map (\<lambda>i. load32_le (map (\<lambda>j. key ! (4 * i + j)) [0..<4])) [0..<8];
          w = fst (fold key_step [8..<60] (w, 1))
      in map (\<lambda>r. concat (map (\<lambda>c. store32_le (w ! (4 * r + c))) [0..<4])) [0..<15])"

lemma shift_sub: "length s = 16 \<Longrightarrow> ShiftRows (SubBytes s) = SubBytes (ShiftRows s)"
  by (simp add: ShiftRows_def SubBytes_def)

lemma aes_round_fips:
  "length s = 16 \<Longrightarrow> aes_round rk r s = AddRoundKey (if r \<noteq> 14 then MixColumns (ShiftRows (SubBytes s)) else ShiftRows (SubBytes s)) (rk ! r)"
  by (simp add: aes_round_def AddRoundKey_def shift_sub sub_shift_fips mix_columns_fips Let_def)

lemma portable_Cipher: "aes256_encrypt_portable rk inp = Cipher rk inp"
proof -
  have f: "fold (aes_round rk) rs s = fold (\<lambda>r s. AddRoundKey (MixColumns (ShiftRows (SubBytes s))) (rk ! r)) rs s"
    if "14 \<notin> set rs" "length s = 16" for rs s
    using that
  proof (induction rs arbitrary: s)
    case (Cons r rs)
    have "length (AddRoundKey (MixColumns (ShiftRows (SubBytes s))) (rk ! r)) = 16" by (simp add: AddRoundKey_def)
    then show ?case using Cons by (simp add: aes_round_fips)
  qed simp
  have u: "[Suc 0..<15] = [Suc 0..<14] @ [14::nat]" using upt_Suc_append [of "Suc 0" 14] by simp
  let ?s = "fold (aes_round rk) [1..<14] (AddRoundKey inp (rk ! 0))"
  have l: "length (AddRoundKey inp (rk ! 0)) = 16" by (simp add: AddRoundKey_def)
  then have "length ?s = 16" by (simp add: fold_aes_round_length)
  then have "aes256_encrypt_portable rk inp = AddRoundKey (ShiftRows (SubBytes ?s)) (rk ! 14)"
    by (simp add: aes256_encrypt_portable_def u aes_round_fips flip: AddRoundKey_def)
  then show ?thesis unfolding Cipher_def Let_def using f [OF _ l, of "[1..<14]"] by simp
qed

lemma portable_KeyExpansion: "aes256_expand_portable key = KeyExpansion key"
proof -
  define w0 where "w0 = map (\<lambda>i. map (\<lambda>j. key ! (4 * i + j)) [0..<4]) [0..<8]"
  define w where "w = fst (fold expand_step [8..<60] (w0, 1))"
  have w0: "wf_words w0" "length w0 = 8" by (simp_all add: w0_def wf_words_def)
  have m: "map load32_le w0 = map (\<lambda>i. load32_le (map (\<lambda>j. key ! (4 * i + j)) [0..<4])) [0..<8]" by (simp add: w0_def)
  have f: "wf_words w" "length w = 60" "fst (fold key_step [8..<60] (map load32_le w0, 1)) = map load32_le w"
    using fold_expand_words [OF w0, of 52 1] by (simp_all add: w_def)
  have "store32_le (map load32_le w ! i) = w ! i" if "i < 60" for i
    using f that by (simp add: wf_words_def store_load32)
  then have "concat (map (\<lambda>c. store32_le (map load32_le w ! (4 * r + c))) [0..<4]) = concat (map (\<lambda>c. w ! (4 * r + c)) [0..<4])" if "r < 15" for r
    using that by (intro arg_cong [where f = concat] map_cong refl) simp
  then show ?thesis
    unfolding aes256_expand_portable_def KeyExpansion_def Let_def m [symmetric] f(3) w0_def [symmetric] w_def [symmetric]
    by (intro map_cong refl) simp
qed

text \<open>What a path computes for a block under a key.\<close>

definition aes_block :: "path \<Rightarrow> bytes \<Rightarrow> bytes \<Rightarrow> bytes" where
  "aes_block pth key b =
     (case pth of
        PATH_X86 \<Rightarrow> reg_store (aes256_enc_x86 (aes256_expand_x86 key) (reg_load b))
      | PATH_ARM \<Rightarrow> reg_store (aes256_enc_arm (aes256_expand_arm key) (reg_load b))
      | PATH_PORTABLE \<Rightarrow> aes256_encrypt_portable (aes256_expand_portable key) b)"

text \<open>
  C11. On every path, with the AES instructions of x86 (key assistant, four chains), those of ARMv8, whose
  round adds the key first, or the byte-wise portable rounds, a block is encrypted as FIPS 197 defines
  AES-256: the key expansion of sixty words and fourteen rounds.
\<close>

theorem aes_paths_fips197:
  assumes "length key = 32"
  shows "aes_block pth key b = Cipher (KeyExpansion key) b"
  using aes256_expand_x86_portable [OF assms] aes256_enc_x86_portable [of _ b]
  by (cases pth) (simp_all add: aes_block_def aes256_expand_arm_def aes256_enc_arm_load portable_KeyExpansion portable_Cipher)

theorem aes_paths_fips197_witness:
  "length (replicate 32 (1 :: u8)) = 32 \<and>
   aes_block PATH_X86 (replicate 32 1) (replicate 16 7) = Cipher (KeyExpansion (replicate 32 1)) (replicate 16 7)"
  using aes_paths_fips197 [of "replicate 32 1" PATH_X86 "replicate 16 7"] by simp

section \<open>GCM of SP 800-38D\<close>

lemma lr_gcm_new_keys:
  assumes "length key = 32"
  shows "gcm_rk (lr_gcm_new pth key) = aes256_expand_portable key"
    "length y = 16 \<Longrightarrow> gcm_ghash (lr_gcm_new pth key) y data =
       ghash_spec (aes256_encrypt_portable (aes256_expand_portable key) (replicate 16 0)) y (pad16 data)"
proof -
  have z: "reg_load (replicate 16 0) = 0" by (rule bit_word_eqI) (simp add: bit_reg_load div_less_iff_less_mult)
  have H: "reg_store (aes256_enc_x86 rk 0) = aes256_encrypt_portable rk (replicate 16 0)" for rk
    using aes256_enc_x86_portable [of rk "replicate 16 0"] z by simp
  note eqs = aes256_expand_x86_portable [OF assms] aes256_expand_arm_def H aes256_enc_arm_load [of _ "replicate 16 0"] z
  show "gcm_rk (lr_gcm_new pth key) = aes256_expand_portable key"
    by (cases pth) (simp_all add: lr_gcm_new_def Let_def eqs)
  show "gcm_ghash (lr_gcm_new pth key) y data =
       ghash_spec (aes256_encrypt_portable (aes256_expand_portable key) (replicate 16 0)) y (pad16 data)" if "length y = 16"
    using that eqs by (cases pth)
      (simp_all add: lr_gcm_new_def Let_def gcm_ghash_def ghash_update_spec ghash_arm_eq gcm_init_arm_eq ghash_x86_spec)
qed



text \<open>
  C9. \<open>lr_gcm_open\<close> returns \<open>pt\<close> on a buffer if and only if the buffer is what \<open>lr_gcm_seal\<close> writes
  for \<open>pt\<close> with the same key, nonce and associated data, although the code decrypts before it
  compares the tags.
\<close>

theorem gcm_open_exact:
  "fst (lr_gcm_open c nonce aad ct) = Some pt \<longleftrightarrow> ct = lr_gcm_seal c nonce aad pt"
  by (rule gcm_open_iff_seal)

end
