(* ===== verification/Aead.thy ===== *)
theory Aead
  imports ChaPoly GcmAead
begin

text \<open>
  The cipher interface of \<open>src/include/lr/aead.hpp\<close>, its adapters (\<open>aead_factory.cpp\<close>,
  \<open>aead_simd.cpp\<close>, \<open>aead_openssl.cpp\<close>) and the run-time dispatch of \<open>simd_crypto.c\<close>.
  An \<open>Aead\<close> object is the record of what its virtual functions compute.  \<open>a_seal\<close> returns the
  bytes written, \<open>None\<close> where the code returns 0; \<open>a_open\<close> returns the plaintext, \<open>None\<close>
  where the code returns -1, together with the bytes it has written to the output buffer in
  either case.  OpenSSL's EVP calls are a parameter.  The contract of the interface is a locale,
  interpreted for every adapter of the repository.
\<close>

section \<open>Run-time dispatch\<close>

text \<open>
  The preprocessor's choice of architecture, what the processor reports, and the globals of
  \<open>simd_crypto.c\<close>, where a path of -1 is \<open>None\<close>.
\<close>

datatype arch = X86 | AARCH64_CRYPTO | AARCH64 | OTHER_ARCH

record cpu_features =
  cpu_has_aes_clmul :: bool
  cpu_has_avx2 :: bool
  cpu_has_neon :: bool

record simd_state =
  g_force_portable :: bool
  g_mask_aes_accel :: bool
  g_gcm_path :: "path option"
  g_chap_path :: "path option"

fun resolved :: "arch \<Rightarrow> cpu_features \<Rightarrow> path \<times> path" where
  "resolved X86 f = (if cpu_has_aes_clmul f then PATH_X86 else PATH_PORTABLE,
                     if cpu_has_avx2 f then PATH_X86 else PATH_PORTABLE)"
| "resolved AARCH64_CRYPTO f = (if cpu_has_aes_clmul f then PATH_ARM else PATH_PORTABLE,
                                if cpu_has_neon f then PATH_ARM else PATH_PORTABLE)"
| "resolved AARCH64 f = (PATH_PORTABLE, if cpu_has_neon f then PATH_ARM else PATH_PORTABLE)"
| "resolved OTHER_ARCH f = (PATH_PORTABLE, PATH_PORTABLE)"

definition resolve_paths :: "arch \<Rightarrow> cpu_features \<Rightarrow> simd_state \<Rightarrow> simd_state" where
  "resolve_paths ar f g =
     (if g_gcm_path g \<noteq> None \<and> g_chap_path g \<noteq> None then g
      else case resolved ar f of (pg, pc) \<Rightarrow> g\<lparr> g_gcm_path := Some pg, g_chap_path := Some pc \<rparr>)"

definition gcm_path :: "arch \<Rightarrow> cpu_features \<Rightarrow> simd_state \<Rightarrow> path \<times> simd_state" where
  "gcm_path ar f g =
     (let g = resolve_paths ar f g
      in (if g_force_portable g \<or> g_mask_aes_accel g then PATH_PORTABLE else the (g_gcm_path g), g))"

definition chap_path :: "arch \<Rightarrow> cpu_features \<Rightarrow> simd_state \<Rightarrow> path \<times> simd_state" where
  "chap_path ar f g =
     (let g = resolve_paths ar f g
      in (if g_force_portable g then PATH_PORTABLE else the (g_chap_path g), g))"

definition lr_simd_force_portable :: "bool \<Rightarrow> simd_state \<Rightarrow> simd_state" where
  "lr_simd_force_portable on g = g\<lparr> g_force_portable := on \<rparr>"

definition lr_simd_mask_aes_accel :: "bool \<Rightarrow> simd_state \<Rightarrow> simd_state" where
  "lr_simd_mask_aes_accel on g = g\<lparr> g_mask_aes_accel := on \<rparr>"

definition lr_simd_gcm_backend :: "arch \<Rightarrow> cpu_features \<Rightarrow> simd_state \<Rightarrow> string" where
  "lr_simd_gcm_backend ar f g =
     (case fst (gcm_path ar f g) of
        PATH_X86 \<Rightarrow> ''aesni+pclmulqdq'' | PATH_ARM \<Rightarrow> ''armv8-aes+pmull'' | PATH_PORTABLE \<Rightarrow> ''portable-c'')"

definition lr_simd_chap_backend :: "arch \<Rightarrow> cpu_features \<Rightarrow> simd_state \<Rightarrow> string" where
  "lr_simd_chap_backend ar f g =
     (case fst (chap_path ar f g) of
        PATH_X86 \<Rightarrow> ''avx2'' | PATH_ARM \<Rightarrow> ''neon'' | PATH_PORTABLE \<Rightarrow> ''portable-c'')"

section \<open>The interface\<close>

record aead =
  a_seal :: "bytes \<Rightarrow> bytes \<Rightarrow> bytes \<Rightarrow> bytes option"
  a_open :: "bytes \<Rightarrow> bytes \<Rightarrow> bytes \<Rightarrow> bytes option \<times> bytes"
  a_name :: string
  a_tag_len :: nat
  a_key_len :: nat
  a_nonce_len :: nat
  a_backend :: "simd_state \<Rightarrow> string"

subsection \<open>The null control\<close>

definition null_seal :: "bytes \<Rightarrow> bytes \<Rightarrow> bytes \<Rightarrow> bytes option" where
  "null_seal nonce aad pt = Some (pt @ map (\<lambda>i. nonce ! (i mod 12)) [0..<16])"

definition null_open :: "bytes \<Rightarrow> bytes \<Rightarrow> bytes \<Rightarrow> bytes option \<times> bytes" where
  "null_open nonce aad ct =
     (if length ct < 16 then (None, [])
      else let body = take (length ct - 16) ct in (Some body, body))"

definition NullAead :: aead where
  "NullAead = \<lparr> a_seal = null_seal, a_open = null_open, a_name = ''null'', a_tag_len = 16,
     a_key_len = 32, a_nonce_len = 12, a_backend = (\<lambda>g. ''memcpy'') \<rparr>"

subsection \<open>The ciphers of the repository\<close>

definition SimdGcm :: "arch \<Rightarrow> cpu_features \<Rightarrow> path \<Rightarrow> bytes \<Rightarrow> aead" where
  "SimdGcm ar f pth key =
     (let c = lr_gcm_new pth key
      in \<lparr> a_seal = (\<lambda>n aad pt. Some (lr_gcm_seal c n aad pt)), a_open = lr_gcm_open c,
           a_name = ''lr-aes-256-gcm'', a_tag_len = 16, a_key_len = 32, a_nonce_len = 12,
           a_backend = lr_simd_gcm_backend ar f \<rparr>)"

definition chap_seal :: "poly1305_state \<Rightarrow> lr_chap_ctx \<Rightarrow> bytes \<Rightarrow> bytes \<Rightarrow> bytes \<Rightarrow> bytes option" where
  "chap_seal stk c n aad pt = Some (lr_chap_seal stk c n aad pt)"

definition chap_open :: "poly1305_state \<Rightarrow> lr_chap_ctx \<Rightarrow> bytes \<Rightarrow> bytes \<Rightarrow> bytes \<Rightarrow> bytes option \<times> bytes" where
  "chap_open stk c n aad ct =
     (case lr_chap_open stk c n aad ct of None \<Rightarrow> (None, []) | Some pt \<Rightarrow> (Some pt, pt))"

definition SimdChaPoly :: "poly1305_state \<Rightarrow> arch \<Rightarrow> cpu_features \<Rightarrow> path \<Rightarrow> bytes \<Rightarrow> aead" where
  "SimdChaPoly stk ar f pth key =
     (let c = lr_chap_new pth key
      in \<lparr> a_seal = chap_seal stk c, a_open = chap_open stk c,
           a_name = ''lr-chacha20-poly1305'', a_tag_len = 16, a_key_len = 32, a_nonce_len = 12,
           a_backend = lr_simd_chap_backend ar f \<rparr>)"

text \<open>
  \<open>make_aead_simd\<close> first carries the mask of the environment (\<open>plat::hw_crypto_masked\<close>, here
  \<open>masked\<close>) over to the dispatch.
\<close>

definition make_aead_simd ::
    "poly1305_state \<Rightarrow> arch \<Rightarrow> cpu_features \<Rightarrow> bool \<Rightarrow> simd_state \<Rightarrow> string \<Rightarrow> bytes \<Rightarrow> aead option \<times> simd_state" where
  "make_aead_simd stk ar f masked g name key =
     (let g = lr_simd_mask_aes_accel masked g
      in if name = ''lr-aes-256-gcm'' then (case gcm_path ar f g of (pth, g) \<Rightarrow> (Some (SimdGcm ar f pth key), g))
         else if name = ''lr-chacha20-poly1305''
         then (case chap_path ar f g of (pth, g) \<Rightarrow> (Some (SimdChaPoly stk ar f pth key), g))
         else (None, g))"

subsection \<open>OpenSSL\<close>

text \<open>
  The EVP calls the adapter makes, over a context type.  A call that does not return 1 is
  \<open>None\<close>.  The per-packet initialisation keeps the key and the cipher and restarts the
  message, so every packet starts from the context the constructor keyed.
\<close>

record 'c evp =
  evp_enc_ctx :: "string \<Rightarrow> bytes \<Rightarrow> 'c"
  evp_dec_ctx :: "string \<Rightarrow> bytes \<Rightarrow> 'c"
  EVP_EncryptInit :: "'c \<Rightarrow> bytes \<Rightarrow> 'c option"
  EVP_EncryptUpdateAad :: "'c \<Rightarrow> bytes \<Rightarrow> 'c option"
  EVP_EncryptUpdate :: "'c \<Rightarrow> bytes \<Rightarrow> ('c \<times> bytes) option"
  EVP_EncryptFinal :: "'c \<Rightarrow> ('c \<times> bytes) option"
  EVP_get_tag :: "'c \<Rightarrow> nat \<Rightarrow> bytes option"
  EVP_DecryptInit :: "'c \<Rightarrow> bytes \<Rightarrow> 'c option"
  EVP_DecryptUpdateAad :: "'c \<Rightarrow> bytes \<Rightarrow> 'c option"
  EVP_DecryptUpdate :: "'c \<Rightarrow> bytes \<Rightarrow> ('c \<times> bytes) option"
  EVP_set_tag :: "'c \<Rightarrow> bytes \<Rightarrow> 'c option"
  EVP_DecryptFinal :: "'c \<Rightarrow> ('c \<times> bytes) option"

definition openssl_seal :: "'c evp \<Rightarrow> 'c \<Rightarrow> nat \<Rightarrow> bytes \<Rightarrow> bytes \<Rightarrow> bytes \<Rightarrow> bytes option" where
  "openssl_seal e enc tlen nonce aad pt =
     (case EVP_EncryptInit e enc nonce of None \<Rightarrow> None | Some c \<Rightarrow>
      case (if aad \<noteq> [] then EVP_EncryptUpdateAad e c aad else Some c) of None \<Rightarrow> None | Some c \<Rightarrow>
      case EVP_EncryptUpdate e c pt of None \<Rightarrow> None | Some (c, out1) \<Rightarrow>
      case EVP_EncryptFinal e c of None \<Rightarrow> None | Some (c, out2) \<Rightarrow>
      case EVP_get_tag e c tlen of None \<Rightarrow> None | Some tag \<Rightarrow> Some (out1 @ out2 @ tag))"

definition openssl_open :: "'c evp \<Rightarrow> 'c \<Rightarrow> nat \<Rightarrow> bytes \<Rightarrow> bytes \<Rightarrow> bytes \<Rightarrow> bytes option \<times> bytes" where
  "openssl_open e dec tlen nonce aad ct =
     (if length ct < tlen then (None, [])
      else let body = length ct - tlen
      in case EVP_DecryptInit e dec nonce of None \<Rightarrow> (None, []) | Some c \<Rightarrow>
         case (if aad \<noteq> [] then EVP_DecryptUpdateAad e c aad else Some c) of None \<Rightarrow> (None, []) | Some c \<Rightarrow>
         case EVP_DecryptUpdate e c (take body ct) of None \<Rightarrow> (None, []) | Some (c, out1) \<Rightarrow>
         case EVP_set_tag e c (drop body ct) of None \<Rightarrow> (None, out1) | Some c \<Rightarrow>
         case EVP_DecryptFinal e c of None \<Rightarrow> (None, out1) | Some (c, out2) \<Rightarrow>
         (Some (out1 @ out2), out1 @ out2))"

definition OpenSslAead :: "'c evp \<Rightarrow> string \<Rightarrow> bytes \<Rightarrow> nat \<Rightarrow> nat \<Rightarrow> nat \<Rightarrow> aead" where
  "OpenSslAead e nm key klen nlen tlen =
     \<lparr> a_seal = openssl_seal e (evp_enc_ctx e nm key) tlen, a_open = openssl_open e (evp_dec_ctx e nm key) tlen,
       a_name = nm, a_tag_len = tlen, a_key_len = klen, a_nonce_len = nlen,
       a_backend = (\<lambda>g. ''openssl-evp'') \<rparr>"

definition make_aead_openssl :: "'c evp \<Rightarrow> string \<Rightarrow> bytes \<Rightarrow> aead option" where
  "make_aead_openssl e name key =
     (if name = ''aes-256-gcm'' then Some (OpenSslAead e ''aes-256-gcm'' key 32 12 16)
      else if name = ''chacha20-poly1305'' then Some (OpenSslAead e ''chacha20-poly1305'' key 32 12 16)
      else None)"

subsection \<open>The factory\<close>

record 'c crypto_env =
  ce_stk :: poly1305_state
  ce_arch :: arch
  ce_cpu :: cpu_features
  ce_masked :: bool
  ce_evp :: "'c evp"

definition aead_is_local :: "string \<Rightarrow> bool" where
  "aead_is_local name \<longleftrightarrow> take 3 name = ''lr-''"

definition make_aead :: "'c crypto_env \<Rightarrow> simd_state \<Rightarrow> string \<Rightarrow> bytes \<Rightarrow> aead option \<times> simd_state" where
  "make_aead env g name key =
     (if name = ''null'' then (Some NullAead, g)
      else if take 3 name = ''lr-''
      then make_aead_simd (ce_stk env) (ce_arch env) (ce_cpu env) (ce_masked env) g name key
      else (make_aead_openssl (ce_evp env) name key, g))"

definition aead_key_len :: "string \<Rightarrow> nat" where
  "aead_key_len name = 32"

definition aead_names :: "string list" where
  "aead_names = [''aes-256-gcm'', ''chacha20-poly1305'', ''lr-aes-256-gcm'', ''lr-chacha20-poly1305'']"

section \<open>The contract of the interface\<close>

text \<open>
  What \<open>aead.hpp\<close> promises of every cipher, the null control included: the length of what
  \<open>seal\<close> writes, the round trip for nonces of twelve bytes, the rejection of a buffer without
  room for a tag, and that \<open>open\<close> never writes more than the plaintext's room.
\<close>

locale aead_contract =
  fixes seal :: "bytes \<Rightarrow> bytes \<Rightarrow> bytes \<Rightarrow> bytes option"
    and open1 :: "bytes \<Rightarrow> bytes \<Rightarrow> bytes \<Rightarrow> bytes option \<times> bytes"
    and tag_len :: nat
  assumes seal_length: "seal n a p = Some c \<Longrightarrow> length c = length p + tag_len"
    and open_seal: "seal n a p = Some c \<Longrightarrow> fst (open1 n a c) = Some p"
    and open_short: "length c < tag_len \<Longrightarrow> open1 n a c = (None, [])"
    and open_length: "fst (open1 n a c) = Some p \<Longrightarrow> length c = length p + tag_len"
    and open_out: "fst (open1 n a c) = Some p \<Longrightarrow> snd (open1 n a c) = p"
    and open_bound: "length (snd (open1 n a c)) \<le> length c - tag_len"
begin

lemma seal_inj: "seal n a p = Some c \<Longrightarrow> seal n a p' = Some c \<Longrightarrow> p = p'"
  using open_seal [of n a p c] open_seal [of n a p' c] by simp

lemma open_accepts_room: "fst (open1 n a c) \<noteq> None \<Longrightarrow> tag_len \<le> length c"
  using open_length by fastforce

end

text \<open>A cipher that authenticates accepts nothing but what was sealed.\<close>

locale aead_exact = aead_contract +
  assumes open_exact: "fst (open1 n a c) = Some p \<Longrightarrow> seal n a p = Some c"
begin

lemma open_iff: "fst (open1 n a c) = Some p \<longleftrightarrow> seal n a p = Some c"
  using open_seal open_exact by blast

lemma open_rejects: "fst (open1 n a c) = None \<longleftrightarrow> (\<forall>p. seal n a p \<noteq> Some c)"
  by (metis open_iff not_None_eq)

end

abbreviation aead_ok :: "aead \<Rightarrow> bool" where
  "aead_ok a \<equiv> aead_contract (a_seal a) (a_open a) (a_tag_len a)"

abbreviation aead_auth :: "aead \<Rightarrow> bool" where
  "aead_auth a \<equiv> aead_exact (a_seal a) (a_open a) (a_tag_len a)"

interpretation null: aead_contract null_seal null_open 16
  by unfold_locales (auto simp: null_seal_def null_open_def Let_def split: if_splits)

interpretation gcm: aead_exact "\<lambda>n a p. Some (lr_gcm_seal c n a p)" "lr_gcm_open c" 16
  for c
proof unfold_locales
  fix n a ct p
  show "length ct < 16 \<Longrightarrow> lr_gcm_open c n a ct = (None, [])" by (simp add: lr_gcm_open_def)
  show "fst (lr_gcm_open c n a ct) = Some p \<Longrightarrow> snd (lr_gcm_open c n a ct) = p"
    by (auto simp: lr_gcm_open_eq Let_def split: if_splits)
  show "length (snd (lr_gcm_open c n a ct)) \<le> length ct - 16"
    by (simp add: lr_gcm_open_eq Let_def)
qed (auto simp: gcm_open_iff_seal)

lemma chap_open_iff: "stk_ok stk \<Longrightarrow> fst (chap_open stk c n a ct) = Some p \<longleftrightarrow> ct = lr_chap_seal stk c n a p"
  using chap_open_iff_seal [of stk stk c n a ct p] by (auto simp: chap_open_def split: option.splits)

lemma chap_open_bound: "length (snd (chap_open stk c n a ct)) \<le> length ct - 16"
  by (auto simp: chap_open_def lr_chap_open_eq Let_def split: option.splits if_splits)

lemma chap_aead_exact:
  assumes "stk_ok stk"
  shows "aead_exact (chap_seal stk c) (chap_open stk c) 16"
proof unfold_locales
  fix n a ct p
  show "length ct < 16 \<Longrightarrow> chap_open stk c n a ct = (None, [])" by (simp add: chap_open_def lr_chap_open_def)
  show "fst (chap_open stk c n a ct) = Some p \<Longrightarrow> snd (chap_open stk c n a ct) = p"
    by (auto simp: chap_open_def split: option.splits)
qed (use assms in \<open>auto simp: chap_seal_def chap_open_iff chap_open_bound\<close>)

interpretation chap: aead_exact "chap_seal stk_zero c" "chap_open stk_zero c" 16
  for c
  by (rule chap_aead_exact) simp

section \<open>OpenSSL under its documented behaviour\<close>

text \<open>
  What the adapter relies on of EVP for one cipher and key: streaming encryption is a
  length-preserving involution under the nonce, the tag is a function of nonce, associated data
  and ciphertext, and decryption's final call compares the tag that was set with it.
\<close>

definition evp_enc_law :: "'c evp \<Rightarrow> 'c \<Rightarrow> (bytes \<Rightarrow> bytes \<Rightarrow> bytes) \<Rightarrow> (bytes \<Rightarrow> bytes \<Rightarrow> bytes \<Rightarrow> bytes) \<Rightarrow> bool" where
  "evp_enc_law e enc sx tag \<longleftrightarrow> (\<forall>n a p. \<exists>c0 c1 c2 c3 o1 o2.
     EVP_EncryptInit e enc n = Some c0 \<and> (if a = [] then c1 = c0 else EVP_EncryptUpdateAad e c0 a = Some c1) \<and>
     EVP_EncryptUpdate e c1 p = Some (c2, o1) \<and> EVP_EncryptFinal e c2 = Some (c3, o2) \<and>
     o1 @ o2 = sx n p \<and> EVP_get_tag e c3 16 = Some (tag n a (sx n p)))"

definition evp_dec_law :: "'c evp \<Rightarrow> 'c \<Rightarrow> (bytes \<Rightarrow> bytes \<Rightarrow> bytes) \<Rightarrow> (bytes \<Rightarrow> bytes \<Rightarrow> bytes \<Rightarrow> bytes) \<Rightarrow> bool" where
  "evp_dec_law e dec sx tag \<longleftrightarrow> (\<forall>n a ct t. length t = 16 \<longrightarrow> (\<exists>c0 c1 c2 c3 o1.
     EVP_DecryptInit e dec n = Some c0 \<and> (if a = [] then c1 = c0 else EVP_DecryptUpdateAad e c0 a = Some c1) \<and>
     EVP_DecryptUpdate e c1 ct = Some (c2, o1) \<and> EVP_set_tag e c2 t = Some c3 \<and> length o1 \<le> length ct \<and>
     (if t = tag n a ct then \<exists>c4 o2. EVP_DecryptFinal e c3 = Some (c4, o2) \<and> o1 @ o2 = sx n ct
      else EVP_DecryptFinal e c3 = None)))"

definition stream_law :: "(bytes \<Rightarrow> bytes \<Rightarrow> bytes) \<Rightarrow> (bytes \<Rightarrow> bytes \<Rightarrow> bytes \<Rightarrow> bytes) \<Rightarrow> bool" where
  "stream_law sx tag \<longleftrightarrow>
     (\<forall>n p. length (sx n p) = length p \<and> sx n (sx n p) = p) \<and> (\<forall>n a c. length (tag n a c) = 16)"

lemma openssl_seal_eq:
  "evp_enc_law e enc sx tag \<Longrightarrow> openssl_seal e enc 16 n a p = Some (sx n p @ tag n a (sx n p))"
  unfolding evp_enc_law_def openssl_seal_def
  by (erule allE [of _ n], erule allE [of _ a], erule allE [of _ p])
     (auto simp flip: append_assoc split: if_splits)

lemma openssl_open_cases:
  assumes "evp_dec_law e dec sx tag" "16 \<le> length ct"
  defines "body \<equiv> take (length ct - 16) ct" and "t \<equiv> drop (length ct - 16) ct"
  shows "fst (openssl_open e dec 16 n a ct) = (if t = tag n a body then Some (sx n body) else None)"
    and "fst (openssl_open e dec 16 n a ct) = Some p \<Longrightarrow> snd (openssl_open e dec 16 n a ct) = p"
    and "fst (openssl_open e dec 16 n a ct) = None \<Longrightarrow> length (snd (openssl_open e dec 16 n a ct)) \<le> length ct - 16"
proof -
  have lt: "length t = 16" and lb: "length body = length ct - 16" using assms(2) by (simp_all add: t_def body_def)
  obtain c0 c1 c2 c3 o1 where c: "EVP_DecryptInit e dec n = Some c0"
    "if a = [] then c1 = c0 else EVP_DecryptUpdateAad e c0 a = Some c1"
    "EVP_DecryptUpdate e c1 body = Some (c2, o1)" "EVP_set_tag e c2 t = Some c3" "length o1 \<le> length body"
    "if t = tag n a body then \<exists>c4 o2. EVP_DecryptFinal e c3 = Some (c4, o2) \<and> o1 @ o2 = sx n body
      else EVP_DecryptFinal e c3 = None"
    using assms(1) lt unfolding evp_dec_law_def by blast
  have u: "(if a \<noteq> [] then EVP_DecryptUpdateAad e c0 a else Some c0) = Some c1" using c(2) by (auto split: if_splits)
  have e: "openssl_open e dec 16 n a ct =
      (case EVP_DecryptFinal e c3 of None \<Rightarrow> (None, o1) | Some (c, out2) \<Rightarrow> (Some (o1 @ out2), o1 @ out2))"
    unfolding openssl_open_def Let_def body_def [symmetric] t_def [symmetric] using assms(2) by (simp add: c u)
  show "fst (openssl_open e dec 16 n a ct) = (if t = tag n a body then Some (sx n body) else None)"
    using c(6) by (auto simp: e split: if_splits)
  show "fst (openssl_open e dec 16 n a ct) = Some p \<Longrightarrow> snd (openssl_open e dec 16 n a ct) = p"
    by (auto simp: e split: option.splits)
  show "fst (openssl_open e dec 16 n a ct) = None \<Longrightarrow> length (snd (openssl_open e dec 16 n a ct)) \<le> length ct - 16"
    using c(5) lb by (auto simp: e split: option.splits)
qed

lemma openssl_aead_exact:
  assumes "evp_enc_law e enc sx tag" "evp_dec_law e dec sx tag" "stream_law sx tag"
  shows "aead_exact (openssl_seal e enc 16) (openssl_open e dec 16) 16"
proof -
  note s = openssl_seal_eq [OF assms(1)] and o = openssl_open_cases [OF assms(2)]
  have l: "length (sx n p) = length p" "sx n (sx n p) = p" "length (tag n a c) = 16" for n p a c
    using assms(3) by (simp_all add: stream_law_def)
  have short: "length c < 16 \<Longrightarrow> openssl_open e dec 16 n a c = (None, [])" for n a c
    by (simp add: openssl_open_def)
  have iff: "fst (openssl_open e dec 16 n a c) = Some p \<longleftrightarrow> openssl_seal e enc 16 n a p = Some c" for n a c p
  proof (cases "16 \<le> length c")
    case True
    define b t where "b = take (length c - 16) c" and "t = drop (length c - 16) c"
    have c: "c = b @ t" by (simp add: b_def t_def)
    have lt: "length t = 16" using True by (simp add: t_def)
    have "c = sx n p @ tag n a (sx n p) \<longleftrightarrow> b = sx n p \<and> t = tag n a (sx n p)"
      unfolding c by (rule append_eq_append_conv) (simp add: lt l(3))
    then have "c = sx n p @ tag n a (sx n p) \<longleftrightarrow> sx n p = b \<and> t = tag n a b" by auto
    moreover have "sx n p = b \<longleftrightarrow> sx n b = p" using l(2) by metis
    ultimately show ?thesis
      unfolding o(1) [OF True, folded b_def t_def] s by (simp split: if_split) blast
  next
    case False
    then show ?thesis using short [of c n a] l by (auto simp: s)
  qed
  have out: "snd (openssl_open e dec 16 n a c) = p" if "fst (openssl_open e dec 16 n a c) = Some p" for n a c p
    using that o(2) [of c n a p] short [of c n a] by (cases "16 \<le> length c") auto
  have "length (snd (openssl_open e dec 16 n a c)) \<le> length c - 16" for n a c
  proof (cases "fst (openssl_open e dec 16 n a c)")
    case None
    then show ?thesis using o(3) [of c n a] short [of c n a] by (cases "16 \<le> length c") auto
  next
    case (Some p)
    then have "length c = length p + 16" using iff [of n a c p] l by (auto simp: s)
    then show ?thesis using out [OF Some] by simp
  qed
  then show ?thesis
    by unfold_locales (auto simp: iff short out s l)
qed

section \<open>Properties of the factory\<close>

definition evp_ok :: "'c evp \<Rightarrow> bool" where
  "evp_ok e \<longleftrightarrow> (\<forall>nm key. \<exists>sx tag. evp_enc_law e (evp_enc_ctx e nm key) sx tag \<and>
     evp_dec_law e (evp_dec_ctx e nm key) sx tag \<and> stream_law sx tag)"

definition env_ok :: "'c crypto_env \<Rightarrow> bool" where
  "env_ok env \<longleftrightarrow> stk_ok (ce_stk env) \<and> evp_ok (ce_evp env)"

lemma OpenSslAead_auth: "evp_ok e \<Longrightarrow> aead_auth (OpenSslAead e nm key klen nlen 16)"
  unfolding evp_ok_def OpenSslAead_def by (simp, metis openssl_aead_exact)

lemma SimdGcm_auth: "aead_auth (SimdGcm ar f pth key)"
  using gcm.aead_exact_axioms by (simp add: SimdGcm_def Let_def)

lemma SimdChaPoly_auth: "stk_ok stk \<Longrightarrow> aead_auth (SimdChaPoly stk ar f pth key)"
  using chap_aead_exact [of stk] by (simp add: SimdChaPoly_def Let_def)

lemma NullAead_ok: "aead_ok NullAead"
  using null.aead_contract_axioms by (simp add: NullAead_def)

lemma make_aead_cases:
  assumes "fst (make_aead env g name key) = Some a"
  obtains "name = ''null''" "a = NullAead"
  | pth where "name = ''lr-aes-256-gcm''" "a = SimdGcm (ce_arch env) (ce_cpu env) pth key"
  | pth where "name = ''lr-chacha20-poly1305''" "a = SimdChaPoly (ce_stk env) (ce_arch env) (ce_cpu env) pth key"
  | "name = ''aes-256-gcm'' \<or> name = ''chacha20-poly1305''" "a = OpenSslAead (ce_evp env) name key 32 12 16"
  using assms
  by (auto simp: make_aead_def make_aead_simd_def make_aead_openssl_def Let_def split: if_splits prod.splits)

text \<open>
  The factory knows the null control and the registered names, and nothing else: it returns
  no object exactly for a name outside this list, whatever the key, the processor and the state
  of the dispatch.
\<close>

theorem make_aead_known:
  "fst (make_aead env g name key) = None \<longleftrightarrow> name \<notin> set (''null'' # aead_names)"
  by (auto simp: make_aead_def make_aead_simd_def make_aead_openssl_def aead_names_def Let_def split: prod.splits)

text \<open>
  C22. Every object the factory makes keeps the contract of the interface, has the lengths the
  harness assumes (tag 16, nonce 12, key as \<open>aead_key_len\<close> says), carries the name it was asked
  for, and, except for the null control, accepts nothing but what its \<open>seal\<close> wrote.
\<close>

theorem make_aead_contract:
  assumes "env_ok env" "fst (make_aead env g name key) = Some a"
  shows "aead_ok a \<and> (name \<noteq> ''null'' \<longrightarrow> aead_auth a) \<and> a_name a = name \<and>
     a_tag_len a = 16 \<and> a_nonce_len a = 12 \<and> a_key_len a = aead_key_len name"
proof -
  have env: "stk_ok (ce_stk env)" "evp_ok (ce_evp env)" using assms(1) by (simp_all add: env_ok_def)
  from assms(2) show ?thesis
  proof (cases rule: make_aead_cases)
    case 1
    then show ?thesis using NullAead_ok by (simp add: NullAead_def aead_key_len_def)
  next
    case 2
    then show ?thesis using SimdGcm_auth aead_exact.axioms(1) by (simp add: SimdGcm_def aead_key_len_def Let_def)
  next
    case (3 pth)
    then show ?thesis
      using SimdChaPoly_auth [OF env(1), of "ce_arch env" "ce_cpu env" pth key] aead_exact.axioms(1)
      by (simp add: SimdChaPoly_def aead_key_len_def Let_def)
  next
    case 4
    then show ?thesis
      using OpenSslAead_auth [OF env(2), of name key 32 12] aead_exact.axioms(1)
      by (auto simp: OpenSslAead_def aead_key_len_def)
  qed
qed

text \<open>A concrete environment: EVP replaced by the repository's own ChaCha20-Poly1305.\<close>

record model_ctx =
  mc_key :: bytes
  mc_nonce :: bytes
  mc_aad :: bytes
  mc_ct :: bytes
  mc_tag :: bytes

definition model_tag :: "bytes \<Rightarrow> bytes \<Rightarrow> bytes \<Rightarrow> bytes \<Rightarrow> bytes" where
  "model_tag key n a c = chap_tag stk_zero (chacha_xor PATH_PORTABLE key n 0 (replicate 64 0)) a c"

definition model_evp :: "model_ctx evp" where
  "model_evp = \<lparr>
     evp_enc_ctx = (\<lambda>nm key. \<lparr> mc_key = key, mc_nonce = [], mc_aad = [], mc_ct = [], mc_tag = [] \<rparr>),
     evp_dec_ctx = (\<lambda>nm key. \<lparr> mc_key = key, mc_nonce = [], mc_aad = [], mc_ct = [], mc_tag = [] \<rparr>),
     EVP_EncryptInit = (\<lambda>c n. Some (c\<lparr> mc_nonce := n, mc_aad := [], mc_ct := [] \<rparr>)),
     EVP_EncryptUpdateAad = (\<lambda>c a. Some (c\<lparr> mc_aad := a \<rparr>)),
     EVP_EncryptUpdate = (\<lambda>c p. let ct = chacha_xor PATH_PORTABLE (mc_key c) (mc_nonce c) 1 p in Some (c\<lparr> mc_ct := ct \<rparr>, ct)),
     EVP_EncryptFinal = (\<lambda>c. Some (c, [])),
     EVP_get_tag = (\<lambda>c n. Some (take n (model_tag (mc_key c) (mc_nonce c) (mc_aad c) (mc_ct c)))),
     EVP_DecryptInit = (\<lambda>c n. Some (c\<lparr> mc_nonce := n, mc_aad := [], mc_ct := [] \<rparr>)),
     EVP_DecryptUpdateAad = (\<lambda>c a. Some (c\<lparr> mc_aad := a \<rparr>)),
     EVP_DecryptUpdate = (\<lambda>c ct. Some (c\<lparr> mc_ct := ct \<rparr>, chacha_xor PATH_PORTABLE (mc_key c) (mc_nonce c) 1 ct)),
     EVP_set_tag = (\<lambda>c t. Some (c\<lparr> mc_tag := t \<rparr>)),
     EVP_DecryptFinal = (\<lambda>c. if mc_tag c = model_tag (mc_key c) (mc_nonce c) (mc_aad c) (mc_ct c) then Some (c, []) else None) \<rparr>"

definition model_env :: "model_ctx crypto_env" where
  "model_env = \<lparr> ce_stk = stk_zero, ce_arch = X86,
     ce_cpu = \<lparr> cpu_has_aes_clmul = True, cpu_has_avx2 = True, cpu_has_neon = False \<rparr>,
     ce_masked = False, ce_evp = model_evp \<rparr>"

definition simd0 :: simd_state where
  "simd0 = \<lparr> g_force_portable = False, g_mask_aes_accel = False, g_gcm_path = None, g_chap_path = None \<rparr>"

lemma length_model_tag [simp]: "length (model_tag key n a c) = 16"
  by (simp add: model_tag_def chap_tag_spec)

lemma model_env_ok [simp]: "env_ok model_env"
proof -
  have e: "evp_enc_law model_evp (evp_enc_ctx model_evp nm key) (\<lambda>n. chacha_xor PATH_PORTABLE key n 1) (model_tag key)" for nm key
    unfolding evp_enc_law_def
  proof (intro allI)
    fix n a p
    show "\<exists>c0 c1 c2 c3 o1 o2.
       EVP_EncryptInit model_evp (evp_enc_ctx model_evp nm key) n = Some c0 \<and>
       (if a = [] then c1 = c0 else EVP_EncryptUpdateAad model_evp c0 a = Some c1) \<and>
       EVP_EncryptUpdate model_evp c1 p = Some (c2, o1) \<and> EVP_EncryptFinal model_evp c2 = Some (c3, o2) \<and>
       o1 @ o2 = chacha_xor PATH_PORTABLE key n 1 p \<and>
       EVP_get_tag model_evp c3 16 = Some (model_tag key n a (chacha_xor PATH_PORTABLE key n 1 p))"
      by (cases "a = []") (simp_all add: model_evp_def Let_def)
  qed
  have d: "evp_dec_law model_evp (evp_dec_ctx model_evp nm key) (\<lambda>n. chacha_xor PATH_PORTABLE key n 1) (model_tag key)" for nm key
    unfolding evp_dec_law_def
  proof (intro allI impI)
    fix n a ct t :: bytes
    show "\<exists>c0 c1 c2 c3 o1.
       EVP_DecryptInit model_evp (evp_dec_ctx model_evp nm key) n = Some c0 \<and>
       (if a = [] then c1 = c0 else EVP_DecryptUpdateAad model_evp c0 a = Some c1) \<and>
       EVP_DecryptUpdate model_evp c1 ct = Some (c2, o1) \<and> EVP_set_tag model_evp c2 t = Some c3 \<and> length o1 \<le> length ct \<and>
       (if t = model_tag key n a ct
        then \<exists>c4 o2. EVP_DecryptFinal model_evp c3 = Some (c4, o2) \<and> o1 @ o2 = chacha_xor PATH_PORTABLE key n 1 ct
        else EVP_DecryptFinal model_evp c3 = None)"
      by (cases "a = []") (simp_all add: model_evp_def)
  qed
  have "stream_law (\<lambda>n. chacha_xor PATH_PORTABLE key n 1) (model_tag key)" for key
    by (simp add: stream_law_def)
  with e d have "evp_ok model_evp" unfolding evp_ok_def by blast
  then show ?thesis by (simp add: env_ok_def model_env_def)
qed

theorem make_aead_contract_witness:
  "env_ok model_env \<and> aead_auth (OpenSslAead model_evp ''aes-256-gcm'' (replicate 32 1) 32 12 16)"
proof -
  have m: "fst (make_aead model_env simd0 ''aes-256-gcm'' (replicate 32 1)) =
      Some (OpenSslAead model_evp ''aes-256-gcm'' (replicate 32 1) 32 12 16)"
    by (simp add: make_aead_def make_aead_openssl_def model_env_def)
  have "''aes-256-gcm'' \<noteq> ''null''" by simp
  then show ?thesis using make_aead_contract [OF model_env_ok m] model_env_ok by blast
qed

text \<open>
  Masking the AES accelerator, as \<open>make_aead_simd\<close> does when the environment asks for it,
  takes GCM to the portable path on every machine and leaves the vector path of ChaCha20 where
  it was.
\<close>

theorem mask_spares_chacha:
  "fst (gcm_path ar f (lr_simd_mask_aes_accel True g)) = PATH_PORTABLE \<and>
   fst (chap_path ar f (lr_simd_mask_aes_accel on g)) = fst (chap_path ar f g)"
  by (auto simp: gcm_path_def chap_path_def lr_simd_mask_aes_accel_def resolve_paths_def Let_def split: prod.splits)

text \<open>
  \<open>backend()\<close> asks the dispatch again instead of reporting the path the object was built with.
  An object built on the AVX2 path reports the portable one after \<open>lr_simd_force_portable\<close>.
\<close>

lemma backend_not_of_object:
  "let env = model_env;
       (a, g) = make_aead env simd0 ''lr-chacha20-poly1305'' (replicate 32 1)
   in a = Some (SimdChaPoly stk_zero X86 (ce_cpu env) PATH_X86 (replicate 32 1)) \<and>
      a_backend (the a) g = ''avx2'' \<and> a_backend (the a) (lr_simd_force_portable True g) = ''portable-c''"
  by (simp add: make_aead_def make_aead_simd_def chap_path_def resolve_paths_def lr_simd_mask_aes_accel_def
      lr_simd_force_portable_def simd0_def model_env_def SimdChaPoly_def lr_simd_chap_backend_def Let_def)

end
