(* ===== verification/KeySchedule.thy ===== *)
theory KeySchedule
  imports Aead
begin

text \<open>
  \<open>hkdf\<close>, \<open>bench_psk\<close> and the class \<open>KeySchedule\<close> of \<open>src/src/core/proto.cpp\<close> and
  \<open>src/include/lr/proto.hpp\<close>.  OpenSSL's HKDF is a parameter; the factory \<open>make_aead\<close> is
  passed as the function \<open>mk\<close> from cipher name and key to an object.  The lemmas show the
  invariant that makes \<open>for_epoch\<close> and \<open>nonce\<close> choose the same slot, where the schedule stands
  after any in-order run of sequence numbers, and that a nonce determines its sequence number.
\<close>

section \<open>HKDF\<close>

text \<open>The calls of \<open>hkdf\<close>, each of which can fail, and the derivation itself.\<close>

record hkdf_lib =
  hk_new_id :: bool
  hk_derive_init :: bool
  hk_set_md :: bool
  hk_set1_salt :: "bytes \<Rightarrow> bool"
  hk_set1_key :: "bytes \<Rightarrow> bool"
  hk_add1_info :: "string \<Rightarrow> bool"
  hk_derive :: "bytes \<Rightarrow> bytes \<Rightarrow> string \<Rightarrow> nat \<Rightarrow> bytes option"

definition hkdf :: "hkdf_lib \<Rightarrow> bytes \<Rightarrow> bytes \<Rightarrow> string \<Rightarrow> nat \<Rightarrow> bytes option" where
  "hkdf L salt ikm info out_len =
     (if \<not> hk_new_id L then None
      else if hk_derive_init L \<and> hk_set_md L \<and> hk_set1_salt L salt \<and> hk_set1_key L ikm \<and> hk_add1_info L info
      then hk_derive L salt ikm info out_len
      else None)"

definition bench_psk :: bytes where
  "bench_psk = map (\<lambda>i. 0x5A XOR (of_nat i * 29 + 3)) [0..<32]"

section \<open>The key schedule\<close>

record key_schedule =
  ks_cipher :: string
  ks_per_epoch :: u64
  ks_chain :: bytes
  ks_epoch :: u8
  ks_rekeys :: u64
  ks_aead0 :: "aead option"
  ks_aead1 :: "aead option"
  ks_salt0 :: bytes
  ks_salt1 :: bytes
  ks_tag0 :: u8
  ks_tag1 :: u8

type_synonym factory = "string \<Rightarrow> bytes \<Rightarrow> aead option"

definition derive :: "hkdf_lib \<Rightarrow> factory \<Rightarrow> u8 \<Rightarrow> key_schedule \<Rightarrow> key_schedule" where
  "derive L mk epoch_index ks =
     (let material = (case hkdf L [epoch_index] (ks_chain ks) ''linerate traffic'' 36 of
                        Some m \<Rightarrow> m | None \<Rightarrow> replicate 36 0);
          ks = ks\<lparr> ks_aead1 := ks_aead0 ks, ks_salt1 := ks_salt0 ks, ks_tag1 := ks_tag0 ks \<rparr>;
          k = take 32 material;
          ks = ks\<lparr> ks_salt0 := take 4 (drop 32 material), ks_aead0 := mk (ks_cipher ks) k, ks_tag0 := epoch_index \<rparr>
      in case hkdf L [epoch_index] (ks_chain ks) ''linerate ratchet'' 32 of
           Some nxt \<Rightarrow> ks\<lparr> ks_chain := nxt \<rparr>
         | None \<Rightarrow> ks)"

definition KeySchedule :: "hkdf_lib \<Rightarrow> factory \<Rightarrow> bytes \<Rightarrow> string \<Rightarrow> u64 \<Rightarrow> key_schedule" where
  "KeySchedule L mk secret cipher packets_per_epoch =
     (derive L mk 0 \<lparr> ks_cipher = cipher, ks_per_epoch = packets_per_epoch, ks_chain = secret, ks_epoch = 0,
        ks_rekeys = 0, ks_aead0 = None, ks_aead1 = None, ks_salt0 = replicate 4 0, ks_salt1 = replicate 4 0,
        ks_tag0 = 0, ks_tag1 = 0 \<rparr>)\<lparr> ks_aead1 := None, ks_tag1 := 0 \<rparr>"

definition for_epoch :: "key_schedule \<Rightarrow> u8 \<Rightarrow> aead option" where
  "for_epoch ks epoch =
     (if ks_aead0 ks \<noteq> None \<and> epoch = ks_tag0 ks then ks_aead0 ks
      else if ks_aead1 ks \<noteq> None \<and> epoch = ks_tag1 ks then ks_aead1 ks
      else None)"

definition ks_nonce :: "key_schedule \<Rightarrow> u8 \<Rightarrow> u64 \<Rightarrow> bytes" where
  "ks_nonce ks epoch sq =
     (let s = (if ks_aead1 ks \<noteq> None \<and> epoch = ks_tag1 ks then ks_salt1 ks else ks_salt0 ks)
      in take 4 s @ map (\<lambda>i. ucast (drop_bit (56 - 8 * i) sq)) [0..<8])"

definition maybe_rekey :: "hkdf_lib \<Rightarrow> factory \<Rightarrow> u64 \<Rightarrow> key_schedule \<Rightarrow> bool \<times> key_schedule" where
  "maybe_rekey L mk sq ks =
     (if ks_per_epoch ks = 0 then (False, ks)
      else let want = ucast ((sq div ks_per_epoch ks) AND 0xFF)
           in if want = ks_epoch ks then (False, ks)
              else let ks = derive L mk want (ks\<lparr> ks_epoch := want \<rparr>)
                   in (True, ks\<lparr> ks_rekeys := ks_rekeys ks + 1 \<rparr>))"

definition cipher_backend :: "simd_state \<Rightarrow> key_schedule \<Rightarrow> string" where
  "cipher_backend g ks = (case ks_aead0 ks of Some a \<Rightarrow> a_backend a g | None \<Rightarrow> ''none'')"

section \<open>Invariant\<close>

text \<open>
  Slot 0 carries the current epoch; a live slot 1 carries another.  Salts have four bytes, and
  every live object comes from the factory.
\<close>

definition hkdf_len :: "hkdf_lib \<Rightarrow> bool" where
  "hkdf_len L \<longleftrightarrow> (\<forall>salt ikm info n out. hk_derive L salt ikm info n = Some out \<longrightarrow> length out = n)"

definition ks_inv :: "(aead \<Rightarrow> bool) \<Rightarrow> key_schedule \<Rightarrow> bool" where
  "ks_inv P ks \<longleftrightarrow> ks_tag0 ks = ks_epoch ks \<and> (ks_aead1 ks \<noteq> None \<longrightarrow> ks_tag1 ks \<noteq> ks_tag0 ks) \<and>
     length (ks_salt0 ks) = 4 \<and> length (ks_salt1 ks) = 4 \<and>
     (\<forall>a. ks_aead0 ks = Some a \<or> ks_aead1 ks = Some a \<longrightarrow> P a)"

definition mk_ok :: "(aead \<Rightarrow> bool) \<Rightarrow> factory \<Rightarrow> string \<Rightarrow> bool" where
  "mk_ok P mk cipher \<longleftrightarrow> (\<forall>k a. mk cipher k = Some a \<longrightarrow> P a)"

lemma hkdf_length: "hkdf_len L \<Longrightarrow> hkdf L salt ikm info n = Some out \<Longrightarrow> length out = n"
  by (auto simp: hkdf_def hkdf_len_def split: if_splits)

lemma derive_fields [simp]:
  "ks_cipher (derive L mk e ks) = ks_cipher ks" "ks_per_epoch (derive L mk e ks) = ks_per_epoch ks"
  "ks_epoch (derive L mk e ks) = ks_epoch ks" "ks_rekeys (derive L mk e ks) = ks_rekeys ks"
  "ks_aead1 (derive L mk e ks) = ks_aead0 ks" "ks_salt1 (derive L mk e ks) = ks_salt0 ks"
  "ks_tag1 (derive L mk e ks) = ks_tag0 ks" "ks_tag0 (derive L mk e ks) = e"
  by (simp_all add: derive_def Let_def split: option.split)

lemma derive_slot0:
  "\<exists>k. ks_aead0 (derive L mk e ks) = mk (ks_cipher ks) k"
  "hkdf_len L \<Longrightarrow> length (ks_salt0 (derive L mk e ks)) = 4"
proof -
  show "\<exists>k. ks_aead0 (derive L mk e ks) = mk (ks_cipher ks) k"
    by (simp add: derive_def Let_def split: option.split) blast
  show "hkdf_len L \<Longrightarrow> length (ks_salt0 (derive L mk e ks)) = 4"
    using hkdf_length [of L "[e]" "ks_chain ks" "''linerate traffic''" 36]
    by (auto simp: derive_def Let_def split: option.split)
qed

lemma derive_inv:
  assumes "hkdf_len L" "mk_ok P mk (ks_cipher ks)" "length (ks_salt0 ks) = 4" "ks_aead0 ks \<noteq> None \<longrightarrow> ks_tag0 ks \<noteq> e"
    "ks_epoch ks = e" "\<forall>a. ks_aead0 ks = Some a \<longrightarrow> P a"
  shows "ks_inv P (derive L mk e ks)"
  using assms derive_slot0(1) [of L mk e ks] derive_slot0(2) [of L mk e ks]
  by (auto simp: ks_inv_def mk_ok_def)

lemma KeySchedule_inv:
  assumes "hkdf_len L" "mk_ok P mk cipher"
  shows "ks_inv P (KeySchedule L mk secret cipher n)"
proof -
  let ?k0 = "\<lparr> ks_cipher = cipher, ks_per_epoch = n, ks_chain = secret, ks_epoch = 0,
        ks_rekeys = 0, ks_aead0 = None, ks_aead1 = None, ks_salt0 = replicate 4 0, ks_salt1 = replicate 4 0,
        ks_tag0 = 0, ks_tag1 = 0 \<rparr>"
  have "ks_inv P (derive L mk 0 ?k0)" using assms by (intro derive_inv) simp_all
  then show ?thesis by (simp add: KeySchedule_def ks_inv_def)
qed

lemma maybe_rekey_inv:
  assumes "hkdf_len L" "mk_ok P mk (ks_cipher ks)" "ks_inv P ks"
  shows "ks_inv P (snd (maybe_rekey L mk sq ks))"
proof (cases "ks_per_epoch ks = 0 \<or> ucast ((sq div ks_per_epoch ks) AND 0xFF) = ks_epoch ks")
  case True
  then show ?thesis using assms(3) by (auto simp: maybe_rekey_def Let_def)
next
  case False
  let ?e = "ucast ((sq div ks_per_epoch ks) AND 0xFF) :: u8"
  have "ks_inv P (derive L mk ?e (ks\<lparr>ks_epoch := ?e\<rparr>))"
    by (rule derive_inv) (use assms False in \<open>auto simp: ks_inv_def\<close>)
  then show ?thesis using False by (simp add: maybe_rekey_def Let_def ks_inv_def)
qed

lemma maybe_rekey_cipher [simp]:
  "ks_cipher (snd (maybe_rekey L mk sq ks)) = ks_cipher ks"
  "ks_per_epoch (snd (maybe_rekey L mk sq ks)) = ks_per_epoch ks"
  by (simp_all add: maybe_rekey_def Let_def)

lemma for_epoch_ok: "ks_inv P ks \<Longrightarrow> for_epoch ks e = Some a \<Longrightarrow> P a"
  by (auto simp: for_epoch_def ks_inv_def split: if_splits)

section \<open>Nonces\<close>

lemma ks_nonce_split:
  "ks_nonce ks e sq = take 4 (if ks_aead1 ks \<noteq> None \<and> e = ks_tag1 ks then ks_salt1 ks else ks_salt0 ks) @ store64_be sq"
  by (simp add: ks_nonce_def store64_be_def Let_def)

lemma store64_be_inj: "store64_be x = store64_be y \<Longrightarrow> x = y"
proof (rule bit_word_eqI)
  fix n assume e: "store64_be x = store64_be y" and n: "n < LENGTH(64)"
  let ?i = "7 - n div 8"
  have i: "?i < 8" "56 - 8 * ?i = 8 * (n div 8)" using n by auto
  have "store64_be x ! ?i = store64_be y ! ?i" using e by simp
  then have "(ucast (drop_bit (8 * (n div 8)) x) :: u8) = ucast (drop_bit (8 * (n div 8)) y)"
    using i by (simp add: store64_be_def)
  then have "bit (ucast (drop_bit (8 * (n div 8)) x) :: u8) (n mod 8) = bit (ucast (drop_bit (8 * (n div 8)) y) :: u8) (n mod 8)"
    by simp
  then show "bit x n = bit y n" by (simp add: bit_simps)
qed

lemma ks_nonce_length: "ks_inv P ks \<Longrightarrow> length (ks_nonce ks e sq) = 12"
  by (simp add: ks_nonce_split ks_inv_def)

lemma ks_nonce_inj: "ks_inv P ks \<Longrightarrow> ks_nonce ks e sq = ks_nonce ks e sq' \<Longrightarrow> sq = sq'"
  by (rule store64_be_inj) (simp add: ks_nonce_split)

text \<open>\<open>for_epoch\<close> looks at slot 0 first and \<open>nonce\<close> at slot 1; the invariant makes them agree.\<close>

lemma for_epoch_nonce_slot:
  assumes "ks_inv P ks" "for_epoch ks e = Some a"
  shows "(e = ks_tag0 ks \<and> ks_aead0 ks = Some a \<and> (\<forall>sq. ks_nonce ks e sq = ks_salt0 ks @ store64_be sq)) \<or>
         (e = ks_tag1 ks \<and> ks_aead1 ks = Some a \<and> (\<forall>sq. ks_nonce ks e sq = ks_salt1 ks @ store64_be sq))"
  using assms by (auto simp: for_epoch_def ks_nonce_split ks_inv_def split: if_splits)

section \<open>Runs of sequence numbers\<close>

definition rekey_run :: "hkdf_lib \<Rightarrow> factory \<Rightarrow> u64 list \<Rightarrow> key_schedule \<Rightarrow> key_schedule" where
  "rekey_run L mk sqs ks = fold (\<lambda>sq ks. snd (maybe_rekey L mk sq ks)) sqs ks"

lemma rekey_run_simps [simp]:
  "rekey_run L mk [] ks = ks"
  "rekey_run L mk (sq # sqs) ks = rekey_run L mk sqs (snd (maybe_rekey L mk sq ks))"
  "rekey_run L mk (xs @ ys) ks = rekey_run L mk ys (rekey_run L mk xs ks)"
  by (simp_all add: rekey_run_def)

lemma rekey_run_inv:
  "hkdf_len L \<Longrightarrow> mk_ok P mk (ks_cipher ks) \<Longrightarrow> ks_inv P ks \<Longrightarrow> ks_inv P (rekey_run L mk sqs ks)"
  by (induction sqs arbitrary: ks) (simp_all add: maybe_rekey_inv)

text \<open>The epoch a sequence number belongs to, and the effect of entering an epoch.\<close>

definition epoch_of :: "u64 \<Rightarrow> u64 \<Rightarrow> u8" where
  "epoch_of per sq = ucast ((sq div per) AND 0xFF)"

definition enter_epoch :: "hkdf_lib \<Rightarrow> factory \<Rightarrow> u8 \<Rightarrow> key_schedule \<Rightarrow> key_schedule" where
  "enter_epoch L mk e ks =
     (if e = ks_epoch ks then ks
      else (derive L mk e (ks\<lparr> ks_epoch := e \<rparr>))\<lparr> ks_rekeys := ks_rekeys ks + 1 \<rparr>)"

lemma maybe_rekey_enter:
  "ks_per_epoch ks \<noteq> 0 \<Longrightarrow> snd (maybe_rekey L mk sq ks) = enter_epoch L mk (epoch_of (ks_per_epoch ks) sq) ks"
  "ks_per_epoch ks = 0 \<Longrightarrow> snd (maybe_rekey L mk sq ks) = ks"
  by (simp_all add: maybe_rekey_def enter_epoch_def epoch_of_def Let_def)

lemma enter_epoch_fields [simp]:
  "ks_per_epoch (enter_epoch L mk e ks) = ks_per_epoch ks" "ks_epoch (enter_epoch L mk e ks) = e"
  "ks_cipher (enter_epoch L mk e ks) = ks_cipher ks"
  by (simp_all add: enter_epoch_def)

lemma rekey_run_enter:
  "ks_per_epoch ks \<noteq> 0 \<Longrightarrow> rekey_run L mk sqs ks = fold (enter_epoch L mk) (map (epoch_of (ks_per_epoch ks)) sqs) ks"
  by (induction sqs arbitrary: ks) (simp_all add: maybe_rekey_enter)

lemma fold_enter_epoch_compress:
  "fold (enter_epoch L mk) es ks = fold (enter_epoch L mk) (tl (remdups_adj (ks_epoch ks # es))) ks"
proof (induction es arbitrary: ks)
  case (Cons e es)
  show ?case
  proof (cases "e = ks_epoch ks")
    case True
    then have "enter_epoch L mk e ks = ks" by (simp add: enter_epoch_def)
    then show ?thesis using Cons [of ks] True by simp
  next
    case False
    have h: "remdups_adj (e # es) = e # tl (remdups_adj (e # es))"
      by (metis hd_Cons_tl hd_remdups_adj list.sel(1) remdups_adj_Nil_iff list.distinct(1))
    have "fold (enter_epoch L mk) (tl (remdups_adj (ks_epoch ks # e # es))) ks =
        fold (enter_epoch L mk) (remdups_adj (e # es)) ks"
      using False by simp
    also have "\<dots> = fold (enter_epoch L mk) (e # tl (remdups_adj (e # es))) ks"
      using arg_cong [OF h, of "\<lambda>l. fold (enter_epoch L mk) l ks"] .
    finally have A: "fold (enter_epoch L mk) (tl (remdups_adj (ks_epoch ks # e # es))) ks =
        fold (enter_epoch L mk) (tl (remdups_adj (e # es))) (enter_epoch L mk e ks)"
      by (simp only: fold_simps)
    show ?thesis unfolding A using Cons [of "enter_epoch L mk e ks"] by simp
  qed
qed simp

lemma rekey_run_enter_fields [simp]:
  "ks_per_epoch (rekey_run L mk sqs ks) = ks_per_epoch ks" "ks_cipher (rekey_run L mk sqs ks) = ks_cipher ks"
  by (induction sqs arbitrary: ks) simp_all

lemma KeySchedule_fields [simp]:
  "ks_per_epoch (KeySchedule L mk s c n) = n" "ks_epoch (KeySchedule L mk s c n) = 0"
  "ks_cipher (KeySchedule L mk s c n) = c" "ks_rekeys (KeySchedule L mk s c n) = 0"
  "ks_tag0 (KeySchedule L mk s c n) = 0" "ks_aead1 (KeySchedule L mk s c n) = None"
  by (simp_all add: KeySchedule_def)

lemma epoch_of_nat:
  assumes "n < 2 ^ 64" "per \<noteq> 0"
  shows "epoch_of per (of_nat n) = of_nat (n div unat per)"
proof -
  have m: "ucast (x AND 0xFF :: u64) = (ucast x :: u8)" for x
  proof (rule bit_word_eqI)
    fix k assume k: "k < LENGTH(8)"
    have "(0xFF :: u64) = mask 8" by (simp add: mask_eq_exp_minus_1)
    then have "bit (0xFF :: u64) k" using k by (simp only: bit_mask_iff) simp
    with k show "bit (ucast (x AND 0xFF :: u64) :: u8) k = bit (ucast x :: u8) k"
      by (simp add: bit_simps)
  qed
  have u: "unat (of_nat n :: u64) = n" using assms(1) by (simp add: unat_of_nat)
  have "ucast (of_nat n div per) = (of_nat (unat (of_nat n div per)) :: u8)" by simp
  also have "unat (of_nat n div per) = n div unat per" by (simp add: unat_div u)
  finally show ?thesis by (simp add: epoch_of_def m)
qed

subsection \<open>Sequence numbers in order\<close>

definition in_order :: "nat \<Rightarrow> u64 list" where
  "in_order n = map of_nat [0..<n]"

lemma in_order_Suc [simp]: "in_order (Suc n) = in_order n @ [of_nat n]"
  by (simp add: in_order_def)

definition at_quotient :: "key_schedule \<Rightarrow> nat \<Rightarrow> bool" where
  "at_quotient ks q \<longleftrightarrow> ks_epoch ks = of_nat q \<and> ks_tag0 ks = of_nat q \<and> ks_rekeys ks = of_nat q \<and> ks_aead0 ks \<noteq> None \<and>
     (if q = 0 then ks_aead1 ks = None else ks_aead1 ks \<noteq> None \<and> ks_tag1 ks = of_nat (q - 1))"

lemma enter_epoch_same: "at_quotient ks q \<Longrightarrow> enter_epoch L mk (of_nat q) ks = ks"
  by (simp add: at_quotient_def enter_epoch_def)

lemma enter_epoch_next:
  assumes "at_quotient ks q" "\<And>k. mk (ks_cipher ks) k \<noteq> None"
  shows "at_quotient (enter_epoch L mk (of_nat (Suc q)) ks) (Suc q)"
proof -
  have ne: "(of_nat (Suc q) :: u8) \<noteq> of_nat q" by simp
  obtain k where "ks_aead0 (derive L mk (of_nat (Suc q)) (ks\<lparr>ks_epoch := of_nat (Suc q)\<rparr>)) = mk (ks_cipher ks) k"
    using derive_slot0(1) [of L mk "of_nat (Suc q)" "ks\<lparr>ks_epoch := of_nat (Suc q)\<rparr>"] by auto
  then show ?thesis using assms ne unfolding at_quotient_def enter_epoch_def by simp
qed

lemma in_order_at_quotient:
  assumes "per \<noteq> 0" "n < 2 ^ 64" "\<And>k. mk cipher k \<noteq> None"
  shows "at_quotient (rekey_run L mk (in_order (Suc n)) (KeySchedule L mk secret cipher per)) (n div unat per)"
  using assms(2)
proof (induction n)
  case 0
  have "at_quotient (KeySchedule L mk secret cipher per) 0"
    using assms(3) derive_slot0(1) [of L mk 0] by (auto simp: at_quotient_def KeySchedule_def) (metis key_schedule.select_convs(1))
  moreover have "epoch_of per 0 = of_nat 0" using epoch_of_nat [of 0 per] assms(1) by simp
  ultimately show ?case
    using assms(1) enter_epoch_same [of "KeySchedule L mk secret cipher per" 0 L mk]
    by (simp add: in_order_def maybe_rekey_enter)
next
  case (Suc n)
  let ?ks = "rekey_run L mk (in_order (Suc n)) (KeySchedule L mk secret cipher per)"
  have IH: "at_quotient ?ks (n div unat per)" using Suc by simp
  have f: "ks_per_epoch ?ks = per" "ks_cipher ?ks = cipher" by (simp_all add: rekey_run_enter_fields)
  have e: "epoch_of per (of_nat (Suc n)) = of_nat (Suc n div unat per)" using epoch_of_nat [OF Suc.prems assms(1)] .
  have r: "rekey_run L mk (in_order (Suc (Suc n))) (KeySchedule L mk secret cipher per) =
      enter_epoch L mk (of_nat (Suc n div unat per)) ?ks"
    unfolding in_order_Suc [of "Suc n"] rekey_run_simps using f assms(1) e by (simp add: maybe_rekey_enter)
  have "Suc n div unat per = n div unat per \<or> Suc n div unat per = Suc (n div unat per)"
    by (simp add: div_Suc)
  then show ?case
    unfolding r using enter_epoch_same [OF IH] enter_epoch_next [OF IH] IH f assms(3) by auto
qed

section \<open>Properties\<close>

text \<open>
  A sender that numbers its packets 0, 1, 2, \<dots> is, after packet \<open>n\<close>, in epoch
  \<open>n div packets_per_epoch\<close> (low eight bits), has rekeyed exactly that many times, and offers a
  cipher for this epoch and the one before it and for no other, as \<open>for_epoch\<close> documents.
\<close>

theorem in_order_epochs:
  assumes "per \<noteq> 0" "n < 2 ^ 64" "\<forall>k. mk cipher k \<noteq> None"
  shows "let ks = rekey_run L mk (in_order (Suc n)) (KeySchedule L mk secret cipher per); q = n div unat per
         in ks_epoch ks = of_nat q \<and> ks_rekeys ks = of_nat q \<and>
            (\<forall>e. for_epoch ks e \<noteq> None \<longleftrightarrow> e = of_nat q \<or> q > 0 \<and> e = of_nat (q - 1))"
  using in_order_at_quotient [OF assms(1,2), of mk cipher L secret] assms(3)
  by (auto simp: Let_def at_quotient_def for_epoch_def split: if_splits)


text \<open>
  C24. Two ends that start from one secret hold the same schedule, keys, salts and counters
  included, whenever the sequence numbers they have seen pass through the same epochs in the same
  order: losing, repeating or reordering packets inside an epoch does not matter.
\<close>

theorem rekey_sync:
  assumes "remdups_adj (0 # map (epoch_of per) xs) = remdups_adj (0 # map (epoch_of per) ys)"
  shows "rekey_run L mk xs (KeySchedule L mk secret cipher per) = rekey_run L mk ys (KeySchedule L mk secret cipher per)"
proof (cases "per = 0")
  case True
  have "rekey_run L mk zs (KeySchedule L mk secret cipher 0) = KeySchedule L mk secret cipher 0" for zs
    by (induction zs) (simp_all add: maybe_rekey_enter)
  then show ?thesis by (simp add: True)
next
  case False
  let ?K = "KeySchedule L mk secret cipher per"
  have r: "rekey_run L mk zs ?K = fold (enter_epoch L mk) (tl (remdups_adj (0 # map (epoch_of per) zs))) ?K" for zs
  proof -
    have "rekey_run L mk zs ?K = fold (enter_epoch L mk) (map (epoch_of per) zs) ?K"
      using rekey_run_enter [of ?K L mk zs] False by simp
    also have "\<dots> = fold (enter_epoch L mk) (tl (remdups_adj (ks_epoch ?K # map (epoch_of per) zs))) ?K"
      by (rule fold_enter_epoch_compress)
    finally show ?thesis by (simp only: KeySchedule_fields)
  qed
  show ?thesis by (simp only: r assms)
qed

text \<open>A concrete derivation for the witnesses: the salt byte, then the input, cycled to length.\<close>

definition model_hkdf :: hkdf_lib where
  "model_hkdf = \<lparr> hk_new_id = True, hk_derive_init = True, hk_set_md = True, hk_set1_salt = (\<lambda>_. True),
     hk_set1_key = (\<lambda>_. True), hk_add1_info = (\<lambda>_. True),
     hk_derive = (\<lambda>salt ikm info n. Some (take n (salt @ ikm @ replicate n 0))) \<rparr>"

lemma model_hkdf_len [simp]: "hkdf_len model_hkdf"
  by (auto simp: hkdf_len_def model_hkdf_def min_def)

theorem in_order_epochs_witness:
  "let ks = rekey_run model_hkdf (\<lambda>_ _. Some NullAead) (in_order 7)
              (KeySchedule model_hkdf (\<lambda>_ _. Some NullAead) (replicate 32 1) ''null'' 3)
   in ks_epoch ks = 2 \<and> ks_rekeys ks = 2 \<and> for_epoch ks 1 \<noteq> None \<and> for_epoch ks 0 = None"
proof -
  define ks where "ks = rekey_run model_hkdf (\<lambda>_ _. Some NullAead) (in_order 7)
              (KeySchedule model_hkdf (\<lambda>_ _. Some NullAead) (replicate 32 1) ''null'' 3)"
  have i7: "Suc 6 = 7" by simp
  have "ks_epoch ks = of_nat (6 div unat (3 :: u64)) \<and> ks_rekeys ks = of_nat (6 div unat (3 :: u64)) \<and>
      (\<forall>e. for_epoch ks e \<noteq> None \<longleftrightarrow> e = of_nat (6 div unat (3 :: u64)) \<or>
         6 div unat (3 :: u64) > 0 \<and> e = of_nat (6 div unat (3 :: u64) - 1))"
    using in_order_epochs [of 3 6 "\<lambda>_ _. Some NullAead" "''null''" model_hkdf "replicate 32 1"]
    unfolding Let_def i7 ks_def [symmetric] by simp
  then have e: "ks_epoch ks = 2" "ks_rekeys ks = 2" and f: "for_epoch ks e \<noteq> None \<longleftrightarrow> e = 2 \<or> e = 1" for e
    by simp_all
  show ?thesis unfolding Let_def ks_def [symmetric] using e f [of 1] f [of 0] by simp
qed


theorem rekey_sync_witness:
  "rekey_run model_hkdf (\<lambda>_ _. Some NullAead) [0, 1, 2, 3, 4, 5] (KeySchedule model_hkdf (\<lambda>_ _. Some NullAead) (replicate 32 1) ''null'' 2) =
   rekey_run model_hkdf (\<lambda>_ _. Some NullAead) [1, 3, 2, 5] (KeySchedule model_hkdf (\<lambda>_ _. Some NullAead) (replicate 32 1) ''null'' 2)"
  by (rule rekey_sync) code_simp

text \<open>
  Skipping an epoch is different: \<open>maybe_rekey\<close> ratchets once however many epochs the sequence
  number has crossed, so an end that sees no packet of epoch 1 enters epoch 2 with another chain
  than the end that does.
\<close>

lemma skipped_epoch_desync:
  "ks_chain (rekey_run model_hkdf (\<lambda>_ _. Some NullAead) [0, 2] (KeySchedule model_hkdf (\<lambda>_ _. Some NullAead) [7, 7] ''null'' 1)) \<noteq>
   ks_chain (rekey_run model_hkdf (\<lambda>_ _. Some NullAead) [0, 1, 2] (KeySchedule model_hkdf (\<lambda>_ _. Some NullAead) [7, 7] ''null'' 1))"
  by (simp add: rekey_run_def maybe_rekey_def derive_def KeySchedule_def model_hkdf_def hkdf_def Let_def)

end
