(* ===== verification/Handshake.thy ===== *)
theory Handshake
  imports KeySchedule
begin

text \<open>
  The handshake of \<open>src/src/core/proto.cpp\<close>: \<open>binder\<close>, \<open>traffic_keys\<close>, \<open>write_init\<close>,
  \<open>read_init_write_resp\<close>, \<open>read_resp\<close> and \<open>handshake_pair\<close>.  X25519 and its key generation are
  OpenSSL's: the derivation is the parameter \<open>dh\<close>, and the outcome of each key generation, a
  private key with its public key or a failure, is an argument of the call that makes it.  The
  wall-clock field \<open>micros\<close> of the result is not modelled.  The lemmas show that both ends
  derive the same two directional keys and what a completed half has checked.
\<close>

section \<open>State and helpers\<close>

record hs_result =
  r_tx :: bytes
  r_rx :: bytes
  r_ok :: bool
  r_error :: string

definition HandshakeResult :: hs_result where
  "HandshakeResult = \<lparr> r_tx = replicate 32 0, r_rx = replicate 32 0, r_ok = False, r_error = '''' \<rparr>"

record 'k hs =
  hs_psk :: bytes
  hs_eph :: "'k option"
  hs_my_pub :: bytes
  hs_peer_pub :: bytes
  hs_initiator :: bool

definition Handshake :: "bytes \<Rightarrow> 'k hs" where
  "Handshake psk = \<lparr> hs_psk = take 32 psk, hs_eph = None, hs_my_pub = replicate 32 0,
     hs_peer_pub = replicate 32 0, hs_initiator = False \<rparr>"

text \<open>\<open>gen_ephemeral\<close>: a generated key whose raw public key does not have 32 bytes is refused.\<close>

definition gen_ephemeral :: "('k \<times> bytes) option \<Rightarrow> ('k \<times> bytes) option" where
  "gen_ephemeral gen = (case gen of None \<Rightarrow> None | Some (k, pub) \<Rightarrow> if length pub = 32 then Some (k, pub) else None)"

definition x25519 :: "('k \<Rightarrow> bytes \<Rightarrow> bytes option) \<Rightarrow> 'k option \<Rightarrow> bytes \<Rightarrow> bytes option" where
  "x25519 dh mine peer =
     (case mine of None \<Rightarrow> None
      | Some k \<Rightarrow> (case dh k peer of None \<Rightarrow> None | Some shared \<Rightarrow> if length shared = 32 then Some shared else None))"

definition hs_binder :: "hkdf_lib \<Rightarrow> bytes \<Rightarrow> bytes \<Rightarrow> bytes option" where
  "hs_binder L psk transcript =
     (case hkdf L psk transcript ''linerate binder'' 32 of None \<Rightarrow> None | Some full \<Rightarrow> Some (take 16 full))"

definition traffic_keys :: "hkdf_lib \<Rightarrow> bytes \<Rightarrow> bytes \<Rightarrow> bytes \<Rightarrow> (bytes \<times> bytes) option" where
  "traffic_keys L shared psk transcript =
     (case hkdf L transcript (take 32 shared @ psk) ''linerate directions'' 64 of None \<Rightarrow> None
      | Some out \<Rightarrow> Some (take 32 out, take 32 (drop 32 out)))"

section \<open>The messages\<close>

definition write_init :: "hkdf_lib \<Rightarrow> ('k \<times> bytes) option \<Rightarrow> 'k hs \<Rightarrow> bytes option \<times> 'k hs" where
  "write_init L gen p =
     (let p = p\<lparr> hs_initiator := True \<rparr>
      in case gen_ephemeral gen of None \<Rightarrow> (None, p)
         | Some (k, pub) \<Rightarrow>
           let p = p\<lparr> hs_eph := Some k, hs_my_pub := pub \<rparr>
           in case hs_binder L (hs_psk p) pub of None \<Rightarrow> (None, p)
              | Some b \<Rightarrow> (Some (pub @ b), p))"

definition read_init_write_resp ::
    "hkdf_lib \<Rightarrow> ('k \<Rightarrow> bytes \<Rightarrow> bytes option) \<Rightarrow> ('k \<times> bytes) option \<Rightarrow> bytes \<Rightarrow> hs_result \<Rightarrow> 'k hs \<Rightarrow>
     bytes option \<times> hs_result \<times> 'k hs" where
  "read_init_write_resp L dh gen inp r p =
     (let p = p\<lparr> hs_initiator := False \<rparr>
      in case hs_binder L (hs_psk p) (take 32 inp) of None \<Rightarrow> (None, r\<lparr> r_error := ''binder'' \<rparr>, p)
      | Some expect \<Rightarrow>
      if \<not> ct_eq expect (drop 32 inp) 16 then (None, r\<lparr> r_error := ''psk binder mismatch'' \<rparr>, p)
      else let p = p\<lparr> hs_peer_pub := take 32 inp \<rparr>
      in case gen_ephemeral gen of None \<Rightarrow> (None, r\<lparr> r_error := ''keygen'' \<rparr>, p)
      | Some (k, pub) \<Rightarrow>
      let p = p\<lparr> hs_eph := Some k, hs_my_pub := pub \<rparr>;
          transcript = hs_peer_pub p @ hs_my_pub p
      in case hs_binder L (hs_psk p) transcript of None \<Rightarrow> (None, r\<lparr> r_error := ''binder'' \<rparr>, p)
      | Some b \<Rightarrow>
      case x25519 dh (hs_eph p) (hs_peer_pub p) of None \<Rightarrow> (None, r\<lparr> r_error := ''x25519'' \<rparr>, p)
      | Some shared \<Rightarrow>
      case traffic_keys L shared (hs_psk p) transcript of None \<Rightarrow> (None, r\<lparr> r_error := ''kdf'' \<rparr>, p)
      | Some (i2r, r2i) \<Rightarrow> (Some (pub @ b), r\<lparr> r_tx := r2i, r_rx := i2r, r_ok := True \<rparr>, p))"

definition read_resp ::
    "hkdf_lib \<Rightarrow> ('k \<Rightarrow> bytes \<Rightarrow> bytes option) \<Rightarrow> bytes \<Rightarrow> hs_result \<Rightarrow> 'k hs \<Rightarrow> bool \<times> hs_result \<times> 'k hs" where
  "read_resp L dh inp r p =
     (let p = p\<lparr> hs_peer_pub := take 32 inp \<rparr>;
          transcript = hs_my_pub p @ hs_peer_pub p
      in case hs_binder L (hs_psk p) transcript of None \<Rightarrow> (False, r\<lparr> r_error := ''binder'' \<rparr>, p)
      | Some expect \<Rightarrow>
      if \<not> ct_eq expect (drop 32 inp) 16 then (False, r\<lparr> r_error := ''response binder mismatch'' \<rparr>, p)
      else case x25519 dh (hs_eph p) (hs_peer_pub p) of None \<Rightarrow> (False, r\<lparr> r_error := ''x25519'' \<rparr>, p)
      | Some shared \<Rightarrow>
      case traffic_keys L shared (hs_psk p) transcript of None \<Rightarrow> (False, r\<lparr> r_error := ''kdf'' \<rparr>, p)
      | Some (i2r, r2i) \<Rightarrow> (True, r\<lparr> r_tx := i2r, r_rx := r2i, r_ok := True \<rparr>, p))"

text \<open>\<open>handshake_pair\<close>: the total result, and the four keys it hands out on success.\<close>

definition handshake_pair ::
    "hkdf_lib \<Rightarrow> ('k \<Rightarrow> bytes \<Rightarrow> bytes option) \<Rightarrow> ('k \<times> bytes) option \<Rightarrow> ('k \<times> bytes) option \<Rightarrow> bytes \<Rightarrow>
     hs_result \<times> (bytes \<times> bytes \<times> bytes \<times> bytes) option" where
  "handshake_pair L dh gen_i gen_r psk =
     (let total = HandshakeResult
      in case write_init L gen_i (Handshake psk) of
           (None, _) \<Rightarrow> (total\<lparr> r_error := ''init'' \<rparr>, None)
         | (Some m1, initiator) \<Rightarrow>
           (case read_init_write_resp L dh gen_r m1 HandshakeResult (Handshake psk) of
              (None, rr, _) \<Rightarrow> (total\<lparr> r_error := r_error rr \<rparr>, None)
            | (Some m2, rr, _) \<Rightarrow>
              (case read_resp L dh m2 HandshakeResult initiator of
                 (False, ri, _) \<Rightarrow> (total\<lparr> r_error := r_error ri \<rparr>, None)
               | (True, ri, _) \<Rightarrow>
                   (total\<lparr> r_ok := True, r_tx := r_tx ri, r_rx := r_rx ri \<rparr>,
                    Some (r_tx ri, r_rx ri, r_tx rr, r_rx rr)))))"

section \<open>Lemmas\<close>

lemma hs_binder_length: "hkdf_len L \<Longrightarrow> hs_binder L psk t = Some b \<Longrightarrow> length b = 16"
  using hkdf_length [of L psk t "''linerate binder''" 32] by (auto simp: hs_binder_def split: option.splits)

lemma ct_eq_self: "length b = 16 \<Longrightarrow> ct_eq b b 16"
  by (simp add: ct_eq_iff)

lemma ct_eq_tag: "length b = 16 \<Longrightarrow> length inp = 48 \<Longrightarrow> ct_eq b (drop 32 inp) 16 \<longleftrightarrow> drop 32 inp = b"
  by (auto simp: ct_eq_iff)

lemma gen_ephemeral_Some: "gen_ephemeral gen = Some (k, pub) \<longleftrightarrow> gen = Some (k, pub) \<and> length pub = 32"
  by (auto simp: gen_ephemeral_def split: option.splits if_splits)

lemma x25519_Some:
  "x25519 dh mine peer = Some sh \<longleftrightarrow> (\<exists>k. mine = Some k \<and> dh k peer = Some sh) \<and> length sh = 32"
  by (auto simp: x25519_def split: option.splits if_splits)

lemmas hs_splits = option.splits if_splits prod.splits

lemma write_init_ok:
  assumes "write_init L gen p = (Some m, p')"
  obtains k pub b where "gen = Some (k, pub)" "length pub = 32" "hs_binder L (hs_psk p) pub = Some b" "m = pub @ b"
    "hs_eph p' = Some k" "hs_my_pub p' = pub" "hs_psk p' = hs_psk p"
  using assms by (auto simp: write_init_def Let_def gen_ephemeral_Some split: hs_splits)

lemma read_init_ok:
  assumes "read_init_write_resp L dh gen inp r p = (Some m, r', p')"
  obtains b k pub b' sh i2r r2i where
    "hs_binder L (hs_psk p) (take 32 inp) = Some b" "ct_eq b (drop 32 inp) 16"
    "gen = Some (k, pub)" "length pub = 32" "hs_binder L (hs_psk p) (take 32 inp @ pub) = Some b'" "m = pub @ b'"
    "x25519 dh (Some k) (take 32 inp) = Some sh" "traffic_keys L sh (hs_psk p) (take 32 inp @ pub) = Some (i2r, r2i)"
    "r_tx r' = r2i" "r_rx r' = i2r" "r_ok r'"
  using assms by (auto simp: read_init_write_resp_def Let_def gen_ephemeral_Some split: hs_splits)

lemma read_resp_ok:
  assumes "read_resp L dh inp r p = (True, r', p')"
  obtains b sh i2r r2i where
    "hs_binder L (hs_psk p) (hs_my_pub p @ take 32 inp) = Some b" "ct_eq b (drop 32 inp) 16"
    "x25519 dh (hs_eph p) (take 32 inp) = Some sh"
    "traffic_keys L sh (hs_psk p) (hs_my_pub p @ take 32 inp) = Some (i2r, r2i)"
    "r_tx r' = i2r" "r_rx r' = r2i" "r_ok r'"
  using assms by (auto simp: read_resp_def Let_def split: hs_splits)

section \<open>Properties\<close>

text \<open>What the handshake needs of HKDF (it answers, with the length asked for) and of X25519.\<close>

definition hkdf_total :: "hkdf_lib \<Rightarrow> bool" where
  "hkdf_total L \<longleftrightarrow> hkdf_len L \<and> (\<forall>salt ikm info n. hkdf L salt ikm info n \<noteq> None)"

definition dh_commutes :: "('k \<Rightarrow> bytes \<Rightarrow> bytes option) \<Rightarrow> 'k \<times> bytes \<Rightarrow> 'k \<times> bytes \<Rightarrow> bool" where
  "dh_commutes dh a b \<longleftrightarrow> dh (fst a) (snd b) = dh (fst b) (snd a) \<and> dh (fst a) (snd b) \<noteq> None \<and>
     length (the (dh (fst a) (snd b))) = 32 \<and> length (snd a) = 32 \<and> length (snd b) = 32"

text \<open>
  C4. Two ends with one pre-shared key complete: \<open>handshake_pair\<close> reports success without an
  error, and the key each end sends with is the key the other receives with, in both directions.
\<close>

theorem handshake_agree:
  assumes "hkdf_total L" "dh_commutes dh a b"
  shows "\<exists>itx irx. handshake_pair L dh (Some a) (Some b) psk =
     (HandshakeResult\<lparr> r_ok := True, r_tx := itx, r_rx := irx \<rparr>, Some (itx, irx, irx, itx))"
proof -
  obtain ka pa kb pb where ab: "a = (ka, pa)" "b = (kb, pb)" by (metis surj_pair)
  obtain sh where sh: "dh ka pb = Some sh" "dh kb pa = Some sh" "length sh = 32" "length pa = 32" "length pb = 32"
    using assms(2) by (cases "dh ka pb") (auto simp: dh_commutes_def ab)
  have hl: "hkdf_len L" and tot: "\<And>s i f n. \<exists>y. hkdf L s i f n = Some y" using assms(1) by (auto simp: hkdf_total_def)
  have bt: "\<exists>b. hs_binder L s tr = Some b \<and> length b = 16" for s tr
  proof -
    obtain y where "hkdf L s tr ''linerate binder'' 32 = Some y" using tot by blast
    then have "hs_binder L s tr = Some (take 16 y)" by (simp add: hs_binder_def)
    then show ?thesis using hs_binder_length [OF hl] by blast
  qed
  obtain b1 where b1: "hs_binder L (take 32 psk) pa = Some b1" "length b1 = 16" using bt by blast
  obtain b2 where b2: "hs_binder L (take 32 psk) (pa @ pb) = Some b2" "length b2 = 16" using bt by blast
  obtain y where "hkdf L (pa @ pb) (take 32 sh @ take 32 psk) ''linerate directions'' 64 = Some y" using tot by blast
  then obtain i2r r2i where k: "traffic_keys L sh (take 32 psk) (pa @ pb) = Some (i2r, r2i)"
    by (simp add: traffic_keys_def)
  have "handshake_pair L dh (Some a) (Some b) psk =
      (HandshakeResult\<lparr> r_ok := True, r_tx := i2r, r_rx := r2i \<rparr>, Some (i2r, r2i, r2i, i2r))"
    unfolding handshake_pair_def write_init_def read_init_write_resp_def read_resp_def Handshake_def Let_def
    by (simp add: ab gen_ephemeral_def x25519_def sh b1 b2 k ct_eq_iff)
  then show ?thesis by blast
qed

text \<open>
  C23. No half completes on an unauthenticated public key.  A responder answers only an init
  message whose tag is the binder of the pre-shared key over the public key it carries; an
  initiator accepts only a response whose tag is the binder over its own public key followed by
  the one in the response.  On any other message the result is not touched except for the error.
\<close>

theorem handshake_authenticated:
  assumes "hkdf_len L" "length inp = 48"
  shows "(fst (read_init_write_resp L dh gen inp r p) \<noteq> None \<longrightarrow>
            hs_binder L (hs_psk p) (take 32 inp) = Some (drop 32 inp)) \<and>
         (fst (read_resp L dh inp r p) \<longrightarrow>
            hs_binder L (hs_psk p) (hs_my_pub p @ take 32 inp) = Some (drop 32 inp)) \<and>
         (hs_binder L (hs_psk p) (take 32 inp) \<noteq> Some (drop 32 inp) \<longrightarrow>
            (\<exists>e. fst (snd (read_init_write_resp L dh gen inp r p)) = r\<lparr> r_error := e \<rparr>)) \<and>
         (hs_binder L (hs_psk p) (hs_my_pub p @ take 32 inp) \<noteq> Some (drop 32 inp) \<longrightarrow>
            (\<exists>e. fst (snd (read_resp L dh inp r p)) = r\<lparr> r_error := e \<rparr>))"
proof -
  have t: "hs_binder L psk tr = Some b \<Longrightarrow> ct_eq b (drop 32 inp) 16 \<Longrightarrow> hs_binder L psk tr = Some (drop 32 inp)" for psk tr b
    using hs_binder_length [OF assms(1)] ct_eq_tag [OF _ assms(2)] by metis
  have t2: "hs_binder L psk tr \<noteq> Some (drop 32 inp) \<Longrightarrow> hs_binder L psk tr = None \<or>
      (\<exists>b. hs_binder L psk tr = Some b \<and> \<not> ct_eq b (drop 32 inp) 16)" for psk tr
    using t by (cases "hs_binder L psk tr") auto
  have A: "hs_binder L (hs_psk p) (take 32 inp) = Some (drop 32 inp)"
    if i: "fst (read_init_write_resp L dh gen inp r p) \<noteq> None"
  proof -
    obtain m r' p' where "read_init_write_resp L dh gen inp r p = (Some m, r', p')"
      using i by (cases "read_init_write_resp L dh gen inp r p") auto
    then show ?thesis by (rule read_init_ok) (rule t)
  qed
  have B: "hs_binder L (hs_psk p) (hs_my_pub p @ take 32 inp) = Some (drop 32 inp)"
    if i: "fst (read_resp L dh inp r p)"
  proof -
    obtain r' p' where "read_resp L dh inp r p = (True, r', p')"
      using i by (cases "read_resp L dh inp r p") auto
    then show ?thesis by (rule read_resp_ok) (rule t)
  qed
  have C: "\<exists>e. fst (snd (read_init_write_resp L dh gen inp r p)) = r\<lparr> r_error := e \<rparr>"
    if "hs_binder L (hs_psk p) (take 32 inp) \<noteq> Some (drop 32 inp)"
    using t2 [OF that] by (auto simp: read_init_write_resp_def Let_def)
  have D: "\<exists>e. fst (snd (read_resp L dh inp r p)) = r\<lparr> r_error := e \<rparr>"
    if "hs_binder L (hs_psk p) (hs_my_pub p @ take 32 inp) \<noteq> Some (drop 32 inp)"
    using t2 [OF that] by (auto simp: read_resp_def Let_def)
  show ?thesis using A B C D by blast
qed

text \<open>A concrete exchange: keys are byte strings, their own public keys, and XOR is the shared secret.\<close>

definition model_dh :: "bytes \<Rightarrow> bytes \<Rightarrow> bytes option" where
  "model_dh k peer = Some (xor_bytes k peer)"

lemma model_hkdf_total: "hkdf_total model_hkdf"
  using model_hkdf_len by (simp add: hkdf_total_def hkdf_def model_hkdf_def)

theorem handshake_agree_witness:
  "r_ok (fst (handshake_pair model_hkdf model_dh (Some (replicate 32 1, replicate 32 1)) (Some (replicate 32 2, replicate 32 2)) bench_psk))"
proof -
  have "dh_commutes model_dh (replicate 32 1, replicate 32 1) (replicate 32 2, replicate 32 2)"
    by (simp add: dh_commutes_def model_dh_def xor_bytes_def zip_replicate)
  from handshake_agree [OF model_hkdf_total this, of bench_psk] show ?thesis by auto
qed

theorem handshake_authenticated_witness:
  "\<not> fst (read_resp model_hkdf model_dh (replicate 48 9) HandshakeResult (Handshake (replicate 32 5)))"
proof -
  have l: "length (replicate 48 9 :: bytes) = 48" by simp
  have "hs_binder model_hkdf (hs_psk (Handshake (replicate 32 5) :: bytes hs))
      (hs_my_pub (Handshake (replicate 32 5) :: bytes hs) @ take 32 (replicate 48 9)) \<noteq> Some (drop 32 (replicate 48 9))"
    by (simp add: hs_binder_def hkdf_def model_hkdf_def Handshake_def)
  then show ?thesis
    using handshake_authenticated [OF model_hkdf_len l, of model_dh None HandshakeResult "Handshake (replicate 32 5)"]
    by blast
qed

end
