(* ===== verification/Transport.thy ===== *)
theory Transport
  imports Prelude
begin

text \<open>
  The transports of \<open>src/src/core/transport_posix.cpp\<close>, \<open>transport_mmsg.cpp\<close>,
  \<open>transport_uring.cpp\<close> and \<open>transport_factory.cpp\<close>, and the shared socket set-up.  The kernel is
  explicit: a socket has a queue of received datagrams, a log of transmitted ones and the
  outcomes its next transmissions will have; for io_uring the submission slots and completions
  it will report are arguments.  The contract the data plane relies on is a locale, interpreted
  for the two socket backends.
\<close>

section \<open>Packet slots and sockets\<close>

record pbuf =
  pb_base :: bytes
  pb_cap :: nat
  pb_len :: nat

text \<open>Outcomes of a transmission: accepted, \<open>ECONNREFUSED\<close>, or another error.\<close>

datatype send_res = Sent | Refused | Failed

record sock =
  rxq :: "bytes list"
  tx_res :: "send_res list"
  tx_log :: "bytes list"

text \<open>The kernel copies a datagram into the slot, truncated to the slot's capacity.\<close>

definition fill :: "pbuf \<Rightarrow> bytes \<Rightarrow> pbuf" where
  "fill b d = (let d = take (pb_cap b) d in b\<lparr> pb_base := d @ drop (length d) (pb_base b), pb_len := length d \<rparr>)"

definition next_res :: "sock \<Rightarrow> send_res" where
  "next_res s = (case tx_res s of [] \<Rightarrow> Sent | r # _ \<Rightarrow> r)"

definition sock_send :: "bytes \<Rightarrow> sock \<Rightarrow> send_res \<times> sock" where
  "sock_send d s =
     (let s' = s\<lparr> tx_res := tl (tx_res s) \<rparr>
      in (next_res s, if next_res s = Sent then s'\<lparr> tx_log := tx_log s @ [d] \<rparr> else s'))"

datatype backend = Posix | Mmsg | Uring bool

record transport =
  t_backend :: backend
  t_batch :: int
  t_sys :: u64
  t_sock :: sock
  t_fd :: int
  t_peer :: "u16 \<times> u32 option"

definition pb_data :: "pbuf \<Rightarrow> bytes" where
  "pb_data b = take (pb_len b) (pb_base b)"

section \<open>One syscall per packet\<close>

fun posix_recv_loop :: "nat \<Rightarrow> nat \<Rightarrow> pbuf list \<Rightarrow> transport \<Rightarrow> nat \<times> pbuf list \<times> transport" where
  "posix_recv_loop n 0 bufs t = (n, bufs, t)"
| "posix_recv_loop n (Suc k) bufs t =
     (let t = t\<lparr> t_sys := t_sys t + 1 \<rparr>
      in case rxq (t_sock t) of
           [] \<Rightarrow> (n, bufs, t)
         | d # q \<Rightarrow>
           let t = t\<lparr> t_sock := (t_sock t)\<lparr> rxq := q \<rparr> \<rparr>; b = fill (bufs ! n) d
           in if pb_len b = 0 then (n, bufs, t)
              else posix_recv_loop (n + 1) k (bufs[n := b]) t)"

definition posix_recv_batch :: "pbuf list \<Rightarrow> int \<Rightarrow> transport \<Rightarrow> nat \<times> pbuf list \<times> transport" where
  "posix_recv_batch bufs max_n t = posix_recv_loop 0 (nat max_n) bufs t"

fun posix_send_loop :: "nat \<Rightarrow> pbuf list \<Rightarrow> transport \<Rightarrow> nat \<times> transport" where
  "posix_send_loop sent [] t = (sent, t)"
| "posix_send_loop sent (b # bs) t =
     (case sock_send (pb_data b) (t_sock t) of (r, s) \<Rightarrow>
      let t = t\<lparr> t_sys := t_sys t + 1, t_sock := s \<rparr>
      in case r of
           Failed \<Rightarrow> (sent, t)
         | Refused \<Rightarrow> posix_send_loop (sent + 1) bs t
         | Sent \<Rightarrow> posix_send_loop (sent + 1) bs t)"

definition posix_send_batch :: "pbuf list \<Rightarrow> nat \<Rightarrow> transport \<Rightarrow> nat \<times> transport" where
  "posix_send_batch bufs n t = posix_send_loop 0 (take n bufs) t"

section \<open>One syscall per batch\<close>

fun fill_all :: "nat \<Rightarrow> bytes list \<Rightarrow> pbuf list \<Rightarrow> pbuf list" where
  "fill_all i [] bufs = bufs"
| "fill_all i (d # ds) bufs = fill_all (Suc i) ds (bufs[i := fill (bufs ! i) d])"

definition mmsg_recv_batch :: "pbuf list \<Rightarrow> int \<Rightarrow> transport \<Rightarrow> nat \<times> pbuf list \<times> transport" where
  "mmsg_recv_batch bufs max_n t =
     (let n = (if max_n > t_batch t then t_batch t else max_n);
          q = rxq (t_sock t);
          r = min (nat n) (length q);
          t = t\<lparr> t_sys := t_sys t + 1, t_sock := (t_sock t)\<lparr> rxq := drop r q \<rparr> \<rparr>
      in if r = 0 then (0, bufs, t) else (r, fill_all 0 (take r q) bufs, t))"

text \<open>
  \<open>sendmmsg\<close> transmits until the first message that is not accepted.  It reports the number
  transmitted, or the error when that is the first one.
\<close>

fun sendmmsg :: "bytes list \<Rightarrow> sock \<Rightarrow> nat \<times> send_res \<times> sock" where
  "sendmmsg [] s = (0, Sent, s)"
| "sendmmsg (d # ds) s =
     (case sock_send d s of (r, s') \<Rightarrow>
      if r = Sent then (case sendmmsg ds s' of (k, r, s'') \<Rightarrow> (Suc k, r, s'')) else (0, r, s'))"

function mmsg_send_loop :: "nat \<Rightarrow> pbuf list \<Rightarrow> transport \<Rightarrow> nat \<times> transport" where
  "mmsg_send_loop done_n bufs t =
     (if bufs = [] then (done_n, t)
      else let chunk = (if int (length bufs) > max 1 (t_batch t) then nat (max 1 (t_batch t)) else length bufs)
      in case sendmmsg (map pb_data (take chunk bufs)) (t_sock t) of (s, r, so) \<Rightarrow>
         let t = t\<lparr> t_sys := t_sys t + 1, t_sock := so \<rparr>
         in if s = 0
            then (if r = Refused then mmsg_send_loop (done_n + chunk) (drop chunk bufs) t else (done_n, t))
            else if s < chunk then (done_n + s, t)
            else mmsg_send_loop (done_n + s) (drop chunk bufs) t)"
  by pat_completeness auto
termination
  by (relation "measure (\<lambda>(done_n, bufs, t). length bufs)") (auto split: if_splits)

declare mmsg_send_loop.simps [simp del]

definition mmsg_send_batch :: "pbuf list \<Rightarrow> nat \<Rightarrow> transport \<Rightarrow> nat \<times> transport" where
  "mmsg_send_batch bufs n t = mmsg_send_loop 0 (take n bufs) t"

section \<open>io_uring\<close>

text \<open>
  What the ring will answer during one \<open>recv_batch\<close>: how many submission entries are free,
  whether the submission succeeds, and the answers to the peeks and to the wait.  A completion
  carries the slot index it was submitted with, its result and the data.
\<close>

record cqe =
  cq_idx :: nat
  cq_res :: int
  cq_data :: bytes

record ring =
  rg_sqes :: nat
  rg_submit_ok :: bool
  rg_peeks :: "cqe option list"
  rg_wait :: "cqe option"

text \<open>The next completion: a peek, or a wait when nothing at all has arrived.\<close>

definition uring_next :: "nat \<Rightarrow> bool \<Rightarrow> ring \<Rightarrow> u64 \<Rightarrow> cqe option \<times> ring \<times> u64" where
  "uring_next got sq rg sys =
     (case rg_peeks rg of
        Some c # ps \<Rightarrow> (Some c, rg\<lparr> rg_peeks := ps \<rparr>, sys)
      | _ \<Rightarrow> if got > 0 then (None, rg, sys)
             else (rg_wait rg, rg\<lparr> rg_peeks := tl (rg_peeks rg), rg_wait := None \<rparr>, if sq then sys else sys + 1))"

text \<open>The loop over completions; \<open>bufs[s->idx].len\<close> is set by slot index, \<open>got\<close> only counts.\<close>

fun uring_complete :: "nat \<Rightarrow> nat \<Rightarrow> bool \<Rightarrow> ring \<Rightarrow> pbuf list \<Rightarrow> u64 \<Rightarrow> nat \<times> pbuf list \<times> u64" where
  "uring_complete 0 got sq rg bufs sys = (got, bufs, sys)"
| "uring_complete (Suc k) got sq rg bufs sys =
     (case uring_next got sq rg sys of
        (None, rg, sys) \<Rightarrow> (got, bufs, sys)
      | (Some c, rg, sys) \<Rightarrow>
          if cq_res c > 0
          then uring_complete k (got + 1) sq rg (bufs[cq_idx c := fill (bufs ! cq_idx c) (take (nat (cq_res c)) (cq_data c))]) sys
          else uring_complete k got sq rg bufs sys)"

definition uring_recv_batch :: "ring \<Rightarrow> pbuf list \<Rightarrow> int \<Rightarrow> transport \<Rightarrow> nat \<times> pbuf list \<times> transport" where
  "uring_recv_batch rg bufs max_n t =
     (let n = (if max_n > t_batch t then t_batch t else max_n);
          sq = (case t_backend t of Uring b \<Rightarrow> b | _ \<Rightarrow> False)
      in if n \<le> 0 then (0, bufs, t)
      else let n = min (nat n) (rg_sqes rg)
      in if n = 0 then (0, bufs, t)
      else let t = t\<lparr> t_sys := (if sq then t_sys t else t_sys t + 1) \<rparr>
      in if \<not> rg_submit_ok rg then (0, bufs, t)
      else case uring_complete n 0 sq rg bufs (t_sys t) of (got, bufs, sys) \<Rightarrow> (got, bufs, t\<lparr> t_sys := sys \<rparr>))"

text \<open>
  Transmission submits as many entries as the ring has free, up to a batch, and waits for that
  many completions without looking at their results.  Each round of the loop is given by the
  free entries and by how many completions arrive before a wait fails; when the rounds are used
  up no entry is free.
\<close>

fun sock_send_all :: "bytes list \<Rightarrow> sock \<Rightarrow> sock" where
  "sock_send_all [] s = s"
| "sock_send_all (d # ds) s = sock_send_all ds (snd (sock_send d s))"

fun uring_send_loop :: "nat \<Rightarrow> (nat \<times> nat) list \<Rightarrow> pbuf list \<Rightarrow> transport \<Rightarrow> nat \<times> transport" where
  "uring_send_loop done_n [] bufs t = (done_n, t)"
| "uring_send_loop done_n ((free, ready) # rs) bufs t =
     (if bufs = [] then (done_n, t)
      else let chunk = (if int (length bufs) > t_batch t then nat (t_batch t) else length bufs);
               queued = min chunk free;
               sq = (t_backend t = Uring True);
               waits = (if ready < queued then ready + 1 else queued)
      in if queued = 0 then (done_n, t)
         else uring_send_loop (done_n + queued) rs (drop queued bufs)
                (t\<lparr> t_sys := (if sq then t_sys t else t_sys t + 1 + of_nat waits),
                    t_sock := sock_send_all (map pb_data (take queued bufs)) (t_sock t) \<rparr>))"

definition uring_send_batch :: "(nat \<times> nat) list \<Rightarrow> pbuf list \<Rightarrow> nat \<Rightarrow> transport \<Rightarrow> nat \<times> transport" where
  "uring_send_batch rs bufs n t = uring_send_loop 0 rs (take n bufs) t"

section \<open>Construction and the virtual calls\<close>

record transport_config =
  tc_backend :: string
  tc_bind_addr :: string
  tc_bind_port :: u16
  tc_peer_addr :: string
  tc_peer_port :: u16
  tc_batch :: int
  tc_rcvbuf :: int
  tc_sndbuf :: int
  tc_reuseport :: bool

definition TransportConfig :: transport_config where
  "TransportConfig = \<lparr> tc_backend = ''posix'', tc_bind_addr = ''127.0.0.1'', tc_bind_port = 0,
     tc_peer_addr = ''127.0.0.1'', tc_peer_port = 9, tc_batch = 1,
     tc_rcvbuf = 16777216, tc_sndbuf = 16777216, tc_reuseport = False \<rparr>"

text \<open>
  The answers of the operating system during the set-up of a socket, the descriptors that are
  open and the options set on them.  An address that does not parse is \<open>None\<close>;
  \<open>os_sockname\<close> is the port \<open>getsockname\<close> reports for a descriptor, and what \<open>socket\<close> returns
  depends on the descriptors that are open.  A ring is asked for by its number of entries, whether the kernel is
  to poll it and after how many idle milliseconds that poller sleeps; the answer is \<open>None\<close> or the error.
\<close>

record ring_params =
  rp_entries :: nat
  rp_sqpoll :: bool
  rp_idle :: nat

record os =
  os_socket :: "int set \<Rightarrow> int option"
  os_socket_err :: string
  os_pton :: "string \<Rightarrow> u32 option"
  os_bind :: "u32 \<Rightarrow> u16 \<Rightarrow> string option"
  os_sockname :: "int \<Rightarrow> u16 option"
  os_ring :: "ring_params \<Rightarrow> string option"
  os_linux :: bool
  os_have_uring :: bool
  os_fds :: "int set"
  os_opts :: "(int \<times> string \<times> int) list"

definition sock_options :: "transport_config \<Rightarrow> int \<Rightarrow> (int \<times> string \<times> int) list" where
  "sock_options cfg fd = [(fd, ''SO_REUSEADDR'', 1)] @ (if tc_reuseport cfg then [(fd, ''SO_REUSEPORT'', 1)] else []) @
     [(fd, ''SO_RCVBUF'', tc_rcvbuf cfg), (fd, ''SO_SNDBUF'', tc_sndbuf cfg)]"

definition lr_open_udp_socket :: "transport_config \<Rightarrow> os \<Rightarrow> (string + u16 \<times> int) \<times> os" where
  "lr_open_udp_socket cfg os =
     (case os_socket os (os_fds os) of
        None \<Rightarrow> (Inl (''socket: '' @ os_socket_err os), os)
      | Some fd \<Rightarrow>
        let os' = os\<lparr> os_fds := insert fd (os_fds os), os_opts := os_opts os @ sock_options cfg fd \<rparr>;
            closed = os'\<lparr> os_fds := os_fds os' - {fd} \<rparr>;
            addr = (if tc_bind_addr cfg = ''0.0.0.0'' then Some 0 else os_pton os (tc_bind_addr cfg))
        in case addr of
             None \<Rightarrow> (Inl (''bad bind address: '' @ tc_bind_addr cfg), closed)
           | Some a \<Rightarrow>
             (case os_bind os a (tc_bind_port cfg) of
                Some e \<Rightarrow> (Inl (''bind '' @ tc_bind_addr cfg @ '': '' @ e), closed)
              | None \<Rightarrow>
                (Inr (case os_sockname os fd of None \<Rightarrow> tc_bind_port cfg | Some p \<Rightarrow> p, fd),
                 os'\<lparr> os_opts := os_opts os' @ [(fd, ''O_NONBLOCK'', 1)] \<rparr>)))"

definition lr_fill_peer :: "os \<Rightarrow> transport_config \<Rightarrow> u16 \<times> u32 option" where
  "lr_fill_peer os cfg = (tc_peer_port cfg, os_pton os (tc_peer_addr cfg))"

definition sock0 :: sock where
  "sock0 = \<lparr> rxq = [], tx_res = [], tx_log = [] \<rparr>"

definition new_transport :: "backend \<Rightarrow> int \<Rightarrow> int \<Rightarrow> u16 \<times> u32 option \<Rightarrow> transport" where
  "new_transport b batch fd peer = \<lparr> t_backend = b, t_batch = batch, t_sys = 0, t_sock = sock0, t_fd = fd, t_peer = peer \<rparr>"

definition make_transport_posix :: "transport_config \<Rightarrow> os \<Rightarrow> (string + transport) \<times> os" where
  "make_transport_posix cfg os =
     (case lr_open_udp_socket cfg os of
        (Inl e, os) \<Rightarrow> (Inl e, os)
      | (Inr (port, fd), os) \<Rightarrow> (Inr (new_transport Posix 1 fd (lr_fill_peer os cfg)), os))"

definition clamp_batch :: "int \<Rightarrow> int" where
  "clamp_batch b = (if b < 1 then 1 else b)"

definition make_transport_mmsg :: "transport_config \<Rightarrow> os \<Rightarrow> (string + transport) \<times> os" where
  "make_transport_mmsg cfg os =
     (if \<not> os_linux os then (Inl ''batched syscalls (recvmmsg/sendmmsg) are Linux-only'', os)
      else case lr_open_udp_socket cfg os of
        (Inl e, os) \<Rightarrow> (Inl e, os)
      | (Inr (port, fd), os) \<Rightarrow> (Inr (new_transport Mmsg (clamp_batch (tc_batch cfg)) fd (lr_fill_peer os cfg)), os))"

text \<open>\<open>init\<close>: a ring for two batches.  Registering the descriptor with it changes no result.\<close>

definition uring_init :: "bool \<Rightarrow> int \<Rightarrow> os \<Rightarrow> string option" where
  "uring_init sqpoll batch os =
     (let entries = (if 2 * batch < 8 then 8 else nat (2 * batch))
      in map_option (\<lambda>e. ''io_uring_queue_init: '' @ e)
           (os_ring os \<lparr> rp_entries = entries, rp_sqpoll = sqpoll, rp_idle = (if sqpoll then 2000 else 0) \<rparr>))"

text \<open>A ring that cannot be set up destroys the transport, whose destructor closes the socket.\<close>

definition make_transport_uring :: "transport_config \<Rightarrow> bool \<Rightarrow> os \<Rightarrow> (string + transport) \<times> os" where
  "make_transport_uring cfg sqpoll os =
     (if \<not> os_have_uring os then (Inl ''built without liburing; install liburing-dev and rebuild'', os)
      else case lr_open_udp_socket cfg os of
        (Inl e, os) \<Rightarrow> (Inl e, os)
      | (Inr (port, fd), os) \<Rightarrow>
        (let t = new_transport (Uring sqpoll) (clamp_batch (tc_batch cfg)) fd (lr_fill_peer os cfg)
         in case uring_init sqpoll (t_batch t) os of
              Some e \<Rightarrow> (Inl e, os\<lparr> os_fds := os_fds os - {t_fd t} \<rparr>)
            | None \<Rightarrow> (Inr t, os)))"

definition make_transport :: "transport_config \<Rightarrow> os \<Rightarrow> (string + transport) \<times> os" where
  "make_transport cfg os =
     (if tc_backend cfg = ''posix'' then make_transport_posix cfg os
      else if tc_backend cfg = ''mmsg'' then make_transport_mmsg cfg os
      else if tc_backend cfg = ''uring'' then make_transport_uring cfg False os
      else if tc_backend cfg = ''uring-sqpoll'' then make_transport_uring cfg True os
      else (Inl (''unknown transport backend: '' @ tc_backend cfg), os))"

text \<open>The probes ask for a ring of eight entries: the answer, and the reason when it is a refusal.\<close>

definition uring_probe :: "bool \<Rightarrow> os \<Rightarrow> bool \<times> string" where
  "uring_probe sqpoll os =
     (case os_ring os \<lparr> rp_entries = 8, rp_sqpoll = sqpoll, rp_idle = (if sqpoll then 100 else 0) \<rparr> of
        None \<Rightarrow> (True, [])
      | Some e \<Rightarrow> (False, (if sqpoll then ''IORING_SETUP_SQPOLL'' else ''io_uring'') @ '' refused: '' @ e))"

definition no_liburing :: string where
  "no_liburing = ''built without liburing (liburing-dev absent at configure time)''"

definition uring_status :: "os \<Rightarrow> bool \<times> string" where
  "uring_status os = (if os_have_uring os then uring_probe False os else (False, no_liburing))"

definition uring_sqpoll_status :: "os \<Rightarrow> bool \<times> string" where
  "uring_sqpoll_status os =
     (if \<not> os_have_uring os then (False, no_liburing)
      else if \<not> fst (uring_status os) then (False, ''io_uring unavailable'')
      else uring_probe True os)"

definition uring_available :: "os \<Rightarrow> bool" where
  "uring_available os = fst (uring_status os)"

definition uring_sqpoll_available :: "os \<Rightarrow> bool" where
  "uring_sqpoll_available os = fst (uring_sqpoll_status os)"

definition transport_backends :: "os \<Rightarrow> string list" where
  "transport_backends os = [''posix''] @ (if os_linux os then [''mmsg''] else []) @
     (if uring_available os then [''uring''] else []) @ (if uring_sqpoll_available os then [''uring-sqpoll''] else [])"

definition transport_local_port :: "os \<Rightarrow> transport \<Rightarrow> u16" where
  "transport_local_port os t = (case os_sockname os (t_fd t) of None \<Rightarrow> 0 | Some p \<Rightarrow> p)"

definition max_batch :: "transport \<Rightarrow> int" where
  "max_batch t = (case t_backend t of Posix \<Rightarrow> 1 | _ \<Rightarrow> t_batch t)"

section \<open>What a transmission leaves alone\<close>

text \<open>Anything one call of \<open>sendmmsg\<close> leaves alone, the whole loop leaves alone.\<close>

lemma mmsg_send_preserves:
  assumes "\<And>ds t n r so. sendmmsg ds (t_sock t) = (n, r, so) \<Longrightarrow> f (t\<lparr> t_sys := t_sys t + 1, t_sock := so \<rparr>) = f t"
  shows "f (snd (mmsg_send_loop k bs t)) = f t"
proof (induction k bs t rule: mmsg_send_loop.induct)
  case (1 k bs t)
  define chunk where "chunk = (if int (length bs) > max 1 (t_batch t) then nat (max 1 (t_batch t)) else length bs)"
  obtain sn r so where e: "sendmmsg (map pb_data (take chunk bs)) (t_sock t) = (sn, r, so)" by (metis prod_cases3)
  show ?case
  proof (cases "bs = []")
    case True
    then show ?thesis by (simp add: mmsg_send_loop.simps [of k])
  next
    case False
    have "mmsg_send_loop k bs t =
      (let t = t\<lparr> t_sys := t_sys t + 1, t_sock := so \<rparr>
       in if sn = 0
          then (if r = Refused then mmsg_send_loop (k + chunk) (drop chunk bs) t else (k, t))
          else if sn < chunk then (k + sn, t)
          else mmsg_send_loop (k + sn) (drop chunk bs) t)"
      using False by (subst mmsg_send_loop.simps) (simp only: Let_def chunk_def [symmetric] e prod.case if_False)
    then show ?thesis
      using 1(1) [OF False chunk_def e [symmetric] refl refl] 1(2) [OF False chunk_def e [symmetric] refl refl] assms [OF e]
      by (simp add: Let_def)
  qed
qed

lemma posix_send_preserves:
  assumes "\<And>d t r so. sock_send d (t_sock t) = (r, so) \<Longrightarrow> f (t\<lparr> t_sys := t_sys t + 1, t_sock := so \<rparr>) = f t"
  shows "f (snd (posix_send_loop k bs t)) = f t"
proof (induction k bs t rule: posix_send_loop.induct)
  case (2 sent b bs t)
  obtain r so where s: "sock_send (pb_data b) (t_sock t) = (r, so)" by (cases "sock_send (pb_data b) (t_sock t)")
  show ?case using 2 s assms [OF s] by (cases r) (simp_all add: Let_def)
qed simp

lemma sock_send_rxq [simp]: "rxq (snd (sock_send d s)) = rxq s"
  by (simp add: sock_send_def Let_def)

lemma sendmmsg_rxq: "sendmmsg ds s = (k, r, s') \<Longrightarrow> rxq s' = rxq s"
proof (induction ds arbitrary: s k r s')
  case (Cons d ds)
  obtain r1 s1 where s1: "sock_send d s = (r1, s1)" by (cases "sock_send d s")
  obtain k2 r2 s2 where s2: "sendmmsg ds s1 = (k2, r2, s2)" by (metis prod_cases3)
  show ?case using Cons.prems Cons.IH [OF s2] s1 s2 sock_send_rxq [of d s] by (auto split: if_splits)
qed simp

section \<open>Lemmas on the receive side\<close>

definition slots_ok :: "nat \<Rightarrow> pbuf list \<Rightarrow> bool" where
  "slots_ok C bufs \<longleftrightarrow> (\<forall>b \<in> set bufs. pb_cap b = C \<and> length (pb_base b) = C \<and> pb_len b \<le> C)"

lemma slots_ok_nth: "slots_ok C bufs \<Longrightarrow> i < length bufs \<Longrightarrow> pb_cap (bufs ! i) = C \<and> length (pb_base (bufs ! i)) = C"
  by (simp add: slots_ok_def)

lemma fill_ok:
  assumes "pb_cap b = C" "length (pb_base b) = C"
  shows "pb_data (fill b d) = take C d" "pb_cap (fill b d) = C" "length (pb_base (fill b d)) = C"
    "pb_len (fill b d) = min C (length d)"
  using assms by (auto simp: fill_def pb_data_def Let_def min_def)

lemma slots_ok_update:
  "slots_ok C bufs \<Longrightarrow> i < length bufs \<Longrightarrow> slots_ok C (bufs[i := fill (bufs ! i) d])"
  using slots_ok_nth [of C bufs i] fill_ok [of "bufs ! i" C d]
  by (auto simp: slots_ok_def dest!: set_update_subset_insert [THEN subsetD])

lemma length_fill_all [simp]: "length (fill_all i ds bufs) = length bufs"
  by (induction i ds bufs rule: fill_all.induct) simp_all

lemma fill_all_ok:
  "slots_ok C bufs \<Longrightarrow> i + length ds \<le> length bufs \<Longrightarrow>
   slots_ok C (fill_all i ds bufs) \<and> (\<forall>j < i. fill_all i ds bufs ! j = bufs ! j) \<and>
   (\<forall>j < length ds. pb_data (fill_all i ds bufs ! (i + j)) = take C (ds ! j))"
proof (induction i ds bufs rule: fill_all.induct)
  case (2 i d ds bufs)
  let ?b = "bufs[i := fill (bufs ! i) d]"
  have i: "i < length bufs" using 2 by simp
  have IH: "slots_ok C (fill_all (Suc i) ds ?b)" "\<forall>j < Suc i. fill_all (Suc i) ds ?b ! j = ?b ! j"
    "\<forall>j < length ds. pb_data (fill_all (Suc i) ds ?b ! (Suc i + j)) = take C (ds ! j)"
    using 2 slots_ok_update [of C bufs i d] by simp_all
  have "pb_data (?b ! i) = take C d"
    using fill_ok(1) [of "bufs ! i" C d] slots_ok_nth [OF "2.prems"(1) i] i by simp
  then have "pb_data (fill_all (Suc i) ds ?b ! (i + j)) = take C ((d # ds) ! j)" if "j < Suc (length ds)" for j
    using that IH(2,3) i by (cases j) simp_all
  then show ?case using IH(1,2) by simp
qed simp

lemma fill_all_data:
  assumes "slots_ok C bufs" "length ds \<le> length bufs"
  shows "map pb_data (take (length ds) (fill_all 0 ds bufs)) = map (take C) ds"
  using fill_all_ok [of C bufs 0 ds] assms by (intro nth_equalityI) simp_all

definition plain_queue :: "transport \<Rightarrow> bool" where
  "plain_queue t \<longleftrightarrow> [] \<notin> set (rxq (t_sock t))"

lemma posix_recv_loop_eq:
  "slots_ok C bufs \<Longrightarrow> n + k \<le> length bufs \<Longrightarrow> 0 < C \<Longrightarrow> plain_queue t \<Longrightarrow>
   posix_recv_loop n k bufs t =
     (let q = rxq (t_sock t); m = min k (length q)
      in (n + m, fill_all n (take m q) bufs,
          t\<lparr> t_sys := t_sys t + of_nat (if m < k then m + 1 else m), t_sock := (t_sock t)\<lparr> rxq := drop m q \<rparr> \<rparr>))"
proof (induction k arbitrary: n bufs t)
  case (Suc k)
  show ?case
  proof (cases "rxq (t_sock t)")
    case Nil
    then show ?thesis by (simp add: Let_def)
  next
    case (Cons d q)
    let ?t = "t\<lparr> t_sys := t_sys t + 1, t_sock := (t_sock t)\<lparr> rxq := q \<rparr> \<rparr>" and ?b = "fill (bufs ! n) d"
    have n: "n < length bufs" and "d \<noteq> []" and pq: "plain_queue ?t"
      using Suc.prems Cons by (auto simp: plain_queue_def)
    then have nz: "pb_len ?b \<noteq> 0"
      using fill_ok(4) [of "bufs ! n" C d] slots_ok_nth [OF Suc.prems(1) n] Suc.prems(3) by simp
    have IH: "posix_recv_loop (n + 1) k (bufs[n := ?b]) ?t =
       (let q' = rxq (t_sock ?t); m = min k (length q')
        in (n + 1 + m, fill_all (n + 1) (take m q') (bufs[n := ?b]),
          ?t\<lparr> t_sys := t_sys ?t + of_nat (if m < k then m + 1 else m), t_sock := (t_sock ?t)\<lparr> rxq := drop m q' \<rparr> \<rparr>))"
      by (rule Suc.IH) (use pq Suc.prems slots_ok_update [OF Suc.prems(1) n] in simp_all)
    have "posix_recv_loop n (Suc k) bufs t = posix_recv_loop (n + 1) k (bufs[n := ?b]) ?t"
      using Cons nz by (simp add: Let_def)
    then show ?thesis unfolding IH by (simp add: Cons Let_def min_def add.assoc)
  qed
qed (simp add: Let_def)

section \<open>The contract of the receive side\<close>

text \<open>
  What the data plane relies on: a call hands over a prefix of the queue, one datagram per slot
  in order from slot 0, truncated to the slot, makes progress when something is queued, and
  leaves the slots well formed.
\<close>

locale recv_contract =
  fixes recv :: "pbuf list \<Rightarrow> int \<Rightarrow> transport \<Rightarrow> nat \<times> pbuf list \<times> transport"
    and tok :: "transport \<Rightarrow> bool"
  assumes recv_spec: "tok t \<Longrightarrow> slots_ok C bufs \<Longrightarrow> 0 < C \<Longrightarrow> plain_queue t \<Longrightarrow> 0 < max_n \<Longrightarrow> nat max_n \<le> length bufs \<Longrightarrow>
      recv bufs max_n t = (n, bufs', t') \<Longrightarrow>
      n \<le> nat max_n \<and> n \<le> length (rxq (t_sock t)) \<and> (n = 0 \<longrightarrow> rxq (t_sock t) = []) \<and>
      slots_ok C bufs' \<and> length bufs' = length bufs \<and>
      map pb_data (take n bufs') = map (take C) (take n (rxq (t_sock t))) \<and>
      rxq (t_sock t') = drop n (rxq (t_sock t)) \<and> tx_log (t_sock t') = tx_log (t_sock t) \<and> tok t'"
begin

text \<open>Receiving until nothing comes, at most \<open>fuel\<close> times: the datagrams in the order they come out.\<close>

fun recv_until :: "nat \<Rightarrow> int \<Rightarrow> pbuf list \<Rightarrow> transport \<Rightarrow> bytes list" where
  "recv_until 0 max_n bufs t = []"
| "recv_until (Suc fuel) max_n bufs t =
     (case recv bufs max_n t of (n, bufs', t') \<Rightarrow>
        if n = 0 then [] else map pb_data (take n bufs') @ recv_until fuel max_n bufs' t')"

lemma recv_until_all:
  "tok t \<Longrightarrow> slots_ok C bufs \<Longrightarrow> 0 < C \<Longrightarrow> plain_queue t \<Longrightarrow> 0 < max_n \<Longrightarrow> nat max_n \<le> length bufs \<Longrightarrow>
   length (rxq (t_sock t)) \<le> fuel \<Longrightarrow>
   recv_until fuel max_n bufs t = map (take C) (rxq (t_sock t))"
proof (induction fuel arbitrary: bufs t)
  case (Suc fuel)
  obtain n bufs' t' where r: "recv bufs max_n t = (n, bufs', t')" by (metis prod_cases3)
  note s = recv_spec [OF Suc.prems(1-6) r]
  show ?case
  proof (cases "n = 0")
    case True
    then show ?thesis using s r by simp
  next
    case False
    have "plain_queue t'" using s Suc.prems(4) by (auto simp: plain_queue_def dest: in_set_dropD)
    then have "recv_until fuel max_n bufs' t' = map (take C) (rxq (t_sock t'))"
      using Suc.IH [of t' bufs'] s Suc.prems False by simp
    then have "recv_until (Suc fuel) max_n bufs t =
        map (take C) (take n (rxq (t_sock t))) @ map (take C) (drop n (rxq (t_sock t)))"
      using r s False by simp
    also have "\<dots> = map (take C) (take n (rxq (t_sock t)) @ drop n (rxq (t_sock t)))" by (simp only: map_append)
    finally show ?thesis by simp
  qed
qed simp

end

lemma posix_recv_spec:
  assumes "slots_ok C bufs" "0 < C" "plain_queue t" "0 < max_n" "nat max_n \<le> length bufs"
    "posix_recv_batch bufs max_n t = (n, bufs', t')"
  shows "n = min (nat max_n) (length (rxq (t_sock t))) \<and> bufs' = fill_all 0 (take n (rxq (t_sock t))) bufs \<and>
     t' = t\<lparr> t_sys := t_sys t + of_nat (if n < nat max_n then n + 1 else n), t_sock := (t_sock t)\<lparr> rxq := drop n (rxq (t_sock t)) \<rparr> \<rparr>"
  using posix_recv_loop_eq [of C bufs 0 "nat max_n" t] assms by (auto simp: posix_recv_batch_def Let_def)

lemma mmsg_recv_spec:
  assumes "mmsg_recv_batch bufs max_n t = (n, bufs', t')"
  shows "n = min (nat (min max_n (t_batch t))) (length (rxq (t_sock t))) \<and> bufs' = fill_all 0 (take n (rxq (t_sock t))) bufs \<and>
     t' = t\<lparr> t_sys := t_sys t + 1, t_sock := (t_sock t)\<lparr> rxq := drop n (rxq (t_sock t)) \<rparr> \<rparr>"
  using assms by (auto simp: mmsg_recv_batch_def Let_def min_def split: if_splits)

lemma fill_all_contract:
  assumes "slots_ok C bufs" "n \<le> length q" "n \<le> length bufs"
  shows "slots_ok C (fill_all 0 (take n q) bufs)" "map pb_data (take n (fill_all 0 (take n q) bufs)) = map (take C) (take n q)"
proof -
  have l: "length (take n q) = n" using assms(2) by simp
  show "slots_ok C (fill_all 0 (take n q) bufs)" using fill_all_ok [of C bufs 0 "take n q"] assms by simp
  show "map pb_data (take n (fill_all 0 (take n q) bufs)) = map (take C) (take n q)"
    using fill_all_data [of C bufs "take n q", unfolded l] assms by simp
qed

interpretation posix: recv_contract posix_recv_batch "\<lambda>t. True"
proof
  fix t C bufs max_n n bufs' t'
  assume a: "slots_ok C bufs" "0 < C" "plain_queue t" "0 < max_n" "nat max_n \<le> length bufs"
    "posix_recv_batch bufs max_n t = (n, bufs', t')"
  note s = posix_recv_spec [OF a]
  have "n = 0 \<Longrightarrow> rxq (t_sock t) = []" using s a(4) by (auto simp: min_def split: if_splits)
  then show "n \<le> nat max_n \<and> n \<le> length (rxq (t_sock t)) \<and> (n = 0 \<longrightarrow> rxq (t_sock t) = []) \<and>
      slots_ok C bufs' \<and> length bufs' = length bufs \<and>
      map pb_data (take n bufs') = map (take C) (take n (rxq (t_sock t))) \<and>
      rxq (t_sock t') = drop n (rxq (t_sock t)) \<and> tx_log (t_sock t') = tx_log (t_sock t) \<and> True"
    using fill_all_contract [OF a(1), of n "rxq (t_sock t)"] a s by auto
qed

interpretation mmsg: recv_contract mmsg_recv_batch "\<lambda>t. 1 \<le> t_batch t"
proof
  fix t C bufs max_n n bufs' t'
  assume a: "1 \<le> t_batch t" "slots_ok C bufs" "0 < C" "plain_queue t" "0 < max_n" "nat max_n \<le> length bufs"
    "mmsg_recv_batch bufs max_n t = (n, bufs', t')"
  note s = mmsg_recv_spec [OF a(7)]
  have n: "n \<le> nat max_n" "n \<le> length (rxq (t_sock t))" using s by auto
  then show "n \<le> nat max_n \<and> n \<le> length (rxq (t_sock t)) \<and> (n = 0 \<longrightarrow> rxq (t_sock t) = []) \<and>
      slots_ok C bufs' \<and> length bufs' = length bufs \<and>
      map pb_data (take n bufs') = map (take C) (take n (rxq (t_sock t))) \<and>
      rxq (t_sock t') = drop n (rxq (t_sock t)) \<and> tx_log (t_sock t') = tx_log (t_sock t) \<and> 1 \<le> t_batch t'"
    using fill_all_contract [OF a(2), of n "rxq (t_sock t)"] a s by (auto simp: min_def split: if_splits)
qed

section \<open>Properties\<close>


text \<open>
  The syscall counts E3 divides by: receiving a batch costs the POSIX backend one call per
  packet, and one more to learn that the queue is empty; it costs the batched backend one call,
  whatever the batch brings.
\<close>

theorem recv_syscalls:
  assumes "slots_ok C bufs" "0 < C" "plain_queue t" "0 < max_n" "nat max_n \<le> length bufs"
  shows "(case posix_recv_batch bufs max_n t of (n, _, t') \<Rightarrow>
            n = min (nat max_n) (length (rxq (t_sock t))) \<and>
            t_sys t' = t_sys t + of_nat (if n < nat max_n then n + 1 else n)) \<and>
         (case mmsg_recv_batch bufs max_n t of (n, _, t') \<Rightarrow>
            n = min (nat (min max_n (t_batch t))) (length (rxq (t_sock t))) \<and> t_sys t' = t_sys t + 1)"
proof -
  obtain n b t' where p: "posix_recv_batch bufs max_n t = (n, b, t')" by (metis prod_cases3)
  obtain n2 b2 t2 where m: "mmsg_recv_batch bufs max_n t = (n2, b2, t2)" by (metis prod_cases3)
  show ?thesis using posix_recv_spec [OF assms p] mmsg_recv_spec [OF m] by (simp add: p m)
qed

lemma lr_open_udp_socket_fds:
  assumes "os_socket os (os_fds os) = Some fd" "fd \<notin> os_fds os"
  shows "case lr_open_udp_socket cfg os of
           (Inl e, os') \<Rightarrow> os_fds os' = os_fds os
         | (Inr (p, fd'), os') \<Rightarrow> fd' = fd \<and> os_fds os' = insert fd (os_fds os) \<and> (fd, ''O_NONBLOCK'', 1) \<in> set (os_opts os')"
proof (cases "if tc_bind_addr cfg = ''0.0.0.0'' then Some 0 else os_pton os (tc_bind_addr cfg)")
  case None
  then show ?thesis using assms by (simp add: lr_open_udp_socket_def Let_def)
next
  case (Some a)
  then show ?thesis using assms by (cases "os_bind os a (tc_bind_port cfg)") (simp_all add: lr_open_udp_socket_def Let_def)
qed

text \<open>
  \<open>make_transport\<close> opens one descriptor exactly when it succeeds; every error path, from an
  unknown backend to a ring the kernel refuses, leaves the open descriptors as they were.  A
  transport that is returned is on a non-blocking descriptor and has a batch depth of at least 1.
\<close>

theorem make_transport_no_leak:
  assumes "os_socket os (os_fds os) = Some fd" "fd \<notin> os_fds os"
  shows "case make_transport cfg os of
           (Inl e, os') \<Rightarrow> os_fds os' = os_fds os
         | (Inr t, os') \<Rightarrow> os_fds os' = insert fd (os_fds os) \<and> t_fd t = fd \<and> 1 \<le> max_batch t \<and> t_sys t = 0 \<and>
             (fd, ''O_NONBLOCK'', 1) \<in> set (os_opts os')"
proof -
  note o = lr_open_udp_socket_fds [OF assms, of cfg]
  have x: "fd \<in> os_fds os \<longleftrightarrow> False" using assms by simp
  obtain r os' where r: "lr_open_udp_socket cfg os = (r, os')" by (cases "lr_open_udp_socket cfg os")
  have p: ?thesis if "tc_backend cfg = ''posix''"
    using o that r by (cases r) (auto simp: make_transport_def make_transport_posix_def new_transport_def max_batch_def)
  have m: ?thesis if "tc_backend cfg = ''mmsg''"
    using o that r
    by (cases r) (auto simp: make_transport_def make_transport_mmsg_def new_transport_def max_batch_def clamp_batch_def)
  have u: "case make_transport_uring cfg q os of
       (Inl e, os') \<Rightarrow> os_fds os' = os_fds os
     | (Inr t, os') \<Rightarrow> os_fds os' = insert fd (os_fds os) \<and> t_fd t = fd \<and> 1 \<le> max_batch t \<and> t_sys t = 0 \<and>
         (fd, ''O_NONBLOCK'', 1) \<in> set (os_opts os')" for q
    using o r x
    by (cases r) (auto simp: make_transport_uring_def new_transport_def max_batch_def clamp_batch_def Let_def split: option.splits)
  show ?thesis using p m u [of False] u [of True] by (auto simp: make_transport_def)
qed

definition bufs4 :: "pbuf list" where
  "bufs4 = replicate 4 \<lparr> pb_base = replicate 8 0, pb_cap = 8, pb_len = 0 \<rparr>"

definition t3 :: transport where
  "t3 = (new_transport Mmsg 2 3 (9, None))\<lparr> t_sock := sock0\<lparr> rxq := [[1], [2, 3], [4]] \<rparr> \<rparr>"

lemma bufs4_ok: "slots_ok 8 bufs4" "plain_queue t3"
  by (simp_all add: slots_ok_def bufs4_def plain_queue_def t3_def)


theorem recv_syscalls_witness: "t_sys (snd (snd (posix_recv_batch bufs4 4 t3))) = 4"
  using recv_syscalls [OF bufs4_ok(1) _ bufs4_ok(2), of 4]
  by (simp add: bufs4_def t3_def new_transport_def case_prod_unfold)

definition os0 :: os where
  "os0 = \<lparr> os_socket = (\<lambda>S. if 3 \<notin> S then Some 3 else if 4 \<notin> S then Some 4 else if 5 \<notin> S then Some 5 else None), os_socket_err = [], os_pton = (\<lambda>_. None), os_bind = (\<lambda>_ _. None), os_sockname = (\<lambda>_. Some 40000),
     os_ring = (\<lambda>_. Some ''ENOSYS''), os_linux = True, os_have_uring = True, os_fds = {0, 1, 2}, os_opts = [] \<rparr>"

theorem make_transport_no_leak_witness:
  "os_fds (snd (make_transport (TransportConfig\<lparr> tc_backend := ''uring'', tc_bind_addr := ''0.0.0.0'' \<rparr>) os0)) = {0, 1, 2}"
proof -
  let ?cfg = "TransportConfig\<lparr> tc_backend := ''uring'', tc_bind_addr := ''0.0.0.0'' \<rparr>"
  have "fst (make_transport ?cfg os0) = Inl ''io_uring_queue_init: ENOSYS''"
    by (simp add: make_transport_def make_transport_uring_def uring_init_def lr_open_udp_socket_def os0_def TransportConfig_def Let_def)
  then show ?thesis
    using make_transport_no_leak [of os0 3 ?cfg] by (cases "make_transport ?cfg os0") (simp add: os0_def)
qed

subsection \<open>Deviations\<close>

text \<open>
  io_uring completions name their slot, but \<open>recv_batch\<close> returns only how many succeeded, and
  its caller reads the slots from 0.  When the first of two submissions completes with an error
  and the second with data, one packet is reported and slot 0, not the slot that holds the data,
  is read.
\<close>

lemma uring_reports_wrong_slot:
  "let rg = \<lparr> rg_sqes = 2, rg_submit_ok = True,
              rg_peeks = [Some \<lparr> cq_idx = 0, cq_res = - 11, cq_data = [] \<rparr>, Some \<lparr> cq_idx = 1, cq_res = 1, cq_data = [7] \<rparr>],
              rg_wait = None \<rparr>;
       (n, bufs', t') = uring_recv_batch rg bufs4 2 (new_transport (Uring False) 2 3 (9, None))
   in n = 1 \<and> pb_data (bufs' ! 0) = [] \<and> pb_data (bufs' ! 1) = [7]"
  by (simp add: uring_recv_batch_def uring_next_def new_transport_def bufs4_def fill_def pb_data_def numeral_eq_Suc Let_def)

text \<open>
  On \<open>ECONNREFUSED\<close> the batched backend counts the whole chunk as accepted although
  \<open>sendmmsg\<close> transmitted none of it, where the POSIX backend gives up one packet only.
\<close>

lemma mmsg_refused_loses_chunk:
  "let t = (new_transport Mmsg 4 3 (9, None))\<lparr> t_sock := sock0\<lparr> tx_res := [Refused] \<rparr> \<rparr>;
       bs = map (\<lambda>d. \<lparr> pb_base = [d], pb_cap = 1, pb_len = 1 \<rparr>) [1, 2, 3]
   in (case mmsg_send_batch bs 3 t of (n, t') \<Rightarrow> n = 3 \<and> tx_log (t_sock t') = []) \<and>
      (case posix_send_batch bs 3 t of (n, t') \<Rightarrow> n = 3 \<and> tx_log (t_sock t') = [[2], [3]])"
  by (simp add: mmsg_send_batch_def posix_send_batch_def mmsg_send_loop.simps [of _ "_ # _"] mmsg_send_loop.simps [of _ "[]"]
      sock_send_def next_res_def new_transport_def sock0_def pb_data_def numeral_eq_Suc Let_def)

text \<open>
  The io_uring backend never looks at the result of a transmission: whatever the kernel answers,
  it reports every queued packet as accepted.
\<close>

lemma uring_counts_failed_sends:
  assumes "bufs \<noteq> []" "int (length bufs) \<le> t_batch t" "length bufs \<le> free"
  shows "fst (uring_send_batch ((free, ready) # rs) bufs (length bufs) t) = length bufs"
  using assms by (cases rs) (auto simp: uring_send_batch_def Let_def)

text \<open>
  The probe asks for a ring of eight entries, a transport for two batches: a kernel that grants the first and
  refuses the second has the backend offered and no transport of it for the larger batches.
\<close>

lemma offered_backend_refused:
  "let os = os0\<lparr> os_ring := \<lambda>p. if rp_entries p \<le> 8 then None else Some ''ENOMEM'' \<rparr>;
       cfg = TransportConfig\<lparr> tc_backend := ''uring'', tc_bind_addr := ''0.0.0.0'', tc_batch := 64 \<rparr>
   in ''uring'' \<in> set (transport_backends os) \<and> fst (make_transport cfg os) = Inl ''io_uring_queue_init: ENOMEM''"
  by (simp add: transport_backends_def uring_available_def uring_status_def uring_probe_def make_transport_def make_transport_uring_def
      uring_init_def clamp_batch_def new_transport_def lr_open_udp_socket_def os0_def TransportConfig_def Let_def)

end
