(* ===== verification/Wire.thy ===== *)
theory Wire
  imports Prelude
begin

text \<open>
  The packet header of \<open>src/include/lr/worker.hpp\<close>: the packed structure \<open>WireHdr\<close> as it is copied
  in and out of a packet with \<open>memcpy\<close> on the little-endian hosts the repository targets, and the
  constants of the packet layout.
\<close>

section \<open>Little-endian fields\<close>

definition le_bytes :: "nat \<Rightarrow> 'a::len word \<Rightarrow> bytes" where
  "le_bytes n w = map (\<lambda>i. ucast (drop_bit (8 * i) w)) [0..<n]"

fun le_word :: "bytes \<Rightarrow> 'a::len word" where
  "le_word [] = 0"
| "le_word (b # bs) = ucast b OR push_bit 8 (le_word bs)"

lemma length_le_bytes [simp, len_simps]: "length (le_bytes n w) = n"
  by (simp add: le_bytes_def)

lemma bit_le_word:
  "k < LENGTH('a::len) \<Longrightarrow> bit (le_word bs :: 'a word) k \<longleftrightarrow> k div 8 < length bs \<and> bit (bs ! (k div 8)) (k mod 8)"
proof (induction bs arbitrary: k)
  case (Cons b bs)
  show ?case
  proof (cases "k < 8")
    case True
    then show ?thesis using Cons.prems by (simp add: bit_simps)
  next
    case False
    then obtain j where k: "k = 8 + j" using le_Suc_ex not_less by blast
    then have j: "j < LENGTH('a)" using Cons.prems by simp
    have "\<not> bit b (8 + j)" using bit_imp_le_length [of b "8 + j"] by auto
    moreover have "(8 + j) div 8 = Suc (j div 8)" by simp
    ultimately show ?thesis using Cons.IH [OF j] Cons.prems by (simp add: k bit_simps)
  qed
qed simp

lemma bit_le_bytes: "i < n \<Longrightarrow> j < 8 \<Longrightarrow> bit (le_bytes n w ! i) j \<longleftrightarrow> bit w (8 * i + j)"
  by (simp add: le_bytes_def bit_simps)

lemma le_word_le_bytes:
  assumes "LENGTH('a) = 8 * n"
  shows "le_word (le_bytes n (w :: 'a::len word)) = w"
proof (rule bit_word_eqI)
  fix k assume k: "k < LENGTH('a)"
  then have d: "k div 8 < n" using assms by (simp add: less_mult_imp_div_less)
  show "bit (le_word (le_bytes n w) :: 'a word) k = bit w k"
    using k d by (simp add: bit_le_word bit_le_bytes)
qed

lemma le_bytes_le_word:
  assumes "LENGTH('a) = 8 * n" "length bs = n"
  shows "le_bytes n (le_word bs :: 'a::len word) = bs"
proof (rule nth_equalityI)
  fix i assume "i < length (le_bytes n (le_word bs :: 'a word))"
  then have i: "i < n" by simp
  show "le_bytes n (le_word bs :: 'a word) ! i = bs ! i"
  proof (rule bit_word_eqI)
    fix j assume "j < LENGTH(8)"
    then have j: "j < 8" by simp
    then have "8 * i + j < LENGTH('a)" using i assms(1) by simp
    then show "bit (le_bytes n (le_word bs :: 'a word) ! i) j = bit (bs ! i) j"
      using i j assms(2) by (simp add: bit_le_bytes bit_le_word)
  qed
qed (simp add: assms(2))

section \<open>The header\<close>

record wire_hdr =
  wh_magic :: u32
  wh_type :: u8
  wh_epoch :: u8
  wh_flags :: u16
  wh_seq :: u64
  wh_tsc :: u64

definition LR_MAGIC :: u32 where "LR_MAGIC = 0x4C525032"

definition WT_DATA :: u8 where "WT_DATA = 1"

definition LR_HDR :: nat where "LR_HDR = 24"

definition LR_TAG :: nat where "LR_TAG = 16"

definition LR_MAX_PAYLOAD :: nat where "LR_MAX_PAYLOAD = 1472 - LR_HDR - LR_TAG"

definition hdr_bytes :: "wire_hdr \<Rightarrow> bytes" where
  "hdr_bytes h = le_bytes 4 (wh_magic h) @ [wh_type h, wh_epoch h] @ le_bytes 2 (wh_flags h) @
     le_bytes 8 (wh_seq h) @ le_bytes 8 (wh_tsc h)"

definition hdr_of :: "bytes \<Rightarrow> wire_hdr" where
  "hdr_of p = \<lparr> wh_magic = le_word (take 4 p), wh_type = p ! 4, wh_epoch = p ! 5, wh_flags = le_word (take 2 (drop 6 p)),
     wh_seq = le_word (take 8 (drop 8 p)), wh_tsc = le_word (take 8 (drop 16 p)) \<rparr>"

lemma length_hdr_bytes [simp, len_simps]: "length (hdr_bytes h) = 24"
  by (simp add: hdr_bytes_def)

lemma hdr_of_hdr_bytes [simp]: "hdr_of (hdr_bytes h @ rest) = h"
  by (simp add: hdr_of_def hdr_bytes_def nth_append le_word_le_bytes)

lemma split_header:
  assumes "length p = 24"
  shows "take 4 p @ [p ! 4, p ! 5] @ take 2 (drop 6 p) @ take 8 (drop 8 p) @ take 8 (drop 16 p) = p"
proof (rule nth_equalityI)
  fix i assume "i < length (take 4 p @ [p ! 4, p ! 5] @ take 2 (drop 6 p) @ take 8 (drop 8 p) @ take 8 (drop 16 p))"
  then have "i < 24" using assms by simp
  moreover have "i = 5 \<longleftrightarrow> 4 < i \<and> i < 6" by auto
  ultimately show "(take 4 p @ [p ! 4, p ! 5] @ take 2 (drop 6 p) @ take 8 (drop 8 p) @ take 8 (drop 16 p)) ! i = p ! i"
    using assms by (auto simp: nth_append nth_Cons')
qed (simp add: assms)

lemma hdr_bytes_hdr_of: "length p = 24 \<Longrightarrow> hdr_bytes (hdr_of p) = p"
  using split_header [of p] by (simp add: hdr_of_def hdr_bytes_def le_bytes_le_word)

text \<open>
  The header codec is a bijection between headers and strings of 24 bytes: what a sender
  writes is what the receiver reads, and the receiver's header determines the bytes that were
  authenticated, so no two headers share their associated data.
\<close>

theorem wire_hdr_roundtrip:
  "hdr_of (hdr_bytes h @ rest) = h \<and> length (hdr_bytes h) = LR_HDR \<and> (length p = LR_HDR \<longrightarrow> hdr_bytes (hdr_of p) = p)"
  by (simp add: LR_HDR_def hdr_bytes_hdr_of)

theorem wire_hdr_roundtrip_witness: "hdr_bytes (hdr_of (replicate 24 7)) = replicate 24 7"
  using wire_hdr_roundtrip [of undefined "[]" "replicate 24 7"] by (simp add: LR_HDR_def)

end
