(* ===== verification/Stats.thy ===== *)
theory Stats
  imports Complex_Main "HOL-Library.Multiset" Prelude
begin

text \<open>
  The statistics of \<open>src/src/core/stats.cpp\<close>: percentiles, the replicate summary with its
  bootstrap interval and stability gate, and the log-spaced latency histogram the data plane
  fills.  A \<open>double\<close> is a real number, so rounding is not modelled; counts are 64-bit words.  The
  draws of \<open>std::uniform_int_distribution\<close> over \<open>std::mt19937_64\<close>, which the standard leaves to
  the implementation, are an argument: \<open>draws seed n k\<close> is the \<open>k\<close>-th draw below \<open>n\<close>.
\<close>

section \<open>Percentiles, mean and spread\<close>

definition percentile :: "real list \<Rightarrow> real \<Rightarrow> real" where
  "percentile v p =
     (if v = [] then 0
      else let v = sort v
      in if length v = 1 then v ! 0
      else let idx = p / 100 * real (length v - 1);
               lo = nat \<lfloor>idx\<rfloor>; hi = nat \<lceil>idx\<rceil>;
               frac = idx - real lo
      in v ! lo * (1 - frac) + v ! hi * frac)"

definition median :: "real list \<Rightarrow> real" where
  "median v = percentile v 50"

definition mean :: "real list \<Rightarrow> real" where
  "mean v = (if v = [] then 0 else foldl (+) 0 v / real (length v))"

definition stddev :: "real list \<Rightarrow> real" where
  "stddev v =
     (if length v < 2 then 0
      else let m = mean v; s = foldl (\<lambda>s x. s + (x - m) * (x - m)) 0 v
      in sqrt (s / real (length v - 1)))"

definition bootstrap_ci :: "(u64 \<Rightarrow> nat \<Rightarrow> nat \<Rightarrow> nat) \<Rightarrow> real list \<Rightarrow> real \<Rightarrow> nat \<Rightarrow> u64 \<Rightarrow> real \<times> real" where
  "bootstrap_ci draws v conf iters seed =
     (if v = [] then (0, 0)
      else if length v = 1 then (v ! 0, v ! 0)
      else let n = length v;
               meds = map (\<lambda>i. median (map (\<lambda>j. v ! draws seed n (i * n + j)) [0..<n])) [0..<iters];
               alpha = (1 - conf) / 2
      in (percentile meds (alpha * 100), percentile meds ((1 - alpha) * 100)))"

record summary =
  sm_median :: real
  sm_ci_lo :: real
  sm_ci_hi :: real
  sm_cv :: real
  sm_mean :: real
  sm_min :: real
  sm_max :: real
  sm_n :: int
  sm_stable :: bool

definition Summary :: summary where
  "Summary = \<lparr> sm_median = 0, sm_ci_lo = 0, sm_ci_hi = 0, sm_cv = 0, sm_mean = 0, sm_min = 0, sm_max = 0,
     sm_n = 0, sm_stable = True \<rparr>"

definition summarise :: "(u64 \<Rightarrow> nat \<Rightarrow> nat \<Rightarrow> nat) \<Rightarrow> real list \<Rightarrow> real \<Rightarrow> u64 \<Rightarrow> summary" where
  "summarise draws v cv_threshold seed =
     (if v = [] then Summary
      else let m = mean v;
               cv = (if m \<noteq> 0 then stddev v / m else 0);
               (lo, hi) = bootstrap_ci draws v (95 / 100) 2000 seed
      in Summary\<lparr> sm_n := int (length v), sm_median := median v, sm_mean := m,
                  sm_min := Min (set v), sm_max := Max (set v), sm_cv := cv,
                  sm_ci_lo := lo, sm_ci_hi := hi, sm_stable := (cv \<le> cv_threshold) \<rparr>)"

section \<open>The latency histogram\<close>

definition edges :: "real list" where
  "edges = map (\<lambda>i. 10 ^ 2 * 10 powr (real i / 24)) [0..<169]"

record latency_hist =
  lh_b :: "u64 list"
  lh_n :: u64

definition LatencyHist :: latency_hist where
  "LatencyHist = \<lparr> lh_b = replicate (length edges + 1) 0, lh_n = 0 \<rparr>"

text \<open>\<open>std::upper_bound\<close>: the first position whose element is greater.\<close>

fun upper_bound :: "real list \<Rightarrow> real \<Rightarrow> nat" where
  "upper_bound [] x = 0"
| "upper_bound (e # es) x = (if x < e then 0 else Suc (upper_bound es x))"

definition lh_add :: "real \<Rightarrow> latency_hist \<Rightarrow> latency_hist" where
  "lh_add ns h =
     (let i = upper_bound edges ns;
          i = (if i \<ge> length (lh_b h) then length (lh_b h) - 1 else i)
      in h\<lparr> lh_b := (lh_b h)[i := lh_b h ! i + 1], lh_n := lh_n h + 1 \<rparr>)"

fun quantile_scan :: "u64 list \<Rightarrow> nat \<Rightarrow> u64 \<Rightarrow> u64 \<Rightarrow> real" where
  "quantile_scan [] i cum goal = last edges"
| "quantile_scan (b # bs) i cum goal =
     (let cum = cum + b
      in if cum \<ge> goal
         then (if i = 0 then hd edges
               else if i \<ge> length edges then last edges
               else sqrt (edges ! (i - 1) * edges ! i))
         else quantile_scan bs (Suc i) cum goal)"

definition quantile :: "latency_hist \<Rightarrow> real \<Rightarrow> real" where
  "quantile h q =
     (if lh_n h = 0 then 0
      else let goal = of_nat (nat \<lceil>q * real (unat (lh_n h))\<rceil>);
               goal = (if goal = 0 then 1 else goal)
      in quantile_scan (lh_b h) 0 0 goal)"

section \<open>Interpolation between order statistics\<close>

lemma foldl_sum: "foldl (+) (a::real) v = a + sum_list v"
  by (induction v arbitrary: a) simp_all

lemma mean_eq: "mean v = sum_list v / real (length v)"
  by (simp add: mean_def foldl_sum)

text \<open>The value at the fractional position \<open>x\<close> of a sorted list.\<close>

definition interp :: "real list \<Rightarrow> real \<Rightarrow> real" where
  "interp v x = v ! nat \<lfloor>x\<rfloor> * (1 - (x - real (nat \<lfloor>x\<rfloor>))) + v ! nat \<lceil>x\<rceil> * (x - real (nat \<lfloor>x\<rfloor>))"

lemma percentile_interp:
  assumes "v \<noteq> []"
  shows "percentile v p = interp (sort v) (p / 100 * real (length v - 1))"
proof (cases "length v = 1")
  case True
  then show ?thesis using assms by (simp add: percentile_def interp_def)
next
  case False
  then show ?thesis using assms by (simp add: percentile_def interp_def Let_def)
qed

lemma convex_bounds:
  assumes "(a::real) \<le> b" "0 \<le> f" "f \<le> 1"
  shows "a \<le> a * (1 - f) + b * f" "a * (1 - f) + b * f \<le> b"
proof -
  have "a * (1 - f) + b * f = a + (b - a) * f" "b - (a * (1 - f) + b * f) = (b - a) * (1 - f)"
    by (simp_all add: algebra_simps)
  moreover have "0 \<le> (b - a) * f" "0 \<le> (b - a) * (1 - f)" using assms by simp_all
  ultimately show "a \<le> a * (1 - f) + b * f" "a * (1 - f) + b * f \<le> b" by linarith+
qed

lemma frac_bounds: "0 \<le> x \<Longrightarrow> 0 \<le> x - real (nat \<lfloor>x\<rfloor>) \<and> x - real (nat \<lfloor>x\<rfloor>) \<le> 1"
  by (simp add: of_nat_nat) linarith

lemma pos_bounds:
  assumes "0 \<le> x" "x \<le> real (length v - 1)" "v \<noteq> []"
  shows "nat \<lfloor>x\<rfloor> \<le> nat \<lceil>x\<rceil>" "nat \<lceil>x\<rceil> < length v"
proof -
  show "nat \<lfloor>x\<rfloor> \<le> nat \<lceil>x\<rceil>" by linarith
  have "\<lceil>x\<rceil> \<le> int (length v - 1)" using assms(2) by (simp only: ceiling_le_iff of_int_of_nat_eq)
  moreover have "0 < length v" using assms(3) by simp
  ultimately show "nat \<lceil>x\<rceil> < length v" by linarith
qed

lemma nth_floor_le_ceiling:
  assumes "sorted v" "v \<noteq> []" "0 \<le> x" "x \<le> real (length v - 1)"
  shows "v ! nat \<lfloor>x\<rfloor> \<le> v ! nat \<lceil>x\<rceil>"
  by (rule sorted_nth_mono [OF assms(1) pos_bounds [OF assms(3,4,2)]])

lemma interp_between:
  assumes "sorted v" "v \<noteq> []" "0 \<le> x" "x \<le> real (length v - 1)"
  shows "v ! nat \<lfloor>x\<rfloor> \<le> interp v x" "interp v x \<le> v ! nat \<lceil>x\<rceil>"
  unfolding interp_def using convex_bounds [OF nth_floor_le_ceiling [OF assms]] frac_bounds [OF assms(3)] by blast+

lemma interp_mono:
  assumes "sorted v" "v \<noteq> []" "0 \<le> x" "x \<le> y" "y \<le> real (length v - 1)"
  shows "interp v x \<le> interp v y"
proof (cases "\<lfloor>x\<rfloor> = \<lfloor>y\<rfloor> \<and> \<lceil>x\<rceil> = \<lceil>y\<rceil>")
  case True
  then have f: "\<lfloor>x\<rfloor> = \<lfloor>y\<rfloor>" and c: "\<lceil>x\<rceil> = \<lceil>y\<rceil>" by simp_all
  have "v ! nat \<lfloor>y\<rfloor> \<le> v ! nat \<lceil>y\<rceil>" using nth_floor_le_ceiling [of v y] assms by simp
  then have "0 \<le> (v ! nat \<lceil>y\<rceil> - v ! nat \<lfloor>y\<rfloor>) * (y - x)" using assms(4) by simp
  moreover have "interp v y - interp v x = (v ! nat \<lceil>y\<rceil> - v ! nat \<lfloor>y\<rfloor>) * (y - x)"
    unfolding interp_def f c by (simp add: algebra_simps)
  ultimately show ?thesis by linarith
next
  case False
  then have l: "nat \<lceil>x\<rceil> \<le> nat \<lfloor>y\<rfloor>" using assms(4) by linarith
  have b: "nat \<lfloor>y\<rfloor> \<le> nat \<lceil>y\<rceil>" "nat \<lceil>y\<rceil> < length v"
    by (rule pos_bounds [OF order_trans [OF assms(3,4)] assms(5,2)])+
  have "interp v x \<le> v ! nat \<lceil>x\<rceil>" using interp_between(2) [of v x] assms by simp
  also have "\<dots> \<le> v ! nat \<lfloor>y\<rfloor>" using l b by (intro sorted_nth_mono [OF assms(1)]) simp_all
  also have "\<dots> \<le> interp v y" using interp_between(1) [of v y] assms by simp
  finally show ?thesis .
qed

lemma position_range:
  assumes "0 \<le> p" "p \<le> 100"
  shows "0 \<le> p / 100 * real n" "p / 100 * real n \<le> real n"
proof -
  show "0 \<le> p / 100 * real n" using assms by simp
  have "p / 100 * real n \<le> 1 * real n" using assms by (intro mult_right_mono) auto
  then show "p / 100 * real n \<le> real n" by simp
qed

lemma percentile_mono:
  assumes "v \<noteq> []" "0 \<le> p" "p \<le> q" "q \<le> 100"
  shows "percentile v p \<le> percentile v q"
  unfolding percentile_interp [OF assms(1)]
proof (rule interp_mono)
  show "sort v \<noteq> []" using assms(1) by (metis length_0_conv length_sort)
  show "p / 100 * real (length v - 1) \<le> q / 100 * real (length v - 1)"
    using assms by (intro mult_right_mono) auto
  show "0 \<le> p / 100 * real (length v - 1)" using position_range [of p] assms by simp
  show "q / 100 * real (length v - 1) \<le> real (length (sort v) - 1)"
    using position_range(2) [of q "length v - 1"] assms by simp
qed simp

lemma percentile_range:
  assumes "v \<noteq> []" "0 \<le> p" "p \<le> 100"
  shows "Min (set v) \<le> percentile v p" "percentile v p \<le> Max (set v)"
proof -
  let ?x = "p / 100 * real (length v - 1)"
  have ne: "sort v \<noteq> []" using assms(1) by (metis length_0_conv length_sort)
  have x: "0 \<le> ?x" "?x \<le> real (length (sort v) - 1)"
    using position_range(1,2) [OF assms(2,3), of "length v - 1"] by simp_all
  have b: "nat \<lfloor>?x\<rfloor> \<le> nat \<lceil>?x\<rceil>" "nat \<lceil>?x\<rceil> < length (sort v)"
    by (rule pos_bounds [OF x ne])+
  have in_set: "sort v ! i \<in> set v" if "i < length (sort v)" for i
    using nth_mem [OF that] by simp
  have "Min (set v) \<le> sort v ! nat \<lfloor>?x\<rfloor>" "sort v ! nat \<lceil>?x\<rceil> \<le> Max (set v)"
    using in_set [OF le_less_trans [OF b]] in_set [OF b(2)] by (simp_all only: Min_le Max_ge finite_set)
  then show "Min (set v) \<le> percentile v p" "percentile v p \<le> Max (set v)"
    unfolding percentile_interp [OF assms(1)]
    using interp_between [OF sorted_sort [of v] ne x] by linarith+
qed

lemma percentile_perm:
  assumes "mset v = mset w"
  shows "percentile v p = percentile w p"
proof -
  have "sort v = sort w" using assms by (metis mset_sort properties_for_sort sorted_sort)
  then show ?thesis using assms by (auto simp: percentile_def)
qed

lemma median_range: "v \<noteq> [] \<Longrightarrow> Min (set v) \<le> median v \<and> median v \<le> Max (set v)"
  using percentile_range [of v 50] by (simp add: median_def)

lemma bootstrap_ci_range:
  assumes "v \<noteq> []" "\<And>k. draws seed (length v) k < length v" "0 < iters" "0 \<le> conf" "conf \<le> 1"
  shows "case bootstrap_ci draws v conf iters seed of (lo, hi) \<Rightarrow> Min (set v) \<le> lo \<and> lo \<le> hi \<and> hi \<le> Max (set v)"
proof (cases "length v = 1")
  case True
  then obtain x where "v = [x]" by (auto simp: length_Suc_conv)
  then show ?thesis by (simp add: bootstrap_ci_def)
next
  case False
  let ?n = "length v"
  let ?sample = "\<lambda>i. map (\<lambda>j. v ! draws seed ?n (i * ?n + j)) [0..<?n]"
  let ?meds = "map (\<lambda>i. median (?sample i)) [0..<iters]"
  let ?a = "(1 - conf) / 2 * 100" and ?b = "(1 - (1 - conf) / 2) * 100"
  have med: "Min (set v) \<le> median (?sample i) \<and> median (?sample i) \<le> Max (set v)" for i
  proof -
    have ne: "?sample i \<noteq> []" using assms(1) by simp
    have sub: "set (?sample i) \<subseteq> set v" using assms(2) by auto
    have "Min (set v) \<le> Min (set (?sample i))" "Max (set (?sample i)) \<le> Max (set v)"
      using ne sub by (auto intro!: Min_antimono Max_mono simp del: set_map)
    then show ?thesis using median_range [OF ne] by linarith
  qed
  have ne: "?meds \<noteq> []" using assms(3) by simp
  have m: "Min (set v) \<le> Min (set ?meds)" "Max (set ?meds) \<le> Max (set v)"
    using med assms(3) by (auto intro!: Min.boundedI Max.boundedI)
  have ab: "0 \<le> ?a" "?a \<le> ?b" "?b \<le> 100" using assms(4,5) by (simp_all add: field_simps)
  have eq: "bootstrap_ci draws v conf iters seed = (percentile ?meds ?a, percentile ?meds ?b)"
    using False assms(1) by (simp add: bootstrap_ci_def Let_def)
  have "Min (set ?meds) \<le> percentile ?meds ?a" "percentile ?meds ?b \<le> Max (set ?meds)"
    by (rule percentile_range(1) [OF ne ab(1) order_trans [OF ab(2,3)]],
        rule percentile_range(2) [OF ne order_trans [OF ab(1,2)] ab(3)])
  then show ?thesis unfolding eq using m percentile_mono [OF ne ab] by simp
qed

lemma sum_list_bounds:
  assumes "\<And>x. x \<in> set v \<Longrightarrow> a \<le> x \<and> x \<le> (b::real)"
  shows "real (length v) * a \<le> sum_list v \<and> sum_list v \<le> real (length v) * b"
  using assms by (induction v) (auto simp: algebra_simps add_mono)

lemma mean_range:
  assumes "v \<noteq> []"
  shows "Min (set v) \<le> mean v \<and> mean v \<le> Max (set v)"
proof -
  have "real (length v) * Min (set v) \<le> sum_list v \<and> sum_list v \<le> real (length v) * Max (set v)"
    by (rule sum_list_bounds) simp
  then show ?thesis using assms by (simp add: mean_eq field_simps)
qed

section \<open>Buckets and order statistics\<close>

lemma length_edges [simp]: "length edges = 169"
  by (simp add: edges_def)

lemma edges_nth: "i < 169 \<Longrightarrow> edges ! i = 100 * 10 powr (real i / 24)"
  by (simp add: edges_def)

lemma edges_strict: "i < j \<Longrightarrow> j < 169 \<Longrightarrow> edges ! i < edges ! j"
  by (simp add: edges_nth)

lemma edges_sorted: "sorted edges"
  unfolding sorted_iff_nth_mono_less by (auto intro: less_imp_le edges_strict)

lemma upper_bound_le: "upper_bound es x \<le> length es"
  by (induction es) simp_all

lemma upper_bound_spec:
  "sorted es \<Longrightarrow> (\<forall>i < upper_bound es x. es ! i \<le> x) \<and> (upper_bound es x < length es \<longrightarrow> x < es ! upper_bound es x)"
proof (induction es)
  case (Cons e es)
  then show ?case by (auto simp: less_Suc_eq_0_disj)
qed simp

lemma upper_bound_mono: "x \<le> y \<Longrightarrow> upper_bound es x \<le> upper_bound es y"
  by (induction es) auto

text \<open>Samples whose bucket satisfies \<open>P\<close>.\<close>

definition in_bucket :: "(nat \<Rightarrow> bool) \<Rightarrow> real list \<Rightarrow> nat" where
  "in_bucket P xs = length (filter (\<lambda>x. P (upper_bound edges x)) xs)"

definition hist_of :: "real list \<Rightarrow> latency_hist" where
  "hist_of xs = foldl (\<lambda>h x. lh_add x h) LatencyHist xs"

lemma hist_of_snoc: "hist_of (xs @ [x]) = lh_add x (hist_of xs)"
  by (simp add: hist_of_def)

lemma hist_of_spec:
  "length (lh_b (hist_of xs)) = 170 \<and> lh_n (hist_of xs) = of_nat (length xs) \<and>
   (\<forall>i < 170. lh_b (hist_of xs) ! i = of_nat (in_bucket (\<lambda>k. k = i) xs))"
proof (induction xs rule: rev_induct)
  case Nil
  then show ?case by (simp add: hist_of_def LatencyHist_def in_bucket_def)
next
  case (snoc x xs)
  have "upper_bound edges x < 170" using upper_bound_le [of edges x] by simp
  then show ?case using snoc by (auto simp: hist_of_snoc lh_add_def in_bucket_def Let_def nth_list_update)
qed

lemma in_bucket_Suc: "in_bucket (\<lambda>k. k < Suc i) xs = in_bucket (\<lambda>k. k < i) xs + in_bucket (\<lambda>k. k = i) xs"
  by (induction xs) (auto simp: in_bucket_def)

lemma length_filter_sort: "length (filter P (sort xs)) = length (filter P xs)"
  by (metis mset_filter mset_sort size_mset)

lemma sorted_take_filter:
  assumes "sorted ys" "k < length ys"
  shows "length (filter (\<lambda>x. x < ys ! k) ys) \<le> k" "k < length (filter (\<lambda>x. x \<le> (ys ! k :: real)) ys)"
proof -
  have "filter (\<lambda>x. x < ys ! k) (drop k ys) = []"
  proof (rule filter_False, rule ballI)
    fix x assume "x \<in> set (drop k ys)"
    then obtain i where "i < length ys - k" "x = ys ! (k + i)" by (auto simp: in_set_conv_nth)
    moreover from this have "k + i < length ys" by simp
    ultimately show "\<not> x < ys ! k" using sorted_nth_mono [OF assms(1), of k "k + i"] by simp
  qed
  then have "filter (\<lambda>x. x < ys ! k) ys = filter (\<lambda>x. x < ys ! k) (take k ys)"
    by (metis append_Nil2 append_take_drop_id filter_append)
  then show "length (filter (\<lambda>x. x < ys ! k) ys) \<le> k"
    by (metis length_filter_le length_take min.cobounded2 order_trans)
  have "filter (\<lambda>x. x \<le> ys ! k) (take (Suc k) ys) = take (Suc k) ys"
    using assms by (auto simp: filter_id_conv in_set_conv_nth intro!: sorted_nth_mono)
  then have "length (take (Suc k) ys) \<le> length (filter (\<lambda>x. x \<le> ys ! k) (take (Suc k) ys @ drop (Suc k) ys))"
    by (simp only: filter_append length_append)
  then show "k < length (filter (\<lambda>x. x \<le> ys ! k) ys)" using assms(2) by simp
qed

lemma length_filter_mono: "(\<And>x. P x \<Longrightarrow> Q x) \<Longrightarrow> length (filter P xs) \<le> length (filter Q xs)"
  by (induction xs) auto

text \<open>The bucket of the \<open>(k + 1)\<close>-st smallest sample is where the cumulated count first exceeds \<open>k\<close>.\<close>

lemma order_statistic_bucket:
  fixes xs :: "real list"
  assumes "k < length xs"
  defines "u \<equiv> upper_bound edges (sort xs ! k)"
  shows "in_bucket (\<lambda>b. b < u) xs \<le> k" "k < in_bucket (\<lambda>b. b < Suc u) xs"
proof -
  let ?s = "sort xs ! k"
  have "x < ?s" if "upper_bound edges x < u" for x
    using that upper_bound_mono [of ?s x edges] unfolding u_def by (metis not_le)
  then have "in_bucket (\<lambda>b. b < u) xs \<le> length (filter (\<lambda>x. x < ?s) xs)"
    unfolding in_bucket_def by (intro length_filter_mono) simp
  then show "in_bucket (\<lambda>b. b < u) xs \<le> k"
    using sorted_take_filter(1) [of "sort xs" k] assms(1) by (simp add: length_filter_sort)
  have "length (filter (\<lambda>x. x \<le> ?s) xs) \<le> in_bucket (\<lambda>b. b < Suc u) xs"
    unfolding in_bucket_def u_def by (intro length_filter_mono) (simp add: upper_bound_mono less_Suc_eq_le)
  then show "k < in_bucket (\<lambda>b. b < Suc u) xs"
    using sorted_take_filter(2) [of "sort xs" k] assms(1) by (simp add: length_filter_sort)
qed

definition bucket_value :: "nat \<Rightarrow> real" where
  "bucket_value u = (if u = 0 then hd edges else if u \<ge> length edges then last edges else sqrt (edges ! (u - 1) * edges ! u))"

lemma unat_of_nat_u64: "n < 2 ^ 64 \<Longrightarrow> unat (of_nat n :: u64) = n"
  by (simp add: unat_of_nat take_bit_nat_eq_self)

lemma of_nat_u64_le: "m < 2 ^ 64 \<Longrightarrow> n < 2 ^ 64 \<Longrightarrow> (of_nat m :: u64) \<le> of_nat n \<longleftrightarrow> m \<le> n"
  by (simp add: word_le_nat_alt unat_of_nat take_bit_nat_eq_self)

lemma in_bucket_le: "in_bucket P xs \<le> length xs"
  by (simp add: in_bucket_def)

lemma quantile_scan_spec:
  assumes "length xs < 2 ^ 64" "t \<le> length xs" "u < 170"
    "in_bucket (\<lambda>b. b < u) xs < t" "t \<le> in_bucket (\<lambda>b. b < Suc u) xs" "i \<le> u"
  shows "quantile_scan (drop i (lh_b (hist_of xs))) i (of_nat (in_bucket (\<lambda>b. b < i) xs)) (of_nat t) = bucket_value u"
  using assms(6)
proof (induction "u - i" arbitrary: i)
  case 0
  then have i: "i = u" by simp
  have d: "drop u (lh_b (hist_of xs)) = of_nat (in_bucket (\<lambda>k. k = u) xs) # drop (Suc u) (lh_b (hist_of xs))"
    using hist_of_spec [of xs] assms(3) by (simp add: Cons_nth_drop_Suc [symmetric])
  have "(of_nat t :: u64) \<le> of_nat (in_bucket (\<lambda>b. b < Suc u) xs)"
    using assms in_bucket_le [of "\<lambda>b. b < Suc u" xs] by (subst of_nat_u64_le) simp_all
  then show ?case unfolding i d by (simp add: in_bucket_Suc bucket_value_def)
next
  case (Suc d)
  then have iu: "i < u" by simp
  have d: "drop i (lh_b (hist_of xs)) = of_nat (in_bucket (\<lambda>k. k = i) xs) # drop (Suc i) (lh_b (hist_of xs))"
    using hist_of_spec [of xs] assms(3) iu by (simp add: Cons_nth_drop_Suc [symmetric])
  have "in_bucket (\<lambda>b. b < Suc i) xs \<le> in_bucket (\<lambda>b. b < u) xs"
    unfolding in_bucket_def using iu by (intro length_filter_mono) simp
  then have "\<not> (of_nat t :: u64) \<le> of_nat (in_bucket (\<lambda>b. b < Suc i) xs)"
    using assms in_bucket_le [of "\<lambda>b. b < Suc i" xs] by (subst of_nat_u64_le) simp_all
  then show ?case using Suc.hyps(1) [of "Suc i"] Suc.hyps(2) iu unfolding d by (simp add: in_bucket_Suc Let_def)
qed

lemma ceil_fraction_le:
  assumes "q \<le> 1"
  shows "nat \<lceil>q * real n\<rceil> \<le> n"
proof -
  have "q * real n \<le> 1 * real n" using assms by (intro mult_right_mono) simp_all
  then have "\<lceil>q * real n\<rceil> \<le> int n" by (simp add: ceiling_le_iff)
  then show ?thesis by linarith
qed

lemma of_nat_u64_eq_0:
  assumes "n < 2 ^ 64"
  shows "(of_nat n :: u64) = 0 \<longleftrightarrow> n = 0"
proof
  assume "(of_nat n :: u64) = 0"
  then have "unat (of_nat n :: u64) = 0" by (simp only: unsigned_0)
  then show "n = 0" unfolding unat_of_nat_u64 [OF assms] .
qed simp

lemma quantile_unfold:
  assumes "xs \<noteq> []" "length xs < 2 ^ 64" "nat \<lceil>q * real (length xs)\<rceil> = m" "m \<le> length xs"
  shows "quantile (hist_of xs) q = quantile_scan (lh_b (hist_of xs)) 0 0 (of_nat (max 1 m))"
proof -
  have n: "unat (of_nat (length xs) :: u64) = length xs" by (rule unat_of_nat_u64 [OF assms(2)])
  have z: "((of_nat (length xs) :: u64) = 0) = False" using of_nat_u64_eq_0 [OF assms(2)] assms(1) by simp
  have m: "(of_nat m :: u64) = 0 \<longleftrightarrow> m = 0" by (rule of_nat_u64_eq_0 [OF le_less_trans [OF assms(4,2)]])
  have g: "(if (of_nat m :: u64) = 0 then 1 else of_nat m) = (of_nat (max 1 m) :: u64)"
    unfolding m by (cases m) simp_all
  have "lh_n (hist_of xs) = of_nat (length xs)" using hist_of_spec by blast
  then show ?thesis unfolding quantile_def Let_def by (simp only: n z g assms(3) if_False)
qed

lemma quantile_bucket:
  assumes "xs \<noteq> []" "length xs < 2 ^ 64" "q \<le> 1"
  defines "t \<equiv> max 1 (nat \<lceil>q * real (length xs)\<rceil>)"
  shows "1 \<le> t" "t \<le> length xs" "quantile (hist_of xs) q = bucket_value (upper_bound edges (sort xs ! (t - 1)))"
proof -
  have l: "1 \<le> length xs" using assms(1) by (cases xs) simp_all
  have m: "nat \<lceil>q * real (length xs)\<rceil> \<le> length xs" by (rule ceil_fraction_le [OF assms(3)])
  show t: "1 \<le> t" "t \<le> length xs" unfolding t_def using l m by (simp_all only: max.cobounded1 max.bounded_iff)
  let ?u = "upper_bound edges (sort xs ! (t - 1))"
  have "t - 1 < length xs" using t by simp
  note o = order_statistic_bucket [OF this]
  have u: "?u < 170" using upper_bound_le [of edges "sort xs ! (t - 1)"] by simp
  have o1: "in_bucket (\<lambda>b. b < ?u) xs < t" using o(1) t(1) by linarith
  have o2: "t \<le> in_bucket (\<lambda>b. b < Suc ?u) xs" using o(2) t(1) by linarith
  have "in_bucket (\<lambda>b. b < 0) xs = 0" by (simp add: in_bucket_def)
  then show "quantile (hist_of xs) q = bucket_value ?u"
    using quantile_scan_spec [OF assms(2) t(2) u o1 o2, of 0] quantile_unfold [OF assms(1,2) refl m]
    unfolding t_def [symmetric] by simp
qed

lemma bucket_value_close:
  assumes "100 \<le> s" "s < 10 ^ 9"
  shows "bucket_value (upper_bound edges s) \<le> s * 10 powr (1 / 48) \<and> s \<le> bucket_value (upper_bound edges s) * 10 powr (1 / 48)"
proof -
  let ?u = "upper_bound edges s"
  note ub = upper_bound_spec [OF edges_sorted, of s]
  have "edges ! 168 = 10 ^ 9" by (simp add: edges_nth)
  then have u1: "?u < 169" using ub upper_bound_le [of edges s] assms(2) by (metis length_edges less_le_not_le linorder_not_less nat_less_le lessI numeral_eq_Suc pred_numeral_simps(2,3))
  have u0: "0 < ?u"
  proof (rule ccontr)
    assume "\<not> 0 < ?u"
    then have "s < edges ! 0" using ub by simp
    then show False using assms(1) by (simp add: edges_nth)
  qed
  define a where "a = edges ! (?u - 1)"
  have p: "(10::real) powr (1 / 24) = 10 powr (1 / 48) * 10 powr (1 / 48)" by (simp flip: powr_add)
  have i: "real ?u = real (?u - 1) + 1" using u0 by simp
  have b: "edges ! ?u = a * (10 powr (1 / 48) * 10 powr (1 / 48))"
    using u0 u1 unfolding a_def by (subst (1 2) edges_nth) (simp_all add: i add_divide_distrib powr_add p del: of_nat_diff)
  have "?u - 1 < ?u" using u0 by simp
  then have a: "0 < a" "a \<le> s" using u1 ub unfolding a_def by (simp_all only:) (simp add: edges_nth)
  have s: "s < a * (10 powr (1 / 48) * 10 powr (1 / 48))" using ub u1 b by simp
  have "bucket_value ?u = sqrt (a * edges ! ?u)" using u0 u1 by (simp add: bucket_value_def a_def)
  also have "a * edges ! ?u = (a * 10 powr (1 / 48)) ^ 2" unfolding b by (simp add: power2_eq_square)
  finally have v: "bucket_value ?u = a * 10 powr (1 / 48)" using a by (simp add: real_sqrt_abs abs_mult)
  show ?thesis unfolding v using a s by (simp add: mult.assoc mult_right_mono)
qed

section \<open>Properties\<close>

text \<open>
  C31. A replicate summary is ordered: for any non-empty set of replicates the minimum, the
  bounds of the interval around the median, the median, the mean and the maximum come in the
  order their names say, whatever the resampling draws; the gate marks the point stable exactly
  when its coefficient of variation is within the threshold.
\<close>

theorem summarise_ordered:
  assumes "v \<noteq> []" "\<And>k. draws seed (length v) k < length v"
  shows "let s = summarise draws v thr seed
         in sm_min s \<le> sm_ci_lo s \<and> sm_ci_lo s \<le> sm_ci_hi s \<and> sm_ci_hi s \<le> sm_max s \<and>
            sm_min s \<le> sm_median s \<and> sm_median s \<le> sm_max s \<and> sm_min s \<le> sm_mean s \<and> sm_mean s \<le> sm_max s \<and>
            sm_n s = int (length v) \<and> (sm_stable s \<longleftrightarrow> sm_cv s \<le> thr)"
proof -
  obtain lo hi where b: "bootstrap_ci draws v (19 / 20) 2000 seed = (lo, hi)" by (cases "bootstrap_ci draws v (19 / 20) 2000 seed")
  have "Min (set v) \<le> lo \<and> lo \<le> hi \<and> hi \<le> Max (set v)"
    using bootstrap_ci_range [of v draws seed 2000 "19 / 20"] assms b by simp
  then show ?thesis
    using median_range [OF assms(1)] mean_range [OF assms(1)] assms(1) by (simp add: summarise_def b Let_def)
qed

text \<open>
  A percentile is an order statistic interpolation: it stays between the extremes, grows
  with \<open>p\<close>, and does not depend on the order in which the samples came.
\<close>

theorem percentile_order_statistic:
  assumes "v \<noteq> []" "0 \<le> p" "p \<le> q" "q \<le> 100" "mset w = mset v"
  shows "Min (set v) \<le> percentile v p \<and> percentile v p \<le> percentile v q \<and> percentile v q \<le> Max (set v) \<and>
         percentile w p = percentile v p"
  using percentile_range(1) [OF assms(1,2) order_trans [OF assms(3,4)]] percentile_mono [OF assms(1-4)]
    percentile_range(2) [OF assms(1) order_trans [OF assms(2,3)] assms(4)] percentile_perm [OF assms(5)] by simp


theorem summarise_ordered_witness:
  "let s = summarise (\<lambda>seed n k. k mod n) [3, 1, 2] (1 / 10) 7 in sm_min s \<le> sm_ci_lo s \<and> sm_ci_hi s \<le> sm_max s"
  using summarise_ordered [of "[3, 1, 2]" "\<lambda>seed n k. k mod n" 7 "1 / 10"] by (simp add: Let_def)

theorem percentile_order_statistic_witness: "percentile [4, 1, 3] 50 \<le> percentile [4, 1, 3] 90"
  using percentile_order_statistic [of "[4, 1, 3]" 50 90 "[1, 3, 4]"] by simp


end
