(* ===== verification/Text.thy ===== *)
theory Text
  imports Complex_Main Prelude
begin

text \<open>
  The text conversions of the C and C++ library that the sources use: decimal printing of
  integers (\<open>%d\<close>, \<open>%u\<close>, \<open>%llu\<close>, \<open>operator<<\<close>), fixed-point printing of a \<open>double\<close> (\<open>%.Nf\<close>, rounding
  ties to even), and the reading of decimal numbers (\<open>atoi\<close>, \<open>strtoull\<close>, \<open>atof\<close>, \<open>strtod\<close>) without
  exponents, which none of the printers here produce.  The lemmas say that reading what was
  printed gives the number back.
\<close>

section \<open>Printing\<close>

definition digit_char :: "nat \<Rightarrow> char" where
  "digit_char d = char_of (48 + d)"

fun show_nat :: "nat \<Rightarrow> string" where
  "show_nat n = (if n < 10 then [digit_char n] else show_nat (n div 10) @ [digit_char (n mod 10)])"

declare show_nat.simps [simp del]

definition show_int :: "int \<Rightarrow> string" where
  "show_int i = (if i < 0 then ''-'' @ show_nat (nat (- i)) else show_nat (nat i))"

text \<open>Exactly \<open>k\<close> digits, with leading zeros.\<close>

fun show_pad :: "nat \<Rightarrow> nat \<Rightarrow> string" where
  "show_pad 0 n = []"
| "show_pad (Suc k) n = show_pad k (n div 10) @ [digit_char (n mod 10)]"

definition round_even :: "real \<Rightarrow> int" where
  "round_even x =
     (let f = \<lfloor>x\<rfloor>; d = x - of_int f
      in if d < 1 / 2 then f else if d > 1 / 2 then f + 1 else if even f then f else f + 1)"

definition fixed_digits :: "nat \<Rightarrow> real \<Rightarrow> nat" where
  "fixed_digits prec v = nat (round_even (\<bar>v\<bar> * 10 ^ prec))"

definition show_fixed :: "nat \<Rightarrow> real \<Rightarrow> string" where
  "show_fixed prec v =
     (let n = fixed_digits prec v
      in (if v < 0 then ''-'' else []) @ show_nat (n div 10 ^ prec) @
         (if prec = 0 then [] else ''.'' @ show_pad prec (n mod 10 ^ prec)))"

section \<open>Reading\<close>

text \<open>The value of the leading digits, how many there are, and the rest.\<close>

fun digits :: "string \<Rightarrow> nat \<Rightarrow> nat \<times> nat \<times> string" where
  "digits [] acc = (acc, 0, [])"
| "digits (c # cs) acc =
     (if is_digit c
      then (case digits cs (10 * acc + (of_char c - 48)) of (v, k, rest) \<Rightarrow> (v, Suc k, rest))
      else (acc, 0, c # cs))"

definition skip_space :: "string \<Rightarrow> string" where
  "skip_space s = dropWhile is_space s"

definition read_sign :: "string \<Rightarrow> bool \<times> string" where
  "read_sign s = (case s of [] \<Rightarrow> (False, []) | c # cs \<Rightarrow> if c = CHR ''-'' then (True, cs) else if c = CHR ''+'' then (False, cs) else (False, s))"

definition strtoll :: "string \<Rightarrow> int" where
  "strtoll s = (case read_sign (skip_space s) of (neg, r) \<Rightarrow>
     (case digits r 0 of (v, _, _) \<Rightarrow> if neg then - int v else int v))"

definition strtod :: "string \<Rightarrow> real" where
  "strtod s = (case read_sign (skip_space s) of (neg, r) \<Rightarrow>
     (case digits r 0 of (v, _, rest) \<Rightarrow>
      let x = (case rest of
                 [] \<Rightarrow> real v
               | c # cs \<Rightarrow> if c = CHR ''.'' then (case digits cs 0 of (f, k, _) \<Rightarrow> real v + real f / 10 ^ k) else real v)
      in if neg then - x else x))"

section \<open>Round trips\<close>

lemma of_char_digit [simp]: "d < 10 \<Longrightarrow> (of_char (digit_char d) :: nat) = 48 + d"
  by (simp add: digit_char_def)

lemma is_digit_digit_char [simp]: "d < 10 \<Longrightarrow> is_digit (digit_char d)"
  by (simp add: is_digit_def)

lemma digits_append:
  "list_all is_digit xs \<Longrightarrow> digits (xs @ ys) acc =
     (case digits xs acc of (v, k, _) \<Rightarrow> case digits ys v of (v', k', r) \<Rightarrow> (v', k + k', r))"
proof (induction xs arbitrary: acc)
  case (Cons x xs)
  then show ?case by (auto split: prod.splits)
qed (auto split: prod.splits)

lemma digits_all: "list_all is_digit xs \<Longrightarrow> snd (snd (digits xs acc)) = [] \<and> fst (snd (digits xs acc)) = length xs"
  by (induction xs arbitrary: acc) (simp_all add: case_prod_unfold)

lemma show_nat_digits: "list_all is_digit (show_nat n)"
  by (induction n rule: show_nat.induct) (subst show_nat.simps, auto)

lemma show_pad_digits: "list_all is_digit (show_pad k n)"
  by (induction k n rule: show_pad.induct) auto

lemma length_show_pad [simp]: "length (show_pad k n) = k"
  by (induction k n rule: show_pad.induct) auto

lemma digits_snoc:
  assumes "list_all is_digit xs" "d < 10" "fst (digits xs acc) = v"
  shows "fst (digits (xs @ [digit_char d]) acc) = 10 * v + d"
  using assms by (subst digits_append) (auto split: prod.splits)

lemma digits_show_nat: "fst (digits (show_nat n) 0) = n"
proof (induction n rule: show_nat.induct)
  case (1 n)
  show ?case
  proof (cases "n < 10")
    case True
    then show ?thesis by (subst show_nat.simps) simp
  next
    case False
    then have "fst (digits (show_nat (n div 10) @ [digit_char (n mod 10)]) 0) = 10 * (n div 10) + n mod 10"
      using 1 by (intro digits_snoc show_nat_digits) simp_all
    then show ?thesis using False by (subst show_nat.simps) simp
  qed
qed

lemma digits_show_pad: "n < 10 ^ k \<Longrightarrow> fst (digits (show_pad k n) 0) = n"
proof (induction k arbitrary: n)
  case (Suc k)
  then have "n div 10 < 10 ^ k" by (simp add: less_mult_imp_div_less mult.commute)
  then have "fst (digits (show_pad k (n div 10) @ [digit_char (n mod 10)]) 0) = 10 * (n div 10) + n mod 10"
    using Suc by (intro digits_snoc show_pad_digits) simp_all
  then show ?case by simp
qed simp

lemma digits_show_nat_rest:
  assumes "rest = [] \<or> \<not> is_digit (hd rest)"
  shows "digits (show_nat n @ rest) 0 = (n, length (show_nat n), rest)"
proof -
  have "digits rest v = (v, 0, rest)" for v using assms by (cases rest) auto
  then show ?thesis
    using digits_show_nat [of n] digits_all [OF show_nat_digits, of n 0]
    by (subst digits_append [OF show_nat_digits]) (auto split: prod.splits)
qed

lemma digits_show_pad_rest:
  assumes "n < 10 ^ k" "rest = [] \<or> \<not> is_digit (hd rest)"
  shows "digits (show_pad k n @ rest) 0 = (n, k, rest)"
proof -
  have "digits rest v = (v, 0, rest)" for v using assms by (cases rest) auto
  then show ?thesis
    using digits_show_pad [OF assms(1)] digits_all [OF show_pad_digits, of k n 0]
    by (subst digits_append [OF show_pad_digits]) (auto split: prod.splits)
qed

lemma show_nat_nonempty [simp]: "show_nat n \<noteq> []"
  by (subst show_nat.simps) simp

lemma hd_show_nat: "is_digit (hd (show_nat n))"
  using show_nat_digits [of n] show_nat_nonempty [of n] by (cases "show_nat n") auto

lemma digit_plain: "is_digit c \<Longrightarrow> \<not> is_space c \<and> c \<noteq> CHR ''-'' \<and> c \<noteq> CHR ''+'' \<and> c \<noteq> CHR ''.'' \<and> c \<noteq> CHR ''='' \<and> c \<noteq> CHR '':''"
  by (auto simp: is_digit_def is_space_def)

lemma read_sign_digits: "is_digit (hd s) \<Longrightarrow> s \<noteq> [] \<Longrightarrow> read_sign (skip_space s) = (False, s)"
  using digit_plain [of "hd s"] by (cases s) (auto simp: read_sign_def skip_space_def)

lemma read_sign_minus: "read_sign (skip_space (CHR ''-'' # s)) = (True, s)"
  by (simp add: read_sign_def skip_space_def is_space_def)

lemma strtoll_show_nat: "rest = [] \<or> \<not> is_digit (hd rest) \<Longrightarrow> strtoll (show_nat n @ rest) = int n"
  using hd_show_nat [of n] digits_show_nat_rest [of rest n]
  by (simp add: strtoll_def read_sign_digits hd_append)

lemma strtoll_show_int: "strtoll (show_int i) = i"
  using strtoll_show_nat [of "[]" "nat i"] digits_show_nat_rest [of "[]" "nat (- i)"]
  by (auto simp: show_int_def strtoll_def read_sign_minus)

text \<open>The value a fixed-point print stands for.\<close>

definition fixed_value :: "nat \<Rightarrow> real \<Rightarrow> real" where
  "fixed_value prec v = (if v < 0 then - 1 else 1) * real (fixed_digits prec v) / 10 ^ prec"

lemma real_split: "real (n div 10 ^ p) + real (n mod 10 ^ p) / 10 ^ p = real n / 10 ^ p"
proof -
  have "real n = real (n div 10 ^ p) * 10 ^ p + real (n mod 10 ^ p)"
    using arg_cong [OF div_mult_mod_eq [of n "10 ^ p"], of real] by (simp only: of_nat_add of_nat_mult of_nat_power of_nat_numeral)
  then show ?thesis by (simp add: field_simps)
qed

lemma strtod_show_fixed: "strtod (show_fixed prec v) = fixed_value prec v"
proof -
  let ?n = "fixed_digits prec v"
  let ?body = "show_nat (?n div 10 ^ prec) @ (if prec = 0 then [] else ''.'' @ show_pad prec (?n mod 10 ^ prec))"
  have d: "digits ?body 0 = (?n div 10 ^ prec, length (show_nat (?n div 10 ^ prec)), if prec = 0 then [] else ''.'' @ show_pad prec (?n mod 10 ^ prec))"
    by (rule digits_show_nat_rest) (simp add: is_digit_def)
  have p: "digits (show_pad prec (?n mod 10 ^ prec)) 0 = (?n mod 10 ^ prec, prec, [])"
    using digits_show_pad_rest [of "?n mod 10 ^ prec" prec "[]"] by simp
  have s: "show_fixed prec v = (if v < 0 then CHR ''-'' # ?body else ?body)" by (simp add: show_fixed_def Let_def)
  have hb: "is_digit (hd ?body)" "?body \<noteq> []" using hd_show_nat by (simp_all add: hd_append)
  have "read_sign (skip_space (show_fixed prec v)) = (v < 0, ?body)"
    unfolding s using read_sign_digits [OF hb] read_sign_minus [of ?body] by (cases "v < 0") (simp_all only: if_True if_False)
  then show ?thesis
    unfolding strtod_def using d p real_split [of ?n prec] by (cases "prec = 0") (auto simp: fixed_value_def Let_def)
qed

lemma round_even_close: "\<bar>of_int (round_even x) - x\<bar> \<le> 1 / 2"
  unfolding round_even_def Let_def abs_le_iff by (auto; linarith)

lemma round_even_int [simp]: "round_even (of_int i) = i"
  by (simp add: round_even_def)

lemma fixed_value_close: "\<bar>fixed_value prec v - v\<bar> \<le> 1 / 2 / 10 ^ prec"
proof -
  let ?x = "\<bar>v\<bar> * 10 ^ prec"
  have "0 \<le> round_even ?x" unfolding round_even_def Let_def by auto
  then have n: "real (fixed_digits prec v) = of_int (round_even ?x)" by (simp add: fixed_digits_def)
  have "\<bar>real (fixed_digits prec v) - ?x\<bar> \<le> 1 / 2" unfolding n by (rule round_even_close)
  then have "\<bar>real (fixed_digits prec v) - ?x\<bar> / 10 ^ prec \<le> 1 / 2 / 10 ^ prec" by (intro divide_right_mono) simp_all
  moreover have "\<bar>fixed_value prec v - v\<bar> = \<bar>real (fixed_digits prec v) - ?x\<bar> / 10 ^ prec"
  proof -
    have "fixed_value prec v - v = (if v < 0 then - 1 else 1) * ((real (fixed_digits prec v) - ?x) / 10 ^ prec)"
      unfolding fixed_value_def by (cases "v < 0") (simp_all add: diff_divide_distrib)
    then show ?thesis by (simp add: abs_mult)
  qed
  ultimately show ?thesis by simp
qed

section \<open>Lengths\<close>

lemma length_show_nat: "n < 10 ^ k \<Longrightarrow> 0 < k \<Longrightarrow> length (show_nat n) \<le> k"
proof (induction n arbitrary: k rule: show_nat.induct)
  case (1 n)
  show ?case
  proof (cases "n < 10")
    case True
    then show ?thesis using 1(3) by (subst show_nat.simps) simp
  next
    case False
    then obtain j where k: "k = Suc j" "0 < j" using 1(2,3) by (cases k; cases "k - 1") auto
    then have "n div 10 < 10 ^ j" using 1(2) by (simp add: less_mult_imp_div_less mult.commute)
    then show ?thesis using 1(1) [OF False, of j] k False by (subst show_nat.simps) simp
  qed
qed

lemma fixed_digits_le: "real (fixed_digits prec v) \<le> \<bar>v\<bar> * 10 ^ prec + 1 / 2"
proof -
  have "0 \<le> round_even (\<bar>v\<bar> * 10 ^ prec)" unfolding round_even_def Let_def by auto
  then have "real (fixed_digits prec v) = of_int (round_even (\<bar>v\<bar> * 10 ^ prec))" by (simp add: fixed_digits_def)
  then show ?thesis using round_even_close [of "\<bar>v\<bar> * 10 ^ prec"] by linarith
qed

lemma length_show_fixed:
  assumes "\<bar>v\<bar> < 10 ^ k"
  shows "length (show_fixed prec v) \<le> k + prec + 3"
proof -
  let ?n = "fixed_digits prec v"
  have "\<bar>v\<bar> * 10 ^ prec \<le> 10 ^ k * 10 ^ prec" using assms by (intro mult_right_mono) simp_all
  then have "real ?n \<le> 10 ^ k * 10 ^ prec + 1 / 2" using fixed_digits_le [of prec v] by linarith
  then have "real ?n < real (10 ^ k * 10 ^ prec + 1)" by simp
  then have "?n \<le> 10 ^ k * 10 ^ prec" unfolding of_nat_less_iff by simp
  then have "?n div 10 ^ prec \<le> 10 ^ k * 10 ^ prec div 10 ^ prec" by (rule div_le_mono)
  then have "?n div 10 ^ prec \<le> 10 ^ k" by simp
  also have "\<dots> < 10 ^ Suc k" by simp
  finally have "length (show_nat (?n div 10 ^ prec)) \<le> Suc k" by (rule length_show_nat) simp
  then show ?thesis by (cases "prec = 0") (simp_all add: show_fixed_def Let_def)
qed

end
