(* ===== verification/Clock.thy ===== *)
theory Clock
  imports Complex_Main "HOL-Library.Multiset" "HOL-Library.Sublist" Text
begin

text \<open>
  The clock of \<open>src/src/core/clock.cpp\<close> and \<open>src/include/lr/clock.hpp\<close>: calibration of the tick
  counter against the raw monotonic clock, the nominal core frequency from what the kernel
  publishes, the calibration record with its provenance string, and the unit conversions.  The
  counters and the files of the host are arguments; a \<open>double\<close> is a real number and the printing
  of one by a stream is the argument \<open>show_d\<close>.
\<close>

section \<open>Calibration\<close>

text \<open>
  One repetition: the raw clock and the counter before the window, and for every poll of the
  loop what the raw clock shows and what the counter shows right after.
\<close>

record rep =
  rp_t0 :: real
  rp_c0 :: u64
  rp_now :: "nat \<Rightarrow> real"
  rp_ticks :: "nat \<Rightarrow> u64"

text \<open>The loop \<open>do ... while (now < target)\<close>; it may not end, which is the value \<open>None\<close>.\<close>

partial_function (option) poll_until :: "(nat \<Rightarrow> real) \<Rightarrow> real \<Rightarrow> nat \<Rightarrow> nat option" where
  "poll_until now goal k = (if now k < goal then poll_until now goal (Suc k) else Some k)"

definition estimate :: "real \<Rightarrow> rep \<Rightarrow> real option option" where
  "estimate window r =
     (case poll_until (rp_now r) (rp_t0 r + window) 0 of
        None \<Rightarrow> None
      | Some k \<Rightarrow>
        let elapsed = rp_now r k - rp_t0 r
        in Some (if elapsed > 0 then Some (real (unat (rp_ticks r k - rp_c0 r)) / elapsed) else None))"

fun estimates :: "real \<Rightarrow> rep list \<Rightarrow> real list option" where
  "estimates window [] = Some []"
| "estimates window (r # rs) =
     (case estimate window r of
        None \<Rightarrow> None
      | Some e \<Rightarrow>
        (case estimates window rs of
           None \<Rightarrow> None
         | Some es \<Rightarrow> Some ((case e of None \<Rightarrow> [] | Some x \<Rightarrow> [x]) @ es)))"

definition median_of :: "real list \<Rightarrow> u64" where
  "median_of est = (if est = [] then 0 else of_int \<lfloor>sort est ! (length est div 2)\<rfloor>)"

definition calibrate_ticks :: "real \<Rightarrow> rep list \<Rightarrow> u64 option" where
  "calibrate_ticks window reps = map_option median_of (estimates window reps)"

section \<open>The host's description of its clock\<close>

record clk_host =
  ch_linux :: bool
  ch_apple :: bool
  ch_x86 :: bool
  ch_cntfrq :: "u64 option"
  ch_max_freq :: "u64 option"
  ch_cpuinfo :: "string list"

definition has_flag :: "clk_host \<Rightarrow> string \<Rightarrow> bool" where
  "has_flag h flag \<longleftrightarrow> ch_linux h \<and> (\<exists>line \<in> set (ch_cpuinfo h). prefix ''flags'' line \<and> sublist flag line)"

text \<open>The text after the last occurrence of a character, if there is one.\<close>

fun after_last :: "char \<Rightarrow> string \<Rightarrow> string option" where
  "after_last c [] = None"
| "after_last c (x # xs) = (case after_last c xs of Some r \<Rightarrow> Some r | None \<Rightarrow> if x = c then Some xs else None)"

fun model_name_hz :: "string list \<Rightarrow> u64" where
  "model_name_hz [] = 0"
| "model_name_hz (line # rest) =
     (if \<not> prefix ''model name'' line then model_name_hz rest
      else case after_last (CHR ''@'') line of
             None \<Rightarrow> 0
           | Some tl1 \<Rightarrow> let ghz = strtod tl1 in if ghz > 1 / 10 then of_int \<lfloor>ghz * 10 ^ 9\<rfloor> else model_name_hz rest)"

definition read_nominal_cpu_hz :: "clk_host \<Rightarrow> u64" where
  "read_nominal_cpu_hz h =
     (if \<not> ch_linux h then 0
      else case ch_max_freq h of
             Some khz \<Rightarrow> if khz > 0 then khz * 1000 else model_name_hz (ch_cpuinfo h)
           | None \<Rightarrow> model_name_hz (ch_cpuinfo h))"

record cal =
  cal_tick_hz :: u64
  cal_cpu_hz :: u64
  cal_invariant :: bool
  cal_source :: string

definition cal_of :: "(real \<Rightarrow> string) \<Rightarrow> clk_host \<Rightarrow> rep list \<Rightarrow> cal option" where
  "cal_of show_d h reps =
     (let first = (case ch_cntfrq h of
                     Some frq \<Rightarrow> if frq > 0 then Some (frq, ''cntfrq_el0'') else None
                   | None \<Rightarrow> None);
          ts = (case first of
                  Some p \<Rightarrow> Some p
                | None \<Rightarrow> map_option (\<lambda>hz. (hz, ''calibrated-vs-CLOCK_MONOTONIC_RAW'')) (calibrate_ticks (5 / 100) reps));
          inv = (if ch_x86 h then ch_apple h \<or> (has_flag h ''constant_tsc'' \<and> has_flag h ''nonstop_tsc'') else True);
          cpu = read_nominal_cpu_hz h
      in case ts of
           None \<Rightarrow> None
         | Some (tick, src) \<Rightarrow>
           if cpu = 0
           then Some \<lparr> cal_tick_hz = tick, cal_cpu_hz = tick, cal_invariant = inv,
                       cal_source = src @ '';cycles=ticks(nominal clock not exposed)'' \<rparr>
           else Some \<lparr> cal_tick_hz = tick, cal_cpu_hz = cpu, cal_invariant = inv,
                       cal_source = src @ '';cycles=ticks*'' @ show_d (real (unat cpu) / real (unat tick)) \<rparr>)"

section \<open>Units\<close>

definition cycles_per_tick :: "cal \<Rightarrow> real" where
  "cycles_per_tick c = (if cal_tick_hz c = 0 then 1 else real (unat (cal_cpu_hz c)) / real (unat (cal_tick_hz c)))"

definition ticks_to_cycles :: "cal \<Rightarrow> u64 \<Rightarrow> real" where
  "ticks_to_cycles c t = real (unat t) * cycles_per_tick c"

definition ticks_to_ns :: "cal \<Rightarrow> u64 \<Rightarrow> real" where
  "ticks_to_ns c t = real (unat t) * 10 ^ 9 / real (unat (cal_tick_hz c))"

definition ns_to_ticks :: "cal \<Rightarrow> real \<Rightarrow> u64" where
  "ns_to_ticks c ns = of_int \<lfloor>ns * real (unat (cal_tick_hz c)) / 10 ^ 9\<rfloor>"

text \<open>The busy wait; its result is the reading that ended it.\<close>

partial_function (option) spin_until :: "(nat \<Rightarrow> u64) \<Rightarrow> u64 \<Rightarrow> nat \<Rightarrow> nat option" where
  "spin_until ticks deadline k = (if ticks k < deadline then spin_until ticks deadline (Suc k) else Some k)"

section \<open>Lemmas\<close>

text \<open>Both loops stop at the first reading that satisfies the exit condition, if there is one.\<close>

lemma poll_until_first:
  "j \<le> k \<Longrightarrow> \<not> now k < goal \<Longrightarrow> (\<And>i. j \<le> i \<Longrightarrow> i < k \<Longrightarrow> now i < goal) \<Longrightarrow> poll_until now goal j = Some k"
proof (induction "k - j" arbitrary: j)
  case 0
  then show ?case by (subst poll_until.simps) simp
next
  case (Suc d)
  then have "poll_until now goal (Suc j) = Some k" by (intro Suc.hyps(1)) simp_all
  moreover have "now j < goal" using Suc by simp
  ultimately show ?case by (subst poll_until.simps) simp
qed

lemma spin_until_first:
  "j \<le> k \<Longrightarrow> \<not> ticks k < d \<Longrightarrow> (\<And>i. j \<le> i \<Longrightarrow> i < k \<Longrightarrow> ticks i < d) \<Longrightarrow> spin_until ticks d j = Some k"
proof (induction "k - j" arbitrary: j)
  case 0
  then show ?case by (subst spin_until.simps) simp
next
  case (Suc n)
  then have "spin_until ticks d (Suc j) = Some k" by (intro Suc.hyps(1)) simp_all
  moreover have "ticks j < d" using Suc by simp
  ultimately show ?case by (subst spin_until.simps) simp
qed

lemma first_above:
  assumes "\<exists>k. \<not> P k"
  obtains k where "\<not> P k" "\<And>i. i < k \<Longrightarrow> P (i :: nat)"
  using assms exists_least_iff [of "\<lambda>k. \<not> P k"] by blast

lemma poll_until_ends: "\<exists>k. goal \<le> now k \<Longrightarrow> \<exists>k. poll_until now goal 0 = Some k \<and> goal \<le> now k"
  using first_above [of "\<lambda>k. now k < goal"] poll_until_first [of 0 _ now goal]
  by (metis le0 linorder_not_less)

text \<open>A repetition is steady when, wherever its window ends, the rate it shows is within bounds.\<close>

definition rate :: "rep \<Rightarrow> nat \<Rightarrow> real" where
  "rate r k = real (unat (rp_ticks r k - rp_c0 r)) / (rp_now r k - rp_t0 r)"

definition steady :: "real \<Rightarrow> real \<Rightarrow> real \<Rightarrow> rep \<Rightarrow> bool" where
  "steady window lo hi r \<longleftrightarrow> (\<forall>k. rp_t0 r + window \<le> rp_now r k \<longrightarrow> lo \<le> rate r k \<and> rate r k \<le> hi)"

definition window_ends :: "real \<Rightarrow> rep \<Rightarrow> bool" where
  "window_ends window r \<longleftrightarrow> (\<exists>k. rp_t0 r + window \<le> rp_now r k)"

lemma estimate_rate:
  assumes "0 < window" "window_ends window r"
  shows "\<exists>k. estimate window r = Some (Some (rate r k)) \<and> rp_t0 r + window \<le> rp_now r k"
proof -
  obtain k where k: "poll_until (rp_now r) (rp_t0 r + window) 0 = Some k" "rp_t0 r + window \<le> rp_now r k"
    using poll_until_ends [of "rp_t0 r + window" "rp_now r"] assms(2) unfolding window_ends_def by blast
  then show ?thesis using assms(1) by (intro exI [of _ k]) (simp add: estimate_def rate_def Let_def)
qed

lemma estimates_steady:
  assumes "0 < window" "\<And>r. r \<in> set reps \<Longrightarrow> window_ends window r"
  shows "\<exists>est. estimates window reps = Some est \<and> length est = length reps \<and>
     length (filter (steady window lo hi) reps) \<le> length (filter (\<lambda>x. lo \<le> x \<and> x \<le> hi) est)"
  using assms(2)
proof (induction reps)
  case (Cons r rs)
  then obtain est where e: "estimates window rs = Some est" "length est = length rs"
    "length (filter (steady window lo hi) rs) \<le> length (filter (\<lambda>x. lo \<le> x \<and> x \<le> hi) est)" by auto
  obtain k where k: "estimate window r = Some (Some (rate r k))" "rp_t0 r + window \<le> rp_now r k"
    using estimate_rate [OF assms(1)] Cons.prems by auto
  then have "steady window lo hi r \<Longrightarrow> lo \<le> rate r k \<and> rate r k \<le> hi" by (simp add: steady_def)
  then show ?case using e k by auto
qed simp

lemma median_in_majority:
  fixes ys :: "real list"
  assumes "sorted ys" "length ys < 2 * length (filter (\<lambda>x. lo \<le> x \<and> x \<le> hi) ys)"
  shows "lo \<le> ys ! (length ys div 2) \<and> ys ! (length ys div 2) \<le> hi"
proof -
  let ?m = "length ys div 2" and ?P = "\<lambda>x. lo \<le> x \<and> x \<le> hi"
  have split: "length (filter ?P ys) = length (filter ?P (take n ys)) + length (filter ?P (drop n ys))" for n
    by (metis append_take_drop_id filter_append length_append)
  have m: "?m < length ys" using assms(2) by (cases ys) simp_all
  have "lo \<le> ys ! ?m"
  proof (rule ccontr)
    assume a: "\<not> lo \<le> ys ! ?m"
    have "\<not> ?P x" if x: "x \<in> set (take (Suc ?m) ys)" for x
    proof -
      obtain i where "i < Suc ?m" "x = ys ! i" using x by (auto simp: in_set_conv_nth)
      then show ?thesis using sorted_nth_mono [OF assms(1), of i ?m] a m by auto
    qed
    then have "length (filter ?P ys) \<le> length (drop (Suc ?m) ys)"
      using split [of "Suc ?m"] length_filter_le [of ?P "drop (Suc ?m) ys"] by simp
    then show False using assms(2) m by simp
  qed
  moreover have "ys ! ?m \<le> hi"
  proof (rule ccontr)
    assume a: "\<not> ys ! ?m \<le> hi"
    have "\<not> ?P x" if x: "x \<in> set (drop ?m ys)" for x
    proof -
      obtain i where "i < length ys - ?m" "x = ys ! (?m + i)" using x by (auto simp: in_set_conv_nth)
      moreover from this have "?m + i < length ys" by simp
      ultimately show ?thesis using sorted_nth_mono [OF assms(1), of ?m "?m + i"] a by auto
    qed
    then have "length (filter ?P ys) \<le> length (take ?m ys)"
      using split [of ?m] length_filter_le [of ?P "take ?m ys"] by simp
    then show False using assms(2) by simp
  qed
  ultimately show ?thesis by blast
qed

section \<open>Properties\<close>

text \<open>
  C33. Calibration always returns on a clock that advances, and a minority of disturbed windows
  cannot bias it: when more than half of the repetitions see a rate between \<open>lo\<close> and \<open>hi\<close>, wherever
  their window ends, the frequency returned is between them, whatever the others saw.
\<close>

theorem calibrate_robust:
  assumes "0 < window" "\<And>r. r \<in> set reps \<Longrightarrow> window_ends window r"
    "length reps < 2 * length (filter (steady window lo hi) reps)" "0 \<le> lo" "hi < 2 ^ 64"
  shows "\<exists>hz. calibrate_ticks window reps = Some hz \<and> \<lfloor>lo\<rfloor> \<le> int (unat hz) \<and> int (unat hz) \<le> \<lfloor>hi\<rfloor>"
proof -
  obtain est where e: "estimates window reps = Some est" "length est = length reps"
    "length (filter (steady window lo hi) reps) \<le> length (filter (\<lambda>x. lo \<le> x \<and> x \<le> hi) est)"
    using estimates_steady [OF assms(1,2)] by blast
  have f: "length (filter P (sort est)) = length (filter P est)" for P
    by (metis mset_filter mset_sort size_mset)
  let ?x = "sort est ! (length est div 2)"
  have "length (sort est) < 2 * length (filter (\<lambda>x. lo \<le> x \<and> x \<le> hi) (sort est))"
    using e assms(3) by (simp add: f)
  then have x: "lo \<le> ?x" "?x \<le> hi" using median_in_majority [OF sorted_sort, of est lo hi] by simp_all
  then have b: "0 \<le> \<lfloor>?x\<rfloor>" "\<lfloor>?x\<rfloor> < 2 ^ 64" using assms(4,5) by (auto simp: floor_less_iff)
  have "uint (of_int \<lfloor>?x\<rfloor> :: u64) = \<lfloor>?x\<rfloor>" using b by (simp add: uint_word_of_int)
  then have "int (unat (of_int \<lfloor>?x\<rfloor> :: u64)) = \<lfloor>?x\<rfloor>" by simp
  moreover have "est \<noteq> []" using e(2) assms(3) by (cases reps) auto
  ultimately show ?thesis using e(1) floor_mono [OF x(1)] floor_mono [OF x(2)]
    by (simp add: calibrate_ticks_def median_of_def)
qed

text \<open>
  The busy wait of the open-loop generator ends when the counter reaches the deadline, at
  the first reading that does, and not before.
\<close>

theorem spin_until_first_reading:
  assumes "\<exists>k. d \<le> ticks k"
  shows "\<exists>k. spin_until ticks d 0 = Some k \<and> d \<le> ticks k \<and> (\<forall>i < k. ticks i < d)"
proof -
  obtain k where "\<not> ticks k < d" "\<And>i. i < k \<Longrightarrow> ticks i < d" using first_above [of "\<lambda>k. ticks k < d"] assms
    by (auto simp: not_less)
  then show ?thesis using spin_until_first [of 0 k ticks d] by auto
qed

definition rep_at :: "u64 \<Rightarrow> rep" where
  "rep_at c = \<lparr> rp_t0 = 0, rp_c0 = 0, rp_now = (\<lambda>k. 1), rp_ticks = (\<lambda>k. c) \<rparr>"

lemma rep_at_steady: "window_ends (1 / 2) (rep_at c)" "steady (1 / 2) lo hi (rep_at c) \<longleftrightarrow> lo \<le> real (unat c) \<and> real (unat c) \<le> hi"
  by (simp_all add: window_ends_def steady_def rate_def rep_at_def)

theorem calibrate_robust_witness:
  "\<exists>hz. calibrate_ticks (1 / 2) [rep_at 10, rep_at 9999, rep_at 10] = Some hz \<and> \<lfloor>10 :: real\<rfloor> \<le> int (unat hz) \<and> int (unat hz) \<le> \<lfloor>10 :: real\<rfloor>"
  by (rule calibrate_robust) (auto simp: rep_at_steady)

theorem spin_until_first_reading_witness: "\<exists>k. spin_until (\<lambda>k. of_nat k) 5 0 = Some k"
  using spin_until_first_reading [of 5 "\<lambda>k. of_nat k"] by (metis order_refl of_nat_numeral)

end
