(* ===== verification/Shard.thy ===== *)
theory Shard
  imports Wire Stats Clock Replay KeySchedule Transport
begin

text \<open>
  The data plane of \<open>src/src/core/worker.cpp\<close> and \<open>src/include/lr/worker.hpp\<close>: the classes \<open>Shard\<close>
  (constructor, destructor, \<open>make_packet\<close>, \<open>preload\<close>, \<open>drain\<close>, \<open>reset_stats\<close>) and \<open>Generator\<close>.  A shard
  composes the key schedule, the replay window, a cipher and a transport; its state is one record,
  threaded through the hot path packet by packet.  What the shard calls and cannot compute itself
  is an argument: the derivation and cipher factory, the counter readings, and the answers of the
  kernel to the loader, to io_uring and to the generator.
\<close>

section \<open>State\<close>

datatype source = Loopback | Wire_src

record shard_config =
  sc_cipher :: string
  sc_backend :: string
  sc_batch :: int
  sc_payload :: nat
  sc_cpu :: int
  sc_latency :: bool
  sc_replay :: bool
  sc_epoch_packets :: u64
  sc_source :: source
  sc_bind_addr :: string
  sc_bind_port :: u16
  sc_peer_addr :: string
  sc_peer_port :: u16

definition ShardConfig :: shard_config where
  "ShardConfig = \<lparr> sc_cipher = ''aes-256-gcm'', sc_backend = ''posix'', sc_batch = 1, sc_payload = 512, sc_cpu = - 1,
     sc_latency = False, sc_replay = True, sc_epoch_packets = 0, sc_source = Loopback, sc_bind_addr = ''127.0.0.1'',
     sc_bind_port = 0, sc_peer_addr = [], sc_peer_port = 0 \<rparr>"

record shard_stats =
  st_packets :: u64
  st_bytes :: u64
  st_auth_fail :: u64
  st_replay_drop :: u64
  st_rekeys :: u64
  st_ticks_busy :: u64
  st_syscalls :: u64
  st_lat :: latency_hist

definition ShardStats :: shard_stats where
  "ShardStats = \<lparr> st_packets = 0, st_bytes = 0, st_auth_fail = 0, st_replay_drop = 0, st_rekeys = 0, st_ticks_busy = 0,
     st_syscalls = 0, st_lat = LatencyHist \<rparr>"

text \<open>
  \<open>sh_reads\<close> counts the readings of the tick counter and \<open>sh_pinned\<close> records the processor the
  constructing thread asked to be pinned to; both stand for effects outside the object.  The
  arenas are held by the slots that point into them.
\<close>

record shard =
  sh_cfg :: shard_config
  sh_keys :: "key_schedule option"
  sh_replay :: "replay_window option"
  sh_tx :: "transport option"
  sh_plain :: bytes
  sh_rslots :: "pbuf list"
  sh_sslots :: "pbuf list"
  sh_loader_fd :: int
  sh_hole_fd :: int
  sh_port :: u16
  sh_hole_port :: u16
  sh_syscall_base :: u64
  sh_seq :: u64
  sh_st :: shard_stats
  sh_reads :: nat
  sh_pinned :: "int option"

datatype load_res = Queued | Dropped | Load_failed

record shard_env =
  se_hkdf :: hkdf_lib
  se_mk :: factory
  se_cal :: cal
  se_ticks :: "nat \<Rightarrow> u64"
  se_ring :: "transport \<Rightarrow> ring"
  se_sends :: "transport \<Rightarrow> (nat \<times> nat) list"
  se_load :: "u64 \<Rightarrow> load_res"

definition wire_len :: "shard_config \<Rightarrow> nat" where
  "wire_len cfg = LR_HDR + sc_payload cfg + LR_TAG"

section \<open>Construction\<close>

definition INADDR_LOOPBACK :: u32 where "INADDR_LOOPBACK = 0x7F000001"

definition open_udp :: "string \<Rightarrow> int \<Rightarrow> int \<Rightarrow> os \<Rightarrow> (u16 \<times> int) option \<times> os" where
  "open_udp addr rcvbuf sndbuf os =
     (case os_socket os (os_fds os) of
        None \<Rightarrow> (None, os)
      | Some fd \<Rightarrow>
        let opts = (if rcvbuf > 0 then [(fd, ''SO_RCVBUF'', rcvbuf)] else []) @ (if sndbuf > 0 then [(fd, ''SO_SNDBUF'', sndbuf)] else []);
            os' = os\<lparr> os_fds := insert fd (os_fds os), os_opts := os_opts os @ opts \<rparr>;
            a = (if addr = [] \<or> addr = ''127.0.0.1'' then INADDR_LOOPBACK
                 else case os_pton os addr of Some a \<Rightarrow> a | None \<Rightarrow> 0)
        in case os_bind os a 0 of
             Some e \<Rightarrow> (None, os'\<lparr> os_fds := os_fds os' - {fd} \<rparr>)
           | None \<Rightarrow>
             (Some (case os_sockname os fd of None \<Rightarrow> 0 | Some p \<Rightarrow> p, fd),
              os'\<lparr> os_opts := os_opts os' @ [(fd, ''O_NONBLOCK'', 1)] \<rparr>))"

definition new_slots :: "nat \<Rightarrow> nat \<Rightarrow> pbuf list" where
  "new_slots n cap = replicate n \<lparr> pb_base = replicate cap 0, pb_cap = cap, pb_len = 0 \<rparr>"

definition plaintext :: "nat \<Rightarrow> bytes" where
  "plaintext payload = map (\<lambda>i. of_nat (i * 31 + 7)) [0..<payload] @ replicate 64 0"

text \<open>The body of the constructor from the transport on.\<close>

definition shard_buffers :: "transport \<Rightarrow> shard \<Rightarrow> shard" where
  "shard_buffers t s =
     (let wl = wire_len (sh_cfg s); slots = nat (max_batch t)
      in s\<lparr> sh_plain := plaintext (sc_payload (sh_cfg s)), sh_rslots := new_slots slots (wl + 64),
            sh_sslots := new_slots slots (wl + 64) \<rparr>)"

definition shard_open :: "transport_config \<Rightarrow> shard \<Rightarrow> os \<Rightarrow> shard \<times> string option \<times> os" where
  "shard_open tc s os =
     (case make_transport tc os of
        (Inl e, os) \<Rightarrow> (s, Some e, os)
      | (Inr t, os) \<Rightarrow>
        let s = s\<lparr> sh_tx := Some t, sh_port := transport_local_port os t \<rparr>
        in if sc_source (sh_cfg s) = Loopback
           then (case open_udp ''127.0.0.1'' 1024 33554432 os of
                   (None, os) \<Rightarrow> (s, Some ''loader socket failed'', os)
                 | (Some (_, fd), os) \<Rightarrow> (shard_buffers t (s\<lparr> sh_loader_fd := fd \<rparr>), None, os))
           else (shard_buffers t s, None, os))"

definition clamp_payload :: "shard_config \<Rightarrow> shard_config" where
  "clamp_payload cfg = (if sc_payload cfg > LR_MAX_PAYLOAD then cfg\<lparr> sc_payload := LR_MAX_PAYLOAD \<rparr> else cfg)"

text \<open>The object after its key schedule is built: members at their initial values.\<close>

definition keyed_shard :: "shard_env \<Rightarrow> shard_config \<Rightarrow> bytes \<Rightarrow> shard" where
  "keyed_shard env cfg secret =
     \<lparr> sh_cfg = cfg,
       sh_keys = Some (KeySchedule (se_hkdf env) (se_mk env) (take 32 secret) (sc_cipher cfg) (sc_epoch_packets cfg)),
       sh_replay = None, sh_tx = None, sh_plain = [], sh_rslots = [], sh_sslots = [],
       sh_loader_fd = - 1, sh_hole_fd = - 1, sh_port = 0, sh_hole_port = 0, sh_syscall_base = 0, sh_seq = 0,
       sh_st = ShardStats, sh_reads = 0, sh_pinned = (if sc_cpu cfg \<ge> 0 then Some (sc_cpu cfg) else None) \<rparr>"

definition base_tc :: "shard_config \<Rightarrow> transport_config" where
  "base_tc cfg = TransportConfig\<lparr> tc_backend := sc_backend cfg, tc_batch := sc_batch cfg, tc_reuseport := False \<rparr>"

definition wire_tc :: "shard_config \<Rightarrow> transport_config" where
  "wire_tc cfg = (base_tc cfg)\<lparr> tc_bind_addr := (if sc_bind_addr cfg = [] then ''0.0.0.0'' else sc_bind_addr cfg),
     tc_bind_port := sc_bind_port cfg,
     tc_peer_addr := (if sc_peer_addr cfg = [] then ''127.0.0.1'' else sc_peer_addr cfg),
     tc_peer_port := sc_peer_port cfg \<rparr>"

definition Shard :: "shard_env \<Rightarrow> shard_config \<Rightarrow> bytes \<Rightarrow> os \<Rightarrow> shard \<times> string option \<times> os" where
  "Shard env cfg secret os =
     (let cfg = clamp_payload cfg;
          s = keyed_shard env cfg secret
      in if for_epoch (the (sh_keys s)) 0 = None then (s, Some (''unknown cipher: '' @ sc_cipher cfg), os)
         else let s = (if sc_replay cfg then s\<lparr> sh_replay := Some (ReplayWindow 1024) \<rparr> else s)
         in if sc_source cfg = Wire_src then shard_open (wire_tc cfg) s os
            else case open_udp ''127.0.0.1'' 1024 1024 os of
                   (None, os) \<Rightarrow> (s, Some ''black-hole socket failed'', os)
                 | (Some (hole_port, hole_fd), os) \<Rightarrow>
                   shard_open ((base_tc cfg)\<lparr> tc_bind_addr := ''127.0.0.1'', tc_peer_addr := ''127.0.0.1'', tc_peer_port := hole_port \<rparr>)
                     (s\<lparr> sh_hole_fd := hole_fd, sh_hole_port := hole_port \<rparr>) os)"

text \<open>The destructor closes the two sockets of its own; destroying the transport closes the third.\<close>

definition shard_free :: "shard \<Rightarrow> os \<Rightarrow> os" where
  "shard_free s os =
     os\<lparr> os_fds := os_fds os - (if sh_loader_fd s \<ge> 0 then {sh_loader_fd s} else {}) -
                    (if sh_hole_fd s \<ge> 0 then {sh_hole_fd s} else {}) -
                    (case sh_tx s of None \<Rightarrow> {} | Some t \<Rightarrow> {t_fd t}) \<rparr>"

definition reset_stats :: "shard \<Rightarrow> shard" where
  "reset_stats s = s\<lparr> sh_st := ShardStats, sh_syscall_base := (case sh_tx s of Some t \<Rightarrow> t_sys t | None \<Rightarrow> 0) \<rparr>"

definition aead_backend :: "simd_state \<Rightarrow> shard \<Rightarrow> string" where
  "aead_backend g s = (case sh_keys s of Some ks \<Rightarrow> cipher_backend g ks | None \<Rightarrow> ''none'')"

section \<open>Building packets\<close>

text \<open>One reading of the tick counter.\<close>

definition read_ticks :: "shard_env \<Rightarrow> shard \<Rightarrow> u64 \<times> shard" where
  "read_ticks env s = (se_ticks env (sh_reads s), s\<lparr> sh_reads := Suc (sh_reads s) \<rparr>)"

text \<open>
  \<open>make_packet\<close>: the result is what is in the caller's buffer up to the returned length, \<open>None\<close>
  for a length of 0.  The key schedule is not null in any shard the program uses.
\<close>

definition make_packet :: "shard_env \<Rightarrow> u64 \<Rightarrow> shard \<Rightarrow> bytes option \<times> shard" where
  "make_packet env sq s =
     (case sh_keys s of
        None \<Rightarrow> (None, s)
      | Some ks \<Rightarrow>
        let ks = snd (maybe_rekey (se_hkdf env) (se_mk env) sq ks); s = s\<lparr> sh_keys := Some ks \<rparr>
        in case for_epoch ks (ks_epoch ks) of
             None \<Rightarrow> (None, s)
           | Some a \<Rightarrow>
             (case read_ticks env s of (now, s) \<Rightarrow>
              let h = \<lparr> wh_magic = LR_MAGIC, wh_type = WT_DATA, wh_epoch = ks_epoch ks, wh_flags = 0, wh_seq = sq, wh_tsc = now \<rparr>
              in (map_option (\<lambda>ct. hdr_bytes h @ ct)
                    (a_seal a (ks_nonce ks (wh_epoch h) (wh_seq h)) (hdr_bytes h) (take (sc_payload (sh_cfg s)) (sh_plain s))), s)))"

definition tx_enqueue :: "bytes \<Rightarrow> shard \<Rightarrow> shard" where
  "tx_enqueue p s = s\<lparr> sh_tx := map_option (\<lambda>t. t\<lparr> t_sock := (t_sock t)\<lparr> rxq := rxq (t_sock t) @ [p] \<rparr> \<rparr>) (sh_tx s) \<rparr>"

fun preload_loop :: "shard_env \<Rightarrow> nat \<Rightarrow> int \<Rightarrow> shard \<Rightarrow> int \<times> shard" where
  "preload_loop env 0 ok s = (ok, s)"
| "preload_loop env (Suc n) ok s =
     (case make_packet env (sh_seq s) (s\<lparr> sh_seq := sh_seq s + 1 \<rparr>) of
        (None, s) \<Rightarrow> (ok, s)
      | (Some p, s') \<Rightarrow>
        (case se_load env (sh_seq s) of
           Queued \<Rightarrow> preload_loop env n (ok + 1) (tx_enqueue p s')
         | Dropped \<Rightarrow> preload_loop env n (ok + 1) s'
         | Load_failed \<Rightarrow> preload_loop env n ok s'))"

definition preload :: "shard_env \<Rightarrow> int \<Rightarrow> shard \<Rightarrow> int \<times> shard" where
  "preload env n s =
     (if sc_source (sh_cfg s) \<noteq> Loopback \<or> sh_loader_fd s < 0 then (0, s)
      else preload_loop env (nat n) 0 s)"

section \<open>The hot path\<close>

text \<open>Writing into a fixed buffer.\<close>

definition put :: "bytes \<Rightarrow> bytes \<Rightarrow> bytes" where
  "put src buf = src @ drop (length src) buf"

definition upd_st :: "(shard_stats \<Rightarrow> shard_stats) \<Rightarrow> shard \<Rightarrow> shard" where
  "upd_st f s = s\<lparr> sh_st := f (sh_st s) \<rparr>"

definition replay_check :: "u64 \<Rightarrow> shard \<Rightarrow> bool \<times> shard" where
  "replay_check sq s =
     (case sh_replay s of
        None \<Rightarrow> (True, s)
      | Some rw \<Rightarrow> (case accept rw sq of (ok, rw) \<Rightarrow> (ok, s\<lparr> sh_replay := Some rw \<rparr>)))"

text \<open>Decryption of one packet into the staging buffer.\<close>

definition open_packet :: "key_schedule \<Rightarrow> wire_hdr \<Rightarrow> bytes \<Rightarrow> shard \<Rightarrow> nat option \<times> shard" where
  "open_packet ks h p s =
     (case for_epoch ks (wh_epoch h) of
        None \<Rightarrow> (None, upd_st (\<lambda>st. st\<lparr> st_auth_fail := st_auth_fail st + 1 \<rparr>) s)
      | Some a \<Rightarrow>
        (case a_open a (ks_nonce ks (wh_epoch h) (wh_seq h)) (take LR_HDR p) (drop LR_HDR p) of (r, out) \<Rightarrow>
         let s = s\<lparr> sh_plain := put out (sh_plain s) \<rparr>
         in case r of
              None \<Rightarrow> (None, upd_st (\<lambda>st. st\<lparr> st_auth_fail := st_auth_fail st + 1 \<rparr>) s)
            | Some pt \<Rightarrow> (Some (length pt), s)))"

text \<open>Re-encryption under the next sequence number into transmit slot \<open>k\<close>; \<open>None\<close> is \<open>continue\<close>.\<close>

definition reseal :: "shard_env \<Rightarrow> wire_hdr \<Rightarrow> nat \<Rightarrow> nat \<Rightarrow> shard \<Rightarrow> bool \<times> shard" where
  "reseal env h pl k s =
     (let oseq = sh_seq s; s = s\<lparr> sh_seq := oseq + 1 \<rparr>
      in case sh_keys s of
           None \<Rightarrow> (False, s)
         | Some ks \<Rightarrow>
           (case maybe_rekey (se_hkdf env) (se_mk env) oseq ks of (rk, ks) \<Rightarrow>
            let s = s\<lparr> sh_keys := Some ks \<rparr>;
                s = (if rk then upd_st (\<lambda>st. st\<lparr> st_rekeys := st_rekeys st + 1 \<rparr>) s else s)
            in case for_epoch ks (ks_epoch ks) of
                 None \<Rightarrow> (False, s)
               | Some ao \<Rightarrow>
                 let oh = h\<lparr> wh_epoch := ks_epoch ks, wh_seq := oseq \<rparr>;
                     b = sh_sslots s ! k; b = b\<lparr> pb_base := put (hdr_bytes oh) (pb_base b) \<rparr>;
                     s = s\<lparr> sh_sslots := (sh_sslots s)[k := b] \<rparr>
                 in case a_seal ao (ks_nonce ks (wh_epoch oh) (wh_seq oh)) (hdr_bytes oh) (take pl (sh_plain s)) of
                      None \<Rightarrow> (False, s)
                    | Some ct \<Rightarrow>
                      (True, s\<lparr> sh_sslots := (sh_sslots s)[k := b\<lparr> pb_base := put (hdr_bytes oh @ ct) (pb_base b),
                                                                    pb_len := LR_HDR + length ct \<rparr>] \<rparr>)))"

definition count_packet :: "shard_env \<Rightarrow> wire_hdr \<Rightarrow> nat \<Rightarrow> shard \<Rightarrow> shard" where
  "count_packet env h pl s =
     (let s = upd_st (\<lambda>st. st\<lparr> st_packets := st_packets st + 1, st_bytes := st_bytes st + of_nat pl \<rparr>) s
      in if sc_latency (sh_cfg s)
         then (case read_ticks env s of (now, s) \<Rightarrow>
               upd_st (\<lambda>st. st\<lparr> st_lat := lh_add (ticks_to_ns (se_cal env) (now - wh_tsc h)) (st_lat st) \<rparr>) s)
         else s)"

text \<open>The body of the loop over the received packets, for slot \<open>i\<close>.\<close>

definition drain_packet :: "shard_env \<Rightarrow> nat \<Rightarrow> nat \<times> shard \<Rightarrow> nat \<times> shard" where
  "drain_packet env i ks_s =
     (case ks_s of (to_send, s) \<Rightarrow>
      let p = pb_data (sh_rslots s ! i)
      in if length p < LR_HDR + LR_TAG then (to_send, s)
      else let h = hdr_of p
      in if wh_magic h \<noteq> LR_MAGIC then (to_send, s)
      else case replay_check (wh_seq h) s of (ok, s) \<Rightarrow>
      if \<not> ok then (to_send, upd_st (\<lambda>st. st\<lparr> st_replay_drop := st_replay_drop st + 1 \<rparr>) s)
      else case sh_keys s of
        None \<Rightarrow> (to_send, s)
      | Some ks \<Rightarrow>
        (case open_packet ks h p s of
           (None, s) \<Rightarrow> (to_send, s)
         | (Some pl, s) \<Rightarrow>
           (case reseal env h pl to_send s of
              (False, s) \<Rightarrow> (to_send, s)
            | (True, s) \<Rightarrow> (Suc to_send, count_packet env h pl s))))"

fun transport_recv :: "shard_env \<Rightarrow> pbuf list \<Rightarrow> int \<Rightarrow> transport \<Rightarrow> nat \<times> pbuf list \<times> transport" where
  "transport_recv env bufs n t =
     (case t_backend t of
        Posix \<Rightarrow> posix_recv_batch bufs n t
      | Mmsg \<Rightarrow> mmsg_recv_batch bufs n t
      | Uring _ \<Rightarrow> uring_recv_batch (se_ring env t) bufs n t)"

fun transport_send :: "shard_env \<Rightarrow> pbuf list \<Rightarrow> nat \<Rightarrow> transport \<Rightarrow> nat \<times> transport" where
  "transport_send env bufs n t =
     (case t_backend t of
        Posix \<Rightarrow> posix_send_batch bufs n t
      | Mmsg \<Rightarrow> mmsg_send_batch bufs n t
      | Uring _ \<Rightarrow> uring_send_batch (se_sends env t) bufs n t)"

text \<open>One turn of the outer loop: receive, process every packet, transmit what was re-encrypted.\<close>

definition drain_batch :: "shard_env \<Rightarrow> transport \<Rightarrow> int \<Rightarrow> shard \<Rightarrow> nat \<times> shard" where
  "drain_batch env t want s =
     (case transport_recv env (sh_rslots s) want t of (n, rs, t) \<Rightarrow>
      let s = s\<lparr> sh_rslots := rs, sh_tx := Some t \<rparr>
      in if n = 0 then (0, s)
         else case fold (drain_packet env) [0..<n] (0, s) of (to_send, s) \<Rightarrow>
           (n, if to_send > 0
               then s\<lparr> sh_tx := Some (snd (transport_send env (sh_sslots s) to_send t)) \<rparr>
               else s))"

function drain_loop :: "shard_env \<Rightarrow> int \<Rightarrow> int \<Rightarrow> shard \<Rightarrow> int \<times> shard" where
  "drain_loop env budget processed s =
     (case sh_tx s of
        None \<Rightarrow> (processed, s)
      | Some t \<Rightarrow>
        if processed < budget
        then (case drain_batch env t (min (budget - processed) (max_batch t)) s of (n, s) \<Rightarrow>
              if n = 0 then (processed, s) else drain_loop env budget (processed + int n) s)
        else (processed, s))"
  by pat_completeness auto
termination
  by (relation "measure (\<lambda>(env, budget, processed, s). nat (budget - processed))") auto

declare drain_loop.simps [simp del]

definition drain :: "shard_env \<Rightarrow> int \<Rightarrow> shard \<Rightarrow> int \<times> shard" where
  "drain env budget s =
     (case read_ticks env s of (t0, s) \<Rightarrow>
      case drain_loop env budget 0 s of (processed, s) \<Rightarrow>
      case read_ticks env s of (t1, s) \<Rightarrow>
      (processed,
       upd_st (\<lambda>st. st\<lparr> st_ticks_busy := st_ticks_busy st + (t1 - t0),
                        st_syscalls := (case sh_tx s of Some t \<Rightarrow> t_sys t | None \<Rightarrow> 0) - sh_syscall_base s \<rparr>) s))"

section \<open>The generator\<close>

record generator =
  g_fd :: int
  g_buf_len :: nat
  g_dst :: "(u32 \<times> u16) option"
  g_sent :: u64
  g_refused :: u64

definition Generator :: "shard \<Rightarrow> string \<Rightarrow> u16 \<Rightarrow> os \<Rightarrow> generator \<times> string option \<times> os" where
  "Generator proto dst_addr dst_port os =
     (let loop = (dst_addr = [] \<or> dst_addr = ''127.0.0.1'');
          g = \<lparr> g_fd = - 1, g_buf_len = 0, g_dst = None, g_sent = 0, g_refused = 0 \<rparr>
      in case open_udp (if loop then ''127.0.0.1'' else ''0.0.0.0'') 1024 33554432 os of
           (None, os) \<Rightarrow> (g, Some ''generator socket failed'', os)
         | (Some (_, fd), os) \<Rightarrow>
           let g = g\<lparr> g_fd := fd, g_buf_len := wire_len (sh_cfg proto) + 64 \<rparr>
           in if loop then (g\<lparr> g_dst := Some (INADDR_LOOPBACK, dst_port) \<rparr>, None, os)
              else case os_pton os dst_addr of
                     None \<Rightarrow> (g, Some (''bad destination address: '' @ dst_addr), os)
                   | Some a \<Rightarrow> (g\<lparr> g_dst := Some (a, dst_port) \<rparr>, None, os))"

text \<open>\<open>emit\<close>: \<open>sendto\<close> is an argument that says whether the kernel took the datagram.\<close>

definition emit :: "shard_env \<Rightarrow> (bytes \<Rightarrow> bool) \<Rightarrow> u64 \<Rightarrow> generator \<times> shard \<Rightarrow> bool \<times> generator \<times> shard" where
  "emit env sendto sq gs =
     (case gs of (g, s) \<Rightarrow>
      if g_fd g < 0 \<or> g_dst g = None then (False, g\<lparr> g_refused := g_refused g + 1 \<rparr>, s)
      else case make_packet env sq s of
             (None, s) \<Rightarrow> (False, g\<lparr> g_refused := g_refused g + 1 \<rparr>, s)
           | (Some p, s) \<Rightarrow>
             if sendto p then (True, g\<lparr> g_sent := g_sent g + 1 \<rparr>, s)
             else (False, g\<lparr> g_refused := g_refused g + 1 \<rparr>, s))"

section \<open>Invariant\<close>

text \<open>What the shard relies on in a cipher: the contract of the interface with tags of 16 bytes.\<close>

definition cipher_ok :: "aead \<Rightarrow> bool" where
  "cipher_ok a \<longleftrightarrow> aead_ok a \<and> a_tag_len a = 16"

lemma cipher_okD:
  assumes "cipher_ok a"
  shows "a_seal a n x p = Some c \<Longrightarrow> length c = length p + 16"
    and "a_seal a n x p = Some c \<Longrightarrow> fst (a_open a n x c) = Some p"
    and "fst (a_open a n x c) = Some p \<Longrightarrow> length c = length p + 16 \<and> snd (a_open a n x c) = p"
    and "length (snd (a_open a n x c)) \<le> length c - 16"
  using assms aead_contract.seal_length [of "a_seal a" "a_open a" "a_tag_len a"]
    aead_contract.open_seal [of "a_seal a" "a_open a" "a_tag_len a"]
    aead_contract.open_length [of "a_seal a" "a_open a" "a_tag_len a"]
    aead_contract.open_out [of "a_seal a" "a_open a" "a_tag_len a"]
    aead_contract.open_bound [of "a_seal a" "a_open a" "a_tag_len a"]
  unfolding cipher_ok_def by metis+

definition slot_cap :: "shard \<Rightarrow> nat" where
  "slot_cap s = wire_len (sh_cfg s) + 64"

definition env_good :: "shard_env \<Rightarrow> string \<Rightarrow> bool" where
  "env_good env cipher \<longleftrightarrow> hkdf_len (se_hkdf env) \<and> mk_ok cipher_ok (se_mk env) cipher"

definition tx_inv :: "shard \<Rightarrow> bool" where
  "tx_inv s \<longleftrightarrow> (\<exists>t. sh_tx s = Some t \<and> 1 \<le> t_batch t \<and> length (sh_rslots s) = nat (max_batch t) \<and>
     length (sh_sslots s) = nat (max_batch t))"

definition mem_inv :: "shard \<Rightarrow> bool" where
  "mem_inv s \<longleftrightarrow> length (sh_plain s) = sc_payload (sh_cfg s) + 64 \<and>
     slots_ok (slot_cap s) (sh_rslots s) \<and> slots_ok (slot_cap s) (sh_sslots s)"

definition keys_inv :: "shard \<Rightarrow> bool" where
  "keys_inv s \<longleftrightarrow> (\<exists>ks. sh_keys s = Some ks \<and> ks_inv cipher_ok ks \<and> ks_cipher ks = sc_cipher (sh_cfg s)) \<and>
     (\<forall>rw. sh_replay s = Some rw \<longrightarrow> rw_inv rw)"

definition shard_inv :: "shard \<Rightarrow> bool" where
  "shard_inv s \<longleftrightarrow> mem_inv s \<and> keys_inv s \<and> tx_inv s"

lemmas shard_inv_defs = shard_inv_def mem_inv_def keys_inv_def tx_inv_def slot_cap_def

lemma length_put [simp, len_simps]: "length src \<le> length buf \<Longrightarrow> length (put src buf) = length buf"
  by (simp add: put_def)

lemma take_put: "take (length src) (put src buf) = src"
  by (simp add: put_def)

subsection \<open>What each step leaves alone\<close>

lemma upd_st_fields [simp]:
  "sh_cfg (upd_st f s) = sh_cfg s" "sh_keys (upd_st f s) = sh_keys s" "sh_replay (upd_st f s) = sh_replay s"
  "sh_tx (upd_st f s) = sh_tx s" "sh_plain (upd_st f s) = sh_plain s" "sh_rslots (upd_st f s) = sh_rslots s"
  "sh_sslots (upd_st f s) = sh_sslots s" "sh_seq (upd_st f s) = sh_seq s" "sh_st (upd_st f s) = f (sh_st s)"
  "sh_syscall_base (upd_st f s) = sh_syscall_base s" "sh_loader_fd (upd_st f s) = sh_loader_fd s"
  by (simp_all add: upd_st_def)

lemma upd_st_inv [simp]: "shard_inv (upd_st f s) = shard_inv s"
  by (simp add: shard_inv_defs)

lemma reads_inv [simp]: "shard_inv (s\<lparr> sh_reads := k \<rparr>) = shard_inv s" "shard_inv (s\<lparr> sh_seq := q \<rparr>) = shard_inv s"
  "shard_inv (s\<lparr> sh_st := st \<rparr>) = shard_inv s"
  by (simp_all add: shard_inv_defs)

lemma read_ticks_eq: "read_ticks env s = (se_ticks env (sh_reads s), s\<lparr> sh_reads := Suc (sh_reads s) \<rparr>)"
  by (simp add: read_ticks_def)

definition same_frame :: "shard \<Rightarrow> shard \<Rightarrow> bool" where
  "same_frame s s' \<longleftrightarrow> sh_cfg s' = sh_cfg s \<and> sh_tx s' = sh_tx s \<and> sh_rslots s' = sh_rslots s \<and>
     length (sh_sslots s') = length (sh_sslots s) \<and> sh_syscall_base s' = sh_syscall_base s"

lemma same_frame_refl [simp]: "same_frame s s" by (simp add: same_frame_def)

lemma same_frame_trans: "same_frame s s' \<Longrightarrow> same_frame s' s'' \<Longrightarrow> same_frame s s''"
  by (simp add: same_frame_def)

subsection \<open>Preservation, step by step\<close>

lemma replay_check_inv:
  assumes "shard_inv s" "replay_check sq s = (ok, s')"
  shows "shard_inv s' \<and> same_frame s s' \<and> sh_st s' = sh_st s \<and> sh_keys s' = sh_keys s \<and> sh_seq s' = sh_seq s \<and>
     sh_plain s' = sh_plain s \<and> sh_sslots s' = sh_sslots s"
proof (cases "sh_replay s")
  case None
  then show ?thesis using assms by (simp add: replay_check_def)
next
  case (Some rw)
  then have "rw_inv rw" using assms(1) by (simp add: shard_inv_defs)
  then have "rw_inv (snd (accept rw sq))" using accept_refines(1) [of rw sq] by (metis prod.collapse)
  then show ?thesis using assms Some by (auto simp: replay_check_def shard_inv_defs same_frame_def split: prod.splits)
qed

lemma mem_inv_plain: "mem_inv s \<Longrightarrow> length b = length (sh_plain s) \<Longrightarrow> mem_inv (s\<lparr> sh_plain := b \<rparr>)"
  by (simp add: mem_inv_def slot_cap_def)

lemma shard_inv_plain: "shard_inv s \<Longrightarrow> length b = length (sh_plain s) \<Longrightarrow> shard_inv (s\<lparr> sh_plain := b \<rparr>)"
  by (simp add: shard_inv_def mem_inv_plain keys_inv_def tx_inv_def)

lemma open_packet_inv:
  assumes "shard_inv s" "sh_keys s = Some ks" "length p \<le> slot_cap s" "open_packet ks h p s = (r, s')"
  shows "shard_inv s' \<and> same_frame s s' \<and> sh_keys s' = Some ks \<and> sh_seq s' = sh_seq s \<and> sh_sslots s' = sh_sslots s \<and>
    (case r of None \<Rightarrow> sh_st s' = (sh_st s)\<lparr> st_auth_fail := st_auth_fail (sh_st s) + 1 \<rparr>
     | Some pl \<Rightarrow> sh_st s' = sh_st s \<and> (\<exists>a. for_epoch ks (wh_epoch h) = Some a \<and>
         fst (a_open a (ks_nonce ks (wh_epoch h) (wh_seq h)) (take 24 p) (drop 24 p)) = Some (take pl (sh_plain s'))) \<and>
         pl \<le> sc_payload (sh_cfg s) + 64 \<and> length p = 24 + pl + 16)"
proof (cases "for_epoch ks (wh_epoch h)")
  case None
  then show ?thesis using assms by (auto simp: open_packet_def same_frame_def)
next
  case (Some a)
  have a: "cipher_ok a" using for_epoch_ok [OF _ Some] assms(1,2) by (auto simp: shard_inv_defs)
  let ?n = "ks_nonce ks (wh_epoch h) (wh_seq h)"
  obtain x out where o: "a_open a ?n (take 24 p) (drop 24 p) = (x, out)" by (cases "a_open a ?n (take 24 p) (drop 24 p)")
  have "length out \<le> length (drop 24 p) - 16"
    using cipher_okD(4) [OF a, of ?n "take 24 p" "drop 24 p"] o by simp
  then have out: "length out \<le> length (sh_plain s)"
    using assms(1,3) by (simp add: shard_inv_defs wire_len_def LR_HDR_def LR_TAG_def)
  then have i: "shard_inv (s\<lparr> sh_plain := put out (sh_plain s) \<rparr>)" using assms(1) by (simp add: shard_inv_plain)
  have e: "x = Some pt \<Longrightarrow> out = pt \<and> length (drop 24 p) = length pt + 16" for pt
    using cipher_okD(3) [OF a, of ?n "take 24 p" "drop 24 p" pt] o by simp
  have "length (sh_plain s) = sc_payload (sh_cfg s) + 64" using assms(1) by (simp add: shard_inv_defs)
  then show ?thesis
    using assms(2,4) Some o i out e
    by (cases x) (auto simp: open_packet_def same_frame_def LR_HDR_def Let_def take_put)
qed

lemma slots_ok_set:
  assumes "slots_ok C bs" "k < length bs" "pb_cap b = C" "length (pb_base b) = C" "pb_len b \<le> C"
  shows "slots_ok C (bs[k := b])"
  using assms unfolding slots_ok_def by (metis in_set_conv_nth length_list_update nth_list_update)

lemma shard_inv_slots: "shard_inv s \<Longrightarrow> slots_ok (slot_cap s) bs \<Longrightarrow> length bs = length (sh_sslots s) \<Longrightarrow> shard_inv (s\<lparr> sh_sslots := bs \<rparr>)"
  by (simp add: shard_inv_defs)

lemma shard_inv_keys:
  "shard_inv s \<Longrightarrow> ks_inv cipher_ok ks \<Longrightarrow> ks_cipher ks = sc_cipher (sh_cfg s) \<Longrightarrow> shard_inv (s\<lparr> sh_keys := Some ks \<rparr>)"
  by (auto simp: shard_inv_defs)

lemma maybe_rekey_cipher_inv:
  assumes "env_good env (ks_cipher ks)" "ks_inv cipher_ok ks" "maybe_rekey (se_hkdf env) (se_mk env) sq ks = (rk, ks')"
  shows "ks_inv cipher_ok ks'" "ks_cipher ks' = ks_cipher ks"
  using rekey_run_inv [of "se_hkdf env" cipher_ok "se_mk env" ks "[sq]"] rekey_run_enter_fields(2) [of "se_hkdf env" "se_mk env" "[sq]" ks] assms
  by (simp_all add: env_good_def)

text \<open>
  The transmit slot after a successful re-encryption: a header that keeps everything of the
  received one but the epoch and the sequence number, and the plaintext sealed under it.
\<close>

definition resealed :: "shard_env \<Rightarrow> wire_hdr \<Rightarrow> bytes \<Rightarrow> shard \<Rightarrow> bytes \<Rightarrow> bool" where
  "resealed env h pt s out \<longleftrightarrow> (\<exists>ks ks' rk ao ct oh.
     sh_keys s = Some ks \<and> maybe_rekey (se_hkdf env) (se_mk env) (sh_seq s) ks = (rk, ks') \<and>
     for_epoch ks' (ks_epoch ks') = Some ao \<and> oh = h\<lparr> wh_epoch := ks_epoch ks', wh_seq := sh_seq s \<rparr> \<and>
     a_seal ao (ks_nonce ks' (ks_epoch ks') (sh_seq s)) (hdr_bytes oh) pt = Some ct \<and> out = hdr_bytes oh @ ct)"

lemma reseal_inv:
  assumes inv: "shard_inv s" and good: "env_good env (sc_cipher (sh_cfg s))" and k: "k < length (sh_sslots s)"
    and pl: "pl \<le> sc_payload (sh_cfg s) + 64" and r: "reseal env h pl k s = (ok, s')"
  shows "shard_inv s' \<and> same_frame s s' \<and> sh_seq s' = sh_seq s + 1 \<and> sh_plain s' = sh_plain s \<and> sh_replay s' = sh_replay s \<and>
     (\<exists>rk. sh_st s' = (sh_st s)\<lparr> st_rekeys := st_rekeys (sh_st s) + of_bool rk \<rparr>) \<and>
     (\<forall>j. j \<noteq> k \<longrightarrow> sh_sslots s' ! j = sh_sslots s ! j) \<and>
     (ok \<longrightarrow> resealed env h (take pl (sh_plain s)) s (pb_data (sh_sslots s' ! k)))"
proof -
  obtain ks where ks: "sh_keys s = Some ks" "ks_inv cipher_ok ks" "ks_cipher ks = sc_cipher (sh_cfg s)"
    using inv by (auto simp: shard_inv_defs)
  obtain rk ks' where m: "maybe_rekey (se_hkdf env) (se_mk env) (sh_seq s) ks = (rk, ks')"
    by (cases "maybe_rekey (se_hkdf env) (se_mk env) (sh_seq s) ks")
  note ki = maybe_rekey_cipher_inv [OF _ ks(2) m]
  have good': "env_good env (ks_cipher ks)" using good ks by simp
  define s1 where "s1 = s\<lparr> sh_seq := sh_seq s + 1, sh_keys := Some ks',
      sh_st := (sh_st s)\<lparr> st_rekeys := st_rekeys (sh_st s) + of_bool rk \<rparr> \<rparr>"
  have s1: "shard_inv s1" unfolding s1_def using inv shard_inv_keys [of "s\<lparr> sh_seq := sh_seq s + 1 \<rparr>" ks'] ki [OF good'] ks by simp
  have eq: "(let s = s\<lparr> sh_seq := sh_seq s + 1, sh_keys := Some ks' \<rparr>
             in if rk then upd_st (\<lambda>st. st\<lparr> st_rekeys := st_rekeys st + 1 \<rparr>) s else s) = s1"
    by (simp add: s1_def upd_st_def)
  show ?thesis
  proof (cases "for_epoch ks' (ks_epoch ks')")
    case None
    then show ?thesis using r s1 ks m eq by (auto simp: reseal_def same_frame_def Let_def s1_def)
  next
    case (Some ao)
    then have ao: "cipher_ok ao" using for_epoch_ok [OF ki(1) [OF good']] by simp
    define oh where "oh = h\<lparr> wh_epoch := ks_epoch ks', wh_seq := sh_seq s \<rparr>"
    define b where "b = sh_sslots s ! k"
    define b1 where "b1 = b\<lparr> pb_base := put (hdr_bytes oh) (pb_base b) \<rparr>"
    have C: "slot_cap s = sc_payload (sh_cfg s) + 104" by (simp add: slot_cap_def wire_len_def LR_HDR_def LR_TAG_def)
    have sl: "slots_ok (slot_cap s) (sh_sslots s)" using inv by (simp add: shard_inv_defs)
    then have b: "pb_cap b = slot_cap s" "length (pb_base b) = slot_cap s" "pb_len b \<le> slot_cap s"
      using k by (auto simp: b_def slots_ok_def)
    then have b1: "pb_cap b1 = slot_cap s" "length (pb_base b1) = slot_cap s" "pb_len b1 \<le> slot_cap s"
      using C by (simp_all add: b1_def)
    define s2 where "s2 = s1\<lparr> sh_sslots := (sh_sslots s)[k := b1] \<rparr>"
    have s1f: "sh_sslots s1 = sh_sslots s" "slot_cap s1 = slot_cap s" "sh_plain s1 = sh_plain s" by (simp_all add: s1_def slot_cap_def)
    have s2: "shard_inv s2" unfolding s2_def using s1 s1f slots_ok_set [OF sl k b1] by (intro shard_inv_slots) simp_all
    show ?thesis
    proof (cases "a_seal ao (ks_nonce ks' (ks_epoch ks') (sh_seq s)) (hdr_bytes oh) (take pl (sh_plain s))")
      case None
      then have "(ok, s') = (False, s2)"
        using r ks m Some eq by (simp add: reseal_def Let_def oh_def b_def b1_def s2_def s1_def upd_st_def split: if_splits)
      then show ?thesis using s2 by (auto simp: s2_def s1_def same_frame_def)
    next
      case (Some ct)
      have "length (sh_plain s) = sc_payload (sh_cfg s) + 64" using inv by (simp add: shard_inv_defs)
      then have ct: "length ct = pl + 16" using cipher_okD(1) [OF ao Some] pl by simp
      define b2 where "b2 = b1\<lparr> pb_base := put (hdr_bytes oh @ ct) (pb_base b1), pb_len := 24 + length ct \<rparr>"
      have b2: "pb_cap b2 = slot_cap s" "length (pb_base b2) = slot_cap s" "pb_len b2 \<le> slot_cap s"
        using b1 ct pl C by (simp_all add: b2_def)
      have e: "(ok, s') = (True, s2\<lparr> sh_sslots := (sh_sslots s)[k := b2] \<rparr>)"
        using r ks m \<open>for_epoch ks' (ks_epoch ks') = Some ao\<close> Some eq
        by (simp add: reseal_def Let_def oh_def b_def b1_def b2_def s2_def s1_def upd_st_def LR_HDR_def split: if_splits)
      have "pb_data b2 = hdr_bytes oh @ ct" using b2 by (simp add: pb_data_def b2_def put_def)
      then have "resealed env h (take pl (sh_plain s)) s (pb_data (sh_sslots s' ! k))"
        unfolding resealed_def using e ks m \<open>for_epoch ks' (ks_epoch ks') = Some ao\<close> Some k oh_def by auto
      moreover have "shard_inv s'"
        using e s2 slots_ok_set [OF sl k b2] shard_inv_slots [of s2 "(sh_sslots s)[k := b2]"] by (simp add: s2_def slot_cap_def s1_def)
      ultimately show ?thesis using e by (auto simp: s2_def s1_def same_frame_def)
    qed
  qed
qed

lemma resealed_cong: "sh_keys s' = sh_keys s \<Longrightarrow> sh_seq s' = sh_seq s \<Longrightarrow> resealed env h pt s' out = resealed env h pt s out"
  by (simp add: resealed_def)

lemma count_packet_inv:
  "shard_inv (count_packet env h pl s) = shard_inv s" "same_frame s (count_packet env h pl s)"
  "sh_keys (count_packet env h pl s) = sh_keys s" "sh_sslots (count_packet env h pl s) = sh_sslots s"
  "sh_seq (count_packet env h pl s) = sh_seq s" "sh_replay (count_packet env h pl s) = sh_replay s" "sh_plain (count_packet env h pl s) = sh_plain s"
  "st_packets (sh_st (count_packet env h pl s)) = st_packets (sh_st s) + 1"
  "st_auth_fail (sh_st (count_packet env h pl s)) = st_auth_fail (sh_st s)"
  "st_replay_drop (sh_st (count_packet env h pl s)) = st_replay_drop (sh_st s)"
  by (simp_all add: count_packet_def read_ticks_def same_frame_def upd_st_def Let_def)

definition well_formed :: "bytes \<Rightarrow> bool" where
  "well_formed p \<longleftrightarrow> LR_HDR + LR_TAG \<le> length p \<and> wh_magic (hdr_of p) = LR_MAGIC"

text \<open>What it takes for a received packet to be sent on.\<close>

definition forwarded :: "shard_env \<Rightarrow> shard \<Rightarrow> bytes \<Rightarrow> bytes \<Rightarrow> bool" where
  "forwarded env s p out \<longleftrightarrow> well_formed p \<and> (\<exists>ks a pt. sh_keys s = Some ks \<and> for_epoch ks (wh_epoch (hdr_of p)) = Some a \<and>
     fst (a_open a (ks_nonce ks (wh_epoch (hdr_of p)) (wh_seq (hdr_of p))) (take 24 p) (drop 24 p)) = Some pt \<and>
     resealed env (hdr_of p) pt s out)"

text \<open>Live keys: the current epoch has a cipher, and no cipher refuses to seal.\<close>

definition cipher_live :: "aead \<Rightarrow> bool" where
  "cipher_live a \<longleftrightarrow> (\<forall>n x p. a_seal a n x p \<noteq> None)"

definition keys_live :: "shard \<Rightarrow> bool" where
  "keys_live s \<longleftrightarrow> (\<exists>ks. sh_keys s = Some ks \<and> ks_aead0 ks \<noteq> None \<and> ks_inv cipher_live ks)"

definition env_live :: "shard_env \<Rightarrow> string \<Rightarrow> bool" where
  "env_live env cipher \<longleftrightarrow> hkdf_len (se_hkdf env) \<and> (\<forall>k. se_mk env cipher k \<noteq> None) \<and> mk_ok cipher_live (se_mk env) cipher"

lemma maybe_rekey_live:
  assumes "env_live env (ks_cipher ks)" "ks_aead0 ks \<noteq> None" "ks_inv cipher_live ks"
    "maybe_rekey (se_hkdf env) (se_mk env) sq ks = (rk, ks')"
  shows "ks_aead0 ks' \<noteq> None" "ks_inv cipher_live ks'"
proof -
  have m: "mk_ok cipher_live (se_mk env) (ks_cipher ks)" "hkdf_len (se_hkdf env)" using assms(1) by (simp_all add: env_live_def)
  show "ks_inv cipher_live ks'"
    using rekey_run_inv [OF m(2,1) assms(3), of "[sq]"] assms(4) by simp
  have k: "ks_aead0 (derive (se_hkdf env) (se_mk env) e (ks\<lparr> ks_epoch := e \<rparr>)) \<noteq> None" for e
    using derive_slot0(1) [of "se_hkdf env" "se_mk env" e "ks\<lparr> ks_epoch := e \<rparr>"] assms(1) unfolding env_live_def by auto
  show "ks_aead0 ks' \<noteq> None"
    using assms(2,4) k unfolding maybe_rekey_def Let_def by (auto split: if_splits)
qed

lemma for_epoch_current: "ks_inv P ks \<Longrightarrow> for_epoch ks (ks_epoch ks) = (if ks_aead0 ks \<noteq> None then ks_aead0 ks else None)"
  by (auto simp: for_epoch_def ks_inv_def)

lemma reseal_live:
  assumes "keys_live s" "\<And>ks. sh_keys s = Some ks \<Longrightarrow> env_live env (ks_cipher ks)" "reseal env h pl k s = (ok, s')"
  shows "ok" "keys_live s'"
proof -
  obtain ks where ks: "sh_keys s = Some ks" "ks_aead0 ks \<noteq> None" "ks_inv cipher_live ks" using assms(1) by (auto simp: keys_live_def)
  obtain rk ks' where m: "maybe_rekey (se_hkdf env) (se_mk env) (sh_seq s) ks = (rk, ks')"
    by (cases "maybe_rekey (se_hkdf env) (se_mk env) (sh_seq s) ks")
  note l = maybe_rekey_live [OF assms(2) [OF ks(1)] ks(2,3) m]
  obtain a where a: "ks_aead0 ks' = Some a" using l(1) by auto
  then have f: "for_epoch ks' (ks_epoch ks') = Some a" using for_epoch_current [OF l(2)] by simp
  obtain ct where "a_seal a (ks_nonce ks' (ks_epoch ks') (sh_seq s)) (hdr_bytes (h\<lparr>wh_epoch := ks_epoch ks', wh_seq := sh_seq s\<rparr>))
      (take pl (sh_plain s)) = Some ct"
    using l(2) a unfolding ks_inv_def cipher_live_def by blast
  then have "ok \<and> sh_keys s' = Some ks'"
    using assms(3) ks(1) m f by (auto simp: reseal_def Let_def split: if_splits)
  then show "ok" "keys_live s'" using l by (auto simp: keys_live_def)
qed

definition tally :: "shard \<Rightarrow> u64" where
  "tally s = st_packets (sh_st s) + st_auth_fail (sh_st s) + st_replay_drop (sh_st s)"

text \<open>
  One packet: the invariant holds again, a packet is queued for transmission exactly when it is
  counted, it is queued only if it was authenticated and sealed again, and when the keys are live
  every well-formed packet moves exactly one counter.
\<close>

lemma drain_packet_step:
  assumes inv: "shard_inv s" and good: "env_good env (sc_cipher (sh_cfg s))" and k: "k < length (sh_sslots s)"
    and i: "i < length (sh_rslots s)" and d: "drain_packet env i (k, s) = (k', s')"
  defines "p \<equiv> pb_data (sh_rslots s ! i)"
  shows "shard_inv s' \<and> same_frame s s' \<and> (\<forall>j < k. sh_sslots s' ! j = sh_sslots s ! j) \<and>
     (k' = k \<and> st_packets (sh_st s') = st_packets (sh_st s) \<or>
      k' = Suc k \<and> st_packets (sh_st s') = st_packets (sh_st s) + 1 \<and> forwarded env s p (pb_data (sh_sslots s' ! k))) \<and>
     (keys_live s \<and> env_live env (sc_cipher (sh_cfg s)) \<longrightarrow>
        keys_live s' \<and> tally s' = tally s + of_bool (well_formed p))"
proof -
  have len: "length p \<le> slot_cap s"
    using inv i unfolding p_def pb_data_def shard_inv_defs slots_ok_def by (auto simp: min.coboundedI1)
  obtain ks where ks: "sh_keys s = Some ks" using inv by (auto simp: shard_inv_defs)
  have cipher: "sh_keys s = Some ks' \<Longrightarrow> ks_cipher ks' = sc_cipher (sh_cfg s)" for ks' using inv by (auto simp: shard_inv_defs)
  show ?thesis
  proof (cases "well_formed p")
    case False
    then have "(k', s') = (k, s)" using d False unfolding drain_packet_def well_formed_def p_def Let_def by (auto split: if_splits)
    then show ?thesis using inv False by simp
  next
    case wf: True
    obtain ok s1 where r: "replay_check (wh_seq (hdr_of p)) s = (ok, s1)" by (cases "replay_check (wh_seq (hdr_of p)) s")
    note i1 = replay_check_inv [OF inv r]
    then have ks1: "sh_keys s1 = Some ks" and len1: "length p \<le> slot_cap s1"
      using ks len by (simp_all add: same_frame_def slot_cap_def)
    show ?thesis
    proof (cases ok)
      case False
      then have "(k', s') = (k, upd_st (\<lambda>st. st\<lparr> st_replay_drop := st_replay_drop st + 1 \<rparr>) s1)"
        using d r wf by (simp add: drain_packet_def well_formed_def p_def Let_def)
      then show ?thesis using i1 wf by (simp add: same_frame_def tally_def keys_live_def)
    next
      case True
      obtain x s2 where o: "open_packet ks (hdr_of p) p s1 = (x, s2)" by (cases "open_packet ks (hdr_of p) p s1")
      note i2 = open_packet_inv [OF conjunct1 [OF i1] ks1 len1 o]
      show ?thesis
      proof (cases x)
        case None
        then have "(k', s') = (k, s2)"
          using d r wf True ks1 o by (simp add: drain_packet_def well_formed_def p_def Let_def)
        then show ?thesis using i1 i2 None wf ks by (auto simp: same_frame_def tally_def keys_live_def)
      next
        case (Some pl)
        obtain ok2 s3 where rs: "reseal env (hdr_of p) pl k s2 = (ok2, s3)" by (cases "reseal env (hdr_of p) pl k s2")
        have f2: "same_frame s s2" "sh_sslots s2 = sh_sslots s" "sh_keys s2 = sh_keys s" "sh_seq s2 = sh_seq s" "sh_st s2 = sh_st s"
          using i1 i2 Some ks same_frame_trans by auto
        have c2: "sh_cfg s2 = sh_cfg s" using f2 by (simp add: same_frame_def)
        have b2: "pl \<le> sc_payload (sh_cfg s2) + 64" using i1 i2 Some by (auto simp: same_frame_def)
        have i3: "shard_inv s3 \<and> same_frame s2 s3 \<and> (\<forall>j. j \<noteq> k \<longrightarrow> sh_sslots s3 ! j = sh_sslots s2 ! j) \<and>
            (\<exists>rk. sh_st s3 = (sh_st s2)\<lparr> st_rekeys := st_rekeys (sh_st s2) + of_bool rk \<rparr>) \<and>
            (ok2 \<longrightarrow> resealed env (hdr_of p) (take pl (sh_plain s2)) s2 (pb_data (sh_sslots s3 ! k)))"
          using reseal_inv [OF conjunct1 [OF i2] _ _ b2 rs] good k f2 c2 by auto
        have live: "ok2 \<and> keys_live s3" if "keys_live s" "env_live env (sc_cipher (sh_cfg s))"
          using reseal_live [OF _ _ rs] that f2 cipher by (simp add: keys_live_def)
        have f3: "same_frame s s3" using f2(1) i3 same_frame_trans by blast
        show ?thesis
        proof (cases ok2)
          case False
          then have "(k', s') = (k, s3)"
            using d r wf True ks1 o Some rs by (simp add: drain_packet_def well_formed_def p_def Let_def)
          then show ?thesis using i3 f2 f3 live False by auto
        next
          case True
          then have e: "(k', s') = (Suc k, count_packet env (hdr_of p) pl s3)"
            using d r wf \<open>ok\<close> ks1 o Some rs by (simp add: drain_packet_def well_formed_def p_def Let_def)
          have "forwarded env s p (pb_data (sh_sslots s3 ! k))"
            unfolding forwarded_def using wf ks i2 i3 True Some resealed_cong [OF f2(3,4)] by auto
          then show ?thesis
            using e i3 f2 f3 live wf
              same_frame_trans [OF f3 count_packet_inv(2) [of s3 env "hdr_of p" pl]]
            by (auto simp: count_packet_inv tally_def keys_live_def)
        qed
      qed
    qed
  qed
qed

lemma keys_live_frame: "same_frame s s' \<Longrightarrow> sh_cfg s' = sh_cfg s"
  by (simp add: same_frame_def)

lemma take_Suc_map: "n < length xs \<Longrightarrow> map f (take (Suc n) xs) = map f (take n xs) @ [f (xs ! n)]"
  by (simp add: take_Suc_conv_app_nth)

lemma drain_packets_step:
  assumes inv: "shard_inv s" and good: "env_good env (sc_cipher (sh_cfg s))"
    and n: "n \<le> length (sh_rslots s)" "n \<le> length (sh_sslots s)" and d: "fold (drain_packet env) [0..<n] (0, s) = (k', s')"
  shows "shard_inv s' \<and> same_frame s s' \<and> k' \<le> n \<and> st_packets (sh_st s') = st_packets (sh_st s) + of_nat k' \<and>
     (\<forall>j < k'. \<exists>i s''. i < n \<and> shard_inv s'' \<and> same_frame s s'' \<and>
        forwarded env s'' (pb_data (sh_rslots s ! i)) (pb_data (sh_sslots s' ! j))) \<and>
     (keys_live s \<and> env_live env (sc_cipher (sh_cfg s)) \<longrightarrow>
        keys_live s' \<and> tally s' = tally s + of_nat (length (filter well_formed (map pb_data (take n (sh_rslots s))))))"
  using n d
proof (induction n arbitrary: k' s')
  case 0
  then show ?case using inv by simp
next
  case (Suc n)
  obtain k1 s1 where f: "fold (drain_packet env) [0..<n] (0, s) = (k1, s1)" by (cases "fold (drain_packet env) [0..<n] (0, s)")
  note IH = Suc.IH [OF _ _ f]
  have IH: "shard_inv s1" "same_frame s s1" "k1 \<le> n" "st_packets (sh_st s1) = st_packets (sh_st s) + of_nat k1"
    "\<And>j. j < k1 \<Longrightarrow> \<exists>i s''. i < n \<and> shard_inv s'' \<and> same_frame s s'' \<and>
        forwarded env s'' (pb_data (sh_rslots s ! i)) (pb_data (sh_sslots s1 ! j))"
    "keys_live s \<and> env_live env (sc_cipher (sh_cfg s)) \<Longrightarrow> keys_live s1 \<and>
        tally s1 = tally s + of_nat (length (filter well_formed (map pb_data (take n (sh_rslots s)))))"
    using IH Suc.prems(1,2) by simp_all
  have d: "drain_packet env n (k1, s1) = (k', s')" using Suc.prems(3) f by simp
  have fr: "sh_cfg s1 = sh_cfg s" "sh_rslots s1 = sh_rslots s" "length (sh_sslots s1) = length (sh_sslots s)"
    using IH(2) by (simp_all add: same_frame_def)
  have st: "shard_inv s'" "same_frame s1 s'" "\<forall>j < k1. sh_sslots s' ! j = sh_sslots s1 ! j"
    "k' = k1 \<and> st_packets (sh_st s') = st_packets (sh_st s1) \<or>
      k' = Suc k1 \<and> st_packets (sh_st s') = st_packets (sh_st s1) + 1 \<and>
      forwarded env s1 (pb_data (sh_rslots s ! n)) (pb_data (sh_sslots s' ! k1))"
    "keys_live s1 \<and> env_live env (sc_cipher (sh_cfg s)) \<longrightarrow>
        keys_live s' \<and> tally s' = tally s1 + of_bool (well_formed (pb_data (sh_rslots s ! n)))"
    using drain_packet_step [OF IH(1) _ _ _ d] good fr IH(3) Suc.prems(1,2) by simp_all
  have fw: "\<exists>i s''. i < Suc n \<and> shard_inv s'' \<and> same_frame s s'' \<and>
        forwarded env s'' (pb_data (sh_rslots s ! i)) (pb_data (sh_sslots s' ! j))" if "j < k'" for j
  proof (cases "j < k1")
    case True
    then show ?thesis using IH(5) [OF True] st(3) by (metis less_SucI)
  next
    case False
    then have "j = k1" "forwarded env s1 (pb_data (sh_rslots s ! n)) (pb_data (sh_sslots s' ! k1))" using that st(4) by auto
    then show ?thesis using IH(1,2) by (intro exI [of _ n] exI [of _ s1]) simp
  qed
  have m: "map pb_data (take (Suc n) (sh_rslots s)) = map pb_data (take n (sh_rslots s)) @ [pb_data (sh_rslots s ! n)]"
    using Suc.prems(1) by (intro take_Suc_map) simp
  show ?case
    unfolding m using st(1,4,5) fw same_frame_trans [OF IH(2) st(2)] IH(3,4,6) by (auto simp: add.assoc)
qed

subsection \<open>The transport under a shard\<close>

definition recv_safe :: "nat \<Rightarrow> pbuf list \<Rightarrow> transport \<Rightarrow> nat \<Rightarrow> nat \<times> pbuf list \<times> transport \<Rightarrow> bool" where
  "recv_safe C bufs t m r \<longleftrightarrow> (case r of (n, bufs', t') \<Rightarrow>
     n \<le> m \<and> slots_ok C bufs' \<and> length bufs' = length bufs \<and> t_backend t' = t_backend t \<and> t_batch t' = t_batch t)"

lemma slots_ok_fill: "slots_ok C bs \<Longrightarrow> slots_ok C (bs[i := fill (bs ! i) d])"
  by (cases "i < length bs") (simp_all add: slots_ok_update list_update_beyond)

lemma posix_recv_safe:
  "slots_ok C bufs \<Longrightarrow> n + k \<le> m \<Longrightarrow> recv_safe C bufs t m (posix_recv_loop n k bufs t)"
proof (induction n k bufs t rule: posix_recv_loop.induct)
  case (2 n k bufs t)
  then show ?case
    by (cases "rxq (t_sock t)") (auto simp: recv_safe_def slots_ok_fill Let_def split: prod.splits)
qed (simp add: recv_safe_def)

lemma fill_all_safe: "slots_ok C bufs \<Longrightarrow> slots_ok C (fill_all i ds bufs) \<and> length (fill_all i ds bufs) = length bufs"
  by (induction i ds bufs rule: fill_all.induct) (simp_all add: slots_ok_fill)

lemma uring_complete_safe:
  "slots_ok C bufs \<Longrightarrow> (case uring_complete k got sq rg bufs sys of (n, bufs', _) \<Rightarrow>
     n \<le> got + k \<and> slots_ok C bufs' \<and> length bufs' = length bufs)"
proof (induction k arbitrary: got rg bufs sys)
  case (Suc k)
  obtain c rg' sys' where e: "uring_next got sq rg sys = (c, rg', sys')" by (metis prod_cases3)
  show ?case
  proof (cases c)
    case None
    then show ?thesis using e Suc.prems by simp
  next
    case (Some c)
    let ?b = "bufs[cq_idx c := fill (bufs ! cq_idx c) (take (nat (cq_res c)) (cq_data c))]"
    show ?thesis
      using e Some Suc.prems Suc.IH [OF Suc.prems, of got rg' sys'] Suc.IH [of ?b "got + 1" rg' sys'] slots_ok_fill [OF Suc.prems]
      by (auto split: prod.splits)
  qed
qed simp

lemma transport_recv_safe:
  assumes "slots_ok C bufs"
  shows "recv_safe C bufs t (nat n) (transport_recv env bufs n t)"
proof (cases "t_backend t")
  case Posix
  then show ?thesis using posix_recv_safe [OF assms, of 0 "nat n" "nat n" t] by (simp add: posix_recv_batch_def)
next
  case Mmsg
  then show ?thesis using fill_all_safe [OF assms] assms
    by (auto simp: recv_safe_def mmsg_recv_batch_def Let_def split: if_splits)
next
  case (Uring b)
  define m where "m = (if n > t_batch t then t_batch t else n)"
  define c where "c = min (nat m) (rg_sqes (se_ring env t))"
  define sys where "sys = (if b then t_sys t else t_sys t + 1)"
  obtain got bufs' sys' where u: "uring_complete c 0 b (se_ring env t) bufs sys = (got, bufs', sys')" by (metis prod_cases3)
  have "got \<le> c \<and> slots_ok C bufs' \<and> length bufs' = length bufs"
    using uring_complete_safe [OF assms, where k = c and got = 0 and sq = b and rg = "se_ring env t" and sys = sys] u by simp
  moreover have "c \<le> nat n" by (auto simp: c_def m_def)
  moreover have "transport_recv env bufs n t =
      (if m \<le> 0 then (0, bufs, t) else if c = 0 then (0, bufs, t)
       else if \<not> rg_submit_ok (se_ring env t) then (0, bufs, t\<lparr> t_sys := sys \<rparr>) else (got, bufs', t\<lparr> t_sys := sys' \<rparr>))"
    unfolding transport_recv.simps uring_recv_batch_def Let_def Uring backend.case m_def [symmetric] c_def [symmetric] sys_def [symmetric]
    by (simp add: u)
  ultimately show ?thesis using assms by (simp add: recv_safe_def)
qed

lemma posix_send_safe: "t_backend (snd (posix_send_loop k bs t)) = t_backend t \<and> t_batch (snd (posix_send_loop k bs t)) = t_batch t"
  by (intro conjI posix_send_preserves) simp_all

lemma mmsg_send_safe: "t_backend (snd (mmsg_send_loop k bs t)) = t_backend t \<and> t_batch (snd (mmsg_send_loop k bs t)) = t_batch t"
  by (intro conjI mmsg_send_preserves) simp_all

lemma uring_send_safe: "t_backend (snd (uring_send_loop k rs bs t)) = t_backend t \<and> t_batch (snd (uring_send_loop k rs bs t)) = t_batch t"
  by (induction k rs bs t rule: uring_send_loop.induct) (auto simp: Let_def)

lemma transport_send_safe: "t_backend (snd (transport_send env bs n t)) = t_backend t \<and> t_batch (snd (transport_send env bs n t)) = t_batch t"
  by (cases "t_backend t")
    (simp_all add: posix_send_batch_def posix_send_safe mmsg_send_batch_def mmsg_send_safe uring_send_batch_def uring_send_safe)

lemma max_batch_cong: "t_backend t' = t_backend t \<Longrightarrow> t_batch t' = t_batch t \<Longrightarrow> max_batch t' = max_batch t"
  by (simp add: max_batch_def split: backend.split)

lemma shard_inv_tx:
  "shard_inv s \<Longrightarrow> sh_tx s = Some t \<Longrightarrow> t_backend t' = t_backend t \<Longrightarrow> t_batch t' = t_batch t \<Longrightarrow>
   slots_ok (slot_cap s) rs \<Longrightarrow> length rs = length (sh_rslots s) \<Longrightarrow> shard_inv (s\<lparr> sh_rslots := rs, sh_tx := Some t' \<rparr>)"
  using max_batch_cong [of t' t] by (simp add: shard_inv_defs)

text \<open>
  One batch.  \<open>forwarded\<close> speaks of a state of the shard during the batch, in which the packet was
  opened and sealed; \<open>rs\<close> are the slots as the transport filled them.
\<close>

lemma drain_batch_step:
  assumes inv: "shard_inv s" and good: "env_good env (sc_cipher (sh_cfg s))" and t: "sh_tx s = Some t"
    and want: "nat want \<le> length (sh_rslots s)" and d: "drain_batch env t want s = (n, s')"
  obtains rs t' where "transport_recv env (sh_rslots s) want t = (n, rs, t')"
    "shard_inv s'" "sh_cfg s' = sh_cfg s" "n \<le> nat want"
    "\<exists>t'' bs k. sh_tx s' = Some t'' \<and> t_backend t'' = t_backend t \<and> t_batch t'' = t_batch t \<and>
       (t'' = t' \<or> t'' = snd (transport_send env bs k t'))"
    "length (sh_rslots s') = length (sh_rslots s)"
    "keys_live s \<and> env_live env (sc_cipher (sh_cfg s)) \<Longrightarrow>
       keys_live s' \<and> tally s' = tally s + of_nat (length (filter well_formed (map pb_data (take n rs))))"
proof -
  obtain n0 rs t1 where r: "transport_recv env (sh_rslots s) want t = (n0, rs, t1)" by (metis prod_cases3)
  have sl: "slots_ok (slot_cap s) (sh_rslots s)" using inv by (simp add: shard_inv_defs)
  have rs: "n0 \<le> nat want" "slots_ok (slot_cap s) rs" "length rs = length (sh_rslots s)" "t_backend t1 = t_backend t" "t_batch t1 = t_batch t"
    using transport_recv_safe [OF sl, of t want env] r by (simp_all add: recv_safe_def)
  define s1 where "s1 = s\<lparr> sh_rslots := rs, sh_tx := Some t1 \<rparr>"
  have i1: "shard_inv s1" unfolding s1_def using inv t rs by (intro shard_inv_tx)
  have f1: "sh_rslots s1 = rs" "sh_cfg s1 = sh_cfg s" "keys_live s1 = keys_live s" "tally s1 = tally s"
    by (simp_all add: s1_def keys_live_def tally_def)
  have eqlen: "length (sh_sslots s) = length (sh_rslots s)" using inv by (auto simp: shard_inv_defs)
  show thesis
  proof (cases "n0 = 0")
    case True
    then have "(n, s') = (0, s1)" using d r by (simp add: drain_batch_def s1_def)
    then show thesis using that [of rs t1] r True i1 f1 rs by (simp add: s1_def)
  next
    case False
    obtain k s2 where f: "fold (drain_packet env) [0..<n0] (0, s1) = (k, s2)" by (cases "fold (drain_packet env) [0..<n0] (0, s1)")
    have "n0 \<le> length (sh_rslots s1)" "n0 \<le> length (sh_sslots s1)" using rs want f1 eqlen by (simp_all add: s1_def)
    note p = drain_packets_step [OF i1 _ this f]
    have p: "shard_inv s2" "same_frame s1 s2"
      "keys_live s \<and> env_live env (sc_cipher (sh_cfg s)) \<Longrightarrow>
        keys_live s2 \<and> tally s2 = tally s + of_nat (length (filter well_formed (map pb_data (take n0 rs))))"
      using p good f1 by simp_all
    define t2 where "t2 = (if k > 0 then snd (transport_send env (sh_sslots s2) k t1) else t1)"
    have t2: "t_backend t2 = t_backend t" "t_batch t2 = t_batch t"
      using transport_send_safe [of env "sh_sslots s2" k t1] rs by (simp_all add: t2_def)
    have tx2: "sh_tx s2 = Some t1" "sh_rslots s2 = rs" using p(2) by (simp_all add: same_frame_def s1_def)
    have e: "(n, s') = (n0, s2\<lparr> sh_tx := Some t2 \<rparr>)"
      using d r f False tx2 by (auto simp: drain_batch_def s1_def t2_def)
    have "shard_inv (s2\<lparr> sh_rslots := sh_rslots s2, sh_tx := Some t2 \<rparr>)"
      using p(1) t2 rs tx2 by (intro shard_inv_tx [OF p(1) tx2(1)]) (simp_all add: shard_inv_defs)
    then have "shard_inv s'" using e by simp
    moreover have "t2 = t1 \<or> (\<exists>bs k. t2 = snd (transport_send env bs k t1))" unfolding t2_def by auto
    ultimately show thesis using that [of rs t1] e r rs p t2 tx2 f1 by (auto simp: same_frame_def keys_live_def tally_def)
  qed
qed

lemma slots_wanted: "shard_inv s \<Longrightarrow> sh_tx s = Some t \<Longrightarrow> nat (min x (max_batch t)) \<le> length (sh_rslots s)"
  by (auto simp: shard_inv_defs)

lemma drain_loop_inv:
  "shard_inv s \<Longrightarrow> env_good env (sc_cipher (sh_cfg s)) \<Longrightarrow> drain_loop env budget processed s = (m, s') \<Longrightarrow>
   shard_inv s' \<and> sh_cfg s' = sh_cfg s \<and> processed \<le> m \<and> (m \<le> budget \<or> m = processed) \<and>
   (keys_live s \<and> env_live env (sc_cipher (sh_cfg s)) \<longrightarrow> keys_live s')"
proof (induction env budget processed s arbitrary: m s' rule: drain_loop.induct)
  case (1 env budget processed s)
  obtain t where t: "sh_tx s = Some t" using 1(2) by (auto simp: shard_inv_defs)
  show ?case
  proof (cases "processed < budget")
    case True
    obtain n s1 where d: "drain_batch env t (min (budget - processed) (max_batch t)) s = (n, s1)"
      by (cases "drain_batch env t (min (budget - processed) (max_batch t)) s")
    show ?thesis
    proof (rule drain_batch_step [OF 1(2,3) t slots_wanted [OF 1(2) t] d])
      fix rs t'
      assume b: "shard_inv s1" "sh_cfg s1 = sh_cfg s" "n \<le> nat (min (budget - processed) (max_batch t))"
        "keys_live s \<and> env_live env (sc_cipher (sh_cfg s)) \<Longrightarrow>
          keys_live s1 \<and> tally s1 = tally s + of_nat (length (filter well_formed (map pb_data (take n rs))))"
      show ?thesis
      proof (cases "n = 0")
        case True
        then have "(m, s') = (processed, s1)" using 1(4) \<open>processed < budget\<close> t d by (simp add: drain_loop.simps [of _ _ _ s])
        then show ?thesis using b by simp
      next
        case False
        then have "drain_loop env budget (processed + int n) s1 = (m, s')"
          using 1(4) \<open>processed < budget\<close> t d by (simp add: drain_loop.simps [of _ _ _ s])
        then show ?thesis
          using 1(1) [OF t \<open>processed < budget\<close> d [symmetric] False b(1), of m s'] 1(3) b False by auto
      qed
    qed
  next
    case False
    then have "(m, s') = (processed, s)" using 1(4) t by (simp add: drain_loop.simps [of _ _ _ s])
    then show ?thesis using 1(2) by simp
  qed
qed

section \<open>Every state of a shard's life\<close>

lemma new_slots_ok: "slots_ok C (new_slots n C)" "length (new_slots n C) = n"
  by (auto simp: slots_ok_def new_slots_def)

lemma shard_buffers_inv:
  assumes "keys_inv s" "sh_tx s = Some t" "1 \<le> t_batch t"
  shows "shard_inv (shard_buffers t s)"
  using assms by (auto simp: shard_buffers_def shard_inv_defs new_slots_ok Let_def plaintext_def)

lemma make_transport_batch: "fst (make_transport tc os) = Inr t \<Longrightarrow> 1 \<le> t_batch t"
  by (auto simp: make_transport_def make_transport_posix_def make_transport_mmsg_def make_transport_uring_def clamp_batch_def
      new_transport_def Let_def split: if_splits sum.splits prod.splits option.splits)

lemma shard_open_inv:
  assumes "keys_inv s" "shard_open tc s os = (s', None, os')"
  shows "shard_inv s'"
proof (cases "make_transport tc os")
  case (Pair r os1)
  then obtain t where r: "make_transport tc os = (Inr t, os1)" using assms(2) by (cases r) (auto simp: shard_open_def)
  then have b: "1 \<le> t_batch t" using make_transport_batch [of tc os t] by simp
  have k: "keys_inv (s\<lparr> sh_tx := Some t, sh_port := transport_local_port os1 t \<rparr>)"
    "keys_inv (s\<lparr> sh_tx := Some t, sh_port := transport_local_port os1 t, sh_loader_fd := fd \<rparr>)" for fd
    using assms(1) by (simp_all add: keys_inv_def)
  show ?thesis
    using assms(2) r b shard_buffers_inv [OF k(1) _ b] shard_buffers_inv [OF k(2) _ b]
    by (auto simp: shard_open_def Let_def split: if_splits prod.splits option.splits)
qed

lemma keyed_shard_inv:
  assumes "env_good env (sc_cipher cfg)"
  shows "keys_inv (keyed_shard env cfg secret)" "keys_inv ((keyed_shard env cfg secret)\<lparr> sh_replay := Some (ReplayWindow 1024) \<rparr>)"
  using assms KeySchedule_inv [of "se_hkdf env" cipher_ok "se_mk env" "sc_cipher cfg" "take 32 secret" "sc_epoch_packets cfg"]
    ReplayWindow_inv(1) [of 1024]
  by (simp_all add: keys_inv_def keyed_shard_def env_good_def)

lemma shard_buffers_cfg [simp]: "sh_cfg (shard_buffers t s) = sh_cfg s"
  by (simp add: shard_buffers_def Let_def)

lemma shard_open_cfg: "sh_cfg (fst (shard_open tc s os)) = sh_cfg s"
  by (auto simp: shard_open_def Let_def split: prod.splits sum.splits option.splits)

lemma Shard_inv:
  assumes good: "env_good env (sc_cipher cfg)" and s: "Shard env cfg secret os = (s, None, os')"
  shows "shard_inv s" "sh_cfg s = clamp_payload cfg"
proof -
  have c: "sc_cipher (clamp_payload cfg) = sc_cipher cfg" by (simp add: clamp_payload_def)
  define s0 where "s0 = (if sc_replay (clamp_payload cfg) then (keyed_shard env (clamp_payload cfg) secret)\<lparr> sh_replay := Some (ReplayWindow 1024) \<rparr>
      else keyed_shard env (clamp_payload cfg) secret)"
  have k: "keys_inv s0" "keys_inv (s0\<lparr> sh_hole_fd := fd, sh_hole_port := p \<rparr>)" for fd p
    using keyed_shard_inv [of env "clamp_payload cfg" secret] good c by (simp_all add: s0_def keys_inv_def)
  have f: "sh_cfg s0 = clamp_payload cfg" by (simp add: s0_def keyed_shard_def)
  obtain tc s1 os1 where o: "shard_open tc s1 os1 = (s, None, os')" "keys_inv s1" "sh_cfg s1 = clamp_payload cfg"
    using s k f unfolding Shard_def Let_def s0_def [symmetric] by (auto split: if_splits prod.splits option.splits)
  show "shard_inv s" using shard_open_inv [OF o(2,1)] .
  show "sh_cfg s = clamp_payload cfg" using shard_open_cfg [of tc s1 os1] o by simp
qed

lemma make_packet_inv:
  assumes "shard_inv s" "env_good env (sc_cipher (sh_cfg s))" "make_packet env sq s = (r, s')"
  shows "shard_inv s' \<and> sh_cfg s' = sh_cfg s \<and> (\<forall>p. r = Some p \<longrightarrow> length p = wire_len (sh_cfg s))"
proof -
  obtain ks where ks: "sh_keys s = Some ks" "ks_inv cipher_ok ks" "ks_cipher ks = sc_cipher (sh_cfg s)"
    using assms(1) by (auto simp: shard_inv_defs)
  obtain rk ks' where m: "maybe_rekey (se_hkdf env) (se_mk env) sq ks = (rk, ks')"
    by (cases "maybe_rekey (se_hkdf env) (se_mk env) sq ks")
  have k: "ks_inv cipher_ok ks'" "ks_cipher ks' = ks_cipher ks"
    using maybe_rekey_cipher_inv [OF _ ks(2) m] assms(2) ks(3) by simp_all
  then have i: "shard_inv (s\<lparr> sh_keys := Some ks' \<rparr>)" using assms(1) ks by (intro shard_inv_keys) simp_all
  have pl: "length (take (sc_payload (sh_cfg s)) (sh_plain s)) = sc_payload (sh_cfg s)" using assms(1) by (simp add: shard_inv_defs)
  show ?thesis
    using assms(3) ks m i for_epoch_ok [OF k(1)] cipher_okD(1) [of _ _ _ "take (sc_payload (sh_cfg s)) (sh_plain s)"] pl
    by (auto simp: make_packet_def Let_def read_ticks_def wire_len_def LR_HDR_def LR_TAG_def split: option.splits) (metis add.commute)
qed

lemma tx_enqueue_inv: "shard_inv s \<Longrightarrow> shard_inv (tx_enqueue p s)" "sh_cfg (tx_enqueue p s) = sh_cfg s"
  by (auto simp: tx_enqueue_def shard_inv_defs max_batch_def split: backend.splits)

lemma preload_loop_inv:
  "shard_inv s \<Longrightarrow> env_good env (sc_cipher (sh_cfg s)) \<Longrightarrow>
   shard_inv (snd (preload_loop env n ok s)) \<and> sh_cfg (snd (preload_loop env n ok s)) = sh_cfg s"
proof (induction n arbitrary: ok s)
  case (Suc n)
  obtain r s1 where m: "make_packet env (sh_seq s) (s\<lparr> sh_seq := sh_seq s + 1 \<rparr>) = (r, s1)"
    by (cases "make_packet env (sh_seq s) (s\<lparr> sh_seq := sh_seq s + 1 \<rparr>)")
  have i: "shard_inv s1" "sh_cfg s1 = sh_cfg s" using make_packet_inv [OF _ _ m] Suc.prems by simp_all
  show ?case
    using m Suc.IH [of s1] Suc.IH [of "tx_enqueue p s1" for p] i tx_enqueue_inv Suc.prems(2)
    by (auto split: option.splits load_res.splits)
qed simp

lemma drain_inv:
  assumes "shard_inv s" "env_good env (sc_cipher (sh_cfg s))"
  shows "shard_inv (snd (drain env budget s)) \<and> sh_cfg (snd (drain env budget s)) = sh_cfg s"
proof -
  obtain m s1 where l: "drain_loop env budget 0 (s\<lparr> sh_reads := Suc (sh_reads s) \<rparr>) = (m, s1)"
    by (cases "drain_loop env budget 0 (s\<lparr> sh_reads := Suc (sh_reads s) \<rparr>)")
  have "shard_inv s1" "sh_cfg s1 = sh_cfg s" using drain_loop_inv [OF _ _ l] assms by simp_all
  then show ?thesis by (simp add: drain_def read_ticks_def l)
qed

lemma reset_stats_inv: "shard_inv (reset_stats s) = shard_inv s" "sh_cfg (reset_stats s) = sh_cfg s"
  by (simp_all add: reset_stats_def shard_inv_defs)

text \<open>
  The life of a shard: constructed without an error, then any sequence of the public operations,
  with any datagrams arriving in between.
\<close>

inductive shard_reach :: "shard_env \<Rightarrow> shard_config \<Rightarrow> shard \<Rightarrow> bool" for env cfg where
  born: "Shard env cfg secret os = (s, None, os') \<Longrightarrow> shard_reach env cfg s"
| made: "shard_reach env cfg s \<Longrightarrow> shard_reach env cfg (snd (make_packet env sq s))"
| loaded: "shard_reach env cfg s \<Longrightarrow> shard_reach env cfg (snd (preload env n s))"
| drained: "shard_reach env cfg s \<Longrightarrow> shard_reach env cfg (snd (drain env budget s))"
| was_reset: "shard_reach env cfg s \<Longrightarrow> shard_reach env cfg (reset_stats s)"
| arrived: "shard_reach env cfg s \<Longrightarrow> shard_reach env cfg (tx_enqueue p s)"

lemma shard_reach_shard_inv:
  assumes "shard_reach env cfg s" "env_good env (sc_cipher cfg)"
  shows "shard_inv s \<and> sh_cfg s = clamp_payload cfg"
  using assms(1)
proof induction
  case (born secret os s os')
  then show ?case using Shard_inv [OF assms(2)] by blast
next
  case (made s sq)
  then show ?case using make_packet_inv [of s env sq] assms(2) by (cases "make_packet env sq s") (simp add: clamp_payload_def)
next
  case (loaded s n)
  then show ?case using preload_loop_inv [of s env] assms(2) by (simp add: preload_def clamp_payload_def)
next
  case (drained s budget)
  then show ?case using drain_inv [of s env budget] assms(2) by (simp add: clamp_payload_def)
next
  case (was_reset s)
  then show ?case by (simp add: reset_stats_inv)
next
  case (arrived s p)
  then show ?case using tx_enqueue_inv by simp
qed

end
