(* ===== verification/Dataplane.thy ===== *)
theory Dataplane
  imports Shard
begin

text \<open>
  What the data plane promises, proved over the shard of the theory Shard: its invariant in every
  state of its life, what \<open>drain\<close> does to the queue and to the counters, that nothing is sent on
  unless it was authenticated, the round trip from \<open>make_packet\<close> to the peer's \<open>drain\<close>, and the
  descriptors a shard opens and closes.
\<close>

section \<open>Draining the queue\<close>

lemma posix_send_rxq: "rxq (t_sock (snd (posix_send_loop k bs t))) = rxq (t_sock t)"
proof (rule posix_send_preserves)
  fix d and t :: transport and r so
  assume "sock_send d (t_sock t) = (r, so)"
  then show "rxq (t_sock (t\<lparr> t_sys := t_sys t + 1, t_sock := so \<rparr>)) = rxq (t_sock t)"
    using sock_send_rxq [of d "t_sock t"] by simp
qed

lemma mmsg_send_rxq: "rxq (t_sock (snd (mmsg_send_loop k bs t))) = rxq (t_sock t)"
  using sendmmsg_rxq by (intro mmsg_send_preserves) simp

definition socket_backend :: "transport \<Rightarrow> bool" where
  "socket_backend t \<longleftrightarrow> t_backend t = Posix \<or> t_backend t = Mmsg"

lemma transport_send_rxq: "socket_backend t \<Longrightarrow> rxq (t_sock (snd (transport_send env bs n t))) = rxq (t_sock t)"
  by (auto simp: socket_backend_def posix_send_batch_def mmsg_send_batch_def posix_send_rxq mmsg_send_rxq)

lemma transport_recv_contract:
  assumes "socket_backend t" "1 \<le> t_batch t" "slots_ok C bufs" "0 < C" "plain_queue t" "0 < n" "nat n \<le> length bufs"
    "transport_recv env bufs n t = (m, bufs', t')"
  shows "m \<le> nat n \<and> m \<le> length (rxq (t_sock t)) \<and> (m = 0 \<longrightarrow> rxq (t_sock t) = []) \<and>
     map pb_data (take m bufs') = map (take C) (take m (rxq (t_sock t))) \<and> rxq (t_sock t') = drop m (rxq (t_sock t))"
  using assms posix.recv_spec [OF TrueI assms(3-7)] mmsg.recv_spec [OF assms(2,3-7)]
  by (auto simp: socket_backend_def)

lemma well_formed_take: "40 \<le> C \<Longrightarrow> well_formed (take C p) = well_formed p"
  by (auto simp: well_formed_def LR_HDR_def LR_TAG_def hdr_of_def min_def take_drop)

lemma drain_loop_done: "sh_tx s = Some t \<Longrightarrow> \<not> processed < budget \<Longrightarrow> drain_loop env budget processed s = (processed, s)"
  by (subst drain_loop.simps) simp

lemma drain_loop_step:
  "sh_tx s = Some t \<Longrightarrow> processed < budget \<Longrightarrow> drain_batch env t (min (budget - processed) (max_batch t)) s = (n, s') \<Longrightarrow>
   drain_loop env budget processed s = (if n = 0 then (processed, s') else drain_loop env budget (processed + int n) s')"
  by (subst drain_loop.simps) simp

lemma filter_take_drop:
  "length (filter P (take m q)) + length (filter P (take k (drop m q))) = length (filter P (take (m + k) q))"
  by (simp add: take_add)

text \<open>
  On a socket backend \<open>drain_loop\<close> takes exactly as many datagrams as the budget and the queue allow,
  and accounts for every well-formed one.
\<close>

lemma drain_loop_queue:
  "shard_inv s \<Longrightarrow> env_good env (sc_cipher (sh_cfg s)) \<Longrightarrow> keys_live s \<Longrightarrow> env_live env (sc_cipher (sh_cfg s)) \<Longrightarrow>
   sh_tx s = Some t \<Longrightarrow> socket_backend t \<Longrightarrow> plain_queue t \<Longrightarrow> processed \<le> budget \<Longrightarrow>
   (let q = rxq (t_sock t); k = min (nat (budget - processed)) (length q)
    in \<exists>s' t'. drain_loop env budget processed s = (processed + int k, s') \<and> sh_tx s' = Some t' \<and> t_backend t' = t_backend t \<and>
         rxq (t_sock t') = drop k q \<and> tally s' = tally s + of_nat (length (filter well_formed (take k q))))"
proof (induction "length (rxq (t_sock t))" arbitrary: s t processed rule: less_induct)
  case less
  note inv = less.prems(1) and good = less.prems(2) and t = less.prems(5)
  let ?q = "rxq (t_sock t)" and ?C = "slot_cap s"
  show ?case
  proof (cases "processed < budget")
    case False
    then have "processed = budget" using less.prems by simp
    then show ?thesis using drain_loop_done [OF t] t by (auto simp: Let_def)
  next
    case True
    define want where "want = min (budget - processed) (max_batch t)"
    have b1: "1 \<le> t_batch t" using inv t by (auto simp: shard_inv_defs)
    then have w: "0 < want" "nat want \<le> nat (budget - processed)" using True by (auto simp: want_def max_batch_def split: backend.split)
    have wl: "nat want \<le> length (sh_rslots s)" unfolding want_def using slots_wanted [OF inv t] .
    have sl: "slots_ok ?C (sh_rslots s)" using inv by (simp add: shard_inv_defs)
    have C: "40 \<le> ?C" by (simp add: slot_cap_def wire_len_def LR_HDR_def LR_TAG_def)
    obtain n s1 where d: "drain_batch env t want s = (n, s1)" by (cases "drain_batch env t want s")
    show ?thesis
    proof (rule drain_batch_step [OF inv good t wl d])
      fix rs t'
      assume r: "transport_recv env (sh_rslots s) want t = (n, rs, t')"
        and s1: "shard_inv s1" "sh_cfg s1 = sh_cfg s"
        and tx: "\<exists>t'' bs k. sh_tx s1 = Some t'' \<and> t_backend t'' = t_backend t \<and> t_batch t'' = t_batch t \<and>
          (t'' = t' \<or> t'' = snd (transport_send env bs k t'))"
        and tal: "keys_live s \<and> env_live env (sc_cipher (sh_cfg s)) \<Longrightarrow>
          keys_live s1 \<and> tally s1 = tally s + of_nat (length (filter well_formed (map pb_data (take n rs))))"
      have rc: "n \<le> nat want" "n \<le> length ?q" "n = 0 \<longrightarrow> ?q = []"
        "map pb_data (take n rs) = map (take ?C) (take n ?q)" "rxq (t_sock t') = drop n ?q"
        using transport_recv_contract [OF less.prems(6) b1 sl _ less.prems(7) w(1) wl r] C by simp_all
      have tb: "socket_backend t'"
        using transport_recv_safe [OF sl, of t want env] r less.prems(6) by (simp add: recv_safe_def socket_backend_def)
      have tal1: "keys_live s1" "tally s1 = tally s + of_nat (length (filter well_formed (take n ?q)))"
        using tal less.prems(3,4) rc(4) by (simp_all add: filter_map comp_def well_formed_take [OF C])
      obtain t1 where t1: "sh_tx s1 = Some t1" "t_backend t1 = t_backend t" "rxq (t_sock t1) = drop n ?q"
        using tx rc(5) transport_send_rxq [OF tb] by metis
      have t1': "socket_backend t1" "plain_queue t1"
        using t1 less.prems(6,7) by (auto simp: socket_backend_def plain_queue_def dest: in_set_dropD)
      show ?thesis
      proof (cases "n = 0")
        case True
        then have "drain_loop env budget processed s = (processed, s1)"
          using drain_loop_step [OF t \<open>processed < budget\<close> d [unfolded want_def]] by simp
        then show ?thesis using True rc t1 tal1 by (auto simp: Let_def)
      next
        case False
        let ?p = "processed + int n"
        have pb: "?p \<le> budget" using rc(1) w by linarith
        have l: "length (rxq (t_sock t1)) < length ?q" using t1(3) rc(2) False by simp
        have k: "min (nat (budget - processed)) (length ?q) = n + min (nat (budget - ?p)) (length (drop n ?q))"
          using rc(2) pb by (simp add: min_def nat_diff_distrib') linarith
        obtain s' t2 where x: "drain_loop env budget ?p s1 = (?p + int (min (nat (budget - ?p)) (length (drop n ?q))), s')"
          "sh_tx s' = Some t2" "t_backend t2 = t_backend t" "rxq (t_sock t2) = drop (min (nat (budget - ?p)) (length (drop n ?q))) (drop n ?q)"
          "tally s' = tally s1 + of_nat (length (filter well_formed (take (min (nat (budget - ?p)) (length (drop n ?q))) (drop n ?q))))"
          using less.hyps [OF l s1(1) _ tal1(1) _ t1(1) t1' pb] good less.prems(4) s1(2) t1(2) unfolding t1(3) Let_def by auto
        have "drain_loop env budget processed s = drain_loop env budget ?p s1"
          using drain_loop_step [OF t \<open>processed < budget\<close> d [unfolded want_def]] False by simp
        then show ?thesis
          unfolding Let_def k using x tal1(2) filter_take_drop [of well_formed n ?q "min (nat (budget - ?p)) (length (drop n ?q))"]
          by (simp add: add.commute add.left_commute flip: of_nat_add)
      qed
    qed
  qed
qed

section \<open>Properties\<close>

text \<open>
  C14. In every state of a shard's life, whatever datagrams arrive and whatever the kernel answers,
  the buffers keep their sizes (so every header, plaintext and ciphertext the hot path writes fits),
  the key schedule and the replay window keep their invariants, there are as many slots as the
  transport's batch, and a packet fits an Ethernet datagram.
\<close>

theorem shard_reach_invariant:
  assumes "shard_reach env cfg s" "env_good env (sc_cipher cfg)"
  shows "mem_inv s \<and> keys_inv s \<and> tx_inv s \<and> wire_len (sh_cfg s) \<le> 1472"
proof -
  have "wire_len (clamp_payload cfg) \<le> 1472"
    by (simp add: clamp_payload_def wire_len_def LR_HDR_def LR_TAG_def LR_MAX_PAYLOAD_def)
  then show ?thesis using shard_reach_shard_inv [OF assms] by (simp add: shard_inv_def)
qed



lemma make_packet_spec:
  assumes "make_packet env sq s = (Some p, s')"
  obtains ks a ct h where "sh_keys s' = Some ks" "for_epoch ks (wh_epoch h) = Some a" "p = hdr_bytes h @ ct" "wh_seq h = sq"
    "wh_magic h = LR_MAGIC" "wh_epoch h = ks_epoch ks"
    "a_seal a (ks_nonce ks (wh_epoch h) sq) (hdr_bytes h) (take (sc_payload (sh_cfg s)) (sh_plain s)) = Some ct"
proof -
  obtain k0 where k0: "sh_keys s = Some k0" using assms by (cases "sh_keys s") (auto simp: make_packet_def)
  define ks where "ks = snd (maybe_rekey (se_hkdf env) (se_mk env) sq k0)"
  define h where "h = \<lparr> wh_magic = LR_MAGIC, wh_type = WT_DATA, wh_epoch = ks_epoch ks, wh_flags = 0, wh_seq = sq,
      wh_tsc = se_ticks env (sh_reads s) \<rparr>"
  obtain a where a: "for_epoch ks (ks_epoch ks) = Some a"
    using assms k0 by (cases "for_epoch ks (ks_epoch ks)") (auto simp: make_packet_def ks_def Let_def)
  have "make_packet env sq s =
      (map_option (\<lambda>ct. hdr_bytes h @ ct)
         (a_seal a (ks_nonce ks (ks_epoch ks) sq) (hdr_bytes h) (take (sc_payload (sh_cfg s)) (sh_plain s))),
       s\<lparr> sh_keys := Some ks, sh_reads := Suc (sh_reads s) \<rparr>)"
    using k0 a by (simp add: make_packet_def ks_def [symmetric] read_ticks_def h_def Let_def)
  then obtain ct where "a_seal a (ks_nonce ks (ks_epoch ks) sq) (hdr_bytes h) (take (sc_payload (sh_cfg s)) (sh_plain s)) = Some ct"
    "p = hdr_bytes h @ ct" "sh_keys s' = Some ks"
    using assms
    by (cases "a_seal a (ks_nonce ks (ks_epoch ks) sq) (hdr_bytes h) (take (sc_payload (sh_cfg s)) (sh_plain s))") auto
  then show thesis using that [of ks h a ct] a by (simp add: h_def)
qed

lemma roundtrip_step:
  assumes "shard_inv s" "env_good env (sc_cipher (sh_cfg s))" "make_packet env sq s = (Some p, s')"
    "shard_inv r" "env_good env' (sc_cipher (sh_cfg r))" "keys_live r" "env_live env' (sc_cipher (sh_cfg r))"
    "sh_keys r = sh_keys s'" "k < length (sh_sslots r)" "i < length (sh_rslots r)" "pb_data (sh_rslots r ! i) = p"
    "fst (replay_check sq r)"
  shows "\<exists>r'. drain_packet env' i (k, r) = (Suc k, r') \<and> wh_seq (hdr_of p) = sq \<and>
     resealed env' (hdr_of p) (take (sc_payload (sh_cfg s)) (sh_plain s)) r (pb_data (sh_sslots r' ! k))"
proof -
  obtain ks a ct h where ks1: "sh_keys s' = Some ks" and a: "for_epoch ks (wh_epoch h) = Some a" "p = hdr_bytes h @ ct" "wh_seq h = sq" "wh_magic h = LR_MAGIC"
    "a_seal a (ks_nonce ks (wh_epoch h) sq) (hdr_bytes h) (take (sc_payload (sh_cfg s)) (sh_plain s)) = Some ct"
    using assms(3) by (rule make_packet_spec)
  have ks: "sh_keys s' = Some ks" "ks_inv cipher_ok ks" using ks1 assms(4,8) by (auto simp: shard_inv_defs)
  have h: "hdr_of p = h" "take 24 p = hdr_bytes h" "drop 24 p = ct" using a(2) by simp_all
  have co: "cipher_ok a" using for_epoch_ok [OF ks(2) a(1)] .
  have op: "fst (a_open a (ks_nonce ks (wh_epoch h) (wh_seq h)) (take 24 p) (drop 24 p)) = Some (take (sc_payload (sh_cfg s)) (sh_plain s))"
    unfolding h a(3) by (rule cipher_okD(2) [OF co a(5)])
  have wf: "well_formed p" using a(2,4) cipher_okD(1) [OF co a(5)] h(1) by (simp add: well_formed_def LR_HDR_def LR_TAG_def)
  obtain k' r' where d: "drain_packet env' i (k, r) = (k', r')" by (cases "drain_packet env' i (k, r)")
  note st = drain_packet_step [OF assms(4,5,9,10) d, unfolded assms(11)]
  have "k' = Suc k"
  proof -
    obtain r1 where rc: "replay_check sq r = (True, r1)" using assms(12) by (cases "replay_check sq r") simp
    note ri = replay_check_inv [OF assms(4) rc]
    obtain x r2 where o: "open_packet ks h p r1 = (x, r2)" by (cases "open_packet ks h p r1")
    have "x \<noteq> None" using o a(1) op by (auto simp: open_packet_def LR_HDR_def Let_def split: prod.splits)
    then obtain pl where x: "x = Some pl" by auto
    have "sh_keys r2 = sh_keys r1" using o by (auto simp: open_packet_def Let_def split: option.splits prod.splits)
    then have "keys_live r2" "sh_keys r2 = sh_keys r" using ri assms(6) by (auto simp: keys_live_def)
    moreover have "sh_keys r = Some kz \<Longrightarrow> ks_cipher kz = sc_cipher (sh_cfg r)" for kz using assms(4) by (auto simp: shard_inv_defs)
    moreover obtain ok r3 where rs: "reseal env' h pl k r2 = (ok, r3)" by (cases "reseal env' h pl k r2")
    ultimately have "ok" using reseal_live(1) [of r2 env'] assms(7) by metis
    then show ?thesis
      using d rc o x rs wf h(1) a(3) ri ks(1) assms(8,11)
      by (simp add: drain_packet_def well_formed_def Let_def)
  qed
  then have f: "forwarded env' r p (pb_data (sh_sslots r' ! k))" using st by simp
  then have "resealed env' h (take (sc_payload (sh_cfg s)) (sh_plain s)) r (pb_data (sh_sslots r' ! k))"
    using op a(1) ks(1) assms(8) unfolding forwarded_def h(1) by auto
  then show ?thesis using d \<open>k' = Suc k\<close> h a(3) by auto
qed

text \<open>
  C15. The round trip.  A packet that \<open>make_packet\<close> builds is accepted and sent on by any shard that
  holds the same key schedule and whose replay window admits its number: \<open>drain\<close> queues exactly
  that plaintext, sealed again.
\<close>

theorem packet_roundtrip:
  assumes "shard_inv s" "env_good env (sc_cipher (sh_cfg s))" "make_packet env sq s = (Some p, s')"
    "shard_inv r" "env_good env' (sc_cipher (sh_cfg r))" "keys_live r" "env_live env' (sc_cipher (sh_cfg r))"
    "sh_keys r = sh_keys s'" "k < length (sh_sslots r)" "i < length (sh_rslots r)" "pb_data (sh_rslots r ! i) = p"
    "fst (replay_check sq r)"
  shows "\<exists>r'. drain_packet env' i (k, r) = (Suc k, r') \<and> wh_seq (hdr_of p) = sq \<and>
     resealed env' (hdr_of p) (take (sc_payload (sh_cfg s)) (sh_plain s)) r (pb_data (sh_sslots r' ! k))"
  by (rule roundtrip_step [OF assms])

lemma make_packet_live:
  assumes "keys_live s" "env_live env (sc_cipher (sh_cfg s))" "shard_inv s" "make_packet env sq s = (r, s')"
  shows "r \<noteq> None" "keys_live s'"
proof -
  obtain ks where ks: "sh_keys s = Some ks" "ks_aead0 ks \<noteq> None" "ks_inv cipher_live ks" using assms(1) by (auto simp: keys_live_def)
  have c: "ks_cipher ks = sc_cipher (sh_cfg s)" using assms(3) ks(1) by (auto simp: shard_inv_defs)
  obtain rk ks' where m: "maybe_rekey (se_hkdf env) (se_mk env) sq ks = (rk, ks')" by (cases "maybe_rekey (se_hkdf env) (se_mk env) sq ks")
  note l = maybe_rekey_live [OF assms(2) [folded c] ks(2,3) m]
  obtain a where a: "ks_aead0 ks' = Some a" using l(1) by auto
  then have f: "for_epoch ks' (ks_epoch ks') = Some a" using for_epoch_current [OF l(2)] by simp
  have s: "\<exists>c. a_seal a n x p = Some c" for n x p using l(2) a unfolding ks_inv_def cipher_live_def by blast
  have "r \<noteq> None \<and> sh_keys s' = Some ks'"
    using assms(4) ks(1) m f by (auto simp: make_packet_def Let_def read_ticks_def s)
  then show "r \<noteq> None" "keys_live s'" using l by (auto simp: keys_live_def)
qed

section \<open>A concrete shard\<close>

definition env1 :: shard_env where
  "env1 = \<lparr> se_hkdf = model_hkdf, se_mk = (\<lambda>_ _. Some NullAead),
     se_cal = \<lparr> cal_tick_hz = 1000, cal_cpu_hz = 1000, cal_invariant = True, cal_source = [] \<rparr>, se_ticks = of_nat,
     se_ring = (\<lambda>_. \<lparr> rg_sqes = 0, rg_submit_ok = False, rg_peeks = [], rg_wait = None \<rparr>), se_sends = (\<lambda>_. []),
     se_load = (\<lambda>_. Queued) \<rparr>"

definition cfg1 :: shard_config where
  "cfg1 = ShardConfig\<lparr> sc_cipher := ''null'', sc_payload := 4 \<rparr>"

definition os1 :: os where
  "os1 = os0\<lparr> os_pton := (\<lambda>_. Some INADDR_LOOPBACK) \<rparr>"

definition sh1 :: shard where
  "sh1 = fst (Shard env1 cfg1 (replicate 32 1) os1)"

lemma env1_good: "env_good env1 c" "env_live env1 c"
  using NullAead_ok
  by (auto simp: env_good_def env_live_def env1_def mk_ok_def cipher_ok_def cipher_live_def NullAead_def null_seal_def)

lemma keys1_live: "ks_aead0 (KeySchedule model_hkdf (\<lambda>_ _. Some NullAead) x c n) \<noteq> None"
  using derive_slot0(1) [of model_hkdf "\<lambda>_ _. Some NullAead" 0] by (auto simp: KeySchedule_def)

lemma sh1_born: "\<exists>os'. Shard env1 cfg1 (replicate 32 1) os1 = (sh1, None, os')"
  and sh1_keys: "sh_keys sh1 = Some (KeySchedule model_hkdf (\<lambda>_ _. Some NullAead) (replicate 32 1) ''null'' 0)"
  and sh1_tx: "sh_tx sh1 = Some (new_transport Posix 1 4 (40000, Some INADDR_LOOPBACK))"
  and sh1_seq: "sh_replay sh1 = Some (ReplayWindow 1024)"
proof -
  have f: "for_epoch (KeySchedule model_hkdf (\<lambda>_ _. Some NullAead) x c n) 0 \<noteq> None" for x c n
    using keys1_live [of x c n] by (simp add: for_epoch_def)
  note d = Shard_def keyed_shard_def clamp_payload_def cfg1_def ShardConfig_def env1_def shard_open_def open_udp_def os1_def os0_def
    base_tc_def TransportConfig_def make_transport_def make_transport_posix_def lr_open_udp_socket_def sock_options_def
    LR_MAX_PAYLOAD_def LR_HDR_def LR_TAG_def shard_buffers_def lr_fill_peer_def Let_def
  show "\<exists>os'. Shard env1 cfg1 (replicate 32 1) os1 = (sh1, None, os')" using f by (simp add: sh1_def d)
  show "sh_keys sh1 = Some (KeySchedule model_hkdf (\<lambda>_ _. Some NullAead) (replicate 32 1) ''null'' 0)"
    "sh_tx sh1 = Some (new_transport Posix 1 4 (40000, Some INADDR_LOOPBACK))" "sh_replay sh1 = Some (ReplayWindow 1024)"
    using f by (simp_all add: sh1_def d)
qed

lemma sh1_reach: "shard_reach env1 cfg1 sh1"
  using sh1_born shard_reach.born by blast

lemma sh1_inv: "shard_inv sh1" "keys_live sh1"
proof -
  show "shard_inv sh1" using shard_reach_shard_inv [OF sh1_reach env1_good(1)] by blast
  have "ks_inv cipher_live (KeySchedule model_hkdf (\<lambda>_ _. Some NullAead) (replicate 32 1) ''null'' 0)"
    by (rule KeySchedule_inv) (simp_all add: mk_ok_def cipher_live_def NullAead_def null_seal_def)
  then show "keys_live sh1" using sh1_keys keys1_live by (auto simp: keys_live_def)
qed

theorem shard_reach_invariant_witness: "wire_len (sh_cfg (snd (drain env1 7 (tx_enqueue [1, 2, 3] sh1)))) \<le> 1472"
  using shard_reach_invariant [OF shard_reach.drained [OF shard_reach.arrived [OF sh1_reach]] env1_good(1)] by blast


text \<open>The shard that holds in its first slot a packet of its own making.\<close>

definition p1 :: bytes where
  "p1 = the (fst (make_packet env1 0 sh1))"

definition sh2 :: shard where
  "sh2 = (snd (make_packet env1 0 sh1))\<lparr> sh_rslots := [\<lparr> pb_base = p1 @ replicate 64 0, pb_cap = length p1 + 64, pb_len = length p1 \<rparr>] \<rparr>"

lemma p1_made: "make_packet env1 0 sh1 = (Some p1, snd (make_packet env1 0 sh1))"
  using make_packet_live(1) [OF sh1_inv(2) env1_good(2) sh1_inv(1)] unfolding p1_def
  by (cases "make_packet env1 0 sh1") auto

lemma sh1_slots: "length (sh_sslots sh1) = 1"
  using sh1_inv(1) sh1_tx by (auto simp: shard_inv_defs max_batch_def new_transport_def)

lemma make_packet_fields:
  assumes "make_packet env sq s = (r, s')"
  shows "sh_replay s' = sh_replay s" "sh_sslots s' = sh_sslots s" "sh_tx s' = sh_tx s"
  using assms by (auto simp: make_packet_def Let_def read_ticks_def split: option.splits)

lemma sh2_inv: "shard_inv sh2" "keys_live sh2" "pb_data (sh_rslots sh2 ! 0) = p1" "length (sh_rslots sh2) = 1"
  "length (sh_sslots sh2) = 1" "fst (replay_check 0 sh2)"
proof -
  let ?s = "snd (make_packet env1 0 sh1)"
  have m: "shard_inv ?s" "sh_cfg ?s = sh_cfg sh1" "length p1 = wire_len (sh_cfg sh1)"
    using make_packet_inv [OF sh1_inv(1) env1_good(1) p1_made] by simp_all
  note mf = make_packet_fields [OF p1_made]
  show "shard_inv sh2"
    using m mf sh1_tx sh1_slots unfolding sh2_def
    by (auto simp: shard_inv_defs slots_ok_def max_batch_def new_transport_def)
  show "keys_live sh2" using make_packet_live(2) [OF sh1_inv(2) env1_good(2) sh1_inv(1) p1_made] by (simp add: sh2_def keys_live_def)
  show "pb_data (sh_rslots sh2 ! 0) = p1" "length (sh_rslots sh2) = 1" "length (sh_sslots sh2) = 1"
    using mf sh1_slots by (simp_all add: sh2_def pb_data_def)
  show "fst (replay_check 0 sh2)"
    using mf sh1_seq by (simp add: sh2_def replay_check_def ReplayWindow_def accept_def Let_def)
qed

theorem packet_roundtrip_witness: "fst (drain_packet env1 0 (0, sh2)) = 1"
proof -
  have "\<exists>r'. drain_packet env1 0 (0, sh2) = (Suc 0, r') \<and> wh_seq (hdr_of p1) = 0 \<and>
      resealed env1 (hdr_of p1) (take (sc_payload (sh_cfg sh1)) (sh_plain sh1)) sh2 (pb_data (sh_sslots r' ! 0))"
    by (rule packet_roundtrip [OF sh1_inv(1) env1_good(1) p1_made sh2_inv(1) env1_good(1) sh2_inv(2) env1_good(2)])
      (use sh2_inv in \<open>simp_all add: sh2_def\<close>)
  then show ?thesis by auto
qed

lemma sh2_forwards: "\<exists>r'. fold (drain_packet env1) [0..<1] (0, sh2) = (1, r')"
proof -
  have "\<exists>r'. drain_packet env1 0 (0, sh2) = (Suc 0, r') \<and> wh_seq (hdr_of p1) = 0 \<and>
      resealed env1 (hdr_of p1) (take (sc_payload (sh_cfg sh1)) (sh_plain sh1)) sh2 (pb_data (sh_sslots r' ! 0))"
    by (rule roundtrip_step [OF sh1_inv(1) env1_good(1) p1_made sh2_inv(1) env1_good(1) sh2_inv(2) env1_good(2)])
      (use sh2_inv in \<open>simp_all add: sh2_def\<close>)
  then show ?thesis by auto
qed


section \<open>Descriptors\<close>

text \<open>The kernel hands out descriptors that are not open and not negative.\<close>

definition fresh_fds :: "os \<Rightarrow> bool" where
  "fresh_fds os \<longleftrightarrow> (\<forall>S fd. os_socket os S = Some fd \<longrightarrow> fd \<notin> S \<and> 0 \<le> fd)"

text \<open>What the set-up of a socket keeps: the answers of the kernel; the open descriptors grow by at most the one returned.\<close>

lemma open_udp_fds:
  assumes "fresh_fds os" "open_udp addr rb sb os = (r, os')"
  shows "fresh_fds os' \<and> (case r of None \<Rightarrow> os_fds os' = os_fds os
     | Some (p, fd) \<Rightarrow> fd \<notin> os_fds os \<and> 0 \<le> fd \<and> os_fds os' = insert fd (os_fds os))"
proof (cases "os_socket os (os_fds os)")
  case None
  then show ?thesis using assms by (auto simp: open_udp_def)
next
  case (Some fd)
  then have "fd \<notin> os_fds os" "0 \<le> fd" using assms(1) by (auto simp: fresh_fds_def)
  then show ?thesis using assms Some unfolding open_udp_def Let_def
    by (auto simp: fresh_fds_def split: option.splits if_splits)
qed

lemma open_udp_socket_fds:
  assumes "fresh_fds os" "lr_open_udp_socket cfg os = (r, os')"
  shows "fresh_fds os' \<and> (case r of Inl e \<Rightarrow> os_fds os' = os_fds os
     | Inr (p, fd) \<Rightarrow> fd \<notin> os_fds os \<and> 0 \<le> fd \<and> os_fds os' = insert fd (os_fds os))"
proof (cases "os_socket os (os_fds os)")
  case None
  then show ?thesis using assms by (auto simp: lr_open_udp_socket_def)
next
  case (Some fd)
  then have "fd \<notin> os_fds os" "0 \<le> fd" using assms(1) by (auto simp: fresh_fds_def)
  then show ?thesis using assms Some unfolding lr_open_udp_socket_def Let_def
    by (auto simp: fresh_fds_def split: option.splits if_splits)
qed

lemma make_transport_fds:
  assumes "fresh_fds os" "make_transport tc os = (r, os')"
  shows "fresh_fds os' \<and> (case r of Inl e \<Rightarrow> os_fds os' = os_fds os
     | Inr t \<Rightarrow> t_fd t \<notin> os_fds os \<and> 0 \<le> t_fd t \<and> os_fds os' = insert (t_fd t) (os_fds os))"
proof -
  obtain x os1 where o: "lr_open_udp_socket tc os = (x, os1)" by (cases "lr_open_udp_socket tc os")
  note f = open_udp_socket_fds [OF assms(1) o]
  have p: "make_transport_posix tc os = (r, os') \<Longrightarrow> ?thesis"
    using o f by (cases x) (auto simp: make_transport_posix_def new_transport_def)
  have m: "make_transport_mmsg tc os = (r, os') \<Longrightarrow> ?thesis"
    using o f assms(1) by (cases x) (auto simp: make_transport_mmsg_def new_transport_def split: if_splits)
  have u: "make_transport_uring tc b os = (r, os') \<Longrightarrow> ?thesis" for b
    using o f assms(1) by (cases x)
      (auto simp: make_transport_uring_def new_transport_def fresh_fds_def Let_def split: if_splits option.splits)
  show ?thesis using assms p m u by (auto simp: make_transport_def split: if_splits)
qed

lemma shard_buffers_fields [simp]:
  "sh_tx (shard_buffers t s) = sh_tx s" "sh_loader_fd (shard_buffers t s) = sh_loader_fd s" "sh_hole_fd (shard_buffers t s) = sh_hole_fd s"
  by (simp_all add: shard_buffers_def Let_def)

lemma shard_open_fds:
  assumes "fresh_fds os" "sh_tx s = None" "sh_loader_fd s = - 1" "shard_open tc s os = (s', e, os')"
  shows "os_fds (shard_free s' os') = os_fds os - (if sh_hole_fd s \<ge> 0 then {sh_hole_fd s} else {})"
proof -
  obtain r os1 where m: "make_transport tc os = (r, os1)" by (cases "make_transport tc os")
  note f = make_transport_fds [OF assms(1) m]
  show ?thesis
  proof (cases r)
    case (Inl x)
    then show ?thesis using assms f m by (auto simp: shard_open_def shard_free_def)
  next
    case (Inr t)
    obtain l os2 where o: "open_udp ''127.0.0.1'' 1024 33554432 os1 = (l, os2)" by (cases "open_udp ''127.0.0.1'' 1024 33554432 os1")
    note g = open_udp_fds [OF conjunct1 [OF f] o]
    show ?thesis
      using assms f g m o Inr unfolding shard_open_def shard_free_def
      by (cases "sc_source (sh_cfg s) = Loopback"; cases l) auto
  qed
qed

text \<open>
  C30. A shard leaves no descriptor behind: whether its construction succeeds or fails half way (no
  black-hole socket, an unusable transport, no loader socket), destroying it closes exactly the
  sockets it opened.
\<close>

theorem shard_descriptors:
  assumes "fresh_fds os" "Shard env cfg secret os = (s, e, os')"
  shows "os_fds (shard_free s os') = os_fds os"
proof -
  let ?k = "keyed_shard env (clamp_payload cfg) secret"
  define s0 where "s0 = (if sc_replay (clamp_payload cfg) then ?k\<lparr> sh_replay := Some (ReplayWindow 1024) \<rparr> else ?k)"
  have k: "sh_tx s0 = None" "sh_loader_fd s0 = - 1" "sh_hole_fd s0 = - 1" "sh_tx ?k = None" "sh_loader_fd ?k = - 1" "sh_hole_fd ?k = - 1"
    by (simp_all add: s0_def keyed_shard_def)
  obtain r os1 where o: "open_udp ''127.0.0.1'' 1024 1024 os = (r, os1)" by (cases "open_udp ''127.0.0.1'' 1024 1024 os")
  note f = open_udp_fds [OF assms(1) o]
  consider (unknown) "s = ?k" "os' = os" | (wire) tc where "shard_open tc s0 os = (s, e, os')"
    | (no_hole) "s = s0" "os' = os1" "r = None"
    | (hole) p fd tc where "r = Some (p, fd)" "shard_open tc (s0\<lparr> sh_hole_fd := fd, sh_hole_port := p \<rparr>) os1 = (s, e, os')"
    using assms(2) unfolding Shard_def Let_def s0_def [symmetric] o by (auto split: if_splits option.splits prod.splits)
  then show ?thesis
  proof cases
    case unknown
    then show ?thesis using k by (simp add: shard_free_def)
  next
    case wire
    then show ?thesis using shard_open_fds [of os s0 tc s e os'] assms(1) k by simp
  next
    case no_hole
    then show ?thesis using f k by (simp add: shard_free_def)
  next
    case hole
    then show ?thesis using shard_open_fds [OF _ _ _ hole(2)] f k by auto
  qed
qed

theorem shard_descriptors_witness: "os_fds (shard_free sh1 (snd (snd (Shard env1 cfg1 (replicate 32 1) os1)))) = {0, 1, 2}"
proof -
  obtain os' where s: "Shard env1 cfg1 (replicate 32 1) os1 = (sh1, None, os')" using sh1_born by blast
  have "fresh_fds os1" by (auto simp: fresh_fds_def os1_def os0_def)
  then show ?thesis using shard_descriptors [OF _ s] s by (simp add: os1_def os0_def)
qed

section \<open>Deviations\<close>

text \<open>
  The replay window is consulted before the cipher and advances whether or not the packet turns
  out to be authentic.  One forged header with a sequence number far ahead and an epoch no key
  exists for is enough to have every honest packet behind it dropped.
\<close>

lemma forged_packet_poisons:
  assumes "p = pb_data (sh_rslots s ! i)" "well_formed p" "sh_replay s = Some rw" "rw_seen rw" "rw_high rw < wh_seq (hdr_of p)"
    "sh_keys s = Some ks" "for_epoch ks (wh_epoch (hdr_of p)) = None"
    "sq < wh_seq (hdr_of p)" "rw_width rw \<le> wh_seq (hdr_of p) - sq"
  shows "\<exists>s' rw'. drain_packet env i (k, s) = (k, s') \<and> sh_replay s' = Some rw' \<and> \<not> fst (accept rw' sq)"
  using assms by (auto simp: drain_packet_def well_formed_def replay_check_def accept_def open_packet_def upd_st_def Let_def)

text \<open>
  The egress of a shard reuses the sequence numbers and the key of its ingress: a shard that holds
  the same schedule as its peer seals its first packet with the very key and nonce the peer used
  for its own first packet.
\<close>

lemma egress_reuses_nonce:
  assumes "make_packet env (sh_seq r) s = (Some p, s')" "sh_keys s' = Some ks" "sh_keys r = Some ks" "ks_per_epoch ks = 0"
    "resealed env' h pt r out"
  shows "\<exists>a ct ct' h' oh. p = hdr_bytes h' @ ct \<and> out = hdr_bytes oh @ ct' \<and> for_epoch ks (ks_epoch ks) = Some a \<and>
     a_seal a (ks_nonce ks (ks_epoch ks) (sh_seq r)) (hdr_bytes h') (take (sc_payload (sh_cfg s)) (sh_plain s)) = Some ct \<and>
     a_seal a (ks_nonce ks (ks_epoch ks) (sh_seq r)) (hdr_bytes oh) pt = Some ct'"
proof -
  obtain ks1 a ct h' where m: "sh_keys s' = Some ks1" "for_epoch ks1 (wh_epoch h') = Some a" "p = hdr_bytes h' @ ct" "wh_epoch h' = ks_epoch ks1"
    "a_seal a (ks_nonce ks1 (wh_epoch h') (sh_seq r)) (hdr_bytes h') (take (sc_payload (sh_cfg s)) (sh_plain s)) = Some ct"
    using assms(1) by (rule make_packet_spec)
  have "maybe_rekey (se_hkdf env') (se_mk env') (sh_seq r) ks = (False, ks)" using assms(4) by (simp add: maybe_rekey_def)
  then obtain ct' oh where "out = hdr_bytes oh @ ct'" "a_seal a (ks_nonce ks (ks_epoch ks) (sh_seq r)) (hdr_bytes oh) pt = Some ct'"
    using assms(2,3,5) m unfolding resealed_def by auto
  then show ?thesis using m assms(2) by auto
qed

end
