(* ===== verification/Json.thy ===== *)
theory Json
  imports Text
begin

text \<open>
  The JSON writer of \<open>src/src/core/json.cpp\<close> and \<open>src/include/lr/json.hpp\<close>: escaping, number
  formatting, the state machine \<open>Writer\<close> with its separator logic, and the atomic file write.  The
  writer is compared with a plain recursive pretty printer over JSON values, escaping with the
  decoding a reader performs, and the file write with what a reader may find at any moment.  A
  \<open>double\<close> that is not finite is \<open>None\<close>.
\<close>

section \<open>Strings and numbers\<close>

definition hex_char :: "nat \<Rightarrow> char" where
  "hex_char d = (if d < 10 then char_of (48 + d) else char_of (87 + d))"

text \<open>Constants for the characters that the notation cannot spell: quote, backslash and control characters.\<close>

definition c_quote :: char where "c_quote = CHR 0x22"
definition c_bs :: char where "c_bs = CHR 0x5C"
definition c_nl :: char where "c_nl = CHR 0x0A"
definition c_cr :: char where "c_cr = CHR 0x0D"
definition c_tab :: char where "c_tab = CHR 0x09"

lemmas char_consts = c_quote_def c_bs_def c_nl_def c_cr_def c_tab_def

definition escape_char :: "char \<Rightarrow> string" where
  "escape_char c =
     (if c = c_quote then [c_bs, c_quote]
      else if c = c_bs then [c_bs, c_bs]
      else if c = c_nl then c_bs # ''n''
      else if c = c_cr then c_bs # ''r''
      else if c = c_tab then c_bs # ''t''
      else if (of_char c :: nat) < 32
      then c_bs # ''u00'' @ [hex_char (of_char c div 16), hex_char (of_char c mod 16)]
      else [c])"

definition escape :: "string \<Rightarrow> string" where
  "escape s = concat (map escape_char s)"

text \<open>
  \<open>num\<close>: fixed-point text in a buffer of 512 bytes, trailing zeros trimmed but never the digit after
  the point.
\<close>

definition clamp_prec :: "int \<Rightarrow> nat" where
  "clamp_prec prec = (if prec < 0 then 0 else if prec > 12 then 12 else nat prec)"

definition trim_zeros :: "string \<Rightarrow> string" where
  "trim_zeros s =
     (if CHR ''.'' \<in> set s
      then let t = rev (dropWhile (\<lambda>c. c = CHR ''0'') (rev s))
           in if t \<noteq> [] \<and> last t = CHR ''.'' then take (length t + 1) s else t
      else s)"

definition num :: "real option \<Rightarrow> int \<Rightarrow> string" where
  "num v prec = (case v of None \<Rightarrow> ''null'' | Some x \<Rightarrow> trim_zeros (take 511 (show_fixed (clamp_prec prec) x)))"

section \<open>The writer\<close>

record writer =
  w_out :: string
  w_in_arr :: "bool list"
  w_step :: nat
  w_need_sep :: bool
  w_after_key :: bool

definition Writer :: "nat \<Rightarrow> writer" where
  "Writer indent_step = \<lparr> w_out = [], w_in_arr = [], w_step = indent_step, w_need_sep = False, w_after_key = False \<rparr>"

definition indent :: "writer \<Rightarrow> string" where
  "indent w = concat (replicate (length (w_in_arr w)) (replicate (w_step w) (CHR '' '')))"

definition put_str :: "string \<Rightarrow> writer \<Rightarrow> writer" where
  "put_str s w = w\<lparr> w_out := w_out w @ s \<rparr>"

definition sep :: "writer \<Rightarrow> writer" where
  "sep w =
     (if w_after_key w then w\<lparr> w_after_key := False \<rparr>
      else let w = (if w_need_sep w then put_str '','' w else w);
               w = (if w_in_arr w \<noteq> [] then put_str (c_nl # indent w) w else w)
           in w\<lparr> w_need_sep := True \<rparr>)"

definition obj_open :: "writer \<Rightarrow> writer" where
  "obj_open w = (let w = put_str ''{'' (sep w) in w\<lparr> w_in_arr := w_in_arr w @ [False], w_need_sep := False \<rparr>)"

definition arr_open :: "writer \<Rightarrow> writer" where
  "arr_open w = (let w = put_str ''['' (sep w) in w\<lparr> w_in_arr := w_in_arr w @ [True], w_need_sep := False \<rparr>)"

definition obj_close :: "writer \<Rightarrow> writer" where
  "obj_close w =
     (let w = w\<lparr> w_in_arr := butlast (w_in_arr w) \<rparr>;
          w = put_str (c_nl # indent w @ ''}'') w
      in w\<lparr> w_need_sep := True \<rparr>)"

definition arr_close :: "writer \<Rightarrow> writer" where
  "arr_close w =
     (let w = w\<lparr> w_in_arr := butlast (w_in_arr w) \<rparr>;
          w = put_str (c_nl # indent w @ '']'') w
      in w\<lparr> w_need_sep := True \<rparr>)"

definition key :: "string \<Rightarrow> writer \<Rightarrow> writer" where
  "key k w = (put_str ([c_quote] @ escape k @ [c_quote] @ '': '') (sep w))\<lparr> w_after_key := True \<rparr>"

definition val_str :: "string \<Rightarrow> writer \<Rightarrow> writer" where
  "val_str s w = put_str ([c_quote] @ escape s @ [c_quote]) (sep w)"

definition val_num :: "real option \<Rightarrow> int \<Rightarrow> writer \<Rightarrow> writer" where
  "val_num v prec w = put_str (num v prec) (sep w)"

definition val_ll :: "int \<Rightarrow> writer \<Rightarrow> writer" where
  "val_ll i w = put_str (show_int i) (sep w)"

definition val_bool :: "bool \<Rightarrow> writer \<Rightarrow> writer" where
  "val_bool b w = put_str (if b then ''true'' else ''false'') (sep w)"

definition val_null :: "writer \<Rightarrow> writer" where
  "val_null w = put_str ''null'' (sep w)"

definition val_raw :: "string \<Rightarrow> writer \<Rightarrow> writer" where
  "val_raw r w = put_str r (sep w)"

definition kv_strs :: "string \<Rightarrow> string list \<Rightarrow> writer \<Rightarrow> writer" where
  "kv_strs k vs w = arr_close (fold val_str vs (arr_open (key k w)))"

definition kv_nums :: "string \<Rightarrow> real option list \<Rightarrow> int \<Rightarrow> writer \<Rightarrow> writer" where
  "kv_nums k vs prec w = arr_close (fold (\<lambda>v. val_num v prec) vs (arr_open (key k w)))"

text \<open>
  \<open>write_file\<close>: what the file system holds after each step.  The stream buffers: \<open>opened\<close> and
  \<open>renamed\<close> say whether those calls succeed, \<open>good\<close> what the test of the stream after the insertions
  says, \<open>early\<close> how many characters have reached the file by then and \<open>late\<close> how many have reached
  it once the destructor has flushed the rest, which nothing tests.
\<close>

type_synonym files = "string \<Rightarrow> string option"

definition write_file :: "bool \<Rightarrow> bool \<Rightarrow> nat \<Rightarrow> nat \<Rightarrow> bool \<Rightarrow> string \<Rightarrow> writer \<Rightarrow> files \<Rightarrow> bool \<times> files list" where
  "write_file opened good early late renamed path w fs =
     (let tmp = path @ ''.tmp''; data = w_out w @ [c_nl]
      in if \<not> opened then (False, [fs])
         else let fs1 = fs(tmp \<mapsto> []); fs2 = fs(tmp \<mapsto> take early data); fs3 = fs(tmp \<mapsto> take late data)
         in if \<not> good then (False, [fs, fs1, fs2, fs3])
            else if \<not> renamed then (False, [fs, fs1, fs2, fs3])
            else (True, [fs, fs1, fs2, fs3, (fs3(path := fs3 tmp))(tmp := None)]))"

section \<open>Escaping is reversible\<close>

definition hex_val :: "char \<Rightarrow> nat" where
  "hex_val c = (if is_digit c then of_char c - 48 else of_char c - 87)"

text \<open>What a JSON reader makes of the characters between two quotes.\<close>

fun unescape :: "string \<Rightarrow> string option" where
  "unescape [] = Some []"
| "unescape (c # cs) =
     (if c = c_quote \<or> (of_char c :: nat) < 32 then None
      else if c \<noteq> c_bs then map_option ((#) c) (unescape cs)
      else case cs of
             [] \<Rightarrow> None
           | e # r \<Rightarrow>
             if e = c_quote \<or> e = c_bs then map_option ((#) e) (unescape r)
             else if e = CHR ''n'' then map_option ((#) c_nl) (unescape r)
             else if e = CHR ''r'' then map_option ((#) c_cr) (unescape r)
             else if e = CHR ''t'' then map_option ((#) c_tab) (unescape r)
             else if e = CHR ''u'' then
               (case r of
                  a # b # x # y # r' \<Rightarrow>
                    if a = CHR ''0'' \<and> b = CHR ''0''
                    then map_option ((#) (char_of (16 * hex_val x + hex_val y))) (unescape r') else None
                | _ \<Rightarrow> None)
             else None)"

lemma hex_val_char: "d < 16 \<Longrightarrow> hex_val (hex_char d) = d"
  by (auto simp: hex_val_def hex_char_def is_digit_def)

declare unescape.simps(2) [simp del]

lemma unescape_steps:
  "c \<noteq> c_quote \<Longrightarrow> c \<noteq> c_bs \<Longrightarrow> \<not> (of_char c :: nat) < 32 \<Longrightarrow> unescape (c # r) = map_option ((#) c) (unescape r)"
  "unescape (c_bs # c_quote # r) = map_option ((#) c_quote) (unescape r)"
  "unescape (c_bs # c_bs # r) = map_option ((#) c_bs) (unescape r)"
  "unescape (c_bs # CHR ''n'' # r) = map_option ((#) c_nl) (unescape r)"
  "unescape (c_bs # CHR ''r'' # r) = map_option ((#) c_cr) (unescape r)"
  "unescape (c_bs # CHR ''t'' # r) = map_option ((#) c_tab) (unescape r)"
  "unescape (c_bs # CHR ''u'' # CHR ''0'' # CHR ''0'' # x # y # r) =
     map_option ((#) (char_of (16 * hex_val x + hex_val y))) (unescape r)"
  by (subst unescape.simps, simp add: char_consts)+

lemma unescape_escape_char: "unescape (escape_char c @ r) = map_option ((#) c) (unescape r)"
proof -
  have "(of_char c :: nat) < 32 \<Longrightarrow> char_of (16 * hex_val (hex_char (of_char c div 16)) + hex_val (hex_char (of_char c mod 16))) = c"
  proof -
    assume "(of_char c :: nat) < 32"
    then have "(of_char c :: nat) div 16 < 16" by linarith
    then show ?thesis by (simp add: hex_val_char)
  qed
  then show ?thesis by (simp add: escape_char_def unescape_steps)
qed

lemma unescape_escape: "unescape (escape s) = Some s"
  unfolding escape_def by (induction s) (simp_all add: unescape_escape_char)

section \<open>The writer prints values\<close>

datatype jv = JStr string | JNum "real option" int | JInt int | JBool bool | JNull | JArr "jv list" | JObj "(string \<times> jv) list"

text \<open>How the harness drives the writer for a value.\<close>

fun emit_jv :: "jv \<Rightarrow> writer \<Rightarrow> writer"
  and emit_elems :: "jv list \<Rightarrow> writer \<Rightarrow> writer"
  and emit_members :: "(string \<times> jv) list \<Rightarrow> writer \<Rightarrow> writer" where
  "emit_jv (JStr s) w = val_str s w"
| "emit_jv (JNum v p) w = val_num v p w"
| "emit_jv (JInt i) w = val_ll i w"
| "emit_jv (JBool b) w = val_bool b w"
| "emit_jv JNull w = val_null w"
| "emit_jv (JArr xs) w = arr_close (emit_elems xs (arr_open w))"
| "emit_jv (JObj ms) w = obj_close (emit_members ms (obj_open w))"
| "emit_elems [] w = w"
| "emit_elems (x # xs) w = emit_elems xs (emit_jv x w)"
| "emit_members [] w = w"
| "emit_members ((k, v) # ms) w = emit_members ms (emit_jv v (key k w))"

text \<open>The reference: a pretty printer by recursion on the value, at nesting depth \<open>d\<close>.\<close>

definition pad :: "nat \<Rightarrow> nat \<Rightarrow> string" where
  "pad st d = concat (replicate d (replicate st (CHR '' '')))"

fun pp :: "nat \<Rightarrow> nat \<Rightarrow> jv \<Rightarrow> string"
  and pp_elems :: "nat \<Rightarrow> nat \<Rightarrow> bool \<Rightarrow> jv list \<Rightarrow> string"
  and pp_members :: "nat \<Rightarrow> nat \<Rightarrow> bool \<Rightarrow> (string \<times> jv) list \<Rightarrow> string" where
  "pp st d (JStr s) = [c_quote] @ escape s @ [c_quote]"
| "pp st d (JNum v p) = num v p"
| "pp st d (JInt i) = show_int i"
| "pp st d (JBool b) = (if b then ''true'' else ''false'')"
| "pp st d JNull = ''null''"
| "pp st d (JArr xs) = ''['' @ pp_elems st (Suc d) False xs @ [c_nl] @ pad st d @ '']''"
| "pp st d (JObj ms) = ''{'' @ pp_members st (Suc d) False ms @ [c_nl] @ pad st d @ ''}''"
| "pp_elems st d comma [] = []"
| "pp_elems st d comma (x # xs) = (if comma then '','' else []) @ [c_nl] @ pad st d @ pp st d x @ pp_elems st d True xs"
| "pp_members st d comma [] = []"
| "pp_members st d comma ((k, v) # ms) =
     (if comma then '','' else []) @ [c_nl] @ pad st d @ [c_quote] @ escape k @ [c_quote] @ '': '' @ pp st d v @ pp_members st d True ms"

text \<open>What the writer prints before a value, and the state it leaves behind.\<close>

definition lead :: "writer \<Rightarrow> string" where
  "lead w = (if w_after_key w then [] else (if w_need_sep w then '','' else []) @ (if w_in_arr w \<noteq> [] then c_nl # indent w else []))"

definition wrote :: "string \<Rightarrow> writer \<Rightarrow> writer \<Rightarrow> bool" where
  "wrote s w w' \<longleftrightarrow> w_out w' = w_out w @ s \<and> w_in_arr w' = w_in_arr w \<and> w_step w' = w_step w \<and> w_need_sep w' \<and> \<not> w_after_key w'"

definition w_ok :: "writer \<Rightarrow> bool" where
  "w_ok w \<longleftrightarrow> (w_after_key w \<longrightarrow> w_need_sep w)"

lemma indent_pad: "indent w = pad (w_step w) (length (w_in_arr w))"
  by (simp add: indent_def pad_def)

lemma put_str_fields [simp]:
  "w_out (put_str s w) = w_out w @ s" "w_in_arr (put_str s w) = w_in_arr w" "w_step (put_str s w) = w_step w"
  "w_need_sep (put_str s w) = w_need_sep w" "w_after_key (put_str s w) = w_after_key w"
  by (simp_all add: put_str_def)

lemma sep_wrote: "w_ok w \<Longrightarrow> wrote (lead w) w (sep w)"
  by (auto simp: sep_def wrote_def lead_def w_ok_def indent_def Let_def)

lemma wrote_put: "wrote s w w' \<Longrightarrow> wrote (s @ t) w (put_str t w')"
  by (simp add: wrote_def)

lemma wrote_ok: "wrote s w w' \<Longrightarrow> w_ok w'"
  by (simp add: wrote_def w_ok_def)

lemma open_state:
  assumes "w_ok w"
  shows "w_out (arr_open w) = w_out w @ lead w @ ''[''" "w_out (obj_open w) = w_out w @ lead w @ ''{''"
    "w_in_arr (arr_open w) = w_in_arr w @ [True]" "w_in_arr (obj_open w) = w_in_arr w @ [False]"
    "w_step (arr_open w) = w_step w" "w_step (obj_open w) = w_step w"
    "\<not> w_need_sep (arr_open w)" "\<not> w_need_sep (obj_open w)" "\<not> w_after_key (arr_open w)" "\<not> w_after_key (obj_open w)"
  using sep_wrote [OF assms] by (simp_all add: arr_open_def obj_open_def wrote_def Let_def)

lemma key_state:
  assumes "w_ok w"
  shows "w_out (key k w) = w_out w @ lead w @ [c_quote] @ escape k @ [c_quote] @ '': ''" "w_in_arr (key k w) = w_in_arr w"
    "w_step (key k w) = w_step w" "w_need_sep (key k w)" "w_after_key (key k w)"
  using sep_wrote [OF assms] by (simp_all add: key_def wrote_def)

lemma emit_pp:
  "w_ok w \<Longrightarrow> wrote (lead w @ pp (w_step w) (length (w_in_arr w)) v) w (emit_jv v w)"
  "\<not> w_after_key w \<Longrightarrow> w_in_arr w \<noteq> [] \<Longrightarrow>
     w_out (emit_elems vs w) = w_out w @ pp_elems (w_step w) (length (w_in_arr w)) (w_need_sep w) vs \<and>
     w_in_arr (emit_elems vs w) = w_in_arr w \<and> w_step (emit_elems vs w) = w_step w \<and> \<not> w_after_key (emit_elems vs w)"
  "\<not> w_after_key w \<Longrightarrow> w_in_arr w \<noteq> [] \<Longrightarrow>
     w_out (emit_members ms w) = w_out w @ pp_members (w_step w) (length (w_in_arr w)) (w_need_sep w) ms \<and>
     w_in_arr (emit_members ms w) = w_in_arr w \<and> w_step (emit_members ms w) = w_step w \<and> \<not> w_after_key (emit_members ms w)"
proof (induction v w and vs w and ms w rule: emit_jv_emit_elems_emit_members.induct)
  case (1 s w)
  then show ?case using wrote_put [OF sep_wrote [OF 1]] by (simp add: val_str_def)
next
  case (2 v p w)
  then show ?case using wrote_put [OF sep_wrote [OF 2]] by (simp add: val_num_def)
next
  case (3 i w)
  then show ?case using wrote_put [OF sep_wrote [OF 3]] by (simp add: val_ll_def)
next
  case (4 b w)
  then show ?case using wrote_put [OF sep_wrote [OF 4]] by (simp add: val_bool_def)
next
  case (5 w)
  then show ?case using wrote_put [OF sep_wrote [OF 5]] by (simp add: val_null_def)
next
  case (6 xs w)
  note o = open_state [OF 6(2)]
  show ?case using 6(1) o by (simp add: wrote_def arr_close_def indent_pad Let_def)
next
  case (7 ms w)
  note o = open_state [OF 7(2)]
  show ?case using 7(1) o by (simp add: wrote_def obj_close_def indent_pad Let_def)
next
  case (9 x xs w)
  then have "wrote (lead w @ pp (w_step w) (length (w_in_arr w)) x) w (emit_jv x w)" by (simp add: w_ok_def)
  then show ?case using 9 by (simp add: wrote_def lead_def indent_pad)
next
  case (11 k v ms w)
  have ok: "w_ok w" using 11(3) by (simp add: w_ok_def)
  note ks = key_state [OF ok, of k]
  have "wrote (lead (key k w) @ pp (w_step w) (length (w_in_arr w)) v) (key k w) (emit_jv v (key k w))"
    using 11(1) ks by (simp add: w_ok_def)
  then show ?case using 11(2-4) ks by (simp add: wrote_def lead_def indent_pad)
qed simp_all

section \<open>Trimming keeps the value\<close>

lemma trailing_zeros:
  obtains q m where "xs = q @ replicate m (CHR ''0'')" "q = [] \<or> last q \<noteq> CHR ''0''"
proof -
  let ?z = "takeWhile (\<lambda>c. c = CHR ''0'') (rev xs)" and ?q = "dropWhile (\<lambda>c. c = CHR ''0'') (rev xs)"
  have "?z = replicate (length ?z) (CHR ''0'')" by (rule replicate_eqI) (auto dest: set_takeWhileD)
  then have "rev xs = replicate (length ?z) (CHR ''0'') @ ?q" by (metis takeWhile_dropWhile_id)
  then have "xs = rev ?q @ replicate (length ?z) (CHR ''0'')" by (metis rev_append rev_replicate rev_rev_ident)
  moreover have "rev ?q = [] \<or> last (rev ?q) \<noteq> CHR ''0''"
    using hd_dropWhile [of "\<lambda>c. c = CHR ''0''" "rev xs"] by (auto simp: last_rev)
  ultimately show thesis by (rule that)
qed

lemma digits_zeros: "digits (replicate m (CHR ''0'')) a = (a * 10 ^ m, m, [])"
  by (induction m arbitrary: a) (simp_all add: is_digit_def)

text \<open>What trimming leaves of a text with digits \<open>ds\<close> after the point.\<close>

lemma trim_zeros_point:
  assumes "CHR ''.'' \<notin> set x" "list_all is_digit ds" "ds \<noteq> []"
  obtains es m where "trim_zeros (x @ CHR ''.'' # ds) = x @ CHR ''.'' # es" "es \<noteq> []" "list_all is_digit es"
    "ds = es @ replicate m (CHR ''0'')"
proof -
  obtain q m where q: "ds = q @ replicate m (CHR ''0'')" "q = [] \<or> last q \<noteq> CHR ''0''" by (rule trailing_zeros)
  have dw: "dropWhile (\<lambda>c. c = CHR ''0'') (replicate m (CHR ''0'') @ ys) = dropWhile (\<lambda>c. c = CHR ''0'') ys" for ys
    by (induction m) simp_all
  show thesis
  proof (cases "q = []")
    case True
    then obtain k where k: "m = Suc k" using q(1) assms(3) by (cases m) auto
    have "rev (dropWhile (\<lambda>c. c = CHR ''0'') (rev (x @ CHR ''.'' # ds))) = x @ ''.''" using q True dw by simp
    then have "trim_zeros (x @ CHR ''.'' # ds) = x @ CHR ''.'' # ''0''" using q True k by (simp add: trim_zeros_def Let_def)
    then show thesis using that [of "''0''" k] q True k by (simp add: is_digit_def)
  next
    case False
    have "rev (dropWhile (\<lambda>c. c = CHR ''0'') (rev (x @ CHR ''.'' # ds))) = x @ CHR ''.'' # q"
      using q False dw by (cases q rule: rev_cases) simp_all
    moreover have "last (x @ CHR ''.'' # q) \<noteq> CHR ''.''"
      using assms(2) q(1) False digit_plain [of "last q"] last_in_set [OF False] by (simp add: list_all_iff)
    ultimately have "trim_zeros (x @ CHR ''.'' # ds) = x @ CHR ''.'' # q" by (simp add: trim_zeros_def Let_def)
    then show thesis using that [of q m] q False assms(2) by simp
  qed
qed

lemma digits_trim:
  assumes "list_all is_digit es"
  shows "real (fst (digits (es @ replicate m (CHR ''0'')) 0)) / 10 ^ length (es @ replicate m (CHR ''0'')) =
         real (fst (digits es 0)) / 10 ^ length es"
proof -
  obtain v k r where d: "digits es 0 = (v, k, r)" by (metis prod_cases3)
  then show ?thesis by (subst digits_append [OF assms]) (simp add: digits_zeros power_add)
qed

lemma digits_rest:
  assumes "list_all is_digit xs" "rest = [] \<or> \<not> is_digit (hd rest)"
  shows "digits (xs @ rest) 0 = (fst (digits xs 0), length xs, rest)"
proof -
  have "digits rest v = (v, 0, rest)" for v using assms(2) by (cases rest) auto
  then show ?thesis
    using digits_all [OF assms(1), of 0] by (subst digits_append [OF assms(1)]) (auto split: prod.splits)
qed

text \<open>A number with a point, whatever follows it.\<close>

lemma strtod_point:
  assumes "list_all is_digit xs" "xs \<noteq> []" "list_all is_digit es" "rest = [] \<or> \<not> is_digit (hd rest)"
  shows "strtod ((if neg then ''-'' else []) @ xs @ CHR ''.'' # es @ rest) =
     (if neg then - 1 else 1) * (real (fst (digits xs 0)) + real (fst (digits es 0)) / 10 ^ length es)"
proof -
  let ?b = "xs @ CHR ''.'' # es @ rest"
  have "is_digit (hd ?b)" "?b \<noteq> []" using assms(1,2) by (cases xs; simp)+
  then have s: "read_sign (skip_space ((if neg then ''-'' else []) @ ?b)) = (neg, ?b)"
    using read_sign_digits [of ?b] read_sign_minus [of ?b] by (cases neg) simp_all
  have x: "digits ?b 0 = (fst (digits xs 0), length xs, CHR ''.'' # es @ rest)"
    by (rule digits_rest [OF assms(1)]) (simp add: is_digit_def)
  show ?thesis unfolding strtod_def s using x by (simp add: digits_rest [OF assms(3,4)])
qed

text \<open>The shape of a fixed-point text with a fraction, trimmed or not.\<close>

lemma show_fixed_shape:
  assumes "0 < p"
  obtains es m where "show_fixed p v = (if v < 0 then ''-'' else []) @ show_nat (fixed_digits p v div 10 ^ p) @ CHR ''.'' # es @ replicate m (CHR ''0'')"
    "trim_zeros (show_fixed p v) = (if v < 0 then ''-'' else []) @ show_nat (fixed_digits p v div 10 ^ p) @ CHR ''.'' # es" "list_all is_digit es"
proof -
  let ?n = "fixed_digits p v"
  let ?x = "show_nat (?n div 10 ^ p)" and ?d = "show_pad p (?n mod 10 ^ p)" and ?neg = "if v < 0 then ''-'' else []"
  have s: "show_fixed p v = ?neg @ ?x @ CHR ''.'' # ?d" using assms by (simp add: show_fixed_def Let_def)
  have nd: "CHR ''.'' \<notin> set (?neg @ ?x)" using show_nat_digits [of "?n div 10 ^ p"] by (auto simp: list_all_iff dest: digit_plain)
  have ne: "?d \<noteq> []" using assms by (metis length_show_pad less_numeral_extra(3) list.size(3))
  obtain es m where "trim_zeros ((?neg @ ?x) @ CHR ''.'' # ?d) = (?neg @ ?x) @ CHR ''.'' # es" "list_all is_digit es"
    "?d = es @ replicate m (CHR ''0'')"
    using trim_zeros_point [OF nd show_pad_digits ne] by metis
  then show thesis using that [of es m] s by simp
qed

lemma strtod_trim: "strtod (trim_zeros (show_fixed p v)) = strtod (show_fixed p v)"
proof (cases "p = 0")
  case True
  have "CHR ''.'' \<notin> set (show_fixed 0 v)"
    using show_nat_digits [of "fixed_digits 0 v"] by (auto simp: show_fixed_def list_all_iff dest: digit_plain)
  then show ?thesis using True by (simp add: trim_zeros_def)
next
  case False
  then obtain es m where t: "show_fixed p v = (if v < 0 then ''-'' else []) @ show_nat (fixed_digits p v div 10 ^ p) @ CHR ''.'' # es @ replicate m (CHR ''0'')"
    "trim_zeros (show_fixed p v) = (if v < 0 then ''-'' else []) @ show_nat (fixed_digits p v div 10 ^ p) @ CHR ''.'' # es" "list_all is_digit es"
    using show_fixed_shape [of p v] by auto
  have "list_all is_digit (es @ replicate m (CHR ''0''))" using t(3) by (simp add: list_all_iff is_digit_def ball_Un)
  note a = strtod_point [OF show_nat_digits show_nat_nonempty this disjI1 [OF refl], of "v < 0" "fixed_digits p v div 10 ^ p"]
  note b = strtod_point [OF show_nat_digits show_nat_nonempty t(3) disjI1 [OF refl], of "v < 0" "fixed_digits p v div 10 ^ p"]
  show ?thesis unfolding t(2) unfolding t(1) using a b digits_trim [OF t(3), of m] by simp
qed

text \<open>The buffer of \<open>num\<close> holds the text of every finite \<open>double\<close>.\<close>

lemma num_fits:
  assumes "\<bar>v\<bar> < 2 ^ 1024"
  shows "num (Some v) prec = trim_zeros (show_fixed (clamp_prec prec) v)"
proof -
  have "\<bar>v\<bar> < (10::real) ^ 309" using assms by (rule order_less_le_trans) simp
  then have "length (show_fixed (clamp_prec prec) v) \<le> 309 + clamp_prec prec + 3" by (rule length_show_fixed)
  then show ?thesis by (simp add: num_def clamp_prec_def split: if_splits)
qed

section \<open>Properties\<close>

text \<open>
  C25. The writer's state machine prints exactly the reference rendering of any JSON value, with its
  commas, line breaks and indentation, and every string in it decodes to the string that was given,
  whatever quotes, backslashes and control characters it holds.
\<close>

theorem writer_prints_values:
  "w_out (emit_jv v (Writer st)) = pp st 0 v \<and> unescape (escape s) = Some s"
  using emit_pp(1) [of "Writer st" v] unescape_escape [of s] by (simp add: w_ok_def wrote_def lead_def Writer_def)

text \<open>
  C37. A finite \<open>double\<close> is written so that it reads back as the value rounded to the requested
  precision: the buffer never cuts the text, trimming zeros changes nothing, and the error is at most half a unit in the last place asked for.
\<close>

theorem num_reads_back:
  assumes "\<bar>v\<bar> < 2 ^ 1024"
  shows "strtod (num (Some v) prec) = fixed_value (clamp_prec prec) v \<and>
         \<bar>strtod (num (Some v) prec) - v\<bar> \<le> 1 / 2 / 10 ^ clamp_prec prec"
  using fixed_value_close [of "clamp_prec prec" v] by (simp add: num_fits [OF assms] strtod_trim strtod_show_fixed)

theorem num_reads_back_witness: "\<bar>strtod (num (Some (10 / 4)) 6) - 10 / 4\<bar> \<le> 1 / 2 / 10 ^ 6"
  using num_reads_back [THEN conjunct2, of "10 / 4" 6] by (simp add: clamp_prec_def)

text \<open>
  The file write is atomic as long as the flush at the end of the stream's life stores the whole
  text: whatever else fails and wherever the process dies, a reader of the path finds the old contents or
  all of the new ones, the new ones when \<open>write_file\<close> reports success and the old ones when it does not.
\<close>

lemma write_file_atomic:
  assumes "length (w_out w) < late"
  shows "case write_file opened good early late renamed path w fs of (ok, states) \<Rightarrow>
     (\<forall>fs' \<in> set states. fs' path = fs path \<or> fs' path = Some (w_out w @ [c_nl])) \<and>
     last states path = (if ok then Some (w_out w @ [c_nl]) else fs path)"
  using assms by (auto simp: write_file_def Let_def)

text \<open>
  Nothing tests the flush: when the device fills up while the stream is closed, a truncated file takes
  the place of the old one and the call reports success.
\<close>

lemma write_file_unflushed:
  "write_file True True 0 2 True ''r.json'' (val_null (Writer 2)) (\<lambda>_. Some ''old'') =
     (True, snd (write_file True True 0 2 True ''r.json'' (val_null (Writer 2)) (\<lambda>_. Some ''old''))) \<and>
   last (snd (write_file True True 0 2 True ''r.json'' (val_null (Writer 2)) (\<lambda>_. Some ''old''))) ''r.json'' = Some ''nu''"
  by (simp add: write_file_def val_null_def sep_def put_str_def Writer_def Let_def)

end
