(* ===== verification/Ctrl.thy ===== *)
theory Ctrl
  imports Text Transport
begin

text \<open>
  The control channel of \<open>src/src/core/ctrl.cpp\<close> and \<open>src/include/lr/ctrl.hpp\<close>: the line format
  \<open>k=v k=v\<close> with the parser that both ends share, and the client with its connection, its request and
  reply exchange and the three commands.  The socket is a script of what \<open>recv\<close> delivers, \<open>None\<close> for a
  call that returns nothing or fails, and a function that answers every \<open>send\<close>.
\<close>

section \<open>Library conversions\<close>

definition c_lf :: char where "c_lf = CHR 0x0A"

text \<open>What \<open>%s\<close> prints of a string handed over as \<open>c_str()\<close>.\<close>

definition c_str :: "string \<Rightarrow> string" where
  "c_str s = takeWhile (\<lambda>c. c \<noteq> CHR 0x00) s"

definition strtol :: "string \<Rightarrow> int" where
  "strtol s = max (- (2 ^ 63)) (min (2 ^ 63 - 1) (strtoll s))"

definition atoi :: "string \<Rightarrow> int" where
  "atoi s = sint (of_int (strtol s) :: 32 word)"

definition strtoull :: "string \<Rightarrow> u64" where
  "strtoull s = (let i = strtoll s in if \<bar>i\<bar> \<ge> 2 ^ 64 then - 1 else of_int i)"

text \<open>The conversion of a \<open>double\<close> in range to \<open>uint64_t\<close>: the fraction is dropped.\<close>

definition to_u64 :: "real \<Rightarrow> u64" where
  "to_u64 x = of_int (if x < 0 then \<lceil>x\<rceil> else \<lfloor>x\<rfloor>)"

section \<open>The parser\<close>

function tokens :: "string \<Rightarrow> string list" where
  "tokens s =
     (let r = skip_space s
      in if r = [] then [] else takeWhile (\<lambda>c. \<not> is_space c) r # tokens (dropWhile (\<lambda>c. \<not> is_space c) r))"
  by pat_completeness auto
termination
proof (relation "measure length")
  fix s r :: string
  assume r: "r = skip_space s" "r \<noteq> []"
  then have "\<not> is_space (hd r)" unfolding skip_space_def using hd_dropWhile by blast
  then have "length (dropWhile (\<lambda>c. \<not> is_space c) r) < length r"
    using r(2) length_dropWhile_le [of "\<lambda>c. \<not> is_space c" "tl r"] by (cases r) auto
  also have "\<dots> \<le> length s" using r(1) length_dropWhile_le [of is_space s] by (simp add: skip_space_def)
  finally show "(dropWhile (\<lambda>c. \<not> is_space c) r, s) \<in> measure length" by simp
qed simp

declare tokens.simps [simp del]

type_synonym kv_map = "string \<Rightarrow> string option"

definition put_kv :: "string \<Rightarrow> kv_map \<Rightarrow> kv_map" where
  "put_kv tok m =
     (if CHR ''='' \<in> set tok
      then m(takeWhile (\<lambda>c. c \<noteq> CHR ''='') tok \<mapsto> tl (dropWhile (\<lambda>c. c \<noteq> CHR ''='') tok))
      else m)"

definition parse_kv :: "string \<Rightarrow> kv_map" where
  "parse_kv s = fold put_kv (tokens s) Map.empty"

section \<open>The client\<close>

record start_request =
  sq_cipher :: string
  sq_payload :: u64
  sq_pps :: real
  sq_seconds :: real
  sq_dst_addr :: string
  sq_dst_port :: u16
  sq_return_port :: u16
  sq_epoch_packets :: u64
  sq_cpu :: int

definition StartRequest :: start_request where
  "StartRequest = \<lparr> sq_cipher = ''aes-256-gcm'', sq_payload = 512, sq_pps = 0, sq_seconds = 2, sq_dst_addr = ''127.0.0.1'',
     sq_dst_port = 0, sq_return_port = 0, sq_epoch_packets = 0, sq_cpu = - 1 \<rparr>"

record stop_reply =
  sr_sent :: u64
  sr_refused :: u64
  sr_returned :: u64
  sr_p50 :: real
  sr_p99 :: real
  sr_p999 :: real
  sr_fault :: string
  sr_ok :: bool

definition StopReply :: stop_reply where
  "StopReply = \<lparr> sr_sent = 0, sr_refused = 0, sr_returned = 0, sr_p50 = 0, sr_p99 = 0, sr_p999 = 0, sr_fault = [], sr_ok = False \<rparr>"

text \<open>
  \<open>cl_fd\<close> is the member; \<open>cl_tx\<close> is what the socket has taken and \<open>cl_rx\<close> what it still delivers.
\<close>

record client =
  cl_fd :: int
  cl_tx :: string
  cl_rx :: "char option list"

definition client_close :: "client \<Rightarrow> os \<Rightarrow> client \<times> os" where
  "client_close c os = (c\<lparr> cl_fd := - 1 \<rparr>, if cl_fd c \<ge> 0 then os\<lparr> os_fds := os_fds os - {cl_fd c} \<rparr> else os)"

text \<open>
  \<open>connect\<close>: \<open>conn\<close> is the error of the system call, \<open>None\<close> when it succeeds, and \<open>rx\<close> what the new
  connection will deliver.  The first component is \<open>err\<close>, \<open>None\<close> for a return of \<open>true\<close>.
\<close>

definition client_connect ::
    "(u32 \<Rightarrow> u16 \<Rightarrow> string option) \<Rightarrow> char option list \<Rightarrow> string \<Rightarrow> u16 \<Rightarrow> client \<Rightarrow> os \<Rightarrow> string option \<times> client \<times> os" where
  "client_connect conn rx host port c os =
     (case client_close c os of (c, os) \<Rightarrow>
      case os_socket os (os_fds os) of
        None \<Rightarrow> (Some ''socket'', c, os)
      | Some fd \<Rightarrow>
        let c = c\<lparr> cl_fd := fd \<rparr>; os = os\<lparr> os_fds := insert fd (os_fds os) \<rparr>
        in case os_pton os host of
             None \<Rightarrow> (Some (''bad control host: '' @ host), client_close c os)
           | Some a \<Rightarrow>
             (case conn a port of
                Some e \<Rightarrow> (Some (''connect '' @ host @ '': '' @ e), client_close c os)
              | None \<Rightarrow>
                (None, c\<lparr> cl_tx := [], cl_rx := rx \<rparr>,
                 os\<lparr> os_opts := os_opts os @ [(fd, ''TCP_NODELAY'', 1), (fd, ''SO_RCVTIMEO'', 30)] \<rparr>)))"

text \<open>The sending loop: \<open>snd_res i n\<close> is the answer to the \<open>i\<close>-th call, which offers \<open>n\<close> bytes.\<close>

function send_all :: "(nat \<Rightarrow> nat \<Rightarrow> int) \<Rightarrow> nat \<Rightarrow> string \<Rightarrow> string \<Rightarrow> bool \<times> string" where
  "send_all snd_res i out tx =
     (if out = [] then (True, tx)
      else let w = snd_res i (length out)
           in if w \<le> 0 then (False, tx)
              else send_all snd_res (Suc i) (drop (nat w) out) (tx @ take (nat w) out))"
  by pat_completeness auto
termination by (relation "measure (\<lambda>(_, _, out, _). length out)") auto

declare send_all.simps [simp del]

text \<open>The receiving loop: one byte at a time up to the newline, at most 4096 before it.\<close>

fun read_reply :: "char option list \<Rightarrow> string \<Rightarrow> (string + string) \<times> char option list" where
  "read_reply [] buf = (Inl ''control connection closed'', [])"
| "read_reply (None # rx) buf = (Inl ''control connection closed'', rx)"
| "read_reply (Some c # rx) buf =
     (if c = c_lf then (Inr buf, rx)
      else if length buf + 1 > 4096 then (Inl ''control reply too long'', rx)
      else read_reply rx (buf @ [c]))"

definition request :: "(nat \<Rightarrow> nat \<Rightarrow> int) \<Rightarrow> string \<Rightarrow> client \<Rightarrow> (string + string) \<times> client" where
  "request snd_res line c =
     (if cl_fd c < 0 then (Inl ''not connected'', c)
      else case send_all snd_res 0 (line @ [c_lf]) (cl_tx c) of
             (False, tx) \<Rightarrow> (Inl ''control send failed'', c\<lparr> cl_tx := tx \<rparr>)
           | (True, tx) \<Rightarrow>
             (case read_reply (cl_rx c) [] of (res, rx) \<Rightarrow> (res, c\<lparr> cl_tx := tx, cl_rx := rx \<rparr>)))"

definition ping :: "(nat \<Rightarrow> nat \<Rightarrow> int) \<Rightarrow> client \<Rightarrow> (string + kv_map) \<times> client" where
  "ping snd_res c =
     (case request snd_res ''PING'' c of
        (Inl e, c) \<Rightarrow> (Inl e, c)
      | (Inr rep, c) \<Rightarrow>
        (if take 4 rep \<noteq> ''PONG'' then Inl (''unexpected reply: '' @ rep) else Inr (parse_kv (drop 4 rep)), c))"

definition start_line :: "start_request \<Rightarrow> string" where
  "start_line q = take 511 (
     ''START cipher='' @ c_str (sq_cipher q) @ '' payload='' @ show_nat (unat (sq_payload q)) @
     '' pps='' @ show_fixed 3 (sq_pps q) @ '' seconds='' @ show_fixed 3 (sq_seconds q) @
     '' dst='' @ c_str (sq_dst_addr q) @ '':'' @ show_nat (unat (sq_dst_port q)) @ '' '' @
     ''return_port='' @ show_nat (unat (sq_return_port q)) @ '' epoch_packets='' @ show_nat (unat (sq_epoch_packets q)) @
     '' cpu='' @ show_int (sq_cpu q))"

definition start :: "(nat \<Rightarrow> nat \<Rightarrow> int) \<Rightarrow> start_request \<Rightarrow> client \<Rightarrow> string option \<times> client" where
  "start snd_res q c =
     (case request snd_res (start_line q) c of
        (Inl e, c) \<Rightarrow> (Some e, c)
      | (Inr rep, c) \<Rightarrow> (if take 2 rep \<noteq> ''OK'' then Some (''generator refused: '' @ rep) else None, c))"

definition kv_num :: "kv_map \<Rightarrow> string \<Rightarrow> real" where
  "kv_num kv k = (case kv k of None \<Rightarrow> 0 | Some v \<Rightarrow> strtod v)"

definition read_done :: "string \<Rightarrow> stop_reply" where
  "read_done s =
     (let kv = parse_kv s
      in \<lparr> sr_sent = to_u64 (kv_num kv ''sent''), sr_refused = to_u64 (kv_num kv ''refused''),
           sr_returned = to_u64 (kv_num kv ''returned''), sr_p50 = kv_num kv ''rtt_p50_ns'', sr_p99 = kv_num kv ''rtt_p99_ns'',
           sr_p999 = kv_num kv ''rtt_p999_ns'', sr_fault = (case kv ''fault'' of None \<Rightarrow> [] | Some v \<Rightarrow> v), sr_ok = True \<rparr>)"

definition stop :: "(nat \<Rightarrow> nat \<Rightarrow> int) \<Rightarrow> client \<Rightarrow> (string + stop_reply) \<times> client" where
  "stop snd_res c =
     (case request snd_res ''STOP'' c of
        (Inl e, c) \<Rightarrow> (Inl e, c)
      | (Inr s, c) \<Rightarrow>
        (if take 4 s \<noteq> ''DONE'' then Inl (''unexpected reply: '' @ s) else Inr (read_done (drop 4 s)), c))"

section \<open>Lines of key and value\<close>

text \<open>The form of every line after its command word: a blank before every \<open>k=v\<close>.\<close>

definition kv_line :: "(string \<times> string) list \<Rightarrow> string" where
  "kv_line kvs = concat (map (\<lambda>(k, v). '' '' @ k @ CHR ''='' # v) kvs)"

definition plain :: "string \<Rightarrow> bool" where
  "plain s \<longleftrightarrow> list_all (\<lambda>c. \<not> is_space c) s"

lemma plain_simps [simp]: "plain []" "plain (c # s) \<longleftrightarrow> \<not> is_space c \<and> plain s" "plain (s @ t) \<longleftrightarrow> plain s \<and> plain t"
  by (auto simp: plain_def)

lemma plain_digits: "list_all is_digit s \<Longrightarrow> plain s"
  by (auto simp: plain_def list_all_iff dest: digit_plain)

lemma plain_show_nat [simp]: "plain (show_nat n)"
  by (rule plain_digits [OF show_nat_digits])

lemma plain_show_int [simp]: "plain (show_int i)"
  by (simp add: show_int_def is_space_def)

lemma plain_show_fixed [simp]: "plain (show_fixed p v)"
  by (simp add: show_fixed_def Let_def is_space_def plain_digits show_pad_digits)

lemma plain_takeWhile: "plain w \<Longrightarrow> r = [] \<or> is_space (hd r) \<Longrightarrow>
    takeWhile (\<lambda>c. \<not> is_space c) (w @ r) = w \<and> dropWhile (\<lambda>c. \<not> is_space c) (w @ r) = r"
  by (induction w) (auto, (cases r; simp)+)

lemma space_blank: "is_space (CHR '' '')"
  by (simp add: is_space_def)

lemma tokens_word:
  assumes "plain w" "w \<noteq> []" "r = [] \<or> is_space (hd r)"
  shows "tokens (CHR '' '' # w @ r) = w # tokens r"
proof -
  have "skip_space (CHR '' '' # w @ r) = w @ r"
    using assms(1,2) space_blank by (cases w) (simp_all add: skip_space_def)
  then show ?thesis using assms plain_takeWhile [OF assms(1,3)] by (subst tokens.simps) (simp add: Let_def)
qed

lemma tokens_Nil [simp]: "tokens [] = []"
  by (subst tokens.simps) (simp add: skip_space_def)

lemma tokens_kv_line:
  "list_all (\<lambda>(k, v). plain k \<and> plain v) kvs \<Longrightarrow> tokens (kv_line kvs) = map (\<lambda>(k, v). k @ CHR ''='' # v) kvs"
proof (induction kvs)
  case (Cons kv kvs)
  obtain k v where kv: "kv = (k, v)" by force
  have "kv_line kvs = [] \<or> is_space (hd (kv_line kvs))" by (cases kvs) (auto simp: kv_line_def is_space_def)
  then have "tokens (CHR '' '' # (k @ CHR ''='' # v) @ kv_line kvs) = (k @ CHR ''='' # v) # tokens (kv_line kvs)"
    using Cons.prems kv by (intro tokens_word) (simp_all add: is_space_def)
  then show ?case using Cons kv by (simp add: kv_line_def)
qed (simp add: kv_line_def)

lemma put_kv_pair: "CHR ''='' \<notin> set k \<Longrightarrow> put_kv (k @ CHR ''='' # v) m = m(k \<mapsto> v)"
proof -
  assume k: "CHR ''='' \<notin> set k"
  have "takeWhile (\<lambda>c. c \<noteq> CHR ''='') (k @ CHR ''='' # v) = k" using k by (subst takeWhile_append2) auto
  moreover have "dropWhile (\<lambda>c. c \<noteq> CHR ''='') (k @ CHR ''='' # v) = CHR ''='' # v" using k by (subst dropWhile_append2) auto
  ultimately show ?thesis by (simp add: put_kv_def)
qed

lemma fold_put_kv:
  "list_all (\<lambda>(k, v). CHR ''='' \<notin> set k) kvs \<Longrightarrow> fold put_kv (map (\<lambda>(k, v). k @ CHR ''='' # v) kvs) m = m ++ map_of (rev kvs)"
  by (induction kvs arbitrary: m) (auto simp: put_kv_pair map_add_def fun_eq_iff split: option.splits)

text \<open>The parser recovers every pair of such a line; the last value of a repeated key wins.\<close>

lemma parse_kv_line:
  assumes "list_all (\<lambda>(k, v). plain k \<and> CHR ''='' \<notin> set k \<and> plain v) kvs"
  shows "parse_kv (kv_line kvs) = map_of (rev kvs)"
proof -
  have "list_all (\<lambda>(k, v). plain k \<and> plain v) kvs" "list_all (\<lambda>(k, v). CHR ''='' \<notin> set k) kvs"
    using assms by (auto simp: list_all_iff)
  then show ?thesis by (simp add: parse_kv_def tokens_kv_line fold_put_kv)
qed

section \<open>The exchange\<close>

lemma send_all_takes:
  assumes "\<And>i n. 0 < n \<Longrightarrow> 0 < snd_res i n"
  shows "send_all snd_res i out tx = (True, tx @ out)"
  using assms
proof (induction snd_res i out tx rule: send_all.induct)
  case (1 snd_res i out tx)
  then show ?case
  proof (cases "out = []")
    case False
    then have w: "\<not> snd_res i (length out) \<le> 0" using 1(2) [of "length out" i] by simp
    then show ?thesis using 1(1) [OF False refl w 1(2)] False by (subst send_all.simps) (simp add: Let_def)
  qed (simp add: send_all.simps)
qed

lemma send_all_sent: "send_all snd_res i out tx = (True, tx') \<Longrightarrow> tx' = tx @ out"
proof (induction snd_res i out tx rule: send_all.induct)
  case (1 snd_res i out tx)
  then show ?case by (subst (asm) (2) send_all.simps) (auto simp: Let_def split: if_splits)
qed

lemma read_reply_Inr:
  "read_reply rx buf = (Inr r, rest) \<longleftrightarrow>
     (\<exists>s. r = buf @ s \<and> rx = map Some s @ Some c_lf # rest \<and> c_lf \<notin> set s \<and> (s = [] \<or> length r \<le> 4096))"
proof (induction rx buf rule: read_reply.induct)
  case (3 c rx buf)
  show ?case
  proof (cases "c = c_lf")
    case True
    then show ?thesis by (auto simp: map_eq_Cons_conv Cons_eq_append_conv)
  next
    case False
    show ?thesis (is "?L \<longleftrightarrow> (\<exists>s. ?R s)")
    proof
      assume L: ?L
      then have l: "length buf + 1 \<le> 4096" and "read_reply rx (buf @ [c]) = (Inr r, rest)"
        using False by (auto split: if_splits)
      then obtain s where "r = (buf @ [c]) @ s" "rx = map Some s @ Some c_lf # rest" "c_lf \<notin> set s" "s = [] \<or> length r \<le> 4096"
        using 3 False by auto
      then have "?R (c # s)" using l False by auto
      then show "\<exists>s. ?R s" ..
    next
      assume "\<exists>s. ?R s"
      then obtain s where s: "?R s" ..
      then obtain s' where s': "s = c # s'" "rx = map Some s' @ Some c_lf # rest" using False by (cases s) auto
      then have "\<exists>t. r = (buf @ [c]) @ t \<and> rx = map Some t @ Some c_lf # rest \<and> c_lf \<notin> set t \<and> (t = [] \<or> length r \<le> 4096)"
        using s by (intro exI [of _ s']) auto
      then show ?L using 3 False s s' by auto
    qed
  qed
qed (auto simp: Cons_eq_append_conv Cons_eq_map_conv)

text \<open>Every call that fails leaves the object with a reason, and no descriptor is left open by a failed connection.\<close>

lemma client_connect_descriptors:
  assumes "client_connect conn rx host port c os = (err, c', os')" "\<And>S fd. os_socket os S = Some fd \<Longrightarrow> fd \<notin> S \<and> 0 \<le> fd"
    "- 1 \<notin> os_fds os" "- 1 \<le> cl_fd c"
  shows "os_fds os' = os_fds os - {cl_fd c} \<union> (if err = None then {cl_fd c'} else {}) \<and> (err = None \<longleftrightarrow> 0 \<le> cl_fd c')"
proof (cases "0 \<le> cl_fd c")
  case True
  then show ?thesis
    using assms(1) by (auto simp: client_connect_def client_close_def Let_def split: option.splits dest: assms(2))
next
  case False
  then have "cl_fd c = - 1" using assms(4) by linarith
  then show ?thesis
    using assms(1,3) by (auto simp: client_connect_def client_close_def Let_def split: option.splits dest: assms(2))
qed

section \<open>Properties\<close>

text \<open>
  One request, one reply: on a connected client whose socket takes what it is offered, in whatever
  pieces, the line goes out once with its newline, and the request returns \<open>r\<close> exactly when what the
  socket delivers begins with the line \<open>r\<close>, free of newlines and at most 4096 characters long; the rest
  stays for the next request.
\<close>

theorem request_exchange:
  assumes "\<And>i n. 0 < n \<Longrightarrow> 0 < snd_res i n" "0 \<le> cl_fd c"
  shows "cl_tx (snd (request snd_res line c)) = cl_tx c @ line @ [c_lf] \<and>
         ((\<exists>c'. request snd_res line c = (Inr r, c') \<and> cl_rx c' = rest) \<longleftrightarrow>
          cl_rx c = map Some r @ Some c_lf # rest \<and> c_lf \<notin> set r \<and> length r \<le> 4096)"
proof -
  obtain res rx where rr: "read_reply (cl_rx c) [] = (res, rx)" by force
  have "request snd_res line c = (res, c\<lparr> cl_tx := cl_tx c @ line @ [c_lf], cl_rx := rx \<rparr>)"
    unfolding request_def using assms(2) rr by (simp add: send_all_takes [OF assms(1)])
  moreover have "res = Inr r \<and> rx = rest \<longleftrightarrow>
      cl_rx c = map Some r @ Some c_lf # rest \<and> c_lf \<notin> set r \<and> length r \<le> 4096"
    using read_reply_Inr [of "cl_rx c" "[]" r rest] rr by auto
  ultimately show ?thesis by auto
qed

theorem request_exchange_witness:
  "fst (request (\<lambda>i n. 1) ''PING'' \<lparr> cl_fd = 3, cl_tx = [], cl_rx = map Some ''PONG'' @ Some c_lf # [None] \<rparr>) = Inr ''PONG''"
proof -
  let ?c = "\<lparr> cl_fd = 3, cl_tx = [], cl_rx = map Some ''PONG'' @ Some c_lf # [None] \<rparr>"
  have "\<exists>c'. request (\<lambda>i n. 1) ''PING'' ?c = (Inr ''PONG'', c') \<and> cl_rx c' = [None]"
    using request_exchange [where snd_res = "\<lambda>i n. 1" and c = ?c and line = "''PING''" and r = "''PONG''" and rest = "[None]"]
    by (simp add: c_lf_def)
  then show ?thesis by auto
qed

end
