(* ===== verification/Options.thy ===== *)
theory Options
  imports Prelude
begin

text \<open>
  The option \<open>--name=value\<close> of a command line as \<open>lr_loadgend.cpp\<close>, \<open>lr_gen.cpp\<close>, \<open>lr_sink.cpp\<close>,
  \<open>lr_mpi_scale.cpp\<close> and \<open>lr_gpu_aead.cu\<close> read it, each with the same function \<open>opt\<close>: the first argument after the program's name that
  starts with the prefix wins.
\<close>

definition opt :: "string list \<Rightarrow> string \<Rightarrow> string \<Rightarrow> string" where
  "opt argv name dflt =
     (let pre = ''--'' @ name @ ''=''
      in case find (\<lambda>a. take (length pre) a = pre) (tl argv) of None \<Rightarrow> dflt | Some a \<Rightarrow> drop (length pre) a)"

lemma opt_first:
  assumes "\<forall>b \<in> set before. take (length (''--'' @ name @ ''='')) b \<noteq> ''--'' @ name @ ''=''"
  shows "opt (exe # before @ (''--'' @ name @ ''='' @ v) # rest) name dflt = v"
  using assms by (induction before) (auto simp: opt_def Let_def)

lemma opt_default:
  "\<forall>b \<in> set args. take (length (''--'' @ name @ ''='')) b \<noteq> ''--'' @ name @ ''='' \<Longrightarrow> opt (exe # args) name dflt = dflt"
  by (induction args) (auto simp: opt_def Let_def)

end
