(* ===== verification/Loadgen.thy ===== *)
theory Loadgen
  imports Options Ctrl Dataplane
begin

text \<open>
  The load generator daemon of \<open>src/src/apps/lr_loadgend.cpp\<close>.  Its state is the one \<open>Unit\<close>, the two
  threads a running unit has, the control connection with the line being read, and the open
  descriptors; the sender thread, the return thread and the main thread take turns in any order, one
  iteration of a loop at a time, as a step relation.  The daemon's parsing of a line is composed with the client's
  printing of it, and the client's reading of the reply with the daemon's printing.
\<close>

section \<open>One unit\<close>

datatype thread_pc = Absent | Boot | Top | Spin | Gone

text \<open>
  \<open>u_send\<close> and \<open>u_ret\<close> are where the threads are: \<open>Absent\<close> when the object holds no joinable thread and
  \<open>Gone\<close> when the thread has returned and waits to be joined.  \<open>u_objs\<close> are the shard and the generator
  on the sender's stack, \<open>u_seq\<close> and \<open>u_next\<close> its counters, \<open>u_req\<close> what it captured.
\<close>

record unit_st =
  u_stop :: bool
  u_sent :: u64
  u_refused :: u64
  u_returned :: u64
  u_rtt :: latency_hist
  u_return_fd :: int
  u_active :: bool
  u_fault :: string
  u_send :: thread_pc
  u_ret :: thread_pc
  u_req :: start_request
  u_objs :: "(generator \<times> shard) option"
  u_seq :: u64
  u_next :: u64

definition Unit :: unit_st where
  "Unit = \<lparr> u_stop = False, u_sent = 0, u_refused = 0, u_returned = 0, u_rtt = LatencyHist, u_return_fd = - 1, u_active = False,
     u_fault = [], u_send = Absent, u_ret = Absent, u_req = StartRequest, u_objs = None, u_seq = 0, u_next = 0 \<rparr>"

definition one_token :: "string \<Rightarrow> string" where
  "one_token s =
     (let out = map (\<lambda>c. if c = CHR '' '' \<or> c = CHR 0x09 \<or> c = CHR 0x0A \<or> c = CHR 0x0D then CHR ''_'' else c) s;
          out = (if out = [] then ''unknown'' else out)
      in take 160 out)"

definition open_return_socket :: "u16 \<Rightarrow> os \<Rightarrow> int \<times> os" where
  "open_return_socket port os =
     (case os_socket os (os_fds os) of
        None \<Rightarrow> (- 1, os)
      | Some fd \<Rightarrow>
        let os' = os\<lparr> os_fds := insert fd (os_fds os), os_opts := os_opts os @ [(fd, ''SO_REUSEADDR'', 1), (fd, ''SO_RCVBUF'', 16777216)] \<rparr>
        in case os_bind os 0 port of
             Some e \<Rightarrow> (- 1, os'\<lparr> os_fds := os_fds os' - {fd} \<rparr>)
           | None \<Rightarrow> (fd, os'\<lparr> os_opts := os_opts os' @ [(fd, ''O_NONBLOCK'', 1)] \<rparr>))"

text \<open>\<open>start_unit\<close>: the first component is \<open>err\<close>, \<open>None\<close> for a return of \<open>true\<close>.\<close>

definition start_unit :: "start_request \<Rightarrow> unit_st \<Rightarrow> os \<Rightarrow> string option \<times> unit_st \<times> os" where
  "start_unit q u os =
     (if u_active u then (Some ''already running'', u, os)
      else let u = u\<lparr> u_stop := False, u_sent := 0, u_refused := 0, u_returned := 0, u_rtt := LatencyHist, u_fault := [] \<rparr>;
               run = (\<lambda>u. u\<lparr> u_req := q, u_send := Boot, u_objs := None, u_seq := 0, u_next := 0,
                              u_ret := (if u_return_fd u \<ge> 0 then Top else u_ret u), u_active := True \<rparr>)
           in if sq_return_port q = 0 then (None, run u, os)
              else case open_return_socket (sq_return_port q) os of (fd, os) \<Rightarrow>
                let u = u\<lparr> u_return_fd := fd \<rparr>
                in if fd < 0 then (Some ''cannot bind return port'', u, os) else (None, run u, os))"

section \<open>The sender thread\<close>

definition fail :: "string \<Rightarrow> unit_st \<Rightarrow> unit_st" where
  "fail why u = (if u_fault u = [] then u\<lparr> u_fault := one_token why \<rparr> else u)"

definition gen_free :: "generator \<Rightarrow> os \<Rightarrow> os" where
  "gen_free g os = (if g_fd g \<ge> 0 then os\<lparr> os_fds := os_fds os - {g_fd g} \<rparr> else os)"

definition unit_cfg :: "start_request \<Rightarrow> shard_config" where
  "unit_cfg q = ShardConfig\<lparr> sc_cipher := sq_cipher q, sc_payload := unat (sq_payload q), sc_epoch_packets := sq_epoch_packets q,
     sc_source := Loopback \<rparr>"

definition err_text :: "string option \<Rightarrow> string" where
  "err_text e = (case e of None \<Rightarrow> [] | Some s \<Rightarrow> s)"

text \<open>The thread up to its loop: an error leaves a fault and ends it, destroying what was built.\<close>

definition send_boot :: "shard_env \<Rightarrow> u64 \<Rightarrow> unit_st \<Rightarrow> os \<Rightarrow> unit_st \<times> os" where
  "send_boot env now u os =
     (let q = u_req u
      in case Shard env (unit_cfg q) bench_psk os of (sh, e, os) \<Rightarrow>
         if err_text e \<noteq> [] then ((fail (''shard:'' @ err_text e) u)\<lparr> u_send := Gone \<rparr>, shard_free sh os)
         else case Generator sh (sq_dst_addr q) (sq_dst_port q) os of (g, e, os) \<Rightarrow>
         if err_text e \<noteq> [] then ((fail (''generator:'' @ err_text e) u)\<lparr> u_send := Gone \<rparr>, shard_free sh (gen_free g os))
         else (u\<lparr> u_objs := Some (g, sh), u_seq := 0, u_next := (if sq_pps q > 0 then now else 0), u_send := Top \<rparr>, os))"

definition interval :: "shard_env \<Rightarrow> start_request \<Rightarrow> u64" where
  "interval env q = to_u64 (real (unat (cal_tick_hz (se_cal env))) / sq_pps q)"

definition send_emit :: "shard_env \<Rightarrow> (bytes \<Rightarrow> bool) \<Rightarrow> unit_st \<Rightarrow> unit_st" where
  "send_emit env sendto u =
     (case u_objs u of
        None \<Rightarrow> u
      | Some gs \<Rightarrow>
        (case emit env sendto (u_seq u) gs of (ok, gs) \<Rightarrow>
         let u = u\<lparr> u_objs := Some gs, u_seq := u_seq u + 1, u_send := Top \<rparr>
         in if ok then u\<lparr> u_sent := u_sent u + 1 \<rparr> else u\<lparr> u_refused := u_refused u + 1 \<rparr>))"

text \<open>The head of either loop: leave it, schedule the next packet, or send at once.\<close>

definition send_top :: "shard_env \<Rightarrow> (bytes \<Rightarrow> bool) \<Rightarrow> unit_st \<Rightarrow> os \<Rightarrow> unit_st \<times> os" where
  "send_top env sendto u os =
     (if u_stop u
      then (u\<lparr> u_send := Gone, u_objs := None \<rparr>,
            case u_objs u of None \<Rightarrow> os | Some (g, sh) \<Rightarrow> shard_free sh (gen_free g os))
      else if sq_pps (u_req u) > 0 then (u\<lparr> u_next := u_next u + interval env (u_req u), u_send := Spin \<rparr>, os)
      else (send_emit env sendto u, os))"

text \<open>One reading of the counter in the paced wait.\<close>

definition send_spin :: "shard_env \<Rightarrow> (bytes \<Rightarrow> bool) \<Rightarrow> u64 \<Rightarrow> unit_st \<Rightarrow> unit_st" where
  "send_spin env sendto now u = (if now \<ge> u_next u then send_emit env sendto u else u)"

section \<open>The return thread\<close>

text \<open>One iteration: \<open>r\<close> is the datagram \<open>recv\<close> delivers, \<open>None\<close> when it fails.\<close>

definition ret_iter :: "cal \<Rightarrow> bytes option \<Rightarrow> u64 \<Rightarrow> unit_st \<Rightarrow> unit_st" where
  "ret_iter c r now u =
     (if u_stop u then u\<lparr> u_ret := Gone \<rparr>
      else case r of
             None \<Rightarrow> u
           | Some d \<Rightarrow>
             let buf = take 2048 d
             in if length buf < LR_HDR then u
                else let h = hdr_of (take LR_HDR buf)
                in if wh_magic h \<noteq> LR_MAGIC then u
                   else let u = (if now > wh_tsc h then u\<lparr> u_rtt := lh_add (ticks_to_ns c (now - wh_tsc h)) (u_rtt u) \<rparr> else u)
                        in u\<lparr> u_returned := u_returned u + 1 \<rparr>)"

section \<open>Stopping\<close>

text \<open>
  \<open>stop_unit\<close> in two parts, because it waits for the threads: raising the flag, and what follows
  the joins.
\<close>

definition stop_begin :: "unit_st \<Rightarrow> unit_st" where
  "stop_begin u = u\<lparr> u_stop := True \<rparr>"

definition joinable_done :: "unit_st \<Rightarrow> bool" where
  "joinable_done u \<longleftrightarrow> u_send u \<in> {Absent, Gone} \<and> u_ret u \<in> {Absent, Gone}"

definition stop_finish :: "unit_st \<Rightarrow> os \<Rightarrow> stop_reply \<times> unit_st \<times> os" where
  "stop_finish u os =
     (let os = (if u_return_fd u \<ge> 0 then os\<lparr> os_fds := os_fds os - {u_return_fd u} \<rparr> else os);
          u = u\<lparr> u_send := Absent, u_ret := Absent, u_return_fd := - 1 \<rparr>
      in (\<lparr> sr_sent = u_sent u, sr_refused = u_refused u, sr_returned = u_returned u, sr_p50 = quantile (u_rtt u) (50 / 100),
            sr_p99 = quantile (u_rtt u) (99 / 100), sr_p999 = quantile (u_rtt u) (999 / 1000), sr_fault = u_fault u, sr_ok = True \<rparr>,
          u\<lparr> u_active := False \<rparr>, os))"

section \<open>Control lines\<close>

record host_info =
  hi_arch :: string
  hi_nic :: string
  hi_drv :: string
  hi_addr :: string
  hi_echo_port :: u16
  hi_tick_hz :: u64

definition pong_line :: "host_info \<Rightarrow> string" where
  "pong_line hi = take 511 (''PONG version=2 arch='' @ c_str (hi_arch hi) @ '' nic='' @ c_str (hi_nic hi) @ '' driver='' @ c_str (hi_drv hi) @
     '' addr='' @ c_str (hi_addr hi) @ '' echo_port='' @ show_nat (unat (hi_echo_port hi)) @ '' tick_hz='' @ show_nat (unat (hi_tick_hz hi)))"

definition kv_get :: "kv_map \<Rightarrow> string \<Rightarrow> string \<Rightarrow> string" where
  "kv_get kv k d = (case kv k of None \<Rightarrow> d | Some v \<Rightarrow> v)"

text \<open>The position after the last colon splits the destination; without one the defaults stay.\<close>

definition split_last :: "char \<Rightarrow> string \<Rightarrow> (string \<times> string) option" where
  "split_last ch s =
     (if ch \<in> set s
      then Some (butlast (rev (dropWhile (\<lambda>c. c \<noteq> ch) (rev s))), rev (takeWhile (\<lambda>c. c \<noteq> ch) (rev s)))
      else None)"

definition parse_start :: "string \<Rightarrow> start_request" where
  "parse_start s =
     (let kv = parse_kv s;
          q = StartRequest\<lparr> sq_cipher := kv_get kv ''cipher'' ''aes-256-gcm'',
                sq_payload := of_int (strtol (kv_get kv ''payload'' ''512'')),
                sq_pps := strtod (kv_get kv ''pps'' ''0''),
                sq_seconds := strtod (kv_get kv ''seconds'' ''2''),
                sq_return_port := of_int (atoi (kv_get kv ''return_port'' ''0'')),
                sq_epoch_packets := strtoull (kv_get kv ''epoch_packets'' ''0''),
                sq_cpu := atoi (kv_get kv ''cpu'' ''-1'') \<rparr>
      in case split_last (CHR '':'') (kv_get kv ''dst'' []) of
           None \<Rightarrow> q
         | Some (a, p) \<Rightarrow> q\<lparr> sq_dst_addr := a, sq_dst_port := of_int (atoi p) \<rparr>)"

definition done_line :: "stop_reply \<Rightarrow> string" where
  "done_line r = take 511 (''DONE sent='' @ show_nat (unat (sr_sent r)) @ '' refused='' @ show_nat (unat (sr_refused r)) @
     '' returned='' @ show_nat (unat (sr_returned r)) @ '' '' @ ''rtt_p50_ns='' @ show_fixed 0 (sr_p50 r) @ '' rtt_p99_ns='' @
     show_fixed 0 (sr_p99 r) @ '' rtt_p999_ns='' @ show_fixed 0 (sr_p999 r) @ '' fault='' @ c_str (sr_fault r))"

section \<open>The daemon\<close>

text \<open>
  Where the main thread is: in \<open>accept\<close>, in \<open>recv\<close> on the control connection, waiting in \<open>stop_unit\<close>
  for a \<open>STOP\<close> or for a dropped connection, or out of the loop.
\<close>

datatype main_pc = Accepting | Reading | Join_stop | Join_drop | Finished

record daemon =
  d_unit :: unit_st
  d_os :: os
  d_main :: main_pc
  d_conn :: int
  d_line :: string
  d_alive :: bool
  d_replies :: "string list"
  d_g_stop :: bool

definition send_reply :: "string \<Rightarrow> daemon \<Rightarrow> daemon" where
  "send_reply r d = d\<lparr> d_replies := d_replies d @ [r], d_line := [] \<rparr>"

definition handle_line :: "host_info \<Rightarrow> daemon \<Rightarrow> daemon" where
  "handle_line hi d =
     (let line = d_line d
      in if take 4 line = ''PING'' then send_reply (pong_line hi) d
         else if take 5 line = ''START'' then
           (case start_unit (parse_start (drop 5 line)) (d_unit d) (d_os d) of (err, u, os) \<Rightarrow>
            send_reply (case err of None \<Rightarrow> ''OK'' | Some e \<Rightarrow> ''ERR '' @ e) (d\<lparr> d_unit := u, d_os := os \<rparr>))
         else if take 4 line = ''STOP'' then
           (if \<not> u_active (d_unit d) then send_reply (done_line (StopReply\<lparr> sr_ok := True \<rparr>)) d
            else d\<lparr> d_unit := stop_begin (d_unit d), d_main := Join_stop \<rparr>)
         else if take 4 line = ''QUIT'' then (send_reply ''BYE'' d)\<lparr> d_alive := False \<rparr>
         else send_reply ''ERR unknown command'' d)"

text \<open>One byte from the control connection.\<close>

definition conn_byte :: "host_info \<Rightarrow> char \<Rightarrow> daemon \<Rightarrow> daemon" where
  "conn_byte hi ch d =
     (if ch \<noteq> c_lf
      then let d = d\<lparr> d_line := d_line d @ [ch] \<rparr> in if length (d_line d) < 8192 then d else handle_line hi d
      else handle_line hi d)"

text \<open>The end of a connection: stop a unit that is still running, then close.\<close>

definition conn_close :: "daemon \<Rightarrow> daemon" where
  "conn_close d = d\<lparr> d_os := (d_os d)\<lparr> os_fds := os_fds (d_os d) - {d_conn d} \<rparr>, d_conn := - 1, d_main := Accepting \<rparr>"

definition conn_end :: "daemon \<Rightarrow> daemon" where
  "conn_end d =
     (if u_active (d_unit d) then d\<lparr> d_unit := stop_begin (d_unit d), d_main := Join_drop \<rparr> else conn_close d)"

definition stop_joined :: "daemon \<Rightarrow> daemon" where
  "stop_joined d =
     (case stop_finish (d_unit d) (d_os d) of (rep, u, os) \<Rightarrow>
      let d = d\<lparr> d_unit := u, d_os := os \<rparr>
      in if d_main d = Join_stop then (send_reply (done_line rep) d)\<lparr> d_main := Reading \<rparr> else conn_close d)"

text \<open>
  The interleaving.  \<open>accept\<close> and \<open>recv\<close> calls that time out or are interrupted change nothing and
  are no steps.  A connection ends when the peer closes it or it fails, after \<open>QUIT\<close>, or when a signal
  has arrived; the accept loop ends on a signal or an error that is not transient.
\<close>

inductive step :: "shard_env \<Rightarrow> host_info \<Rightarrow> daemon \<Rightarrow> daemon \<Rightarrow> bool" for env hi where
  signal: "step env hi d (d\<lparr> d_g_stop := True \<rparr>)"
| sender_boot: "u_send (d_unit d) = Boot \<Longrightarrow> send_boot env now (d_unit d) (d_os d) = (u, os) \<Longrightarrow>
    step env hi d (d\<lparr> d_unit := u, d_os := os \<rparr>)"
| sender_top: "u_send (d_unit d) = Top \<Longrightarrow> send_top env sendto (d_unit d) (d_os d) = (u, os) \<Longrightarrow>
    step env hi d (d\<lparr> d_unit := u, d_os := os \<rparr>)"
| sender_spin: "u_send (d_unit d) = Spin \<Longrightarrow> step env hi d (d\<lparr> d_unit := send_spin env sendto now (d_unit d) \<rparr>)"
| returner: "u_ret (d_unit d) = Top \<Longrightarrow> step env hi d (d\<lparr> d_unit := ret_iter (se_cal env) r now (d_unit d) \<rparr>)"
| accepted: "d_main d = Accepting \<Longrightarrow> \<not> d_g_stop d \<Longrightarrow> 0 \<le> fd \<Longrightarrow> fd \<notin> os_fds (d_os d) \<Longrightarrow>
    step env hi d (d\<lparr> d_os := (d_os d)\<lparr> os_fds := insert fd (os_fds (d_os d)) \<rparr>, d_conn := fd, d_line := [], d_alive := True, d_main := Reading \<rparr>)"
| left: "d_main d = Accepting \<Longrightarrow> d_g_stop d \<or> fatal \<Longrightarrow> step env hi d (d\<lparr> d_main := Finished \<rparr>)"
| received: "d_main d = Reading \<Longrightarrow> d_alive d \<Longrightarrow> \<not> d_g_stop d \<Longrightarrow> step env hi d (conn_byte hi ch d)"
| dropped: "d_main d = Reading \<Longrightarrow> step env hi d (conn_end d)"
| joined: "d_main d \<in> {Join_stop, Join_drop} \<Longrightarrow> joinable_done (d_unit d) \<Longrightarrow> step env hi d (stop_joined d)"

section \<open>Start of the process\<close>

datatype echo_state = kEchoPending | kEchoReady | kEchoFailed

text \<open>
  The echo server: \<open>turns\<close> are the turns of its loop, each with the flag it reads and what \<open>recvfrom\<close>
  delivers with the sender's address.  The result is the state it publishes and what it sends.
\<close>

fun echo_loop :: "(bool \<times> (bytes \<times> 'a) option) list \<Rightarrow> (bytes \<times> 'a) list" where
  "echo_loop [] = []"
| "echo_loop ((quit, r) # turns) =
     (if quit then []
      else case r of
             None \<Rightarrow> echo_loop turns
           | Some (d, from) \<Rightarrow> if take 2048 d = [] then echo_loop turns else (take 2048 d, from) # echo_loop turns)"

definition echo_server :: "u16 \<Rightarrow> (bool \<times> (bytes \<times> 'a) option) list \<Rightarrow> os \<Rightarrow> echo_state \<times> (bytes \<times> 'a) list \<times> os" where
  "echo_server port turns os =
     (case os_socket os (os_fds os) of
        None \<Rightarrow> (kEchoFailed, [], os)
      | Some fd \<Rightarrow>
        let os = os\<lparr> os_opts := os_opts os @ [(fd, ''SO_REUSEADDR'', 1), (fd, ''SO_RCVBUF'', 8388608)] \<rparr>
        in case os_bind os 0 port of
             Some e \<Rightarrow> (kEchoFailed, [], os)
           | None \<Rightarrow> (kEchoReady, echo_loop turns, os\<lparr> os_opts := os_opts os @ [(fd, ''SO_RCVTIMEO'', 0)] \<rparr>))"

text \<open>The listening socket: \<open>None\<close> is an exit with status 1, which leaves no descriptor open.\<close>

definition main_listen :: "u16 \<Rightarrow> bool \<Rightarrow> os \<Rightarrow> int option \<times> os" where
  "main_listen port listens os =
     (case os_socket os (os_fds os) of
        None \<Rightarrow> (None, os)
      | Some ls \<Rightarrow>
        let os1 = os\<lparr> os_fds := insert ls (os_fds os), os_opts := os_opts os @ [(ls, ''SO_REUSEADDR'', 1)] \<rparr>;
            shut = (\<lambda>o1. o1\<lparr> os_fds := os_fds o1 - {ls} \<rparr>)
        in case os_bind os 0 port of
             Some e \<Rightarrow> (None, shut os1)
           | None \<Rightarrow>
             let os2 = os1\<lparr> os_opts := os_opts os1 @ [(ls, ''SO_RCVTIMEO'', 0)] \<rparr>
             in if listens then (Some ls, os2) else (None, shut os2))"

definition Daemon :: "os \<Rightarrow> daemon" where
  "Daemon os = \<lparr> d_unit = Unit, d_os = os, d_main = Accepting, d_conn = - 1, d_line = [], d_alive = False, d_replies = [], d_g_stop = False \<rparr>"

inductive reachable :: "shard_env \<Rightarrow> host_info \<Rightarrow> daemon \<Rightarrow> bool" for env hi where
  start: "reachable env hi (Daemon os)"
| more: "reachable env hi d \<Longrightarrow> step env hi d d' \<Longrightarrow> reachable env hi d'"

section \<open>Printing and parsing agree\<close>

lemma c_str_id: "CHR 0x00 \<notin> set s \<Longrightarrow> c_str s = s"
  by (auto simp: c_str_def takeWhile_eq_all_conv)

lemma split_last_colon:
  assumes "CHR '':'' \<notin> set p"
  shows "split_last (CHR '':'') (a @ CHR '':'' # p) = Some (a, p)"
proof -
  have r: "rev (a @ CHR '':'' # p) = rev p @ CHR '':'' # rev a" by simp
  have "takeWhile (\<lambda>c. c \<noteq> CHR '':'') (rev p @ CHR '':'' # rev a) = rev p"
    using assms by (subst takeWhile_append2) auto
  moreover have "dropWhile (\<lambda>c. c \<noteq> CHR '':'') (rev p @ CHR '':'' # rev a) = CHR '':'' # rev a"
    using assms by (subst dropWhile_append2) auto
  ultimately show ?thesis unfolding split_last_def r by simp
qed

lemma strtol_show_nat: "n < 2 ^ 63 \<Longrightarrow> strtol (show_nat n) = int n"
  using strtoll_show_nat [of "[]" n] by (simp add: strtol_def)

lemma atoi_show_int: "- (2 ^ 31) \<le> i \<Longrightarrow> i < 2 ^ 31 \<Longrightarrow> atoi (show_int i) = i"
  using strtoll_show_int [of i] by (simp add: atoi_def strtol_def signed_of_int signed_take_bit_int_eq_self)

lemma atoi_show_nat: "n < 2 ^ 31 \<Longrightarrow> atoi (show_nat n) = int n"
  using atoi_show_int [of "int n"] by (simp add: show_int_def)

lemma strtoull_show_nat: "strtoull (show_nat (unat x)) = x" for x :: u64
  using strtoll_show_nat [of "[]" "unat x"] uint_bounded [of x] by (simp add: strtoull_def Let_def)

lemma u16_lt: "unat (x :: u16) < 65536"
  using unsigned_less [of x] by simp

lemma atoi_u16: "of_int (atoi (show_nat (unat x))) = x" for x :: u16
  using atoi_show_nat [of "unat x"] u16_lt [of x] by simp

lemma length_show_word:
  "length (show_nat (unat (x :: u64))) \<le> 20" "length (show_nat (unat (p :: u16))) \<le> 5"
  using length_show_nat [of "unat x" 20] length_show_nat [of "unat p" 5] unat_u64_lt [of x] u16_lt [of p] by simp_all

lemma length_show_int: "- (2 ^ 31) \<le> i \<Longrightarrow> i < 2 ^ 31 \<Longrightarrow> length (show_int i) \<le> 11"
  using length_show_nat [of "nat i" 10] length_show_nat [of "nat (- i)" 10]
  by (cases "i < 0") (simp_all add: show_int_def nat_less_iff)

definition start_kvs :: "start_request \<Rightarrow> (string \<times> string) list" where
  "start_kvs q = [(''cipher'', c_str (sq_cipher q)), (''payload'', show_nat (unat (sq_payload q))),
     (''pps'', show_fixed 3 (sq_pps q)), (''seconds'', show_fixed 3 (sq_seconds q)),
     (''dst'', c_str (sq_dst_addr q) @ CHR '':'' # show_nat (unat (sq_dst_port q))),
     (''return_port'', show_nat (unat (sq_return_port q))), (''epoch_packets'', show_nat (unat (sq_epoch_packets q))),
     (''cpu'', show_int (sq_cpu q))]"

lemma start_line_kvs: "start_line q = take 511 (''START'' @ kv_line (start_kvs q))"
  by (simp add: start_line_def start_kvs_def kv_line_def)

text \<open>Requests that the client can send: names without blanks or zero bytes, quantities in range.\<close>

definition sendable :: "start_request \<Rightarrow> bool" where
  "sendable q \<longleftrightarrow> plain (sq_cipher q) \<and> plain (sq_dst_addr q) \<and> CHR 0x00 \<notin> set (sq_cipher q @ sq_dst_addr q) \<and>
     length (sq_cipher q) + length (sq_dst_addr q) \<le> 200 \<and> unat (sq_payload q) < 2 ^ 63 \<and>
     \<bar>sq_pps q\<bar> < 10 ^ 60 \<and> \<bar>sq_seconds q\<bar> < 10 ^ 60 \<and> - (2 ^ 31) \<le> sq_cpu q \<and> sq_cpu q < 2 ^ 31"

lemma start_line_fits: "sendable q \<Longrightarrow> start_line q = ''START'' @ kv_line (start_kvs q)"
proof -
  assume q: "sendable q"
  then have "length (show_fixed 3 (sq_pps q)) \<le> 66" "length (show_fixed 3 (sq_seconds q)) \<le> 66"
    "length (show_int (sq_cpu q)) \<le> 11"
    using length_show_fixed [of "sq_pps q" 60 3] length_show_fixed [of "sq_seconds q" 60 3] length_show_int [of "sq_cpu q"]
    by (simp_all add: sendable_def)
  then have "length (''START'' @ kv_line (start_kvs q)) \<le> 511"
    using q length_show_word(1) [of "sq_payload q"] length_show_word(1) [of "sq_epoch_packets q"]
      length_show_word(2) [of "sq_dst_port q"] length_show_word(2) [of "sq_return_port q"]
    by (simp add: kv_line_def start_kvs_def sendable_def c_str_id)
  then show ?thesis by (simp add: start_line_kvs)
qed

lemma parse_start_kvs:
  assumes "sendable q"
  shows "parse_kv (kv_line (start_kvs q)) = map_of (start_kvs q)"
proof -
  have "list_all (\<lambda>(k, v). plain k \<and> CHR ''='' \<notin> set k \<and> plain v) (start_kvs q)"
    using assms by (simp add: start_kvs_def sendable_def c_str_id is_space_def)
  then have "parse_kv (kv_line (start_kvs q)) = map_of (rev (start_kvs q))" by (rule parse_kv_line)
  also have "\<dots> = map_of (start_kvs q)" by (simp add: start_kvs_def fun_eq_iff)
  finally show ?thesis .
qed

lemma colon_free: "CHR '':'' \<notin> set (show_nat n)"
  using show_nat_digits [of n] by (auto simp: list_all_iff dest: digit_plain)


lemma parse_start_line:
  assumes "sendable q"
  shows "parse_start (drop 5 (start_line q)) = q\<lparr> sq_pps := fixed_value 3 (sq_pps q), sq_seconds := fixed_value 3 (sq_seconds q) \<rparr>"
proof -
  have d: "drop 5 (start_line q) = kv_line (start_kvs q)" by (simp add: start_line_fits [OF assms])
  have c: "c_str (sq_cipher q) = sq_cipher q" "c_str (sq_dst_addr q) = sq_dst_addr q"
    using assms by (simp_all add: sendable_def c_str_id)
  have p: "strtol (show_nat (unat (sq_payload q))) = uint (sq_payload q)" "atoi (show_int (sq_cpu q)) = sq_cpu q"
    using assms strtol_show_nat [of "unat (sq_payload q)"] atoi_show_int [of "sq_cpu q"] by (simp_all add: sendable_def)
  have "kv_get (map_of (start_kvs q)) ''dst'' [] = sq_dst_addr q @ CHR '':'' # show_nat (unat (sq_dst_port q))"
    by (simp add: kv_get_def start_kvs_def c)
  then have s: "split_last (CHR '':'') (kv_get (map_of (start_kvs q)) ''dst'' []) = Some (sq_dst_addr q, show_nat (unat (sq_dst_port q)))"
    by (simp only: split_last_colon [OF colon_free])
  show ?thesis
    unfolding parse_start_def d parse_start_kvs [OF assms] Let_def s
    by (simp add: kv_get_def start_kvs_def c p atoi_u16 strtoull_show_nat strtod_show_fixed)
qed

definition done_kvs :: "stop_reply \<Rightarrow> (string \<times> string) list" where
  "done_kvs r = [(''sent'', show_nat (unat (sr_sent r))), (''refused'', show_nat (unat (sr_refused r))),
     (''returned'', show_nat (unat (sr_returned r))), (''rtt_p50_ns'', show_fixed 0 (sr_p50 r)),
     (''rtt_p99_ns'', show_fixed 0 (sr_p99 r)), (''rtt_p999_ns'', show_fixed 0 (sr_p999 r)), (''fault'', c_str (sr_fault r))]"

lemma done_line_kvs: "done_line r = take 511 (''DONE'' @ kv_line (done_kvs r))"
  by (simp add: done_line_def done_kvs_def kv_line_def)

text \<open>
  Reports that reach the client whole: a fault without blanks of the length \<open>one_token\<close> leaves, and
  counts that a \<open>double\<close> holds exactly.
\<close>

definition reportable :: "stop_reply \<Rightarrow> bool" where
  "reportable r \<longleftrightarrow> plain (sr_fault r) \<and> CHR 0x00 \<notin> set (sr_fault r) \<and> length (sr_fault r) \<le> 160 \<and>
     unat (sr_sent r) < 2 ^ 53 \<and> unat (sr_refused r) < 2 ^ 53 \<and> unat (sr_returned r) < 2 ^ 53 \<and>
     \<bar>sr_p50 r\<bar> < 10 ^ 20 \<and> \<bar>sr_p99 r\<bar> < 10 ^ 20 \<and> \<bar>sr_p999 r\<bar> < 10 ^ 20 \<and> sr_ok r"

lemma done_line_fits: "reportable r \<Longrightarrow> done_line r = ''DONE'' @ kv_line (done_kvs r)"
proof -
  assume r: "reportable r"
  then have "length (show_fixed 0 (sr_p50 r)) \<le> 23" "length (show_fixed 0 (sr_p99 r)) \<le> 23" "length (show_fixed 0 (sr_p999 r)) \<le> 23"
    using length_show_fixed [of "sr_p50 r" 20 0] length_show_fixed [of "sr_p99 r" 20 0] length_show_fixed [of "sr_p999 r" 20 0]
    by (simp_all add: reportable_def)
  then have "length (''DONE'' @ kv_line (done_kvs r)) \<le> 511"
    using r length_show_word(1) [of "sr_sent r"] length_show_word(1) [of "sr_refused r"] length_show_word(1) [of "sr_returned r"]
    by (simp add: kv_line_def done_kvs_def reportable_def c_str_id)
  then show ?thesis by (simp add: done_line_kvs)
qed

lemma parse_done_kvs:
  assumes "reportable r"
  shows "parse_kv (kv_line (done_kvs r)) = map_of (done_kvs r)"
proof -
  have "list_all (\<lambda>(k, v). plain k \<and> CHR ''='' \<notin> set k \<and> plain v) (done_kvs r)"
    using assms by (simp add: done_kvs_def reportable_def c_str_id is_space_def)
  then have "parse_kv (kv_line (done_kvs r)) = map_of (rev (done_kvs r))" by (rule parse_kv_line)
  also have "\<dots> = map_of (done_kvs r)" by (simp add: done_kvs_def fun_eq_iff)
  finally show ?thesis .
qed

lemma strtod_show_nat: "strtod (show_nat n) = real n"
proof -
  have "show_fixed 0 (real n) = show_nat n" using round_even_int [of "int n"] by (simp add: show_fixed_def fixed_digits_def)
  moreover have "fixed_value 0 (real n) = real n" using round_even_int [of "int n"] by (simp add: fixed_value_def fixed_digits_def)
  ultimately show ?thesis using strtod_show_fixed [of 0 "real n"] by simp
qed

lemma to_u64_nat: "to_u64 (real n) = of_nat n"
  by (simp add: to_u64_def)

lemma to_u64_unat: "to_u64 (unsigned x) = x"
  using to_u64_nat [of "unat x"] by simp

lemma read_done_line:
  assumes "reportable r"
  shows "read_done (drop 4 (done_line r)) = r\<lparr> sr_p50 := fixed_value 0 (sr_p50 r), sr_p99 := fixed_value 0 (sr_p99 r), sr_p999 := fixed_value 0 (sr_p999 r) \<rparr>"
proof -
  have d: "drop 4 (done_line r) = kv_line (done_kvs r)" by (simp add: done_line_fits [OF assms])
  have c: "c_str (sr_fault r) = sr_fault r" "sr_ok r" using assms by (simp_all add: reportable_def c_str_id)
  show ?thesis unfolding read_done_def d parse_done_kvs [OF assms] Let_def
    by (rule stop_reply.equality) (simp_all add: done_kvs_def c kv_num_def strtod_show_nat to_u64_unat strtod_show_fixed)
qed

section \<open>The invariant of the daemon\<close>

text \<open>
  \<open>unit_inv\<close>: threads exist exactly while the unit is active, the return thread exactly when there is a
  return socket, the sender's objects exactly inside its loop, its packets are all counted, and a sender
  that has ended before being told to has left a reason.
\<close>

definition unit_inv :: "unit_st \<Rightarrow> bool" where
  "unit_inv u \<longleftrightarrow>
     (\<not> u_active u \<longrightarrow> u_send u = Absent \<and> u_ret u = Absent \<and> u_return_fd u < 0) \<and>
     (u_active u \<longrightarrow> u_send u \<noteq> Absent \<and> (u_ret u = Absent \<longleftrightarrow> u_return_fd u < 0)) \<and>
     u_ret u \<in> {Absent, Top, Gone} \<and> (u_ret u = Gone \<longrightarrow> u_stop u) \<and>
     (u_send u \<in> {Top, Spin} \<longleftrightarrow> u_objs u \<noteq> None) \<and>
     (u_send u = Boot \<longrightarrow> u_sent u = 0 \<and> u_refused u = 0 \<and> u_seq u = 0) \<and>
     (u_active u \<longrightarrow> u_sent u + u_refused u = u_seq u) \<and>
     (u_send u = Gone \<longrightarrow> u_stop u \<or> u_fault u \<noteq> []) \<and>
     length (u_fault u) \<le> 160"

definition d_inv :: "daemon \<Rightarrow> bool" where
  "d_inv d \<longleftrightarrow>
     unit_inv (d_unit d) \<and>
     (d_main d \<in> {Join_stop, Join_drop} \<longrightarrow> u_active (d_unit d) \<and> u_stop (d_unit d)) \<and>
     (d_main d = Reading \<longrightarrow> u_active (d_unit d) \<longrightarrow> \<not> u_stop (d_unit d)) \<and>
     (d_main d \<in> {Accepting, Finished} \<longrightarrow> \<not> u_active (d_unit d))"

lemma one_token_token: "one_token s \<noteq> [] \<and> length (one_token s) \<le> 160"
  by (auto simp: one_token_def Let_def)

lemma unit_inv_fail: "unit_inv u \<Longrightarrow> u_send u = Boot \<Longrightarrow> unit_inv ((fail why u)\<lparr> u_send := Gone \<rparr>)"
  using one_token_token [of why] by (auto simp: unit_inv_def fail_def)

lemma unit_inv_boot:
  assumes "unit_inv u" "u_send u = Boot"
  shows "unit_inv (fst (send_boot env now u os))"
  using unit_inv_fail [OF assms] assms
  by (auto simp: send_boot_def unit_inv_def Let_def split: prod.splits)

lemma unit_inv_emit: "unit_inv u \<Longrightarrow> u_send u \<in> {Top, Spin} \<Longrightarrow> unit_inv (send_emit env sendto u)"
  by (auto simp: unit_inv_def send_emit_def Let_def algebra_simps split: option.splits prod.splits)

lemma unit_inv_top: "unit_inv u \<Longrightarrow> u_send u = Top \<Longrightarrow> unit_inv (fst (send_top env sendto u os))"
  using unit_inv_emit [of u env sendto] by (auto simp: send_top_def unit_inv_def)

lemma unit_inv_spin: "unit_inv u \<Longrightarrow> u_send u = Spin \<Longrightarrow> unit_inv (send_spin env sendto now u)"
  using unit_inv_emit [of u env sendto] by (auto simp: send_spin_def)

lemma unit_inv_ret: "unit_inv u \<Longrightarrow> u_ret u = Top \<Longrightarrow> unit_inv (ret_iter c r now u)"
  by (auto simp: ret_iter_def unit_inv_def Let_def split: option.splits)

lemma unit_inv_start: "unit_inv u \<Longrightarrow> unit_inv (fst (snd (start_unit q u os)))"
proof (cases "u_active u")
  case False
  assume u: "unit_inv u"
  show ?thesis
  proof (cases "sq_return_port q = 0")
    case True
    then show ?thesis using False u by (auto simp: start_unit_def unit_inv_def Let_def)
  next
    case port: False
    obtain fd os' where "open_return_socket (sq_return_port q) os = (fd, os')" by force
    then show ?thesis using False port u by (cases "fd < 0") (auto simp: start_unit_def unit_inv_def Let_def)
  qed
qed (simp add: start_unit_def)

lemma unit_inv_finish: "unit_inv u \<Longrightarrow> joinable_done u \<Longrightarrow> unit_inv (fst (snd (stop_finish u os)))"
proof -
  assume u: "unit_inv u" "joinable_done u"
  then have "u_send u \<notin> {Top, Spin}" by (auto simp: joinable_done_def)
  then have "u_objs u = None" "length (u_fault u) \<le> 160" using u(1) unfolding unit_inv_def by blast+
  then show ?thesis by (simp add: stop_finish_def unit_inv_def Let_def)
qed

text \<open>What the steps of the threads leave alone.\<close>

lemma thread_frame:
  "u_active (fst (send_boot env now u os)) = u_active u" "u_stop (fst (send_boot env now u os)) = u_stop u"
  "u_active (fst (send_top env sendto u os)) = u_active u" "u_stop (fst (send_top env sendto u os)) = u_stop u"
  "u_active (send_spin env sendto now u) = u_active u" "u_stop (send_spin env sendto now u) = u_stop u"
  "u_active (ret_iter c r now u) = u_active u" "u_stop (ret_iter c r now u) = u_stop u"
  by (auto simp: send_boot_def send_top_def send_spin_def send_emit_def ret_iter_def fail_def Let_def
      split: prod.splits option.splits)

lemma start_unit_stop: "u_active (fst (snd (start_unit q u os))) \<Longrightarrow> \<not> u_active u \<Longrightarrow> \<not> u_stop (fst (snd (start_unit q u os)))"
  by (auto simp: start_unit_def Let_def split: prod.splits if_splits)

lemma start_unit_active: "u_active u \<Longrightarrow> start_unit q u os = (Some ''already running'', u, os)"
  by (simp add: start_unit_def)

lemma unit_inv_begin: "unit_inv u \<Longrightarrow> unit_inv (stop_begin u)"
  by (auto simp: unit_inv_def stop_begin_def)

lemma d_inv_line: "d_inv d \<Longrightarrow> d_main d = Reading \<Longrightarrow> d_inv (d\<lparr> d_line := l \<rparr>)"
  by (simp add: d_inv_def)

lemma d_inv_handle:
  assumes "d_inv d" "d_main d = Reading"
  shows "d_inv (handle_line hi d)"
proof -
  obtain err u os where su: "start_unit (parse_start (drop 5 (d_line d))) (d_unit d) (d_os d) = (err, u, os)" by (metis prod_cases3)
  have "unit_inv u" using unit_inv_start [of "d_unit d"] assms(1) su by (metis d_inv_def fst_conv snd_conv)
  moreover have "u_active u \<Longrightarrow> \<not> u_stop u"
    using start_unit_stop [of "parse_start (drop 5 (d_line d))" "d_unit d" "d_os d"] start_unit_active [of "d_unit d"] assms su
    by (cases "u_active (d_unit d)") (auto simp: d_inv_def)
  moreover have "unit_inv (stop_begin (d_unit d))" using assms(1) by (simp add: d_inv_def unit_inv_begin)
  ultimately show ?thesis
    using assms by (auto simp: handle_line_def Let_def su send_reply_def d_inv_def) (simp_all add: stop_begin_def)
qed

lemma d_inv_byte: "d_inv d \<Longrightarrow> d_main d = Reading \<Longrightarrow> d_inv (conn_byte hi ch d)"
  by (simp add: conn_byte_def Let_def d_inv_line d_inv_handle)

lemma d_inv_end: "d_inv d \<Longrightarrow> d_main d = Reading \<Longrightarrow> d_inv (conn_end d)"
  using unit_inv_begin [of "d_unit d"] by (auto simp: conn_end_def conn_close_def d_inv_def stop_begin_def)

lemma d_inv_joined:
  assumes "d_inv d" "d_main d \<in> {Join_stop, Join_drop}" "joinable_done (d_unit d)"
  shows "d_inv (stop_joined d)"
proof -
  have "unit_inv (fst (snd (stop_finish (d_unit d) (d_os d))))" using assms by (intro unit_inv_finish) (simp_all add: d_inv_def)
  moreover have "\<not> u_active (fst (snd (stop_finish (d_unit d) (d_os d))))" by (simp add: stop_finish_def Let_def)
  ultimately show ?thesis using assms(2)
    by (auto simp: stop_joined_def d_inv_def send_reply_def conn_close_def Let_def split: prod.splits)
qed

lemma d_inv_step: "step env hi d d' \<Longrightarrow> d_inv d \<Longrightarrow> d_inv d'"
proof (induction rule: step.induct)
  case (sender_boot d now u os)
  then show ?case
    using unit_inv_boot [of "d_unit d" env now "d_os d"] thread_frame(1,2) [of env now "d_unit d" "d_os d"]
    by (simp add: d_inv_def)
next
  case (sender_top d sendto u os)
  then show ?case
    using unit_inv_top [of "d_unit d" env sendto "d_os d"] thread_frame(3,4) [of env sendto "d_unit d" "d_os d"]
    by (simp add: d_inv_def)
next
  case (sender_spin d sendto now)
  then show ?case using unit_inv_spin thread_frame(5,6) by (simp add: d_inv_def)
next
  case (returner d r now)
  then show ?case using unit_inv_ret thread_frame(7,8) by (simp add: d_inv_def)
next
  case (received d ch)
  then show ?case by (simp add: d_inv_byte)
next
  case (dropped d)
  then show ?case by (simp add: d_inv_end)
next
  case (joined d)
  then show ?case by (intro d_inv_joined)
qed (auto simp: d_inv_def)

lemma d_inv_reachable: "reachable env hi d \<Longrightarrow> d_inv d"
proof (induction rule: reachable.induct)
  case (start os)
  show ?case by (simp add: d_inv_def unit_inv_def Daemon_def Unit_def)
qed (rule d_inv_step)

section \<open>Progress of a stop\<close>

text \<open>What every step of the threads leaves of the rest of the daemon.\<close>

definition same_ctl :: "daemon \<Rightarrow> daemon \<Rightarrow> bool" where
  "same_ctl d d' \<longleftrightarrow> d_main d' = d_main d \<and> d_replies d' = d_replies d \<and> u_stop (d_unit d') = u_stop (d_unit d) \<and>
     u_active (d_unit d') = u_active (d_unit d)"

lemma send_emit_frame: "u_ret (send_emit env sendto u) = u_ret u"
  "u_objs u \<noteq> None \<Longrightarrow> u_send (send_emit env sendto u) = Top"
  by (auto simp: send_emit_def Let_def split: option.splits prod.splits)

lemma top_leaves:
  assumes "u_send (d_unit d) = Top" "u_stop (d_unit d)"
  shows "\<exists>d'. step env hi d d' \<and> u_send (d_unit d') = Gone \<and> u_ret (d_unit d') = u_ret (d_unit d) \<and> same_ctl d d'"
proof -
  obtain u os where t: "send_top env (\<lambda>_. True) (d_unit d) (d_os d) = (u, os)" by force
  then have "u = (d_unit d)\<lparr> u_send := Gone, u_objs := None \<rparr>" using assms(2) by (simp add: send_top_def)
  then show ?thesis using step.sender_top [OF assms(1) t] by (intro exI) (auto simp: same_ctl_def)
qed

lemma boot_goes_on:
  assumes "u_send (d_unit d) = Boot"
  shows "\<exists>d'. step env hi d d' \<and> u_send (d_unit d') \<in> {Top, Gone} \<and> u_ret (d_unit d') = u_ret (d_unit d) \<and> same_ctl d d'"
proof -
  obtain u os where t: "send_boot env 0 (d_unit d) (d_os d) = (u, os)" by force
  have "u_send u \<in> {Top, Gone}" "u_ret u = u_ret (d_unit d)"
    using t by (auto simp: send_boot_def fail_def Let_def split: prod.splits if_splits)
  moreover have "u_stop u = u_stop (d_unit d)" "u_active u = u_active (d_unit d)"
    using thread_frame(1,2) [of env 0 "d_unit d" "d_os d"] t by simp_all
  ultimately show ?thesis using step.sender_boot [OF assms t] by (intro exI) (auto simp: same_ctl_def)
qed

lemma spin_goes_on:
  assumes "u_send (d_unit d) = Spin" "u_objs (d_unit d) \<noteq> None"
  shows "\<exists>d'. step env hi d d' \<and> u_send (d_unit d') = Top \<and> u_ret (d_unit d') = u_ret (d_unit d) \<and> same_ctl d d'"
proof -
  let ?u = "send_spin env (\<lambda>_. True) (u_next (d_unit d)) (d_unit d)"
  have "u_send ?u = Top" "u_ret ?u = u_ret (d_unit d)" using assms(2) by (simp_all add: send_spin_def send_emit_frame)
  then show ?thesis using step.sender_spin [OF assms(1), of env hi "\<lambda>_. True" "u_next (d_unit d)"]
    by (intro exI) (auto simp: same_ctl_def thread_frame)
qed

lemma same_ctl_trans: "same_ctl d d' \<Longrightarrow> same_ctl d' d'' \<Longrightarrow> same_ctl d d''"
  by (simp add: same_ctl_def)

lemma sender_ends:
  assumes "unit_inv (d_unit d)" "u_stop (d_unit d)" "u_active (d_unit d)"
  shows "\<exists>d'. (step env hi)\<^sup>*\<^sup>* d d' \<and> u_send (d_unit d') = Gone \<and> u_ret (d_unit d') = u_ret (d_unit d) \<and> same_ctl d d'"
proof -
  have top: "\<exists>d'. (step env hi)\<^sup>*\<^sup>* d1 d' \<and> u_send (d_unit d') = Gone \<and> u_ret (d_unit d') = u_ret (d_unit d1) \<and> same_ctl d1 d'"
    if "u_send (d_unit d1) \<in> {Top, Gone}" "u_stop (d_unit d1)" for d1
  proof (cases "u_send (d_unit d1) = Gone")
    case True
    then show ?thesis by (intro exI [of _ d1]) (simp add: same_ctl_def)
  next
    case False
    then show ?thesis using top_leaves [of d1 env hi] that by blast
  qed
  have "\<exists>d1. (step env hi)\<^sup>*\<^sup>* d d1 \<and> u_send (d_unit d1) \<in> {Top, Gone} \<and> u_ret (d_unit d1) = u_ret (d_unit d) \<and> same_ctl d d1"
  proof (cases "u_send (d_unit d)")
    case Absent
    then show ?thesis using assms unfolding unit_inv_def by blast
  next
    case Boot
    then show ?thesis using boot_goes_on [of d env hi] by blast
  next
    case Spin
    then have "u_objs (d_unit d) \<noteq> None" using assms(1) unfolding unit_inv_def by blast
    then show ?thesis using Spin spin_goes_on [of d env hi] by blast
  qed (auto simp: same_ctl_def intro!: exI [of _ d])
  then obtain d1 where d1: "(step env hi)\<^sup>*\<^sup>* d d1" "u_send (d_unit d1) \<in> {Top, Gone}" "u_ret (d_unit d1) = u_ret (d_unit d)" "same_ctl d d1"
    by blast
  moreover have "u_stop (d_unit d1)" using assms(2) d1(4) by (simp add: same_ctl_def)
  ultimately obtain d2 where "(step env hi)\<^sup>*\<^sup>* d1 d2" "u_send (d_unit d2) = Gone" "u_ret (d_unit d2) = u_ret (d_unit d1)" "same_ctl d1 d2"
    using top [of d1] by blast
  then show ?thesis using d1 by (intro exI [of _ d2]) (auto intro: rtranclp_trans same_ctl_trans)
qed

lemma threads_end:
  assumes "d_inv d" "d_main d \<in> {Join_stop, Join_drop}"
  shows "\<exists>d'. (step env hi)\<^sup>*\<^sup>* d d' \<and> joinable_done (d_unit d') \<and> same_ctl d d'"
proof -
  have u: "unit_inv (d_unit d)" "u_stop (d_unit d)" "u_active (d_unit d)" using assms by (auto simp: d_inv_def)
  obtain d1 where d1: "(step env hi)\<^sup>*\<^sup>* d d1" "u_send (d_unit d1) = Gone" "u_ret (d_unit d1) = u_ret (d_unit d)" "same_ctl d d1"
    using sender_ends [OF u] by blast
  have "u_ret (d_unit d) \<in> {Absent, Top, Gone}" using u(1) unfolding unit_inv_def by blast
  then consider "u_ret (d_unit d1) = Top" | "u_ret (d_unit d1) \<in> {Absent, Gone}" using d1(3) by auto
  then show ?thesis
  proof cases
    case 1
    let ?d = "d1\<lparr> d_unit := ret_iter (se_cal env) None 0 (d_unit d1) \<rparr>"
    have "u_stop (d_unit d1)" using u(2) d1(4) by (simp add: same_ctl_def)
    then have "joinable_done (d_unit ?d)" "same_ctl d1 ?d" using d1(2) by (auto simp: ret_iter_def joinable_done_def same_ctl_def)
    moreover have "step env hi d1 ?d" using 1 by (rule step.returner)
    ultimately show ?thesis using rtranclp.rtrancl_into_rtrancl [OF d1(1)] same_ctl_trans [OF d1(4)] by (intro exI [of _ ?d] conjI)
  next
    case 2
    then show ?thesis using d1 by (intro exI [of _ d1]) (auto simp: joinable_done_def)
  qed
qed

lemma d_inv_steps: "(step env hi)\<^sup>*\<^sup>* d d' \<Longrightarrow> d_inv d \<Longrightarrow> d_inv d'"
  by (induction rule: rtranclp_induct) (auto intro: d_inv_step)

section \<open>Lines through the connection\<close>

lemma conn_bytes:
  assumes "c_lf \<notin> set l" "length (d_line d @ l) < 8192"
  shows "fold (conn_byte hi) l d = d\<lparr> d_line := d_line d @ l \<rparr>"
  using assms
proof (induction l arbitrary: d)
  case (Cons ch l)
  then have "conn_byte hi ch d = d\<lparr> d_line := d_line d @ [ch] \<rparr>" unfolding conn_byte_def Let_def by auto
  then show ?case using Cons.IH [of "d\<lparr> d_line := d_line d @ [ch] \<rparr>"] Cons.prems by simp
qed simp

lemma conn_line:
  assumes "c_lf \<notin> set l" "length l < 8192" "d_line d = []"
  shows "fold (conn_byte hi) (l @ [c_lf]) d = handle_line hi (d\<lparr> d_line := l \<rparr>)"
  using conn_bytes [of l d hi] assms by (simp add: conn_byte_def)

lemma plain_no_lf: "plain s \<Longrightarrow> c_lf \<notin> set s"
proof -
  have "is_space c_lf" by (simp add: is_space_def c_lf_def)
  then show "plain s \<Longrightarrow> c_lf \<notin> set s" unfolding plain_def list_all_iff by blast
qed

lemma kv_line_no_lf: "list_all (\<lambda>(k, v). plain k \<and> plain v) kvs \<Longrightarrow> c_lf \<notin> set (kv_line kvs)"
proof -
  assume "list_all (\<lambda>(k, v). plain k \<and> plain v) kvs"
  then have "c_lf \<notin> set k \<and> c_lf \<notin> set v" if "(k, v) \<in> set kvs" for k v using that by (auto simp: list_all_iff dest: plain_no_lf)
  then show ?thesis by (auto simp: kv_line_def c_lf_def)
qed

lemma start_line_one_line: "sendable q \<Longrightarrow> c_lf \<notin> set (start_line q) \<and> length (start_line q) < 8192"
proof -
  assume q: "sendable q"
  then have "list_all (\<lambda>(k, v). plain k \<and> plain v) (start_kvs q)"
    by (simp add: start_kvs_def sendable_def c_str_id is_space_def)
  then have "c_lf \<notin> set (start_line q)" using kv_line_no_lf by (simp add: start_line_fits [OF q] c_lf_def)
  then show ?thesis by (simp add: start_line_kvs)
qed

lemma done_line_one_line: "reportable r \<Longrightarrow> c_lf \<notin> set (done_line r) \<and> length (done_line r) \<le> 4096 \<and> take 4 (done_line r) = ''DONE''"
proof -
  assume r: "reportable r"
  then have "list_all (\<lambda>(k, v). plain k \<and> plain v) (done_kvs r)"
    by (simp add: done_kvs_def reportable_def c_str_id is_space_def)
  then have "c_lf \<notin> set (done_line r)" using kv_line_no_lf by (simp add: done_line_fits [OF r] c_lf_def)
  then show ?thesis using done_line_fits [OF r] by (simp add: done_line_kvs)
qed

lemma reachable_bytes:
  assumes "reachable env hi d" "d_main d = Reading" "d_alive d" "\<not> d_g_stop d" "c_lf \<notin> set l" "length (d_line d @ l) < 8192"
  shows "reachable env hi (d\<lparr> d_line := d_line d @ l \<rparr>)"
  using assms
proof (induction l rule: rev_induct)
  case (snoc ch l)
  then have "step env hi (d\<lparr> d_line := d_line d @ l \<rparr>) (conn_byte hi ch (d\<lparr> d_line := d_line d @ l \<rparr>))"
    by (intro step.received) simp_all
  moreover have "conn_byte hi ch (d\<lparr> d_line := d_line d @ l \<rparr>) = d\<lparr> d_line := d_line d @ l @ [ch] \<rparr>"
    using snoc.prems by (auto simp: conn_byte_def)
  ultimately show ?case using snoc by (metis (no_types, lifting) reachable.more length_append set_append Un_iff add_lessD1 append_assoc)
qed simp

lemma reachable_line:
  assumes "reachable env hi d" "d_main d = Reading" "d_alive d" "\<not> d_g_stop d" "c_lf \<notin> set l" "length l < 8192" "d_line d = []"
  shows "reachable env hi (handle_line hi (d\<lparr> d_line := l \<rparr>))"
proof -
  have "reachable env hi (d\<lparr> d_line := l \<rparr>)" using reachable_bytes [OF assms(1-5)] assms(6,7) by simp
  moreover have "step env hi (d\<lparr> d_line := l \<rparr>) (conn_byte hi c_lf (d\<lparr> d_line := l \<rparr>))"
    using assms by (intro step.received) simp_all
  ultimately show ?thesis by (auto simp: conn_byte_def intro: reachable.more)
qed

section \<open>A concrete daemon\<close>

definition hi1 :: host_info where
  "hi1 = \<lparr> hi_arch = ''x86_64'', hi_nic = ''eth0'', hi_drv = ''gve'', hi_addr = ''10.0.0.2'', hi_echo_port = 9098, hi_tick_hz = 1000 \<rparr>"

definition d1 :: daemon where
  "d1 = (Daemon os1)\<lparr> d_os := os1\<lparr> os_fds := insert 9 (os_fds os1) \<rparr>, d_conn := 9, d_alive := True, d_main := Reading \<rparr>"

definition d2 :: daemon where
  "d2 = handle_line hi1 (d1\<lparr> d_line := ''START'' \<rparr>)"

definition d3 :: daemon where
  "d3 = handle_line hi1 (d2\<lparr> d_line := ''STOP'' \<rparr>)"

definition q1 :: start_request where
  "q1 = StartRequest\<lparr> sq_pps := 1000, sq_dst_addr := ''10.0.0.3'', sq_dst_port := 41234, sq_epoch_packets := 4096 \<rparr>"

definition r1 :: stop_reply where
  "r1 = StopReply\<lparr> sr_sent := 812344, sr_refused := 12, sr_p50 := 41230, sr_fault := ''shard:unknown_cipher'', sr_ok := True \<rparr>"

lemma d1_reachable: "reachable env1 hi1 d1"
proof -
  have "step env1 hi1 (Daemon os1) d1"
    using step.accepted [of "Daemon os1" 9 env1 hi1] by (simp add: d1_def Daemon_def os1_def os0_def)
  then show ?thesis by (rule reachable.more [OF reachable.start])
qed

lemma parse_start_empty: "sq_return_port (parse_start []) = 0"
  by (simp add: parse_start_def parse_kv_def kv_get_def split_last_def Let_def atoi_def strtol_def strtoll_def read_sign_def
      skip_space_def is_space_def is_digit_def)

lemma d2_facts: "reachable env1 hi1 d2" "d_main d2 = Reading" "d_alive d2" "\<not> d_g_stop d2" "d_line d2 = []" "u_active (d_unit d2)"
proof -
  show "reachable env1 hi1 d2" unfolding d2_def
    by (rule reachable_line [OF d1_reachable]) (simp_all add: d1_def Daemon_def c_lf_def)
qed (simp_all add: d2_def d1_def Daemon_def handle_line_def start_unit_def parse_start_empty Unit_def send_reply_def Let_def)

lemma d3_facts: "reachable env1 hi1 d3" "d_main d3 = Join_stop"
proof -
  show "reachable env1 hi1 d3" unfolding d3_def
    by (rule reachable_line [OF d2_facts(1-4)]) (simp_all add: d2_facts c_lf_def)
  show "d_main d3 = Join_stop" using d2_facts by (simp add: d3_def handle_line_def)
qed

section \<open>Properties\<close>

text \<open>
  C13. In every reachable state of the daemon, whatever the interleaving of the threads, the kernel's
  answers and the bytes on the control connection: outside a unit there is no thread and no return
  socket; a unit runs only while a control connection is served or being torn down, so a daemon that
  waits for a connection or has left its loop is not sending; every packet the sender tried is counted as sent
  or refused; and a sender that ended before it was told to has left a fault.
\<close>

theorem daemon_invariant:
  assumes "reachable env hi d" "u = d_unit d"
  shows "(\<not> u_active u \<longrightarrow> u_send u = Absent \<and> u_ret u = Absent \<and> u_return_fd u < 0) \<and>
         (u_active u \<longrightarrow> d_main d \<in> {Reading, Join_stop, Join_drop} \<and> u_sent u + u_refused u = u_seq u \<and> (u_ret u = Absent \<longleftrightarrow> u_return_fd u < 0)) \<and>
         (u_active u \<and> u_send u = Gone \<and> \<not> u_stop u \<longrightarrow> u_fault u \<noteq> [])"
proof -
  have d: "d_inv d" using assms(1) by (rule d_inv_reachable)
  then have i: "unit_inv u" by (simp add: assms(2) d_inv_def)
  have m: "u_active u \<Longrightarrow> d_main d \<in> {Reading, Join_stop, Join_drop}"
    using d by (cases "d_main d") (auto simp: assms(2) d_inv_def)
  show ?thesis using i m unfolding unit_inv_def by blast
qed

theorem daemon_invariant_witness: "u_send (d_unit d1) = Absent \<and> u_sent (d_unit d2) + u_refused (d_unit d2) = u_seq (d_unit d2)"
  using daemon_invariant [OF d1_reachable refl] daemon_invariant [OF d2_facts(1) refl] d2_facts(6)
  by (simp add: d1_def Daemon_def Unit_def)

text \<open>
  C26. A stop completes: from every reachable state in which the main thread waits for the threads of a
  unit, they can run to their end, and then the unit is over, its return socket is closed, and a \<open>STOP\<close> is answered with
  the final counters, or a dropped connection is closed and the daemon accepts the next one.
\<close>

theorem stop_completes:
  assumes "reachable env hi d" "d_main d \<in> {Join_stop, Join_drop}"
  shows "\<exists>d' d''. (step env hi)\<^sup>*\<^sup>* d d' \<and> step env hi d' d'' \<and> \<not> u_active (d_unit d'') \<and> u_return_fd (d_unit d'') < 0 \<and>
    u_sent (d_unit d') + u_refused (d_unit d') = u_seq (d_unit d') \<and>
    (if d_main d = Join_stop
     then d_main d'' = Reading \<and> d_replies d'' = d_replies d @ [done_line (fst (stop_finish (d_unit d') (d_os d')))]
     else d_main d'' = Accepting \<and> d_conn d'' = - 1 \<and> d_conn d' \<notin> os_fds (d_os d''))"
proof -
  have i: "d_inv d" using assms(1) by (rule d_inv_reachable)
  obtain d' where d': "(step env hi)\<^sup>*\<^sup>* d d'" "joinable_done (d_unit d')" "same_ctl d d'" using threads_end [OF i assms(2)] by blast
  then have m: "d_main d' = d_main d" "d_replies d' = d_replies d" by (simp_all add: same_ctl_def)
  have "d_inv d'" using d_inv_steps [OF d'(1) i] .
  then have c: "u_sent (d_unit d') + u_refused (d_unit d') = u_seq (d_unit d')"
    using assms(2) m by (auto simp: d_inv_def unit_inv_def)
  have s: "step env hi d' (stop_joined d')" using assms(2) m d'(2) by (intro step.joined) simp_all
  have "\<not> u_active (d_unit (stop_joined d'))" "u_return_fd (d_unit (stop_joined d')) < 0"
    by (auto simp: stop_joined_def stop_finish_def send_reply_def conn_close_def Let_def)
  moreover have "if d_main d = Join_stop
     then d_main (stop_joined d') = Reading \<and> d_replies (stop_joined d') = d_replies d @ [done_line (fst (stop_finish (d_unit d') (d_os d')))]
     else d_main (stop_joined d') = Accepting \<and> d_conn (stop_joined d') = - 1 \<and> d_conn d' \<notin> os_fds (d_os (stop_joined d'))"
    using m by (auto simp: stop_joined_def send_reply_def conn_close_def Let_def split: prod.splits)
  ultimately show ?thesis using d'(1) s c by (intro exI [of _ d'] exI [of _ "stop_joined d'"] conjI)
qed

theorem stop_completes_witness: "\<exists>d' d''. (step env1 hi1)\<^sup>*\<^sup>* d3 d' \<and> step env1 hi1 d' d'' \<and> d_main d'' = Reading"
proof -
  obtain d' d'' where "(step env1 hi1)\<^sup>*\<^sup>* d3 d'" "step env1 hi1 d' d''" "d_main d'' = Reading"
    using stop_completes [OF d3_facts(1)] d3_facts(2) by auto
  then show ?thesis by blast
qed



text \<open>
  The client reads the report the daemon wrote: from the bytes of a \<open>DONE\<close> line the client's \<open>stop\<close>
  recovers the exact counters and the fault, and the latencies to half a nanosecond.
\<close>

theorem stop_roundtrip:
  assumes "reportable r" "\<And>i n. 0 < n \<Longrightarrow> 0 < snd_res i n" "0 \<le> cl_fd c" "cl_rx c = map Some (done_line r) @ Some c_lf # rest"
  shows "\<exists>x y z. fst (stop snd_res c) = Inr (r\<lparr> sr_p50 := x, sr_p99 := y, sr_p999 := z \<rparr>) \<and>
    \<bar>x - sr_p50 r\<bar> \<le> 1 / 2 \<and> \<bar>y - sr_p99 r\<bar> \<le> 1 / 2 \<and> \<bar>z - sr_p999 r\<bar> \<le> 1 / 2"
proof -
  have "read_reply (cl_rx c) [] = (Inr (done_line r), rest)"
    using done_line_one_line [OF assms(1)] assms(4) by (simp add: read_reply_Inr)
  then have "request snd_res ''STOP'' c = (Inr (done_line r), c\<lparr> cl_tx := cl_tx c @ ''STOP'' @ [c_lf], cl_rx := rest \<rparr>)"
    using assms(3) send_all_takes [OF assms(2)] by (simp add: request_def)
  then have "fst (stop snd_res c) = Inr (read_done (drop 4 (done_line r)))"
    using done_line_one_line [OF assms(1)] by (simp add: stop_def)
  then show ?thesis
    using fixed_value_close [of 0 "sr_p50 r"] fixed_value_close [of 0 "sr_p99 r"] fixed_value_close [of 0 "sr_p999 r"]
    unfolding read_done_line [OF assms(1)] by (intro exI conjI) (auto simp: field_simps)
qed

theorem stop_roundtrip_witness:
  "\<exists>x y z. fst (stop (\<lambda>i n. 1) \<lparr> cl_fd = 3, cl_tx = [], cl_rx = map Some (done_line r1) @ [Some c_lf] \<rparr>) =
     Inr (r1\<lparr> sr_p50 := x, sr_p99 := y, sr_p999 := z \<rparr>)"
proof -
  have "reportable r1" by (simp add: reportable_def r1_def StopReply_def is_space_def)
  then show ?thesis
    using stop_roundtrip [where r = r1 and snd_res = "\<lambda>i n. 1" and rest = "[]"
        and c = "\<lparr> cl_fd = 3, cl_tx = [], cl_rx = map Some (done_line r1) @ [Some c_lf] \<rparr>"] by fastforce
qed

section \<open>Smaller facts\<close>

text \<open>The echo server returns every datagram that is not empty to its sender, in order, until it is told to stop.\<close>

lemma echo_loop_returns:
  "list_all (\<lambda>(quit, r). \<not> quit) turns \<Longrightarrow>
     echo_loop turns = map (\<lambda>(d, a). (take 2048 d, a)) (filter (\<lambda>(d, a). d \<noteq> []) (List.map_filter snd turns))"
  by (induction turns rule: echo_loop.induct) (auto simp: List.map_filter_simps split: option.splits)

lemma main_listen_descriptors:
  assumes "main_listen port listens os = (r, os')" "\<And>S fd. os_socket os S = Some fd \<Longrightarrow> fd \<notin> S"
  shows "os_fds os' = os_fds os \<union> (case r of None \<Rightarrow> {} | Some ls \<Rightarrow> {ls})"
  using assms(1) by (auto simp: main_listen_def Let_def split: option.splits if_splits dest: assms(2))

text \<open>A vertical tab survives \<open>one_token\<close>, and the shared parser splits there: the fault arrives cut.\<close>

lemma one_token_splits:
  "one_token [CHR ''a'', CHR 0x0B, CHR ''b''] = [CHR ''a'', CHR 0x0B, CHR ''b''] \<and>
   parse_kv ('' fault='' @ [CHR ''a'', CHR 0x0B, CHR ''b'']) ''fault'' = Some ''a''"
proof -
  have t: "tokens ('' fault='' @ [CHR ''a'', CHR 0x0B, CHR ''b'']) = [''fault=a'', ''b'']"
    by (simp add: tokens.simps [of "CHR '' '' # _"] tokens.simps [of "CHR 0x0B # _"] skip_space_def is_space_def Let_def)
  show ?thesis unfolding parse_kv_def t by (simp add: one_token_def put_kv_def)
qed

text \<open>The paced wait does not read the stop flag: a stop waits for the next scheduled packet, however far away it is.\<close>

lemma stop_waits_for_schedule: "u_stop u \<Longrightarrow> now < u_next u \<Longrightarrow> send_spin env sendto now u = u"
  by (simp add: send_spin_def)

end
