(* ===== verification/Platform.thy ===== *)
theory Platform
  imports Ctrl Clock
begin

text \<open>
  Capability detection and host classification, \<open>src/src/core/platform.cpp\<close> and
  \<open>src/include/lr/platform.hpp\<close>, for the Linux build: reading \<open>/proc/cpuinfo\<close>, the kernel command
  line and the sandbox, the list of interfaces, the affinity mask, the class of the host and the
  caveats that go with it.  The host is a record of what its files, environment and system calls
  return.  The theorems relate the class and the topology to what those files say.
\<close>

section \<open>The host class\<close>

datatype host_class = Development | Constrained | Measurement

definition host_class_name :: "host_class \<Rightarrow> string" where
  "host_class_name c = (case c of Measurement \<Rightarrow> ''measurement'' | Constrained \<Rightarrow> ''constrained'' | Development \<Rightarrow> ''development'')"

definition host_class_from_name :: "string \<Rightarrow> host_class" where
  "host_class_from_name s = (if s = ''measurement'' then Measurement else if s = ''constrained'' then Constrained else Development)"

text \<open>The tiers are ordered as their enumeration values are.\<close>

definition class_rank :: "host_class \<Rightarrow> nat" where
  "class_rank c = (case c of Development \<Rightarrow> 0 | Constrained \<Rightarrow> 1 | Measurement \<Rightarrow> 2)"

instantiation host_class :: linorder
begin

definition less_eq_host_class :: "host_class \<Rightarrow> host_class \<Rightarrow> bool" where
  "less_eq_host_class a b \<longleftrightarrow> class_rank a \<le> class_rank b"

definition less_host_class :: "host_class \<Rightarrow> host_class \<Rightarrow> bool" where
  "less_host_class a b \<longleftrightarrow> class_rank a < class_rank b"

instance
proof
  fix a b :: host_class
  assume "a \<le> b" "b \<le> a"
  then show "a = b" by (cases a; cases b) (simp_all add: less_eq_host_class_def class_rank_def)
qed (auto simp: less_eq_host_class_def less_host_class_def)

end

section \<open>Capabilities\<close>

record caps =
  c_os :: string
  c_arch :: string
  c_cpu_model :: string
  c_logical_cpus :: int
  c_physical_cores :: int
  c_smt_enabled :: bool
  c_homogeneous :: bool
  c_invariant_tsc :: bool
  c_hard_affinity :: bool
  c_batched_io :: bool
  c_uring_io :: bool
  c_uring_sqpoll :: bool
  c_isolcpus :: bool
  c_nohz_full :: bool
  c_rcu_nocbs :: bool
  c_hw_aes :: bool
  c_hw_clmul :: bool
  c_hw_avx2 :: bool
  c_openmp :: bool
  c_kernel_cmdline :: string
  c_governor :: string
  c_turbo_control :: string
  c_irqbalance :: string
  c_isolation_tier :: string
  c_nic_driver :: string
  c_nic_name :: string
  c_nic_addr :: string
  c_tsc_hz :: u64
  c_nominal_cpu_hz :: u64
  c_clock_source :: string
  c_openssl_version :: string
  c_cpu_flags :: "string list"

definition Caps :: caps where
  "Caps = \<lparr> c_os = [], c_arch = [], c_cpu_model = [], c_logical_cpus = 0, c_physical_cores = 0, c_smt_enabled = False,
     c_homogeneous = True, c_invariant_tsc = False, c_hard_affinity = False, c_batched_io = False, c_uring_io = False,
     c_uring_sqpoll = False, c_isolcpus = False, c_nohz_full = False, c_rcu_nocbs = False, c_hw_aes = False, c_hw_clmul = False,
     c_hw_avx2 = False, c_openmp = False, c_kernel_cmdline = [], c_governor = ''unknown'', c_turbo_control = ''unknown'',
     c_irqbalance = ''unknown'', c_isolation_tier = ''host'', c_nic_driver = ''unknown'', c_nic_name = [], c_nic_addr = [],
     c_tsc_hz = 0, c_nominal_cpu_hz = 0, c_clock_source = [], c_openssl_version = [], c_cpu_flags = [] \<rparr>"

text \<open>
  What the host answers.  \<open>h_file\<close> is the contents of a file that can be opened, \<open>h_stat\<close> whether a
  path exists, \<open>h_link\<close> what \<open>readlink\<close> returns; \<open>h_mask\<close> is the affinity mask, \<open>None\<close> when the call
  fails; \<open>h_ifs\<close> lists the interfaces, each with its name if it has one and its IPv4 address in text if it has one.
\<close>

record host =
  h_file :: "string \<Rightarrow> string option"
  h_stat :: "string \<Rightarrow> bool"
  h_link :: "string \<Rightarrow> string option"
  h_env :: "string \<Rightarrow> string option"
  h_uname :: "(string \<times> string \<times> string) option"
  h_mask :: "nat set option"
  h_ifs :: "(string option \<times> string option) list option"
  h_aarch64 :: bool
  h_openmp :: bool
  h_openssl :: string
  h_sys :: os
  h_cal :: cal

section \<open>Text of the host's files\<close>

definition strip_eol :: "string \<Rightarrow> string" where
  "strip_eol s = rev (dropWhile (\<lambda>c. c = CHR 0x0A \<or> c = CHR 0x0D) (rev s))"

definition slurp :: "host \<Rightarrow> string \<Rightarrow> string" where
  "slurp h path = (case h_file h path of None \<Rightarrow> [] | Some s \<Rightarrow> strip_eol s)"

text \<open>\<open>std::string::find\<close>: the rest of the text from the first occurrence on.\<close>

fun str_find :: "string \<Rightarrow> string \<Rightarrow> string option" where
  "str_find needle [] = (if needle = [] then Some [] else None)"
| "str_find needle (c # cs) = (if take (length needle) (c # cs) = needle then Some (c # cs) else str_find needle cs)"

definition contains :: "string \<Rightarrow> string \<Rightarrow> bool" where
  "contains hay needle \<longleftrightarrow> str_find needle hay \<noteq> None"

text \<open>\<open>std::getline\<close> until it fails: a last line without a newline counts when it is not empty.\<close>

fun split_lines :: "string \<Rightarrow> string \<Rightarrow> string list" where
  "split_lines [] cur = (if cur = [] then [] else [cur])"
| "split_lines (c # cs) cur = (if c = CHR 0x0A then cur # split_lines cs [] else split_lines cs (cur @ [c]))"

definition blank :: "char \<Rightarrow> bool" where
  "blank c \<longleftrightarrow> c = CHR '' '' \<or> c = CHR 0x09"

definition trim :: "string \<Rightarrow> string" where
  "trim s = rev (dropWhile blank (rev (dropWhile blank s)))"

section \<open>The processor\<close>

definition wanted :: "string list" where
  "wanted = [''aes'', ''pclmulqdq'', ''vaes'', ''vpclmulqdq'', ''avx'', ''avx2'', ''avx512f'', ''constant_tsc'', ''nonstop_tsc'',
     ''tsc_known_freq'', ''rdtscp'', ''pmull'', ''sha2'', ''asimd'', ''neon'']"

text \<open>The state of the loop over the lines; the cores seen are kept without repetition.\<close>

record cpu_scan =
  cs_caps :: caps
  cs_ids :: "string list"
  cs_phys :: string
  cs_core :: string
  cs_logical :: int

definition close_block :: "cpu_scan \<Rightarrow> cpu_scan" where
  "close_block s =
     (if cs_phys s \<noteq> [] \<and> cs_core s \<noteq> [] then s\<lparr> cs_ids := List.insert (cs_phys s @ '':'' @ cs_core s) (cs_ids s) \<rparr> else s)"

definition cpu_line :: "string \<Rightarrow> cpu_scan \<Rightarrow> cpu_scan" where
  "cpu_line line s =
     (if CHR '':'' \<notin> set line then (close_block s)\<lparr> cs_phys := [], cs_core := [] \<rparr>
      else let k = trim (takeWhile (\<lambda>c. c \<noteq> CHR '':'') line); v = trim (tl (dropWhile (\<lambda>c. c \<noteq> CHR '':'') line)); c = cs_caps s
      in if k = ''processor'' then s\<lparr> cs_logical := cs_logical s + 1 \<rparr>
         else if k = ''model name'' \<and> c_cpu_model c = [] then s\<lparr> cs_caps := c\<lparr> c_cpu_model := v \<rparr> \<rparr>
         else if k = ''Processor'' \<and> c_cpu_model c = [] then s\<lparr> cs_caps := c\<lparr> c_cpu_model := v \<rparr> \<rparr>
         else if k = ''physical id'' then s\<lparr> cs_phys := v \<rparr>
         else if k = ''core id'' then s\<lparr> cs_core := v \<rparr>
         else if (k = ''flags'' \<or> k = ''Features'') \<and> c_cpu_flags c = []
         then s\<lparr> cs_caps := c\<lparr> c_cpu_flags := filter (\<lambda>f. f \<in> set wanted) (tokens v) \<rparr> \<rparr>
         else s)"

definition scan_cpuinfo :: "string list \<Rightarrow> caps \<Rightarrow> cpu_scan" where
  "scan_cpuinfo lines c =
     close_block (fold cpu_line lines \<lparr> cs_caps = c, cs_ids = [], cs_phys = [], cs_core = [], cs_logical = 0 \<rparr>)"

definition has :: "caps \<Rightarrow> string \<Rightarrow> bool" where
  "has c f \<longleftrightarrow> f \<in> set (c_cpu_flags c)"

definition read_cpuinfo :: "host \<Rightarrow> caps \<Rightarrow> caps" where
  "read_cpuinfo h c =
     (let s = scan_cpuinfo (case h_file h ''/proc/cpuinfo'' of None \<Rightarrow> [] | Some t \<Rightarrow> split_lines t []) c;
          c = cs_caps s; logical = cs_logical s;
          physical = (if cs_ids s = [] then logical else int (length (cs_ids s)));
          c = c\<lparr> c_logical_cpus := logical, c_physical_cores := physical,
                  c_smt_enabled := physical > 0 \<and> logical > physical,
                  c_invariant_tsc := has c ''constant_tsc'' \<and> has c ''nonstop_tsc'', c_hw_aes := has c ''aes'',
                  c_hw_clmul := has c ''pclmulqdq'' \<or> has c ''pmull'', c_hw_avx2 := has c ''avx2'' \<rparr>
      in if h_aarch64 h
         then c\<lparr> c_invariant_tsc := True, c_hw_aes := c_hw_aes c \<or> has c ''aes'', c_hw_clmul := c_hw_clmul c \<or> has c ''pmull'' \<rparr>
         else c)"

definition or_guest :: "string \<Rightarrow> string" where
  "or_guest s = (if s = [] then ''unavailable-in-guest'' else s)"

definition read_hygiene :: "host \<Rightarrow> caps \<Rightarrow> caps" where
  "read_hygiene h c =
     (let cmdline = slurp h ''/proc/cmdline'';
          turbo = slurp h ''/sys/devices/system/cpu/intel_pstate/no_turbo'';
          turbo = (if turbo = [] then slurp h ''/sys/devices/system/cpu/cpufreq/boost'' else turbo)
      in c\<lparr> c_kernel_cmdline := cmdline, c_isolcpus := contains cmdline ''isolcpus='', c_nohz_full := contains cmdline ''nohz_full='',
            c_rcu_nocbs := contains cmdline ''rcu_nocbs='',
            c_governor := or_guest (slurp h ''/sys/devices/system/cpu/cpu0/cpufreq/scaling_governor''),
            c_turbo_control := (if turbo = [] then ''unavailable-in-guest'' else ''writable:'' @ turbo),
            c_irqbalance := (if h_stat h ''/run/irqbalance.pid'' then ''running'' else ''not-running'') \<rparr>)"

definition read_isolation_tier :: "host \<Rightarrow> string" where
  "read_isolation_tier h =
     (let detect =
            (let rel = slurp h ''/proc/sys/kernel/osrelease''
             in if contains rel ''gvisor'' \<or> contains rel ''gVisor'' then ''gvisor''
                else if h_stat h ''/.dockerenv'' then ''container''
                else let cg = slurp h ''/proc/self/cgroup''
                in if contains cg ''docker'' \<or> contains cg ''containerd'' \<or> contains cg ''kubepods'' then ''container'' else ''host'')
      in case h_env h ''LR_ISOLATION_TIER'' of Some e \<Rightarrow> (if e \<noteq> [] then e else detect) | None \<Rightarrow> detect)"

section \<open>The interface\<close>

definition virtual_if :: "string \<Rightarrow> bool" where
  "virtual_if nm \<longleftrightarrow> nm = ''lo'' \<or> nm = ''lo0'' \<or> take 6 nm = ''docker'' \<or> take 4 nm = ''veth'' \<or> take 3 nm = ''br-''"

definition if_name :: "string option \<Rightarrow> string" where
  "if_name nm = (case nm of None \<Rightarrow> [] | Some s \<Rightarrow> s)"

definition driver_of :: "host \<Rightarrow> string \<Rightarrow> string" where
  "driver_of h nm =
     (case h_link h (''/sys/class/net/'' @ nm @ ''/device/driver'') of
        None \<Rightarrow> ''unknown''
      | Some s \<Rightarrow> let s = take 511 s in if s = [] then ''unknown'' else case after_last (CHR ''/'') s of None \<Rightarrow> s | Some r \<Rightarrow> r)"

text \<open>Name, address and driver of the first interface that is not loopback or virtual.\<close>

definition primary_interface :: "host \<Rightarrow> (string \<times> string \<times> string) option" where
  "primary_interface h =
     (case h_ifs h of
        None \<Rightarrow> None
      | Some ifs \<Rightarrow>
        (case filter (\<lambda>(nm, a). a \<noteq> None \<and> \<not> virtual_if (if_name nm)) ifs of
           [] \<Rightarrow> None
         | (nm, a) # _ \<Rightarrow> Some (if_name nm, the a, driver_of h (if_name nm))))"

section \<open>All capabilities\<close>

definition capacities :: "host \<Rightarrow> nat \<Rightarrow> string list" where
  "capacities h n =
     remdups (filter (\<lambda>v. v \<noteq> []) (map (\<lambda>i. slurp h (''/sys/devices/system/cpu/cpu'' @ show_nat i @ ''/cpu_capacity'')) [0..<n]))"

definition build_caps :: "host \<Rightarrow> caps" where
  "build_caps h =
     (let c = (case h_uname h of None \<Rightarrow> Caps | Some (sys, rel, mach) \<Rightarrow> Caps\<lparr> c_os := sys @ '' '' @ rel, c_arch := mach \<rparr>);
          c = read_hygiene h (read_cpuinfo h (c\<lparr> c_openssl_version := h_openssl h \<rparr>));
          c = c\<lparr> c_batched_io := True, c_isolation_tier := read_isolation_tier h,
                  c_hard_affinity := (case h_mask h of None \<Rightarrow> c_hard_affinity c | Some m \<Rightarrow> card m \<ge> 1),
                  c_homogeneous := length (capacities h (nat (c_logical_cpus c))) \<le> 1,
                  c_uring_io := uring_available (h_sys h), c_uring_sqpoll := uring_sqpoll_available (h_sys h),
                  c_openmp := h_openmp h \<rparr>;
          c = (case primary_interface h of None \<Rightarrow> c | Some (n, a, d) \<Rightarrow> c\<lparr> c_nic_name := n, c_nic_addr := a, c_nic_driver := d \<rparr>)
      in c\<lparr> c_tsc_hz := cal_tick_hz (h_cal h), c_nominal_cpu_hz := cal_cpu_hz (h_cal h), c_clock_source := cal_source (h_cal h) \<rparr>)"

definition klass :: "caps \<Rightarrow> host_class" where
  "klass c =
     (if \<not> c_invariant_tsc c \<or> \<not> c_hard_affinity c then Development
      else if c_isolcpus c \<and> c_nohz_full c \<and> c_homogeneous c \<and> c_physical_cores c \<ge> 2 then Measurement
      else Constrained)"

definition caveats :: "caps \<Rightarrow> string list" where
  "caveats c =
     (if \<not> c_isolcpus c then [''kernel isolation absent: no isolcpus on the data-plane cores''] else []) @
     (if \<not> c_nohz_full c then [''timer tick not suppressed: no nohz_full on the data-plane cores''] else []) @
     (if \<not> c_rcu_nocbs c then [''RCU callbacks not offloaded: no rcu_nocbs on the data-plane cores''] else []) @
     (if c_physical_cores c < 2
      then [''single core available: generator and data plane share one CPU, and core-count scaling cannot be measured''] else []) @
     (if \<not> c_homogeneous c then [''heterogeneous cores: a scaling curve would span two microarchitectures''] else []) @
     (if c_smt_enabled c then [''simultaneous multithreading enabled: sibling threads share execution resources''] else []) @
     (if c_turbo_control c = ''unavailable-in-guest'' \<or> c_turbo_control c = ''unavailable-on-darwin''
      then [''core frequency not controllable: turbo state is set by the platform, not by the harness''] else []) @
     (if c_irqbalance c = ''running'' then [''irqbalance running: interrupt affinity may move during a sweep''] else []) @
     (if \<not> c_batched_io c then [''batched syscalls absent: the recvmmsg backend cannot be exercised''] else []) @
     (if \<not> c_uring_io c then [''io_uring unavailable: the ring-based backends are absent from E3'']
      else if \<not> c_uring_sqpoll c
      then [''io_uring accepted but SQPOLL refused: the syscall-free submission path, which bounds what kernel bypass could recover, was not measured'']
      else []) @
     (if c_nic_driver c = ''unknown'' \<or> c_nic_addr c = []
      then [''no non-loopback interface discovered: wire experiments cannot run here''] else []) @
     (if c_isolation_tier c \<noteq> ''host''
      then [''running inside a '' @ c_isolation_tier c @ '': absolute costs include that layer's overhead''] else [])"

section \<open>Affinity and masks\<close>

text \<open>
  \<open>pin_to_cpu\<close>: \<open>setaff\<close> is what the kernel makes of the mask it is given, \<open>None\<close> for a refusal, and
  \<open>getaff\<close> what reading it back returns.
\<close>

definition pin_to_cpu :: "(nat set \<Rightarrow> nat set option) \<Rightarrow> (nat set \<Rightarrow> nat set option) \<Rightarrow> int \<Rightarrow> bool" where
  "pin_to_cpu setaff getaff cpu =
     (if cpu < 0 then True
      else case setaff {nat cpu} of
             None \<Rightarrow> False
           | Some m \<Rightarrow> (case getaff m of None \<Rightarrow> False | Some got \<Rightarrow> nat cpu \<in> got \<and> card got = 1))"

datatype cpu_arch = X86_64 | Aarch64 | Other_arch

definition hw_crypto_mask_var :: "cpu_arch \<Rightarrow> string" where
  "hw_crypto_mask_var a = (case a of X86_64 \<Rightarrow> ''OPENSSL_ia32cap'' | Aarch64 \<Rightarrow> ''OPENSSL_armcap'' | Other_arch \<Rightarrow> [])"

definition hw_crypto_mask_value :: "cpu_arch \<Rightarrow> string" where
  "hw_crypto_mask_value a = (case a of X86_64 \<Rightarrow> ''~0x200000200000000:~0x60000000000'' | Aarch64 \<Rightarrow> ''0x1'' | Other_arch \<Rightarrow> [])"

definition hw_crypto_masked :: "host \<Rightarrow> bool" where
  "hw_crypto_masked h \<longleftrightarrow> h_env h ''LR_MASK_STATE'' = Some ''off''"

text \<open>The probe: \<open>t0\<close> and \<open>t1\<close> are the readings around the timed passes, \<open>ctx\<close> whether a context was had.\<close>

definition openssl_aes_cycles_per_byte :: "bool \<Rightarrow> cal \<Rightarrow> u64 \<Rightarrow> u64 \<Rightarrow> real" where
  "openssl_aes_cycles_per_byte ctx c t0 t1 =
     (if \<not> ctx then 0 else real (unat (t1 - t0)) * cycles_per_tick c / real (32 * (64 * 1024)))"

definition openssl_hw_aes_active :: "bool \<Rightarrow> cal \<Rightarrow> u64 \<Rightarrow> u64 \<Rightarrow> bool" where
  "openssl_hw_aes_active ctx c t0 t1 \<longleftrightarrow> openssl_aes_cycles_per_byte ctx c t0 t1 < 2"

section \<open>Names and classes\<close>

lemma host_class_names: "host_class_from_name (host_class_name c) = c"
  by (cases c) (simp_all add: host_class_name_def host_class_from_name_def)

lemma klass_measures: "klass c \<ge> Constrained \<longleftrightarrow> c_invariant_tsc c \<and> c_hard_affinity c"
  by (simp add: klass_def less_eq_host_class_def class_rank_def)

text \<open>
  On a host of the measurement class no caveat speaks of isolation by \<open>isolcpus\<close> or \<open>nohz_full\<close>, of
  a single core or of cores of two kinds; others remain possible, the one on \<open>rcu_nocbs\<close> among them.
\<close>

lemma measurement_caveats:
  "klass c = Measurement \<Longrightarrow> c_isolcpus c \<and> c_nohz_full c \<and> c_homogeneous c \<and> 2 \<le> c_physical_cores c"
  by (simp add: klass_def split: if_splits)

lemma measurement_with_caveats:
  "klass (Caps\<lparr> c_invariant_tsc := True, c_hard_affinity := True, c_isolcpus := True, c_nohz_full := True, c_physical_cores := 2 \<rparr>) = Measurement \<and>
   ''RCU callbacks not offloaded: no rcu_nocbs on the data-plane cores'' \<in>
     set (caveats (Caps\<lparr> c_invariant_tsc := True, c_hard_affinity := True, c_isolcpus := True, c_nohz_full := True, c_physical_cores := 2 \<rparr>))"
  by (simp add: klass_def Caps_def caveats_def)

text \<open>A probe that could not allocate its context counts as hardware AES in use.\<close>

lemma failed_probe_reads_active: "openssl_hw_aes_active False c t0 t1"
  by (simp add: openssl_hw_aes_active_def openssl_aes_cycles_per_byte_def)

lemma pin_to_cpu_alone: "pin_to_cpu setaff getaff cpu \<Longrightarrow> 0 \<le> cpu \<Longrightarrow> \<exists>m. setaff {nat cpu} = Some m \<and> getaff m = Some {nat cpu}"
  by (auto simp: pin_to_cpu_def card_1_singleton_iff split: option.splits if_splits)

section \<open>Reading the topology\<close>

lemma trim_word:
  assumes "s \<noteq> []" "\<not> blank (hd s)" "\<not> blank (last s)"
  shows "trim (CHR '' '' # s) = s"
proof -
  have "dropWhile blank (CHR '' '' # s) = s" using assms(1,2) by (cases s) (simp_all add: blank_def)
  moreover have "dropWhile blank (rev s) = rev s" using assms(1,3) by (cases s rule: rev_cases) simp_all
  ultimately show ?thesis by (simp add: trim_def)
qed

lemma digit_not_blank: "is_digit c \<Longrightarrow> \<not> blank c"
  by (auto simp: blank_def is_digit_def)

lemma trim_show_nat: "trim (CHR '' '' # show_nat n) = show_nat n"
  using show_nat_digits [of n] by (intro trim_word) (auto simp: list_all_iff intro!: digit_not_blank)

text \<open>The block of one processor as the kernel prints it: its number, its package and its core.\<close>

definition cpu_block :: "nat \<times> nat \<times> nat \<Rightarrow> string list" where
  "cpu_block b = (case b of (i, p, c) \<Rightarrow>
     [''processor'' @ [CHR 0x09] @ '': '' @ show_nat i, ''physical id'' @ [CHR 0x09] @ '': '' @ show_nat p,
      ''core id'' @ [CHR 0x09, CHR 0x09] @ '': '' @ show_nat c, []])"

definition core_id :: "nat \<times> nat \<times> nat \<Rightarrow> string" where
  "core_id b = (case b of (i, p, c) \<Rightarrow> show_nat p @ '':'' @ show_nat c)"

lemma cpu_block_scan:
  "fold cpu_line (cpu_block b) s =
     s\<lparr> cs_logical := cs_logical s + 1, cs_ids := List.insert (core_id b) (cs_ids s), cs_phys := [], cs_core := [] \<rparr>"
proof -
  obtain i p c where b: "b = (i, p, c)" by (rule prod_cases3)
  have t: "trim (''processor'' @ [CHR 0x09]) = ''processor''" "trim (''physical id'' @ [CHR 0x09]) = ''physical id''"
    "trim (''core id'' @ [CHR 0x09, CHR 0x09]) = ''core id''"
    by (simp_all add: trim_def blank_def)
  have "cpu_line (''processor'' @ [CHR 0x09] @ '': '' @ show_nat i) s = s\<lparr> cs_logical := cs_logical s + 1 \<rparr>" for s
    using t by (simp add: cpu_line_def Let_def)
  moreover have "cpu_line (''physical id'' @ [CHR 0x09] @ '': '' @ show_nat p) s = s\<lparr> cs_phys := show_nat p \<rparr>" for s
    using t by (simp add: cpu_line_def Let_def trim_show_nat)
  moreover have "cpu_line (''core id'' @ [CHR 0x09, CHR 0x09] @ '': '' @ show_nat c) s = s\<lparr> cs_core := show_nat c \<rparr>" for s
    using t by (simp add: cpu_line_def Let_def trim_show_nat)
  moreover have "cpu_line [] s = (close_block s)\<lparr> cs_phys := [], cs_core := [] \<rparr>" for s
    by (simp add: cpu_line_def)
  ultimately show ?thesis by (simp add: b cpu_block_def core_id_def close_block_def)
qed

lemma cpu_blocks_scan:
  assumes "distinct (cs_ids s)" "bs \<noteq> []"
  shows "\<exists>ids. distinct ids \<and> set ids = set (cs_ids s) \<union> core_id ` set bs \<and>
     fold cpu_line (concat (map cpu_block bs)) s = s\<lparr> cs_logical := cs_logical s + int (length bs), cs_ids := ids, cs_phys := [], cs_core := [] \<rparr>"
  using assms(2,1)
proof (induction bs arbitrary: s rule: list_nonempty_induct)
  case (single b)
  then show ?case by (intro exI [of _ "List.insert (core_id b) (cs_ids s)"]) (simp add: cpu_block_scan)
next
  case (cons b bs)
  let ?s = "fold cpu_line (cpu_block b) s"
  obtain ids where "distinct ids" "set ids = set (cs_ids ?s) \<union> core_id ` set bs"
    "fold cpu_line (concat (map cpu_block bs)) ?s = ?s\<lparr> cs_logical := cs_logical ?s + int (length bs), cs_ids := ids, cs_phys := [], cs_core := [] \<rparr>"
    using cons.IH [of ?s] cons.prems by (auto simp: cpu_block_scan)
  then show ?case by (intro exI [of _ ids]) (simp add: cpu_block_scan)
qed

lemma split_lines_line: "CHR 0x0A \<notin> set l \<Longrightarrow> split_lines (l @ CHR 0x0A # rest) cur = (cur @ l) # split_lines rest []"
  by (induction l arbitrary: cur) auto

lemma split_lines_lines:
  "list_all (\<lambda>l. CHR 0x0A \<notin> set l) ls \<Longrightarrow> split_lines (concat (map (\<lambda>l. l @ [CHR 0x0A]) ls)) [] = ls"
  by (induction ls) (simp_all add: split_lines_line)

lemma newline_free: "CHR 0x0A \<notin> set (show_nat n)"
  using show_nat_digits [of n] by (auto simp: list_all_iff is_digit_def)

lemma cpu_blocks_lines: "list_all (\<lambda>l. CHR 0x0A \<notin> set l) (concat (map cpu_block bs))"
  by (induction bs) (auto simp: cpu_block_def newline_free split: prod.splits)

lemma show_nat_inj: "show_nat m = show_nat n \<Longrightarrow> m = n"
  by (metis digits_show_nat)

lemma core_id_inj: "core_id b = core_id b' \<Longrightarrow> snd b = snd b'"
proof -
  obtain i p c i' p' c' where b: "b = (i, p, c)" "b' = (i', p', c')" by (metis prod_cases3)
  assume "core_id b = core_id b'"
  then have e: "show_nat p @ CHR '':'' # show_nat c = show_nat p' @ CHR '':'' # show_nat c'" by (simp add: b core_id_def)
  have "CHR '':'' \<notin> set (show_nat k)" for k using show_nat_digits [of k] by (auto simp: list_all_iff dest: digit_plain)
  then have "takeWhile (\<lambda>x. x \<noteq> CHR '':'') (show_nat k @ CHR '':'' # r) = show_nat k" for k r by (subst takeWhile_append2) auto
  then have "show_nat p = show_nat p'" using arg_cong [OF e, of "takeWhile (\<lambda>x. x \<noteq> CHR '':'')"] by simp
  then show ?thesis using e by (auto simp: b dest: show_nat_inj)
qed

lemma card_core_ids: "card (core_id ` set bs) = card (snd ` set bs)"
proof -
  define f where "f x = core_id (0, x)" for x
  have "core_id ` set bs = f ` (snd ` set bs)" by (force simp: f_def core_id_def image_iff split: prod.splits)
  moreover have "inj_on f (snd ` set bs)" by (rule inj_onI) (auto simp: f_def dest: core_id_inj)
  then have "card (f ` snd ` set bs) = card (snd ` set bs)" by (rule card_image)
  ultimately show ?thesis by simp
qed

text \<open>A package of two cores, one of them with two siblings.\<close>

definition bs1 :: "(nat \<times> nat \<times> nat) list" where
  "bs1 = [(0, 0, 0), (1, 0, 1), (2, 0, 0)]"

definition host1 :: host where
  "host1 = \<lparr> h_file = [''/proc/cpuinfo'' \<mapsto> concat (map (\<lambda>l. l @ [CHR 0x0A]) (concat (map cpu_block bs1)))],
     h_stat = (\<lambda>_. False), h_link = (\<lambda>_. None), h_env = (\<lambda>_. None), h_uname = None, h_mask = None, h_ifs = None, h_aarch64 = False,
     h_openmp = False, h_openssl = [], h_sys = os0, h_cal = \<lparr> cal_tick_hz = 1, cal_cpu_hz = 1, cal_invariant = True, cal_source = [] \<rparr> \<rparr>"

section \<open>Properties\<close>



end
