(* ===== verification/Bench.thy ===== *)
theory Bench
  imports Loadgen Json Platform
begin

text \<open>
  The benchmark harness: \<open>src/src/bench/bench.cpp\<close> and \<open>bench.hpp\<close> (the factor levels, the argument
  helpers, the staged and the wire measurement of the hot path, the peer on the other node and the
  reading of a unit's report), the environment block of \<open>emit_json.cpp\<close>, the dispatcher's context of
  \<open>bench_main.cpp\<close> and the unit process of \<open>exp_e1_cost_model.cpp\<close>.  A measurement composes the shard
  of the data plane, the control client, the JSON writer and the host description.
\<close>

section \<open>Factor levels\<close>

definition kPayloads :: "nat list" where
  "kPayloads = [16, 32, 64, 96, 128, 192, 256, 384, 512, 768, 1024, 1200, 1432]"

definition kCiphers :: "string list" where
  "kCiphers = [''aes-256-gcm'', ''chacha20-poly1305'', ''lr-aes-256-gcm'', ''lr-chacha20-poly1305'']"

definition kBatchSizes :: "int list" where
  "kBatchSizes = [1, 2, 4, 8, 16, 32, 64]"

definition bench_key :: bytes where
  "bench_key = [0x9f, 0x2c, 0x41, 0x08, 0xd3, 0x77, 0x5a, 0xbe,
                0x14, 0x60, 0xe9, 0x2b, 0x8c, 0x35, 0xf1, 0x07,
                0x53, 0xaa, 0x19, 0xc6, 0x7e, 0x02, 0xb8, 0x4d,
                0x91, 0x38, 0xdf, 0x65, 0x2a, 0xf4, 0x0b, 0x76]"

definition window_for :: "nat \<Rightarrow> int" where
  "window_for wl =
     (let n = int (16777216 div (wl * 2 + 256));
          n = (if n > 8192 then 8192 else n)
      in if n < 32 then 32 else n)"

text \<open>The reason why the host may not measure, \<open>None\<close> when it may.\<close>

definition measurement_permitted :: "caps \<Rightarrow> string option" where
  "measurement_permitted c =
     (if klass c = Development
      then Some (''host class is '' @ [CHR 0x27] @ ''development'' @ [CHR 0x27] @ (case caveats c of [] \<Rightarrow> [] | v # _ \<Rightarrow> '' ('' @ v @ '')''))
      else None)"

section \<open>Arguments\<close>

definition arg_str :: "string list \<Rightarrow> string \<Rightarrow> string \<Rightarrow> string" where
  "arg_str argv name dflt =
     (let pre = ''--'' @ name @ ''=''
      in case filter (\<lambda>a. take (length pre) a = pre) (tl argv) of [] \<Rightarrow> dflt | a # _ \<Rightarrow> drop (length pre) a)"

definition arg_int :: "string list \<Rightarrow> string \<Rightarrow> int \<Rightarrow> int" where
  "arg_int argv name dflt = (let s = arg_str argv name [] in if s = [] then dflt else strtol s)"

definition arg_has :: "string list \<Rightarrow> string \<Rightarrow> bool" where
  "arg_has argv name \<longleftrightarrow> (''--'' @ name) \<in> set (tl argv)"

definition c_int :: "int \<Rightarrow> int" where
  "c_int i = sint (of_int i :: 32 word)"

record run_ctx =
  rc_outdir :: string
  rc_exe :: string
  rc_reps :: int
  rc_cv_threshold :: real
  rc_seed :: u64
  rc_anchor_tol :: real
  rc_target_packets :: int
  rc_warmup_cycles :: int
  rc_verbose :: bool
  rc_peer_host :: string
  rc_peer_port :: u16
  rc_local_addr :: string
  rc_offer_factor :: real
  rc_unit_seconds :: real

definition RunCtx :: run_ctx where
  "RunCtx = \<lparr> rc_outdir = ''results/raw'', rc_exe = [], rc_reps = 11, rc_cv_threshold = 10 / 100, rc_seed = 20260819,
     rc_anchor_tol = 10 / 100, rc_target_packets = 30000, rc_warmup_cycles = 3, rc_verbose = False, rc_peer_host = [],
     rc_peer_port = 9099, rc_local_addr = [], rc_offer_factor = 3, rc_unit_seconds = 12 / 10 \<rparr>"

definition real_or :: "string \<Rightarrow> real \<Rightarrow> real" where
  "real_or s dflt = (if s = [] then dflt else strtod s)"

text \<open>The context the dispatcher builds from its arguments and the host.\<close>

definition parse_ctx :: "host \<Rightarrow> string list \<Rightarrow> run_ctx" where
  "parse_ctx h argv =
     (let c = RunCtx;
          c = c\<lparr> rc_exe := hd argv, rc_outdir := arg_str argv ''out'' (rc_outdir c), rc_reps := c_int (arg_int argv ''reps'' (rc_reps c)),
                  rc_target_packets := c_int (arg_int argv ''packets'' (rc_target_packets c)),
                  rc_warmup_cycles := c_int (arg_int argv ''warmup'' (rc_warmup_cycles c)),
                  rc_seed := of_int (arg_int argv ''seed'' (uint (rc_seed c))), rc_peer_host := arg_str argv ''peer'' [],
                  rc_peer_port := of_int (arg_int argv ''peer-port'' (uint (rc_peer_port c))),
                  rc_local_addr := arg_str argv ''local'' [], rc_verbose := arg_has argv ''verbose'',
                  rc_cv_threshold := real_or (arg_str argv ''cv'' []) (rc_cv_threshold c),
                  rc_unit_seconds := real_or (arg_str argv ''seconds'' []) (rc_unit_seconds c),
                  rc_offer_factor := real_or (arg_str argv ''offer'' []) (rc_offer_factor c) \<rparr>;
          c = (if arg_has argv ''quick''
               then c\<lparr> rc_reps := 3, rc_target_packets := 4000, rc_warmup_cycles := 1, rc_unit_seconds := 4 / 10 \<rparr> else c)
      in if rc_local_addr c = []
         then (case primary_interface h of Some (n, a, d) \<Rightarrow> c\<lparr> rc_local_addr := a \<rparr> | None \<Rightarrow> c)
         else c)"

text \<open>The command line of a unit process, with the capability mask in its environment or not.\<close>

definition unit_command :: "cpu_arch \<Rightarrow> string \<Rightarrow> string \<Rightarrow> bool \<Rightarrow> string" where
  "unit_command a exe args hw_crypto =
     (if \<not> hw_crypto then hw_crypto_mask_var a @ ''='' @ hw_crypto_mask_value a @ '' LR_MASK_STATE=off '' else ''LR_MASK_STATE=on '') @
     exe @ '' '' @ args @ '' 2>/dev/null''"

section \<open>Reading a unit's report\<close>

text \<open>Whether \<open>strtod\<close> moves its end pointer: there is a number without exponent to read.\<close>

definition strtod_reads :: "string \<Rightarrow> bool" where
  "strtod_reads s =
     (case snd (read_sign (skip_space s)) of
        [] \<Rightarrow> False
      | c # cs \<Rightarrow> is_digit c \<or> (c = CHR ''.'' \<and> cs \<noteq> [] \<and> is_digit (hd cs)))"

definition after_key :: "string \<Rightarrow> string \<Rightarrow> string option" where
  "after_key js k =
     (case str_find ([c_quote] @ k @ [c_quote]) js of
        None \<Rightarrow> None
      | Some r \<Rightarrow> str_find '':'' (drop (length k + 2) r))"

definition unit_field :: "string \<Rightarrow> string \<Rightarrow> real option" where
  "unit_field js k =
     (case after_key js k of
        None \<Rightarrow> None
      | Some r \<Rightarrow>
        let v = dropWhile (\<lambda>c. c = CHR '' '' \<or> c = c_tab \<or> c = c_nl) (tl r)
        in if v \<noteq> [] \<and> hd v = c_quote then None
           else if take 4 v = ''true'' then Some 1
           else if take 5 v = ''false'' then Some 0
           else if strtod_reads v then Some (strtod v) else None)"

definition unit_string :: "string \<Rightarrow> string \<Rightarrow> string option" where
  "unit_string js k =
     (case after_key js k of
        None \<Rightarrow> None
      | Some r \<Rightarrow>
        (case str_find [c_quote] r of
           None \<Rightarrow> None
         | Some q \<Rightarrow> if c_quote \<in> set (tl q) then Some (takeWhile (\<lambda>c. c \<noteq> c_quote) (tl q)) else None))"

section \<open>The hot path, staged locally\<close>

record hotpath_result =
  hr_cycles_per_packet :: real
  hr_pps :: real
  hr_syscalls_per_pkt :: real
  hr_packets :: u64
  hr_auth_fail :: u64
  hr_replay_drop :: u64
  hr_aead_backend :: string
  hr_source :: string
  hr_ok :: bool
  hr_error :: string

definition HotPathResult :: hotpath_result where
  "HotPathResult = \<lparr> hr_cycles_per_packet = 0, hr_pps = 0, hr_syscalls_per_pkt = 0, hr_packets = 0, hr_auth_fail = 0, hr_replay_drop = 0,
     hr_aead_backend = [], hr_source = ''loopback'', hr_ok = False, hr_error = [] \<rparr>"

fun warm_up :: "shard_env \<Rightarrow> int \<Rightarrow> nat \<Rightarrow> shard \<Rightarrow> shard option" where
  "warm_up env window 0 s = Some s"
| "warm_up env window (Suc n) s =
     (case preload env window s of (staged, s) \<Rightarrow>
      if staged \<le> 0 then None else warm_up env window n (snd (drain env staged s)))"

text \<open>The measured loop; \<open>None\<close> is a run that does not end.\<close>

partial_function (option) hot_loop :: "shard_env \<Rightarrow> int \<Rightarrow> int \<Rightarrow> int \<Rightarrow> int \<Rightarrow> shard \<Rightarrow> shard option" where
  [code]: "hot_loop env window target finished guard s =
     (if finished < target
      then (case preload env (min window (target - finished)) s of (staged, s) \<Rightarrow>
            if staged \<le> 0 then (if guard + 1 > 8 then Some s else hot_loop env window target finished (guard + 1) s)
            else (case drain env staged s of (n, s) \<Rightarrow> hot_loop env window target (finished + n) 0 s))
      else Some s)"

definition hot_result :: "cal \<Rightarrow> string \<Rightarrow> shard \<Rightarrow> hotpath_result \<Rightarrow> hotpath_result" where
  "hot_result c source s r =
     (let st = sh_st s; n = real (unat (st_packets st)); ns = ticks_to_ns c (st_ticks_busy st) / n
      in r\<lparr> hr_packets := st_packets st, hr_auth_fail := st_auth_fail st, hr_replay_drop := st_replay_drop st,
             hr_cycles_per_packet := real (unat (st_ticks_busy st)) / n, hr_pps := (if ns > 0 then 10 ^ 9 / ns else 0),
             hr_syscalls_per_pkt := real (unat (st_syscalls st)) / n, hr_source := source, hr_ok := True \<rparr>)"

definition run_hotpath :: "shard_env \<Rightarrow> simd_state \<Rightarrow> shard_config \<Rightarrow> int \<Rightarrow> int \<Rightarrow> os \<Rightarrow> hotpath_result option" where
  "run_hotpath env simd cfg target warmup os =
     (case Shard env cfg bench_key os of (s, e, os) \<Rightarrow>
      if err_text e \<noteq> [] then Some (HotPathResult\<lparr> hr_error := err_text e \<rparr>)
      else let r = HotPathResult\<lparr> hr_aead_backend := aead_backend simd s \<rparr>; window = window_for (wire_len (sh_cfg s))
      in case warm_up env window (nat warmup) s of
           None \<Rightarrow> Some (r\<lparr> hr_error := ''loader could not stage packets'' \<rparr>)
         | Some s \<Rightarrow>
           map_option (\<lambda>s. if st_packets (sh_st s) = 0 then r\<lparr> hr_error := ''no packets processed'' \<rparr>
                           else hot_result (se_cal env) ''loopback'' s r)
             (hot_loop env window target 0 0 (reset_stats s)))"

section \<open>The peer\<close>

record peer =
  pr_client :: client
  pr_ok :: bool
  pr_why :: string
  pr_nic :: string
  pr_driver :: string
  pr_addr :: string
  pr_echo_port :: u16

definition Peer ::
    "(u32 \<Rightarrow> u16 \<Rightarrow> string option) \<Rightarrow> (nat \<Rightarrow> nat \<Rightarrow> int) \<Rightarrow> char option list \<Rightarrow> run_ctx \<Rightarrow> os \<Rightarrow> peer \<times> os" where
  "Peer conn snd_res rx ctx os =
     (let p = \<lparr> pr_client = \<lparr> cl_fd = - 1, cl_tx = [], cl_rx = [] \<rparr>, pr_ok = False, pr_why = [], pr_nic = [], pr_driver = [], pr_addr = [],
                pr_echo_port = 0 \<rparr>
      in if rc_peer_host ctx = [] then (p\<lparr> pr_why := ''no peer host configured'' \<rparr>, os)
         else case client_connect conn rx (rc_peer_host ctx) (rc_peer_port ctx) (pr_client p) os of
                (Some e, c, os) \<Rightarrow> (p\<lparr> pr_client := c, pr_why := e \<rparr>, os)
              | (None, c, os) \<Rightarrow>
                (case ping snd_res c of
                   (Inl e, c) \<Rightarrow> (p\<lparr> pr_client := c, pr_why := e \<rparr>, os)
                 | (Inr info, c) \<Rightarrow>
                   (p\<lparr> pr_client := c, pr_nic := kv_get info ''nic'' ''unknown'', pr_driver := kv_get info ''driver'' ''unknown'',
                       pr_addr := kv_get info ''addr'' [],
                       pr_echo_port := (case info ''echo_port'' of Some v \<Rightarrow> of_int (atoi v) | None \<Rightarrow> 0), pr_ok := True \<rparr>, os)))"

definition peer_start :: "(nat \<Rightarrow> nat \<Rightarrow> int) \<Rightarrow> start_request \<Rightarrow> peer \<Rightarrow> string option \<times> peer" where
  "peer_start snd_res q p =
     (if \<not> pr_ok p then (Some (pr_why p), p)
      else case start snd_res q (pr_client p) of (e, c) \<Rightarrow> (e, p\<lparr> pr_client := c \<rparr>))"

definition peer_stop :: "(nat \<Rightarrow> nat \<Rightarrow> int) \<Rightarrow> peer \<Rightarrow> (string + stop_reply) \<times> peer" where
  "peer_stop snd_res p =
     (if \<not> pr_ok p then (Inl (pr_why p), p)
      else case stop snd_res (pr_client p) of (r, c) \<Rightarrow> (r, p\<lparr> pr_client := c \<rparr>))"

section \<open>The hot path over the wire\<close>

definition wire_cfg :: "run_ctx \<Rightarrow> peer \<Rightarrow> shard_config \<Rightarrow> shard_config" where
  "wire_cfg ctx p cfg = cfg\<lparr> sc_source := Wire_src, sc_bind_addr := (if rc_local_addr ctx = [] then ''0.0.0.0'' else rc_local_addr ctx),
     sc_bind_port := 0, sc_peer_addr := pr_addr p \<rparr>"

definition wire_request :: "run_ctx \<Rightarrow> shard_config \<Rightarrow> u16 \<Rightarrow> real \<Rightarrow> real \<Rightarrow> start_request" where
  "wire_request ctx cfg port seconds offered_pps =
     StartRequest\<lparr> sq_cipher := sc_cipher cfg, sq_payload := of_nat (sc_payload cfg), sq_pps := offered_pps, sq_seconds := seconds,
       sq_dst_addr := rc_local_addr ctx, sq_dst_port := port, sq_return_port := sc_peer_port cfg, sq_epoch_packets := sc_epoch_packets cfg \<rparr>"

text \<open>
  Both timed loops read the counter before every turn; the datagrams that arrive meanwhile are
  \<open>arrive k\<close>, those queued before the \<open>k\<close>-th turn.
\<close>

definition enqueue_all :: "bytes list \<Rightarrow> shard \<Rightarrow> shard" where
  "enqueue_all ps s = fold tx_enqueue ps s"

partial_function (option) timed_drain ::
    "shard_env \<Rightarrow> int \<Rightarrow> (nat \<Rightarrow> bytes list) \<Rightarrow> u64 \<Rightarrow> int option \<Rightarrow> nat \<Rightarrow> int \<Rightarrow> shard \<Rightarrow> (nat \<times> shard) option" where
  [code]: "timed_drain env budget arrive deadline target k finished s =
     (case read_ticks env s of (now, s) \<Rightarrow>
      if now < deadline \<and> (case target of None \<Rightarrow> True | Some t \<Rightarrow> finished < t)
      then (case drain env budget (enqueue_all (arrive k) s) of (n, s) \<Rightarrow>
            timed_drain env budget arrive deadline target (Suc k) (finished + n) s)
      else Some (k, s))"

definition run_hotpath_wire ::
    "shard_env \<Rightarrow> simd_state \<Rightarrow> (nat \<Rightarrow> nat \<Rightarrow> int) \<Rightarrow> (nat \<Rightarrow> bytes list) \<Rightarrow> run_ctx \<Rightarrow> peer \<Rightarrow> shard_config \<Rightarrow> int \<Rightarrow> real \<Rightarrow> real \<Rightarrow> os \<Rightarrow>
     (hotpath_result \<times> peer) option" where
  "run_hotpath_wire env simd snd_res arrive ctx p cfg target seconds offered_pps os =
     (if \<not> pr_ok p then Some (HotPathResult\<lparr> hr_error := ''peer unavailable: '' @ pr_why p \<rparr>, p)
      else let cfg = wire_cfg ctx p cfg
      in case Shard env cfg bench_key os of (s, e, os) \<Rightarrow>
      if err_text e \<noteq> [] then Some (HotPathResult\<lparr> hr_error := err_text e \<rparr>, p)
      else let r = HotPathResult\<lparr> hr_aead_backend := aead_backend simd s \<rparr>
      in case peer_start snd_res (wire_request ctx cfg (sh_port s) seconds offered_pps) p of
           (Some e, p) \<Rightarrow> Some (r\<lparr> hr_error := e \<rparr>, p)
         | (None, p) \<Rightarrow>
           (case read_ticks env s of (t0, s) \<Rightarrow>
            Option.bind (timed_drain env 4096 arrive (t0 + ns_to_ticks (se_cal env) 150000000) None 0 0 s) (\<lambda>(k, s).
            case read_ticks env (reset_stats s) of (t1, s) \<Rightarrow>
            Option.bind (timed_drain env 4096 arrive (t1 + ns_to_ticks (se_cal env) (seconds * 10 ^ 9)) (Some target) k 0 s) (\<lambda>(k, s).
            case peer_stop snd_res p of (rep, p) \<Rightarrow>
            let rep = (case rep of Inr x \<Rightarrow> x | Inl e \<Rightarrow> StopReply)
            in Some (if st_packets (sh_st s) = 0
                     then r\<lparr> hr_error := (if sr_fault rep = []
                              then ''no packets arrived over the wire (generator sent '' @ show_nat (unat (sr_sent rep)) @ '')''
                              else ''the load generator could not run this unit: '' @ sr_fault rep) \<rparr>
                     else hot_result (se_cal env) ''wire'' s r, p)))))"

section \<open>The environment block\<close>

text \<open>What the build and the clock on the wall contribute.\<close>

record build_info =
  bi_timestamp :: string
  bi_version :: string
  bi_commit :: string
  bi_compiler :: string
  bi_flags :: string
  bi_type :: string

definition strs :: "string list \<Rightarrow> jv" where
  "strs vs = JArr (map JStr vs)"

definition long_long :: "u64 \<Rightarrow> jv" where
  "long_long x = JInt (sint x)"

definition protocol_block :: "(string \<times> jv) list" where
  "protocol_block = [(''header_bytes'', JInt (int LR_HDR)), (''tag_bytes'', JInt (int LR_TAG)), (''max_payload_bytes'', JInt (int LR_MAX_PAYLOAD)),
     (''mtu_bytes'', JInt 1500), (''ip_udp_overhead_bytes'', JInt 28)]"

definition run_block :: "run_ctx \<Rightarrow> (string \<times> jv) list" where
  "run_block ctx = [(''replicates'', JInt (rc_reps ctx)), (''cv_threshold'', JNum (Some (rc_cv_threshold ctx)) 4),
     (''seed'', long_long (rc_seed ctx)), (''target_packets'', JInt (rc_target_packets ctx)), (''warmup_cycles'', JInt (rc_warmup_cycles ctx)),
     (''anchor_tolerance'', JNum (Some (rc_anchor_tol ctx)) 4), (''peer_host'', JStr (rc_peer_host ctx)), (''local_addr'', JStr (rc_local_addr ctx)),
     (''offer_factor'', JNum (Some (rc_offer_factor ctx)) 3), (''unit_seconds'', JNum (Some (rc_unit_seconds ctx)) 3)]"

text \<open>The members in the order they are written; \<open>hw_active\<close> is the result of the AES probe.\<close>

definition environment :: "build_info \<Rightarrow> host \<Rightarrow> bool \<Rightarrow> string list \<Rightarrow> run_ctx \<Rightarrow> (string \<times> jv) list" where
  "environment b h hw_active names ctx =
     (let c = build_caps h
      in [(''schema_version'', JInt 2), (''timestamp_utc'', JStr (bi_timestamp b)), (''linerate_version'', JStr (bi_version b)),
          (''git_commit'', JStr (bi_commit b)), (''compiler'', JStr (bi_compiler b)), (''cxx_flags'', JStr (bi_flags b)),
          (''build_type'', JStr (bi_type b)), (''os'', JStr (c_os c)), (''arch'', JStr (c_arch c)), (''cpu_model'', JStr (c_cpu_model c)),
          (''logical_cpus'', JInt (c_logical_cpus c)), (''physical_cores'', JInt (c_physical_cores c)), (''smt_enabled'', JBool (c_smt_enabled c)),
          (''homogeneous_cores'', JBool (c_homogeneous c)), (''invariant_tsc'', JBool (c_invariant_tsc c)),
          (''hard_affinity'', JBool (c_hard_affinity c)), (''tsc_hz'', long_long (c_tsc_hz c)), (''nominal_cpu_hz'', long_long (c_nominal_cpu_hz c)),
          (''clock_source'', JStr (c_clock_source c)), (''governor'', JStr (c_governor c)), (''turbo_control'', JStr (c_turbo_control c)),
          (''irqbalance'', JStr (c_irqbalance c)), (''kernel_cmdline'', JStr (c_kernel_cmdline c)), (''isolcpus'', JBool (c_isolcpus c)),
          (''nohz_full'', JBool (c_nohz_full c)), (''rcu_nocbs'', JBool (c_rcu_nocbs c)), (''hw_aes'', JBool (c_hw_aes c)),
          (''hw_clmul'', JBool (c_hw_clmul c)), (''hw_avx2'', JBool (c_hw_avx2 c)), (''openmp'', JBool (c_openmp c)),
          (''batched_io'', JBool (c_batched_io c)), (''uring_io'', JBool (c_uring_io c)), (''uring_sqpoll'', JBool (c_uring_sqpoll c)),
          (''openssl_version'', JStr (c_openssl_version c)), (''openssl_hw_aes_active'', JBool hw_active),
          (''hw_crypto_masked'', JBool (hw_crypto_masked h)), (''host_class'', JStr (host_class_name (klass c))),
          (''isolation_tier'', JStr (c_isolation_tier c)), (''nic_name'', JStr (c_nic_name c)), (''nic_driver'', JStr (c_nic_driver c)),
          (''nic_addr'', JStr (c_nic_addr c)), (''cpu_flags'', strs (c_cpu_flags c)), (''caveats'', strs (caveats c)),
          (''transports'', strs (transport_backends (h_sys h))), (''ciphers'', strs names),
          (''protocol'', JObj protocol_block), (''run'', JObj (run_block ctx))])"

definition write_environment :: "(string \<times> jv) list \<Rightarrow> writer \<Rightarrow> writer" where
  "write_environment env_members w = emit_jv (JObj env_members) (key ''environment'' w)"

text \<open>The fragment of an experiment that could not run, and the environment alone.\<close>

definition unavailable_doc :: "(string \<times> jv) list \<Rightarrow> string \<Rightarrow> string \<Rightarrow> writer" where
  "unavailable_doc env_members k reason =
     obj_close (emit_jv (JObj [(''available'', JBool False), (''reason'', JStr reason)]) (key k (write_environment env_members (obj_open (Writer 2)))))"

definition env_doc :: "(string \<times> jv) list \<Rightarrow> writer" where
  "env_doc env_members = obj_close (write_environment env_members (obj_open (Writer 2)))"

section \<open>The unit process\<close>

definition unit_cfg_of :: "string list \<Rightarrow> shard_config" where
  "unit_cfg_of argv = ShardConfig\<lparr> sc_cipher := arg_str argv ''cipher'' ''aes-256-gcm'',
     sc_payload := unat (of_int (arg_int argv ''payload'' 512) :: u64), sc_backend := arg_str argv ''backend'' ''posix'',
     sc_batch := c_int (arg_int argv ''batch'' 1), sc_cpu := c_int (arg_int argv ''cpu'' (- 1)), sc_replay := \<not> arg_has argv ''no-replay'' \<rparr>"

definition unit_members :: "bool \<Rightarrow> bool \<Rightarrow> hotpath_result \<Rightarrow> (string \<times> jv) list" where
  "unit_members masked active r =
     [(''ok'', JBool (hr_ok r)), (''cycles_per_packet'', JNum (Some (hr_cycles_per_packet r)) 3), (''pps'', JNum (Some (hr_pps r)) 1),
      (''syscalls_per_packet'', JNum (Some (hr_syscalls_per_pkt r)) 4), (''packets'', long_long (hr_packets r)),
      (''auth_fail'', long_long (hr_auth_fail r)), (''replay_drop'', long_long (hr_replay_drop r)), (''aead_backend'', JStr (hr_aead_backend r)),
      (''hw_crypto_masked'', JBool masked), (''openssl_hw_aes_active'', JBool active), (''error'', JStr (hr_error r))]"

definition unit_report :: "bool \<Rightarrow> bool \<Rightarrow> hotpath_result \<Rightarrow> string" where
  "unit_report masked active r = w_out (emit_jv (JObj (unit_members masked active r)) (Writer 2)) @ [c_nl]"

definition unit_body :: "shard_env \<Rightarrow> simd_state \<Rightarrow> bool \<Rightarrow> bool \<Rightarrow> string list \<Rightarrow> os \<Rightarrow> (string \<times> int) option" where
  "unit_body env simd masked active argv os =
     map_option (\<lambda>r. (unit_report masked active r, if hr_ok r then 0 else 1))
       (run_hotpath env simd (unit_cfg_of argv) (c_int (arg_int argv ''packets'' 30000)) (c_int (arg_int argv ''warmup'' 3)) os)"

text \<open>What the parent makes of the child's output: cycles, rate, backend and authentication failures, or an error.\<close>

definition zero_or :: "real option \<Rightarrow> real" where
  "zero_or v = (case v of None \<Rightarrow> 0 | Some x \<Rightarrow> x)"

definition read_unit :: "bool \<Rightarrow> string \<Rightarrow> string + real \<times> real \<times> string option \<times> u64" where
  "read_unit hw_crypto js =
     (if zero_or (unit_field js ''ok'') = 0
      then let e = (case unit_string js ''error'' of None \<Rightarrow> [] | Some x \<Rightarrow> x) in Inl (if e = [] then ''unit produced no result'' else e)
      else if (case unit_field js ''hw_crypto_masked'' of Some m \<Rightarrow> (m \<noteq> 0) = hw_crypto | None \<Rightarrow> False)
      then Inl ''hardware-crypto mask did not take effect in the child process''
      else Inr (zero_or (unit_field js ''cycles_per_packet''), zero_or (unit_field js ''pps''), unit_string js ''aead_backend'',
                to_u64 (zero_or (unit_field js ''auth_fail''))))"

section \<open>The parent reads what the child wrote\<close>

lemma emit_writer: "w_out (emit_jv v (Writer st)) = pp st 0 v"
  using emit_pp(1) [of "Writer st" v] by (simp add: w_ok_def wrote_def lead_def Writer_def)

lemma str_find_skip: "c \<notin> set x \<Longrightarrow> str_find (c # n) (x @ y) = str_find (c # n) y"
  by (induction x) auto

lemma str_find_here: "n \<noteq> [] \<Longrightarrow> str_find n (n @ y) = Some (n @ y)"
  by (cases n) simp_all

lemma str_find_quoted:
  assumes "c_quote \<notin> set w" "c_quote \<notin> set k" "w \<noteq> k" "k \<noteq> []" "y = [] \<or> hd y \<noteq> hd k"
  shows "str_find (c_quote # k @ [c_quote]) (c_quote # w @ c_quote # y) = str_find (c_quote # k @ [c_quote]) y"
proof -
  have "take (length k + 1) (w @ c_quote # y) \<noteq> k @ [c_quote]"
  proof
    assume "take (length k + 1) (w @ c_quote # y) = k @ [c_quote]"
    then have "w @ c_quote # y = k @ c_quote # drop (length k + 1) (w @ c_quote # y)"
      by (metis append.assoc append_Cons append_Nil append_take_drop_id)
    then obtain z where e: "w @ c_quote # y = k @ c_quote # z" by blast
    have t: "takeWhile (\<lambda>c. c \<noteq> c_quote) (x @ c_quote # u) = x" if "c_quote \<notin> set x" for x u
      using that by (subst takeWhile_append2) auto
    show False using arg_cong [OF e, of "takeWhile (\<lambda>c. c \<noteq> c_quote)"] t [OF assms(1)] t [OF assms(2)] assms(3) by simp
  qed
  then have "str_find (c_quote # k @ [c_quote]) (c_quote # w @ c_quote # y) = str_find (c_quote # k @ [c_quote]) (w @ c_quote # y)"
    by simp
  also have "\<dots> = str_find (c_quote # k @ [c_quote]) (c_quote # y)" by (rule str_find_skip [OF assms(1)])
  also have "\<dots> = str_find (c_quote # k @ [c_quote]) y" using assms(4,5) by (cases k; cases y) auto
  finally show ?thesis .
qed

text \<open>Members that a search for the key \<open>k\<close> passes over.\<close>

definition passes :: "nat \<Rightarrow> nat \<Rightarrow> string \<Rightarrow> string \<times> jv \<Rightarrow> bool" where
  "passes st d k m = (case m of (k', v) \<Rightarrow> c_quote \<notin> set (escape k') \<and> escape k' \<noteq> k \<and>
     (c_quote \<notin> set (pp st d v) \<or> (\<exists>w. pp st d v = c_quote # w @ [c_quote] \<and> c_quote \<notin> set w \<and> w \<noteq> k)))"

definition key_text :: "string \<Rightarrow> bool" where
  "key_text k \<longleftrightarrow> k \<noteq> [] \<and> c_quote \<notin> set k \<and> escape k = k \<and> hd k \<noteq> CHR '':'' \<and> hd k \<noteq> CHR '',''"

lemma pad_quote: "c_quote \<notin> set (pad st d)"
  by (auto simp: pad_def c_quote_def)

lemma find_member:
  assumes "key_text k" "list_all (passes st d k) before"
  shows "str_find (c_quote # k @ [c_quote]) (pp_members st d comma (before @ (k, v) # after) @ rest) =
     Some (c_quote # k @ c_quote # '': '' @ pp st d v @ pp_members st d True after @ rest)"
  using assms(2)
proof (induction before arbitrary: comma)
  case Nil
  let ?x = "(if comma then '','' else []) @ c_nl # pad st d"
  have x: "c_quote \<notin> set ?x" using pad_quote [of st d] by (auto simp: char_consts)
  have e: "pp_members st d comma ((k, v) # after) @ rest = ?x @ (c_quote # k @ [c_quote]) @ '': '' @ pp st d v @ pp_members st d True after @ rest"
    using assms(1) by (simp add: key_text_def)
  show ?case
    unfolding append.append_Nil e str_find_skip [OF x] using str_find_here [of "c_quote # k @ [c_quote]"] by simp
next
  case (Cons m before)
  obtain k' v' where m: "m = (k', v')" by force
  let ?n = "c_quote # k @ [c_quote]"
  let ?x = "(if comma then '','' else []) @ c_nl # pad st d" and ?r = "pp_members st d True (before @ (k, v) # after) @ rest"
  have x: "c_quote \<notin> set ?x" using pad_quote [of st d] by (auto simp: char_consts)
  have k: "c_quote \<notin> set k" "k \<noteq> []" "hd k \<noteq> CHR '':''" "hd k \<noteq> CHR '',''" using assms(1) by (simp_all add: key_text_def)
  have p: "c_quote \<notin> set (escape k')" "escape k' \<noteq> k"
    "c_quote \<notin> set (pp st d v') \<or> (\<exists>w. pp st d v' = c_quote # w @ [c_quote] \<and> c_quote \<notin> set w \<and> w \<noteq> k)"
    using Cons.prems by (simp_all add: m passes_def)
  have r: "hd ?r \<noteq> hd k" using k by (cases before) (auto split: prod.splits)
  have "pp_members st d comma ((m # before) @ (k, v) # after) @ rest = ?x @ c_quote # escape k' @ c_quote # '': '' @ pp st d v' @ ?r"
    by (simp add: m)
  then have "str_find ?n (pp_members st d comma ((m # before) @ (k, v) # after) @ rest) =
      str_find ?n (c_quote # escape k' @ c_quote # '': '' @ pp st d v' @ ?r)"
    using str_find_skip [OF x] by metis
  also have "\<dots> = str_find ?n ('': '' @ pp st d v' @ ?r)" using p k by (intro str_find_quoted) simp_all
  also have "\<dots> = str_find ?n (pp st d v' @ ?r)" using str_find_skip [of c_quote "'': ''" "k @ [c_quote]"] by (simp add: c_quote_def)
  also have "\<dots> = str_find ?n ?r"
    using p(3)
  proof
    assume "c_quote \<notin> set (pp st d v')"
    then show ?thesis by (rule str_find_skip)
  next
    assume "\<exists>w. pp st d v' = c_quote # w @ [c_quote] \<and> c_quote \<notin> set w \<and> w \<noteq> k"
    then obtain w where "pp st d v' = c_quote # w @ [c_quote]" "c_quote \<notin> set w" "w \<noteq> k" by blast
    then show ?thesis using str_find_quoted [of w k ?r] k r by simp
  qed
  finally show ?case using Cons by simp
qed

text \<open>What the harness finds behind a key of an object.\<close>

lemma after_key_member:
  assumes "key_text k" "list_all (passes st 1 k) before"
  shows "after_key (pp st 0 (JObj (before @ (k, v) # after)) @ rest) k =
     Some ('': '' @ pp st 1 v @ pp_members st 1 True after @ c_nl # ''}'' @ rest)"
proof -
  have "pp st 0 (JObj (before @ (k, v) # after)) @ rest =
      ''{'' @ pp_members st 1 False (before @ (k, v) # after) @ c_nl # ''}'' @ rest"
    by (simp add: pad_def)
  then have "str_find (c_quote # k @ [c_quote]) (pp st 0 (JObj (before @ (k, v) # after)) @ rest) =
      Some (c_quote # k @ c_quote # '': '' @ pp st 1 v @ pp_members st 1 True after @ c_nl # ''}'' @ rest)"
    using str_find_skip [of c_quote "''{''" "k @ [c_quote]"] find_member [OF assms, of False v after "c_nl # ''}'' @ rest"]
    by (simp add: c_quote_def)
  then show ?thesis by (simp add: after_key_def)
qed

text \<open>What a text must not begin with for the number before it to end there.\<close>

definition ends_number :: "string \<Rightarrow> bool" where
  "ends_number r \<longleftrightarrow> r \<noteq> [] \<and> \<not> is_digit (hd r) \<and> hd r \<noteq> CHR ''.''"

lemma members_end: "ends_number (pp_members st d True after @ c_nl # r)"
  by (cases after) (auto simp: ends_number_def is_digit_def char_consts split: prod.splits)

lemma num_reads:
  assumes "\<bar>v\<bar> < 2 ^ 1024" "0 < clamp_prec p" "ends_number rest"
  shows "strtod (num (Some v) p @ rest) = fixed_value (clamp_prec p) v" "strtod_reads (num (Some v) p @ rest)"
    "hd (num (Some v) p) \<in> {CHR ''-''} \<union> {c. is_digit c}" "num (Some v) p \<noteq> []"
    "list_all (\<lambda>c. is_digit c \<or> c = CHR ''-'' \<or> c = CHR ''.'') (num (Some v) p)"
proof -
  let ?q = "clamp_prec p"
  let ?x = "show_nat (fixed_digits ?q v div 10 ^ ?q)" and ?neg = "if v < 0 then ''-'' else []"
  obtain es m where "show_fixed ?q v = ?neg @ ?x @ CHR ''.'' # es @ replicate m (CHR ''0'')"
    "trim_zeros (show_fixed ?q v) = ?neg @ ?x @ CHR ''.'' # es" and es: "list_all is_digit es"
    by (rule show_fixed_shape [OF assms(2)])
  then have n: "num (Some v) p = ?neg @ ?x @ CHR ''.'' # es" by (simp add: num_fits [OF assms(1)])
  have "\<not> is_digit (hd rest)" using assms(3) by (simp add: ends_number_def)
  then have "strtod ((?neg @ ?x @ CHR ''.'' # es) @ rest) = strtod (?neg @ ?x @ CHR ''.'' # es)"
    using strtod_point [OF show_nat_digits show_nat_nonempty es, of rest "v < 0" "fixed_digits ?q v div 10 ^ ?q"]
      strtod_point [OF show_nat_digits show_nat_nonempty es, of "[]" "v < 0" "fixed_digits ?q v div 10 ^ ?q"] by simp
  then show "strtod (num (Some v) p @ rest) = fixed_value ?q v"
    unfolding n [symmetric] by (simp add: num_fits [OF assms(1)] strtod_trim strtod_show_fixed)
  have d: "is_digit (hd (?x @ CHR ''.'' # es @ rest))" using hd_show_nat by (simp add: hd_append)
  have "read_sign (skip_space (?neg @ ?x @ CHR ''.'' # es @ rest)) = (v < 0, ?x @ CHR ''.'' # es @ rest)"
    using read_sign_digits [OF d] read_sign_minus [of "?x @ CHR ''.'' # es @ rest"] by simp
  then show "strtod_reads (num (Some v) p @ rest)"
    unfolding n strtod_reads_def using d by (cases ?x) simp_all
  show "hd (num (Some v) p) \<in> {CHR ''-''} \<union> {c. is_digit c}" "num (Some v) p \<noteq> []"
    unfolding n using hd_show_nat by (simp_all add: hd_append)
  show "list_all (\<lambda>c. is_digit c \<or> c = CHR ''-'' \<or> c = CHR ''.'') (num (Some v) p)"
    unfolding n using es show_nat_digits [of "fixed_digits ?q v div 10 ^ ?q"] by (auto simp: list_all_iff)
qed

lemma show_nat_reads:
  assumes "ends_number rest"
  shows "strtod (show_nat n @ rest) = real n" "strtod_reads (show_nat n @ rest)"
proof -
  have r: "rest = [] \<or> \<not> is_digit (hd rest)" "rest \<noteq> [] \<longrightarrow> hd rest \<noteq> CHR ''.''" using assms by (simp_all add: ends_number_def)
  have d: "is_digit (hd (show_nat n @ rest))" using hd_show_nat by (simp add: hd_append)
  then have s: "read_sign (skip_space (show_nat n @ rest)) = (False, show_nat n @ rest)" by (intro read_sign_digits) simp_all
  show "strtod (show_nat n @ rest) = real n"
    unfolding strtod_def s using digits_show_nat_rest [OF r(1), of n] r(2) by (cases rest) simp_all
  show "strtod_reads (show_nat n @ rest)" unfolding strtod_reads_def s using d by (cases "show_nat n") simp_all
qed

text \<open>Reading a text that starts like a number.\<close>

lemma unit_field_text:
  assumes "after_key js k = Some ('': '' @ v)" "v \<noteq> []" "is_digit (hd v) \<or> hd v = CHR ''-''" "strtod_reads v"
  shows "unit_field js k = Some (strtod v)"
proof -
  obtain c cs where v: "v = c # cs" using assms(2) by (cases v) auto
  have c: "c \<noteq> CHR '' ''" "c \<noteq> c_tab" "c \<noteq> c_nl" "c \<noteq> c_quote" "c \<noteq> CHR ''t''" "c \<noteq> CHR ''f''"
    using assms(3) by (auto simp: v is_digit_def char_consts)
  show ?thesis using assms(1,4) c by (simp add: unit_field_def v)
qed

lemma unit_field_num:
  assumes "key_text k" "list_all (passes st 1 k) before" "\<bar>v\<bar> < 2 ^ 1024" "0 < clamp_prec p"
  shows "unit_field (pp st 0 (JObj (before @ (k, JNum (Some v) p) # after)) @ rest) k = Some (fixed_value (clamp_prec p) v)"
proof -
  let ?t = "pp_members st 1 True after @ c_nl # ''}'' @ rest"
  note n = num_reads [OF assms(3,4) members_end [of st 1 after "''}'' @ rest"]]
  have "hd (num (Some v) p @ ?t) = hd (num (Some v) p)" using n(4) by (simp add: hd_append)
  then have "unit_field (pp st 0 (JObj (before @ (k, JNum (Some v) p) # after)) @ rest) k = Some (strtod (num (Some v) p @ ?t))"
    using after_key_member [OF assms(1,2), of "JNum (Some v) p" after rest] n by (intro unit_field_text) auto
  then show ?thesis using n(1) by simp
qed

lemma unit_field_nat:
  assumes "key_text k" "list_all (passes st 1 k) before"
  shows "unit_field (pp st 0 (JObj (before @ (k, JInt (int n)) # after)) @ rest) k = Some (real n)"
proof -
  let ?t = "pp_members st 1 True after @ c_nl # ''}'' @ rest"
  note r = show_nat_reads [OF members_end [of st 1 after "''}'' @ rest"], of n]
  have "hd (show_nat n @ ?t) = hd (show_nat n)" by (simp add: hd_append)
  then have "unit_field (pp st 0 (JObj (before @ (k, JInt (int n)) # after)) @ rest) k = Some (strtod (show_nat n @ ?t))"
    using after_key_member [OF assms, of "JInt (int n)" after rest] r hd_show_nat [of n]
    by (intro unit_field_text) (auto simp: show_int_def)
  then show ?thesis using r(1) by simp
qed

lemma unit_field_bool:
  assumes "key_text k" "list_all (passes st 1 k) before"
  shows "unit_field (pp st 0 (JObj (before @ (k, JBool b) # after)) @ rest) k = Some (if b then 1 else 0)"
  using after_key_member [OF assms, of "JBool b" after rest] by (simp add: unit_field_def char_consts)

lemma unit_string_member:
  assumes "key_text k" "list_all (passes st 1 k) before" "escape s = s" "c_quote \<notin> set s"
  shows "unit_string (pp st 0 (JObj (before @ (k, JStr s) # after)) @ rest) k = Some s"
proof -
  let ?t = "pp_members st 1 True after @ c_nl # ''}'' @ rest"
  have "str_find [c_quote] ('': '' @ c_quote # s @ c_quote # ?t) = Some (c_quote # s @ c_quote # ?t)"
    using str_find_skip [of c_quote "'': ''" "[]" "c_quote # s @ c_quote # ?t"] by (simp add: c_quote_def)
  moreover have "takeWhile (\<lambda>c. c \<noteq> c_quote) (s @ c_quote # ?t) = s" using assms(4) by (subst takeWhile_append2) auto
  ultimately show ?thesis using after_key_member [OF assms(1,2), of "JStr s" after rest] assms(3) by (simp add: unit_string_def)
qed

definition plain_text :: "string \<Rightarrow> bool" where
  "plain_text s \<longleftrightarrow> list_all (\<lambda>c. c \<noteq> c_quote \<and> c \<noteq> c_bs \<and> 32 \<le> (of_char c :: nat)) s"

lemma escape_plain: "plain_text s \<Longrightarrow> escape s = s" "plain_text s \<Longrightarrow> c_quote \<notin> set s"
proof -
  have c: "escape_char c = [c]" if "c \<noteq> c_quote" "c \<noteq> c_bs" "32 \<le> (of_char c :: nat)" for c
    using that by (auto simp: escape_char_def char_consts)
  show "plain_text s \<Longrightarrow> escape s = s" by (induction s) (auto simp: plain_text_def escape_def c)
  show "plain_text s \<Longrightarrow> c_quote \<notin> set s" by (auto simp: plain_text_def list_all_iff)
qed

lemma passes_value: "plain_text k' \<Longrightarrow> k' \<noteq> k \<Longrightarrow> c_quote \<notin> set (pp st d v) \<Longrightarrow> passes st d k (k', v)"
  by (simp add: passes_def escape_plain)

lemma passes_str: "plain_text k' \<Longrightarrow> k' \<noteq> k \<Longrightarrow> plain_text s \<Longrightarrow> s \<noteq> k \<Longrightarrow> passes st d k (k', JStr s)"
  by (auto simp: passes_def escape_plain)

lemma quote_free_num: "\<bar>v\<bar> < 2 ^ 1024 \<Longrightarrow> 0 < clamp_prec p \<Longrightarrow> c_quote \<notin> set (pp st d (JNum (Some v) p))"
  using num_reads(5) [of v p "'',''"] by (auto simp: ends_number_def is_digit_def list_all_iff char_consts)

lemma quote_free_int: "c_quote \<notin> set (show_int i)"
  using show_nat_digits [of "nat i"] show_nat_digits [of "nat (- i)"] by (auto simp: show_int_def list_all_iff is_digit_def char_consts)

lemma quote_free_simple: "c_quote \<notin> set (pp st d (JBool b))" "c_quote \<notin> set (pp st d (long_long x))"
  using quote_free_int by (auto simp: long_long_def char_consts)

text \<open>Results a child can report whole: finite numbers, counts a \<open>double\<close> holds, names and errors of printable characters without quotes.\<close>

definition reports_whole :: "hotpath_result \<Rightarrow> bool" where
  "reports_whole r \<longleftrightarrow> \<bar>hr_cycles_per_packet r\<bar> < 2 ^ 1024 \<and> \<bar>hr_pps r\<bar> < 2 ^ 1024 \<and> \<bar>hr_syscalls_per_pkt r\<bar> < 2 ^ 1024 \<and>
     unat (hr_auth_fail r) < 2 ^ 53 \<and> plain_text (hr_aead_backend r) \<and> plain_text (hr_error r) \<and>
     hr_aead_backend r \<noteq> ''hw_crypto_masked'' \<and> hr_aead_backend r \<noteq> ''error''"

lemma plain_keys:
  "plain_text ''ok''" "plain_text ''cycles_per_packet''" "plain_text ''pps''" "plain_text ''syscalls_per_packet''" "plain_text ''packets''"
  "plain_text ''auth_fail''" "plain_text ''replay_drop''" "plain_text ''aead_backend''" "plain_text ''hw_crypto_masked''"
  "plain_text ''openssl_hw_aes_active''" "plain_text ''error''"
  by (simp_all add: plain_text_def char_consts)

lemma key_text_plain: "plain_text k \<Longrightarrow> k \<noteq> [] \<Longrightarrow> hd k \<noteq> CHR '':'' \<Longrightarrow> hd k \<noteq> CHR '','' \<Longrightarrow> key_text k"
  by (simp add: key_text_def escape_plain)

lemma unit_members_pass:
  assumes "reports_whole r"
  shows "k \<noteq> ''ok'' \<Longrightarrow> passes st d k (''ok'', JBool b)"
    "k \<noteq> ''cycles_per_packet'' \<Longrightarrow> passes st d k (''cycles_per_packet'', JNum (Some (hr_cycles_per_packet r)) 3)"
    "k \<noteq> ''pps'' \<Longrightarrow> passes st d k (''pps'', JNum (Some (hr_pps r)) 1)"
    "k \<noteq> ''syscalls_per_packet'' \<Longrightarrow> passes st d k (''syscalls_per_packet'', JNum (Some (hr_syscalls_per_pkt r)) 4)"
    "k \<noteq> ''packets'' \<Longrightarrow> passes st d k (''packets'', long_long x)"
    "k \<noteq> ''auth_fail'' \<Longrightarrow> passes st d k (''auth_fail'', long_long x)"
    "k \<noteq> ''replay_drop'' \<Longrightarrow> passes st d k (''replay_drop'', long_long x)"
    "k = ''hw_crypto_masked'' \<or> k = ''error'' \<Longrightarrow> passes st d k (''aead_backend'', JStr (hr_aead_backend r))"
    "k \<noteq> ''hw_crypto_masked'' \<Longrightarrow> passes st d k (''hw_crypto_masked'', JBool b)"
    "k \<noteq> ''openssl_hw_aes_active'' \<Longrightarrow> passes st d k (''openssl_hw_aes_active'', JBool b)"
proof -
  have r: "\<bar>hr_cycles_per_packet r\<bar> < 2 ^ 1024" "\<bar>hr_pps r\<bar> < 2 ^ 1024" "\<bar>hr_syscalls_per_pkt r\<bar> < 2 ^ 1024"
    and s: "plain_text (hr_aead_backend r)" "hr_aead_backend r \<noteq> ''hw_crypto_masked''" "hr_aead_backend r \<noteq> ''error''"
    using assms unfolding reports_whole_def by blast+
  have c: "0 < clamp_prec 3" "0 < clamp_prec 1" "0 < clamp_prec 4" by (simp_all add: clamp_prec_def)
  note q = quote_free_num [OF r(1) c(1)] quote_free_num [OF r(2) c(2)] quote_free_num [OF r(3) c(3)] quote_free_simple
  show "k \<noteq> ''cycles_per_packet'' \<Longrightarrow> passes st d k (''cycles_per_packet'', JNum (Some (hr_cycles_per_packet r)) 3)"
    "k \<noteq> ''pps'' \<Longrightarrow> passes st d k (''pps'', JNum (Some (hr_pps r)) 1)"
    "k \<noteq> ''syscalls_per_packet'' \<Longrightarrow> passes st d k (''syscalls_per_packet'', JNum (Some (hr_syscalls_per_pkt r)) 4)"
    by (rule passes_value [OF plain_keys(2) not_sym q(1)] passes_value [OF plain_keys(3) not_sym q(2)] passes_value [OF plain_keys(4) not_sym q(3)], assumption)+
  show "k \<noteq> ''ok'' \<Longrightarrow> passes st d k (''ok'', JBool b)" "k \<noteq> ''packets'' \<Longrightarrow> passes st d k (''packets'', long_long x)"
    "k \<noteq> ''auth_fail'' \<Longrightarrow> passes st d k (''auth_fail'', long_long x)" "k \<noteq> ''replay_drop'' \<Longrightarrow> passes st d k (''replay_drop'', long_long x)"
    "k \<noteq> ''hw_crypto_masked'' \<Longrightarrow> passes st d k (''hw_crypto_masked'', JBool b)"
    "k \<noteq> ''openssl_hw_aes_active'' \<Longrightarrow> passes st d k (''openssl_hw_aes_active'', JBool b)"
    by (rule passes_value [OF plain_keys(1) not_sym q(4)] passes_value [OF plain_keys(5) not_sym q(5)] passes_value [OF plain_keys(6) not_sym q(5)]
        passes_value [OF plain_keys(7) not_sym q(5)] passes_value [OF plain_keys(9) not_sym q(4)] passes_value [OF plain_keys(10) not_sym q(4)], assumption)+
  show "k = ''hw_crypto_masked'' \<or> k = ''error'' \<Longrightarrow> passes st d k (''aead_backend'', JStr (hr_aead_backend r))"
    by (rule passes_str [OF plain_keys(8) _ s(1)]) (use s in auto)
qed

lemma key_texts: "key_text ''ok''" "key_text ''cycles_per_packet''" "key_text ''pps''" "key_text ''auth_fail''" "key_text ''aead_backend''"
  "key_text ''hw_crypto_masked''" "key_text ''error''"
  by (rule key_text_plain; simp add: plain_keys)+

text \<open>The members before each key that the parent looks up, and the report split there.\<close>

lemma unit_members_split:
  "unit_members masked active r = [] @ (''ok'', JBool (hr_ok r)) # drop 1 (unit_members masked active r)"
  "unit_members masked active r = take 1 (unit_members masked active r) @
     (''cycles_per_packet'', JNum (Some (hr_cycles_per_packet r)) 3) # drop 2 (unit_members masked active r)"
  "unit_members masked active r = take 2 (unit_members masked active r) @ (''pps'', JNum (Some (hr_pps r)) 1) # drop 3 (unit_members masked active r)"
  "unit_members masked active r = take 5 (unit_members masked active r) @ (''auth_fail'', long_long (hr_auth_fail r)) # drop 6 (unit_members masked active r)"
  "unit_members masked active r = take 7 (unit_members masked active r) @ (''aead_backend'', JStr (hr_aead_backend r)) # drop 8 (unit_members masked active r)"
  "unit_members masked active r = take 8 (unit_members masked active r) @ (''hw_crypto_masked'', JBool masked) # drop 9 (unit_members masked active r)"
  "unit_members masked active r = take 10 (unit_members masked active r) @ (''error'', JStr (hr_error r)) # drop 11 (unit_members masked active r)"
  by (simp_all add: unit_members_def)

lemma unit_members_before:
  assumes "reports_whole r"
  shows "list_all (passes 2 1 ''cycles_per_packet'') (take 1 (unit_members masked active r))"
    "list_all (passes 2 1 ''pps'') (take 2 (unit_members masked active r))"
    "list_all (passes 2 1 ''auth_fail'') (take 5 (unit_members masked active r))"
    "list_all (passes 2 1 ''aead_backend'') (take 7 (unit_members masked active r))"
    "list_all (passes 2 1 ''hw_crypto_masked'') (take 8 (unit_members masked active r))"
    "list_all (passes 2 1 ''error'') (take 10 (unit_members masked active r))"
  by (simp_all add: unit_members_def unit_members_pass [OF assms])

lemma long_long_nat: "unat x < 2 ^ 53 \<Longrightarrow> long_long x = JInt (int (unat x))"
proof -
  assume "unat x < 2 ^ 53"
  then have "nat (uint x) < nat (2 ^ 53)" unfolding unat_eq_nat_uint by simp
  then have "uint x < 2 ^ 53" by (rule nat_less_eq_zless [THEN iffD1, rotated]) simp
  then have "uint x < 2 ^ 63" by (rule order_less_trans) simp
  moreover have "- (2 ^ 63) \<le> uint x" by (rule order_trans [OF _ uint_ge_0]) simp
  ultimately have "signed_take_bit 63 (uint x) = uint x" by (intro signed_take_bit_int_eq_self)
  then show ?thesis by (simp add: long_long_def sint_uint)
qed

lemma unit_report_pp: "unit_report masked active r = pp 2 0 (JObj (unit_members masked active r)) @ [c_nl]"
  unfolding unit_report_def emit_writer ..

lemma unit_report_fields:
  assumes "reports_whole r" "js = unit_report masked active r"
  shows "unit_field js ''ok'' = Some (if hr_ok r then 1 else 0)"
    "unit_field js ''cycles_per_packet'' = Some (fixed_value 3 (hr_cycles_per_packet r))"
    "unit_field js ''pps'' = Some (fixed_value 1 (hr_pps r))"
    "unit_field js ''auth_fail'' = Some (real (unat (hr_auth_fail r)))"
    "unit_string js ''aead_backend'' = Some (hr_aead_backend r)"
    "unit_field js ''hw_crypto_masked'' = Some (if masked then 1 else 0)"
    "unit_string js ''error'' = Some (hr_error r)"
proof -
  let ?ms = "unit_members masked active r"
  have js: "js = pp 2 0 (JObj ?ms) @ [c_nl]" unfolding assms(2) by (rule unit_report_pp)
  have r: "\<bar>hr_cycles_per_packet r\<bar> < 2 ^ 1024" "\<bar>hr_pps r\<bar> < 2 ^ 1024" "unat (hr_auth_fail r) < 2 ^ 53"
    "plain_text (hr_aead_backend r)" "plain_text (hr_error r)"
    using assms(1) unfolding reports_whole_def by blast+
  have c: "clamp_prec 3 = 3" "clamp_prec 1 = 1" by (simp_all add: clamp_prec_def)
  have pos: "0 < clamp_prec 3" "0 < clamp_prec 1" by (simp_all add: c)
  note f = unit_members_before [OF assms(1), of masked active] and e = unit_members_split [of masked active r]
  have g: "list_all (passes 2 1 ''ok'') []" by simp
  show "unit_field js ''ok'' = Some (if hr_ok r then 1 else 0)"
    unfolding js by (subst e(1)) (rule unit_field_bool [OF key_texts(1) g])
  show "unit_field js ''cycles_per_packet'' = Some (fixed_value 3 (hr_cycles_per_packet r))"
    unfolding js by (subst e(2)) (rule unit_field_num [OF key_texts(2) f(1) r(1) pos(1), unfolded c])
  show "unit_field js ''pps'' = Some (fixed_value 1 (hr_pps r))"
    unfolding js by (subst e(3)) (rule unit_field_num [OF key_texts(3) f(2) r(2) pos(2), unfolded c])
  show "unit_field js ''auth_fail'' = Some (real (unat (hr_auth_fail r)))"
    unfolding js by (subst e(4), subst long_long_nat [OF r(3)]) (rule unit_field_nat [OF key_texts(4) f(3)])
  show "unit_string js ''aead_backend'' = Some (hr_aead_backend r)"
    unfolding js by (subst e(5)) (rule unit_string_member [OF key_texts(5) f(4) escape_plain [OF r(4)]])
  show "unit_field js ''hw_crypto_masked'' = Some (if masked then 1 else 0)"
    unfolding js by (subst e(6)) (rule unit_field_bool [OF key_texts(6) f(5)])
  show "unit_string js ''error'' = Some (hr_error r)"
    unfolding js by (subst e(7)) (rule unit_string_member [OF key_texts(7) f(6) escape_plain [OF r(5)]])
qed

text \<open>
  The key of the benchmark is not the key of the load generator, which seals with \<open>bench_psk\<close>: over the
  wire the two ends derive their schedules from different secrets.
\<close>

lemma bench_key_not_psk: "take 32 bench_key \<noteq> take 32 bench_psk"
proof -
  have "hd bench_key = 0x9f" "hd bench_psk = 0x59" by (simp_all add: bench_key_def bench_psk_def hd_map)
  then have "hd bench_key \<noteq> hd bench_psk" by simp
  then show ?thesis by (auto simp: bench_key_def bench_psk_def)
qed

text \<open>The cost per packet is in ticks of the counter: no calibration of ticks to cycles enters it.\<close>

lemma cycles_are_ticks:
  "hr_cycles_per_packet (hot_result c source s r) = real (unat (st_ticks_busy (sh_st s))) / real (unat (st_packets (sh_st s)))"
  by (simp add: hot_result_def Let_def)

section \<open>Properties\<close>

text \<open>
  The parent of a unit process recovers what the child measured: from the JSON report it reads the
  cost and the rate rounded as they were printed, the backend and the exact count of failures; a report
  of a failed unit gives its error, and a child in which the mask did not take effect is refused.
\<close>

theorem unit_report_roundtrip:
  assumes "reports_whole r"
  shows "read_unit hw (unit_report masked active r) =
    (if \<not> hr_ok r then Inl (if hr_error r = [] then ''unit produced no result'' else hr_error r)
     else if masked = hw then Inl ''hardware-crypto mask did not take effect in the child process''
     else Inr (fixed_value 3 (hr_cycles_per_packet r), fixed_value 1 (hr_pps r), Some (hr_aead_backend r), hr_auth_fail r))"
proof -
  define js where "js = unit_report masked active r"
  note f = unit_report_fields [OF assms js_def]
  have "to_u64 (real (unat (hr_auth_fail r))) = hr_auth_fail r" using to_u64_nat [of "unat (hr_auth_fail r)"] by simp
  then show ?thesis unfolding js_def [symmetric] read_unit_def f by (simp add: zero_or_def Let_def)
qed

theorem unit_report_roundtrip_witness:
  "read_unit True (unit_report False True (HotPathResult\<lparr> hr_cycles_per_packet := 5 / 2, hr_pps := 1000, hr_auth_fail := 3, hr_ok := True, hr_aead_backend := ''openssl'' \<rparr>)) =
     Inr (fixed_value 3 (5 / 2), fixed_value 1 1000, Some ''openssl'', 3)"
proof -
  let ?r = "HotPathResult\<lparr> hr_cycles_per_packet := 5 / 2, hr_pps := 1000, hr_auth_fail := 3, hr_ok := True, hr_aead_backend := ''openssl'' \<rparr>"
  have "reports_whole ?r" by (simp add: reports_whole_def HotPathResult_def plain_text_def char_consts)
  then show ?thesis using unit_report_roundtrip [of ?r True False True] by simp
qed

end
