(* ===== verification/Hotpath.thy ===== *)
theory Hotpath
  imports Bench
begin

text \<open>
  The staged measurement of the hot path as a whole: \<open>run_hotpath\<close> of \<open>src/src/bench/bench.cpp\<close> over the
  shard of \<open>worker.cpp\<close>, its transport, key schedule and replay window.  When the loader's datagrams reach
  the shard's socket and no epoch is configured, the run ends and forwards every packet it staged.
\<close>

section \<open>What the hot path leaves alone\<close>

text \<open>No step of the hot path touches the loader's socket, and the counter is read forwards only.\<close>

definition kept :: "shard \<Rightarrow> shard \<Rightarrow> bool" where
  "kept s s' \<longleftrightarrow> sh_loader_fd s' = sh_loader_fd s \<and> sh_reads s \<le> sh_reads s'"

lemma kept_refl [simp]: "kept s s"
  by (simp add: kept_def)

lemma kept_trans [trans]: "kept s s1 \<Longrightarrow> kept s1 s' \<Longrightarrow> kept s s'"
  by (simp add: kept_def)

lemma kept_steps:
  "kept s (snd (replay_check q s))" "kept s (snd (open_packet ks h p s))" "kept s (snd (reseal env h pl k s))" "kept s (count_packet env h pl s)"
  "kept s (upd_st f s)"
  by (simp_all add: kept_def replay_check_def open_packet_def reseal_def count_packet_def upd_st_def read_ticks_def Let_def split: option.split prod.split)

lemma kept_drain_packet: "kept s (snd (drain_packet env i (k, s)))"
proof -
  define p where "p = pb_data (sh_rslots s ! i)"
  obtain ok s1 where r: "replay_check (wh_seq (hdr_of p)) s = (ok, s1)" by force
  have l1: "kept s s1" using kept_steps(1) [of s "wh_seq (hdr_of p)"] r by simp
  have u1: "kept s (upd_st f s1)" for f using l1 kept_steps(5) kept_trans by blast
  show ?thesis
  proof (cases "sh_keys s1")
    case None
    then show ?thesis using l1 u1 by (simp add: drain_packet_def Let_def p_def [symmetric] r)
  next
    case (Some ks)
    obtain x s2 where o: "open_packet ks (hdr_of p) p s1 = (x, s2)" by force
    have l2: "kept s s2" using kept_trans [OF l1 kept_steps(2) [of s1 ks "hdr_of p" p]] o by simp
    show ?thesis
    proof (cases x)
      case None
      then show ?thesis using l2 u1 Some by (simp add: drain_packet_def Let_def p_def [symmetric] r o)
    next
      case (Some pl)
      obtain ok2 s3 where rs: "reseal env (hdr_of p) pl k s2 = (ok2, s3)" by force
      have l3: "kept s s3" using kept_trans [OF l2 kept_steps(3) [of s2 env "hdr_of p" pl k]] rs by simp
      have "kept s (count_packet env (hdr_of p) pl s3)" using l3 kept_steps(4) kept_trans by blast
      then show ?thesis
        using l3 u1 \<open>sh_keys s1 = Some ks\<close> Some by (simp add: drain_packet_def Let_def p_def [symmetric] r o rs split: bool.split)
    qed
  qed
qed

lemma kept_fold: "kept s (snd (fold (drain_packet env) is (k, s)))"
proof (induction "is" arbitrary: k s)
  case (Cons i "is")
  obtain k1 s1 where d: "drain_packet env i (k, s) = (k1, s1)" by force
  show ?case using kept_trans [OF kept_drain_packet [of s env i k] Cons [of "snd (drain_packet env i (k, s))" k1]] by (simp add: d)
qed simp

lemma kept_batch: "kept s (snd (drain_batch env t want s))"
proof -
  obtain n rs t1 where r: "transport_recv env (sh_rslots s) want t = (n, rs, t1)" by (metis prod_cases3)
  let ?s = "s\<lparr> sh_rslots := rs, sh_tx := Some t1 \<rparr>"
  obtain k s2 where f: "fold (drain_packet env) [0..<n] (0, ?s) = (k, s2)" by force
  then have "kept ?s s2" using kept_fold [of ?s env "[0..<n]" 0] by simp
  then show ?thesis unfolding drain_batch_def r Let_def prod.case f by (simp add: kept_def)
qed

lemma kept_loop: "kept s (snd (drain_loop env budget processed s))"
proof (induction env budget processed s rule: drain_loop.induct)
  case (1 env budget processed s)
  show ?case
  proof (cases "sh_tx s")
    case (Some t)
    obtain n s1 where d: "drain_batch env t (min (budget - processed) (max_batch t)) s = (n, s1)" by force
    have b: "kept s s1" using kept_batch [of s env t "min (budget - processed) (max_batch t)"] d by simp
    have "kept s (snd (drain_loop env budget (processed + int n) s1))" if "processed < budget" "n \<noteq> 0"
      using kept_trans [OF b 1 [OF Some that(1) d [symmetric] that(2)]] .
    then show ?thesis using Some d b by (subst drain_loop.simps) simp
  qed (simp add: drain_loop.simps [of _ _ _ s])
qed

lemma kept_drain: "kept s (snd (drain env budget s))"
proof -
  let ?s = "s\<lparr> sh_reads := Suc (sh_reads s) \<rparr>"
  obtain n s1 where d: "drain_loop env budget 0 ?s = (n, s1)" by force
  have "kept ?s s1" using kept_loop [of ?s env budget 0] d by simp
  then show ?thesis unfolding drain_def read_ticks_def prod.case d by (simp add: kept_def upd_st_def)
qed

text \<open>
  A timed loop ends once the counter has passed its deadline, however many datagrams arrive: every turn
  reads the counter.
\<close>

lemma enqueue_all_reads: "sh_reads (enqueue_all ps s) = sh_reads s"
  unfolding enqueue_all_def by (induction ps arbitrary: s) (simp_all add: tx_enqueue_def)

lemma timed_drain_ends:
  assumes "\<And>n. N \<le> n \<Longrightarrow> deadline \<le> se_ticks env n"
  shows "\<exists>r. timed_drain env budget arrive deadline target k finished s = Some r"
proof (induction "N - sh_reads s" arbitrary: k finished s rule: less_induct)
  case less
  let ?s = "s\<lparr> sh_reads := Suc (sh_reads s) \<rparr>"
  show ?case
  proof (cases "se_ticks env (sh_reads s) < deadline \<and> (case target of None \<Rightarrow> True | Some t \<Rightarrow> finished < t)")
    case True
    then have n: "sh_reads s < N" using assms [of "sh_reads s"] by (meson linorder_not_le)
    obtain m s1 where d: "drain env budget (enqueue_all (arrive k) ?s) = (m, s1)" by force
    have "Suc (sh_reads s) \<le> sh_reads s1"
      using kept_drain [of "enqueue_all (arrive k) ?s" env budget] d by (simp add: kept_def enqueue_all_reads)
    then have "N - sh_reads s1 < N - sh_reads s" using n by simp
    from less [OF this, of "Suc k" "finished + m"] show ?thesis using True d by (subst timed_drain.simps) (simp add: read_ticks_def)
  next
    case False
    then show ?thesis by (subst timed_drain.simps) (auto simp: read_ticks_def)
  qed
qed

text \<open>A shard that can be staged and drained: its keys are live, its loader is open, and its transport is a socket.\<close>

definition hot_ready :: "shard_env \<Rightarrow> shard \<Rightarrow> bool" where
  "hot_ready env s \<longleftrightarrow> shard_inv s \<and> keys_live s \<and> env_good env (sc_cipher (sh_cfg s)) \<and> env_live env (sc_cipher (sh_cfg s)) \<and>
     sc_source (sh_cfg s) = Loopback \<and> 0 \<le> sh_loader_fd s \<and> (\<exists>t. sh_tx s = Some t \<and> socket_backend t)"

definition rx_queue :: "shard \<Rightarrow> bytes list" where
  "rx_queue s = (case sh_tx s of Some t \<Rightarrow> rxq (t_sock t) | None \<Rightarrow> [])"

section \<open>Packets the shard will forward\<close>

definition pkt_seq :: "bytes \<Rightarrow> u64" where
  "pkt_seq p = wh_seq (hdr_of p)"

text \<open>A number that the replay window has not reached.\<close>

definition beyond :: "shard \<Rightarrow> u64 \<Rightarrow> bool" where
  "beyond s q \<longleftrightarrow> (case sh_replay s of None \<Rightarrow> True | Some rw \<Rightarrow> \<not> rw_seen rw \<or> rw_high rw < q)"

text \<open>A packet that opens under the key of its epoch.\<close>

definition admissible :: "key_schedule \<Rightarrow> bytes \<Rightarrow> bool" where
  "admissible ks p \<longleftrightarrow> well_formed p \<and> (\<exists>a. for_epoch ks (wh_epoch (hdr_of p)) = Some a \<and>
     fst (a_open a (ks_nonce ks (wh_epoch (hdr_of p)) (pkt_seq p)) (take LR_HDR p) (drop LR_HDR p)) \<noteq> None)"

lemma replay_check_beyond:
  assumes "beyond s q"
  obtains s1 where "replay_check q s = (True, s1)" "\<And>x. q < x \<Longrightarrow> beyond s1 x" "sh_keys s1 = sh_keys s" "sh_seq s1 = sh_seq s" "sh_st s1 = sh_st s"
proof (cases "sh_replay s")
  case None
  then show thesis using that [of s] by (simp add: replay_check_def beyond_def)
next
  case (Some rw)
  obtain ok rw' where a: "accept rw q = (ok, rw')" by force
  have "ok \<and> rw_seen rw' \<and> rw_high rw' = q"
    using a assms by (auto simp: beyond_def Some accept_def Let_def split: if_splits)
  then show thesis using that [of "s\<lparr> sh_replay := Some rw' \<rparr>"] a by (simp add: replay_check_def Some beyond_def)
qed

text \<open>Without epochs the key schedule never changes.\<close>

lemma rekey_never: "ks_per_epoch ks = 0 \<Longrightarrow> maybe_rekey L mk q ks = (False, ks)"
  by (simp add: maybe_rekey_def)

lemma reseal_keeps:
  assumes "reseal env h pl k s = (ok, s')" "sh_keys s = Some ks" "ks_per_epoch ks = 0"
  shows "sh_keys s' = Some ks" "sh_seq s' = sh_seq s + 1" "sh_replay s' = sh_replay s" "sh_st s' = sh_st s"
  using assms by (auto simp: reseal_def Let_def rekey_never split: option.splits)

lemma count_packet_keeps:
  "sh_keys (count_packet env h pl s) = sh_keys s" "sh_seq (count_packet env h pl s) = sh_seq s" "sh_replay (count_packet env h pl s) = sh_replay s"
  "st_packets (sh_st (count_packet env h pl s)) = st_packets (sh_st s) + 1"
  "st_auth_fail (sh_st (count_packet env h pl s)) = st_auth_fail (sh_st s)"
  "st_replay_drop (sh_st (count_packet env h pl s)) = st_replay_drop (sh_st s)"
  by (simp_all add: count_packet_def Let_def read_ticks_def upd_st_def)

text \<open>What changes while \<open>n\<close> packets are forwarded.\<close>

definition advanced :: "nat \<Rightarrow> shard \<Rightarrow> shard \<Rightarrow> bool" where
  "advanced n s s' \<longleftrightarrow> sh_keys s' = sh_keys s \<and> sh_seq s' = sh_seq s + of_nat n \<and> st_packets (sh_st s') = st_packets (sh_st s) + of_nat n \<and>
     st_auth_fail (sh_st s') = st_auth_fail (sh_st s) \<and> st_replay_drop (sh_st s') = st_replay_drop (sh_st s)"

lemma advanced_refl: "advanced 0 s s"
  by (simp add: advanced_def)

lemma advanced_trans: "advanced m s s1 \<Longrightarrow> advanced n s1 s' \<Longrightarrow> advanced (m + n) s s'"
  by (simp add: advanced_def)

lemma admitted:
  assumes inv: "shard_inv s" and good: "env_good env (sc_cipher (sh_cfg s))" and live: "keys_live s" "env_live env (sc_cipher (sh_cfg s))"
    and ks: "sh_keys s = Some ks" "ks_per_epoch ks = 0" and k: "k < length (sh_sslots s)" and i: "i < length (sh_rslots s)"
    and p: "pb_data (sh_rslots s ! i) = p" "admissible ks p" "beyond s (pkt_seq p)"
  obtains s' where "drain_packet env i (k, s) = (Suc k, s')" "shard_inv s'" "same_frame s s'" "keys_live s'" "advanced 1 s s'"
    "\<And>x. pkt_seq p < x \<Longrightarrow> beyond s' x"
proof -
  obtain s1 where r: "replay_check (pkt_seq p) s = (True, s1)" and ab: "\<And>x. pkt_seq p < x \<Longrightarrow> beyond s1 x"
    and f1: "sh_keys s1 = sh_keys s" "sh_seq s1 = sh_seq s" "sh_st s1 = sh_st s"
    using replay_check_beyond [OF p(3)] by blast
  obtain x s2 where o: "open_packet ks (hdr_of p) p s1 = (x, s2)" by force
  have x: "x \<noteq> None" using o p(2) by (auto simp: admissible_def open_packet_def pkt_seq_def Let_def split: prod.splits)
  then obtain pl where pl: "x = Some pl" by auto
  have f2: "sh_keys s2 = Some ks" "sh_seq s2 = sh_seq s" "sh_st s2 = sh_st s" "sh_replay s2 = sh_replay s1"
    using o pl f1 ks(1) by (auto simp: open_packet_def Let_def split: option.splits prod.splits)
  obtain ok s3 where rs: "reseal env (hdr_of p) pl k s2 = (ok, s3)" by force
  note f3 = reseal_keeps [OF rs f2(1) ks(2)]
  have "ks_cipher ks = sc_cipher (sh_cfg s)" using inv ks(1) by (auto simp: shard_inv_defs)
  then have ok: "ok" using reseal_live(1) [OF _ _ rs] live f2(1) ks(1) by (simp add: keys_live_def)
  have wf: "well_formed p" using p(2) by (simp add: admissible_def)
  have d: "drain_packet env i (k, s) = (Suc k, count_packet env (hdr_of p) pl s3)"
    using r o pl rs ok wf f1(1) ks(1) p(1) by (simp add: drain_packet_def well_formed_def Let_def pkt_seq_def)
  have "shard_inv (count_packet env (hdr_of p) pl s3)" "same_frame s (count_packet env (hdr_of p) pl s3)"
    "keys_live (count_packet env (hdr_of p) pl s3)"
    using drain_packet_step [OF inv good k i d] live by auto
  moreover have "advanced 1 s (count_packet env (hdr_of p) pl s3)"
    using f2 f3 ks(1) by (simp add: advanced_def count_packet_keeps)
  moreover have "beyond (count_packet env (hdr_of p) pl s3) z" if "pkt_seq p < z" for z
    using ab [OF that] f2(4) f3(3) by (simp add: beyond_def count_packet_keeps)
  ultimately show thesis using that d by blast
qed

text \<open>Packets in the order of their numbers, none of which the window has reached.\<close>

definition ordered_pkts :: "key_schedule \<Rightarrow> shard \<Rightarrow> bytes list \<Rightarrow> bool" where
  "ordered_pkts ks s ps \<longleftrightarrow> list_all (admissible ks) ps \<and> sorted_wrt (<) (map pkt_seq ps) \<and> list_all (\<lambda>p. beyond s (pkt_seq p)) ps"

lemma admitted_batch:
  assumes inv: "shard_inv s" and good: "env_good env (sc_cipher (sh_cfg s))" and live: "keys_live s" "env_live env (sc_cipher (sh_cfg s))"
    and ks: "sh_keys s = Some ks" "ks_per_epoch ks = 0"
  shows "n \<le> length (sh_rslots s) \<Longrightarrow> n \<le> length (sh_sslots s) \<Longrightarrow> ordered_pkts ks s (map pb_data (take n (sh_rslots s))) \<Longrightarrow>
    \<exists>s'. fold (drain_packet env) [0..<n] (0, s) = (n, s') \<and> shard_inv s' \<and> same_frame s s' \<and> keys_live s' \<and> advanced n s s' \<and>
      (\<forall>x. beyond s x \<longrightarrow> (\<forall>p \<in> set (map pb_data (take n (sh_rslots s))). pkt_seq p < x) \<longrightarrow> beyond s' x)"
proof (induction n)
  case 0
  then show ?case using inv live(1) by (simp add: advanced_refl)
next
  case (Suc n)
  let ?p = "pb_data (sh_rslots s ! n)" and ?ps = "map pb_data (take n (sh_rslots s))"
  have m: "map pb_data (take (Suc n) (sh_rslots s)) = ?ps @ [?p]" using Suc.prems(1) by (intro take_Suc_map) simp
  have o: "ordered_pkts ks s ?ps" "admissible ks ?p" "beyond s (pkt_seq ?p)" "\<And>p. p \<in> set ?ps \<Longrightarrow> pkt_seq p < pkt_seq ?p"
    using Suc.prems(3) unfolding m ordered_pkts_def by (auto simp: sorted_wrt_append)
  obtain s1 where f: "fold (drain_packet env) [0..<n] (0, s) = (n, s1)" and s1: "shard_inv s1" "same_frame s s1" "keys_live s1" "advanced n s s1"
    and a1: "\<And>x. beyond s x \<Longrightarrow> \<forall>p \<in> set ?ps. pkt_seq p < x \<Longrightarrow> beyond s1 x"
    using Suc.IH [OF _ _ o(1)] Suc.prems(1,2) by auto
  have fr: "sh_cfg s1 = sh_cfg s" "sh_rslots s1 = sh_rslots s" "length (sh_sslots s1) = length (sh_sslots s)" "sh_keys s1 = Some ks"
    using s1(2,4) ks(1) by (simp_all add: same_frame_def advanced_def)
  have ab: "beyond s1 (pkt_seq ?p)" using a1 o(3,4) by blast
  show ?case
  proof (rule admitted [of s1 env ks n n ?p])
    fix s'
    assume d: "drain_packet env n (n, s1) = (Suc n, s')" and i: "shard_inv s'" "same_frame s1 s'" "keys_live s'" "advanced 1 s1 s'"
      and a2: "\<And>x. pkt_seq ?p < x \<Longrightarrow> beyond s' x"
    have "advanced (Suc n) s s'" using advanced_trans [OF s1(4) i(4)] by simp
    then show ?case
      unfolding m using f d i s1(2) a2 same_frame_trans by (intro exI [of _ s']) auto
  qed (use s1 good live(2) ks(2) fr Suc.prems(1,2) ab o(2) in auto)
qed

section \<open>Draining a queue\<close>

definition flowing :: "shard_env \<Rightarrow> key_schedule \<Rightarrow> shard \<Rightarrow> bool" where
  "flowing env ks s \<longleftrightarrow> hot_ready env s \<and> sh_keys s = Some ks \<and> ks_per_epoch ks = 0"

text \<open>A queue of packets in order that fit the receive slots.\<close>

definition deliverable :: "key_schedule \<Rightarrow> shard \<Rightarrow> bytes list \<Rightarrow> bool" where
  "deliverable ks s q \<longleftrightarrow> ordered_pkts ks s q \<and> list_all (\<lambda>p. length p \<le> slot_cap s) q"

lemma ordered_split:
  assumes "ordered_pkts ks s (ps @ qs)" "\<And>x. beyond s x \<Longrightarrow> \<forall>p \<in> set ps. pkt_seq p < x \<Longrightarrow> beyond s' x"
  shows "ordered_pkts ks s ps" "ordered_pkts ks s' qs"
  using assms by (auto simp: ordered_pkts_def sorted_wrt_append list_all_iff)

lemma ordered_plain: "ordered_pkts ks s (rxq (t_sock t)) \<Longrightarrow> plain_queue t"
  by (auto simp: ordered_pkts_def plain_queue_def list_all_iff admissible_def well_formed_def LR_HDR_def)

lemma flow_batch:
  assumes fl: "flowing env ks s" and t: "sh_tx s = Some t" and w: "0 < want" "nat want \<le> length (sh_rslots s)"
    and q: "deliverable ks s (rx_queue s)"
  obtains n s' where "drain_batch env t want s = (n, s')" "flowing env ks s'" "n \<le> nat want" "n \<le> length (rx_queue s)" "n = 0 \<longrightarrow> rx_queue s = []"
    "rx_queue s' = drop n (rx_queue s)" "advanced n s s'" "sh_cfg s' = sh_cfg s"
    "\<And>x. beyond s x \<Longrightarrow> \<forall>p \<in> set (take n (rx_queue s)). pkt_seq p < x \<Longrightarrow> beyond s' x"
proof -
  let ?q = "rx_queue s"
  have a: "shard_inv s" "keys_live s" "env_good env (sc_cipher (sh_cfg s))" "env_live env (sc_cipher (sh_cfg s))" "sh_keys s = Some ks"
    "ks_per_epoch ks = 0" "socket_backend t" "sc_source (sh_cfg s) = Loopback" "0 \<le> sh_loader_fd s"
    using fl t by (auto simp: flowing_def hot_ready_def)
  have qe: "?q = rxq (t_sock t)" by (simp add: rx_queue_def t)
  obtain n rs t1 where r: "transport_recv env (sh_rslots s) want t = (n, rs, t1)" by (metis prod_cases3)
  have sl: "slots_ok (slot_cap s) (sh_rslots s)" "1 \<le> t_batch t" "length (sh_sslots s) = length (sh_rslots s)"
    using a(1) t by (auto simp: shard_inv_defs)
  have pq: "plain_queue t" using q unfolding deliverable_def qe by (blast intro: ordered_plain)
  have c: "n \<le> nat want" "n \<le> length ?q" "n = 0 \<longrightarrow> ?q = []" "map pb_data (take n rs) = map (take (slot_cap s)) (take n ?q)" "rxq (t_sock t1) = drop n ?q"
    using transport_recv_contract [OF a(7) sl(2,1) _ pq w r] qe by (simp_all add: slot_cap_def)
  have "take (slot_cap s) p = p" if "p \<in> set (take n ?q)" for p
    using q that by (auto simp: deliverable_def list_all_iff dest: in_set_takeD)
  then have pd: "map pb_data (take n rs) = take n ?q" using c(4) by (simp add: map_idI)
  have rs: "slots_ok (slot_cap s) rs" "length rs = length (sh_rslots s)" "t_backend t1 = t_backend t" "t_batch t1 = t_batch t"
    using transport_recv_safe [OF sl(1), of t want env] r by (simp_all add: recv_safe_def)
  define s0 where "s0 = s\<lparr> sh_rslots := rs, sh_tx := Some t1 \<rparr>"
  have i0: "shard_inv s0" unfolding s0_def using a(1) t rs by (intro shard_inv_tx)
  have f0: "sh_rslots s0 = rs" "sh_cfg s0 = sh_cfg s" "keys_live s0 = keys_live s" "sh_keys s0 = sh_keys s" "sh_sslots s0 = sh_sslots s" "sh_tx s0 = Some t1"
    "beyond s0 = beyond s" "advanced m s0 = advanced m s" for m
    by (auto simp: s0_def keys_live_def beyond_def advanced_def fun_eq_iff)
  have o: "ordered_pkts ks s0 (map pb_data (take n (sh_rslots s0)))"
    using q ordered_split(1) [of ks s "take n ?q" "drop n ?q" s] by (simp add: f0 pd deliverable_def ordered_pkts_def)
  obtain s2 where f: "fold (drain_packet env) [0..<n] (0, s0) = (n, s2)" "same_frame s0 s2" "advanced n s0 s2"
    "\<And>x. beyond s0 x \<Longrightarrow> \<forall>p \<in> set (take n ?q). pkt_seq p < x \<Longrightarrow> beyond s2 x"
  proof -
    have "env_good env (sc_cipher (sh_cfg s0))" "env_live env (sc_cipher (sh_cfg s0))" "keys_live s0" "sh_keys s0 = Some ks"
      "n \<le> length (sh_rslots s0)" "n \<le> length (sh_sslots s0)"
      using a f0 rs(2) c(1) w(2) sl(3) by simp_all
    from admitted_batch [OF i0 this(1,3,2,4) a(6) this(5,6) o] show ?thesis using that unfolding f0(1) pd by blast
  qed
  obtain m s' where d: "drain_batch env t want s = (m, s')" by force
  have e: "m = n \<and> s' = (if n = 0 then s0 else s2\<lparr> sh_tx := Some (snd (transport_send env (sh_sslots s2) n t1)) \<rparr>)"
    using d r f(1) unfolding drain_batch_def s0_def [symmetric] by (auto simp: Let_def s0_def)
  have s20: "n = 0 \<Longrightarrow> s2 = s0" using f(1) by simp
  have adv: "advanced n s s'" "\<And>x. beyond s' x = beyond s2 x"
    using e f(3) s20 by (auto simp: f0 advanced_def beyond_def)
  have txq: "\<exists>t'. sh_tx s' = Some t' \<and> socket_backend t' \<and> rxq (t_sock t') = drop n ?q"
  proof -
    have b1: "socket_backend t1" using a(7) rs(3) by (simp add: socket_backend_def)
    have "socket_backend (snd (transport_send env (sh_sslots s2) n t1))"
      using b1 transport_send_safe [of env "sh_sslots s2" n t1] by (simp add: socket_backend_def)
    then show ?thesis using e f0(6) b1 c(5) transport_send_rxq [OF b1, of env "sh_sslots s2" n] by auto
  qed
  have i: "shard_inv s' \<and> sh_cfg s' = sh_cfg s \<and> keys_live s'" using drain_batch_step [OF a(1,3) t w(2) d] a(2,4) by metis
  have "sh_loader_fd s' = sh_loader_fd s" using kept_batch [of s env t want] d by (simp add: kept_def)
  then have "flowing env ks s'" using i txq a adv(1) by (auto simp: flowing_def hot_ready_def advanced_def)
  then show thesis using that [of n s'] d e c adv i f(4) txq by (auto simp: f0 rx_queue_def)
qed

lemma flow_loop:
  "flowing env ks s \<Longrightarrow> deliverable ks s (rx_queue s) \<Longrightarrow> processed + int (length (rx_queue s)) = budget \<Longrightarrow>
   \<exists>s'. drain_loop env budget processed s = (budget, s') \<and> flowing env ks s' \<and> rx_queue s' = [] \<and> advanced (length (rx_queue s)) s s' \<and>
     sh_cfg s' = sh_cfg s \<and> (\<forall>x. beyond s x \<longrightarrow> (\<forall>p \<in> set (rx_queue s). pkt_seq p < x) \<longrightarrow> beyond s' x)"
proof (induction "length (rx_queue s)" arbitrary: s processed rule: less_induct)
  case less
  obtain t where t: "sh_tx s = Some t" using less.prems(1) by (auto simp: flowing_def hot_ready_def)
  show ?case
  proof (cases "rx_queue s = []")
    case True
    then show ?thesis using less.prems drain_loop_done [OF t] by (auto simp: advanced_refl)
  next
    case False
    let ?q = "rx_queue s"
    have lt: "processed < budget" using less.prems(3) False by (cases ?q) auto
    define want where "want = min (budget - processed) (max_batch t)"
    have inv: "shard_inv s" using less.prems(1) by (simp add: flowing_def hot_ready_def)
    then have w: "0 < want" "nat want \<le> length (sh_rslots s)"
      using lt t slots_wanted [OF inv t] by (auto simp: want_def shard_inv_defs max_batch_def split: backend.split)
    show ?thesis
    proof (rule flow_batch [OF less.prems(1) t w less.prems(2)])
      fix n s1
      assume d: "drain_batch env t want s = (n, s1)" and f1: "flowing env ks s1" and n: "n \<le> length ?q" "n = 0 \<longrightarrow> ?q = []"
        and q1: "rx_queue s1 = drop n ?q" and a1: "advanced n s s1" "sh_cfg s1 = sh_cfg s"
        and b1: "\<And>x. beyond s x \<Longrightarrow> \<forall>p \<in> set (take n ?q). pkt_seq p < x \<Longrightarrow> beyond s1 x"
      have n0: "0 < n" using n(2) False by auto
      have "ordered_pkts ks s1 (drop n ?q)"
        using ordered_split(2) [of ks s "take n ?q" "drop n ?q" s1] less.prems(2) b1 by (simp add: deliverable_def)
      then have dl: "deliverable ks s1 (rx_queue s1)"
        using less.prems(2) a1(2) by (auto simp: deliverable_def q1 slot_cap_def list_all_iff dest: in_set_dropD)
      have len: "length (rx_queue s1) < length ?q" "(processed + int n) + int (length (rx_queue s1)) = budget"
        using n0 n(1) less.prems(3) by (simp_all add: q1)
      obtain s' where x: "drain_loop env budget (processed + int n) s1 = (budget, s')" "flowing env ks s'" "rx_queue s' = []"
        "advanced (length (drop n ?q)) s1 s'" "sh_cfg s' = sh_cfg s1"
        "\<And>x. beyond s1 x \<Longrightarrow> \<forall>p \<in> set (drop n ?q). pkt_seq p < x \<Longrightarrow> beyond s' x"
        using less.hyps [OF len(1) f1 dl len(2)] unfolding q1 by blast
      have "drain_loop env budget processed s = (budget, s')" using drain_loop_step [OF t lt d [unfolded want_def]] n0 x(1) by simp
      moreover have "advanced (length ?q) s s'" using advanced_trans [OF a1(1) x(4)] n(1) by simp
      moreover have "beyond s' y" if "beyond s y" "\<forall>p \<in> set ?q. pkt_seq p < y" for y
        using that b1 [OF that(1)] x(6) by (meson in_set_dropD in_set_takeD)
      ultimately show ?thesis using x(2,3,5) a1(2) by auto
    qed
  qed
qed

section \<open>Staging a queue\<close>

lemma make_packet_keeps:
  assumes "make_packet env q s = (r, s')"
  shows "sh_tx s' = sh_tx s" "sh_loader_fd s' = sh_loader_fd s" "sh_st s' = sh_st s" "sh_seq s' = sh_seq s" "sh_replay s' = sh_replay s"
    "sh_keys s = Some ks \<Longrightarrow> ks_per_epoch ks = 0 \<Longrightarrow> sh_keys s' = Some ks"
  using assms by (auto simp: make_packet_def Let_def read_ticks_def rekey_never split: option.splits)

lemma make_packet_flow:
  assumes "flowing env ks s"
  obtains p s' where "make_packet env q s = (Some p, s')" "flowing env ks s'" "admissible ks p" "pkt_seq p = q" "length p = wire_len (sh_cfg s)"
    "sh_cfg s' = sh_cfg s"
proof -
  have a: "shard_inv s" "keys_live s" "env_good env (sc_cipher (sh_cfg s))" "env_live env (sc_cipher (sh_cfg s))" "sh_keys s = Some ks" "ks_per_epoch ks = 0"
    using assms by (auto simp: flowing_def hot_ready_def)
  obtain r s' where m: "make_packet env q s = (r, s')" by force
  have l: "r \<noteq> None" "keys_live s'" using make_packet_live [OF a(2,4,1) m] by simp_all
  then obtain p where p: "r = Some p" by auto
  have i: "shard_inv s'" "sh_cfg s' = sh_cfg s" "length p = wire_len (sh_cfg s)" using make_packet_inv [OF a(1,3) m] p by simp_all
  note k = make_packet_keeps(1,2) [OF m] make_packet_keeps(6) [OF m a(5,6)]
  have fl: "flowing env ks s'" using assms k l i by (auto simp: flowing_def hot_ready_def)
  obtain ks' b ct h where x: "sh_keys s' = Some ks'" "for_epoch ks' (wh_epoch h) = Some b" "p = hdr_bytes h @ ct" "wh_seq h = q" "wh_magic h = LR_MAGIC"
    "a_seal b (ks_nonce ks' (wh_epoch h) q) (hdr_bytes h) (take (sc_payload (sh_cfg s)) (sh_plain s)) = Some ct"
    using m [unfolded p] by (rule make_packet_spec)
  have ks': "ks' = ks" using x(1) k(3) by simp
  have co: "cipher_ok b" using for_epoch_ok [OF _ x(2)] i(1) x(1) by (auto simp: shard_inv_defs)
  have h: "hdr_of p = h" "take LR_HDR p = hdr_bytes h" "drop LR_HDR p = ct" using x(3) by (simp_all add: LR_HDR_def)
  have wf: "well_formed p" using x(3,5) i(3) by (simp add: well_formed_def wire_len_def)
  have "fst (a_open b (ks_nonce ks (wh_epoch h) q) (take LR_HDR p) (drop LR_HDR p)) \<noteq> None"
    using cipher_okD(2) [OF co x(6)] unfolding h ks' by simp
  then have "admissible ks p" using wf x(2,4) unfolding admissible_def pkt_seq_def h(1) ks' by blast
  then show thesis using that [of p s'] m p fl i x(4) h(1) by (simp add: pkt_seq_def)
qed

text \<open>The packets of one staging carry consecutive numbers.\<close>

lemma preload_flow:
  assumes "\<And>q. se_load env q = Queued"
  shows "flowing env ks s \<Longrightarrow> \<exists>s' ps. preload_loop env n ok s = (ok + int n, s') \<and> flowing env ks s' \<and> sh_cfg s' = sh_cfg s \<and>
    rx_queue s' = rx_queue s @ ps \<and> map pkt_seq ps = map (\<lambda>i. sh_seq s + of_nat i) [0..<n] \<and> list_all (admissible ks) ps \<and>
    list_all (\<lambda>p. length p = wire_len (sh_cfg s)) ps \<and> sh_seq s' = sh_seq s + of_nat n \<and> sh_replay s' = sh_replay s \<and> sh_st s' = sh_st s"
proof (induction n arbitrary: ok s)
  case (Suc n)
  let ?s = "s\<lparr> sh_seq := sh_seq s + 1 \<rparr>"
  have f0: "flowing env ks ?s" using Suc.prems by (auto simp: flowing_def hot_ready_def keys_live_def)
  show ?case
  proof (rule make_packet_flow [OF f0, of "sh_seq s"])
    fix p s1
    assume m: "make_packet env (sh_seq s) ?s = (Some p, s1)" and f1: "flowing env ks s1" and p: "admissible ks p" "pkt_seq p = sh_seq s"
      "length p = wire_len (sh_cfg ?s)" and c: "sh_cfg s1 = sh_cfg ?s"
    note k = make_packet_keeps(1,3-5) [OF m, simplified]
    let ?t = "tx_enqueue p s1"
    obtain t where t: "sh_tx s1 = Some t" "socket_backend t" using f1 by (auto simp: flowing_def hot_ready_def)
    have f2: "flowing env ks ?t" "sh_cfg ?t = sh_cfg s" "rx_queue ?t = rx_queue s @ [p]" "sh_seq ?t = sh_seq s + 1" "sh_replay ?t = sh_replay s"
      "sh_st ?t = sh_st s"
      using f1 t k c tx_enqueue_inv(1) [of s1 p] tx_enqueue_inv(2) [of p s1]
      by (auto simp: flowing_def hot_ready_def tx_enqueue_def keys_live_def socket_backend_def rx_queue_def)
    obtain s' ps where x: "preload_loop env n (ok + 1) ?t = (ok + 1 + int n, s')" "flowing env ks s'" "sh_cfg s' = sh_cfg s"
      "rx_queue s' = rx_queue ?t @ ps" "map pkt_seq ps = map (\<lambda>i. sh_seq ?t + of_nat i) [0..<n]" "list_all (admissible ks) ps"
      "list_all (\<lambda>p. length p = wire_len (sh_cfg s)) ps" "sh_seq s' = sh_seq ?t + of_nat n" "sh_replay s' = sh_replay ?t" "sh_st s' = sh_st ?t"
      using Suc.IH [OF f2(1), of "ok + 1"] unfolding f2(2) by blast
    have "map pkt_seq (p # ps) = map (\<lambda>i. sh_seq s + of_nat i) [0..<Suc n]"
      using x(5) p(2) f2(4) by (simp add: upt_conv_Cons map_Suc_upt [symmetric] add.assoc del: upt_Suc)
    then show ?case
      using m x p assms f2 by (intro exI [of _ s'] exI [of _ "p # ps"]) (simp add: ac_simps del: upt_Suc)
  qed
qed simp

section \<open>The measured loop\<close>

text \<open>The window has reached none of the numbers that are still to be given out.\<close>

definition ahead :: "shard \<Rightarrow> bool" where
  "ahead s \<longleftrightarrow> (\<forall>x. sh_seq s \<le> x \<longrightarrow> beyond s x)"

lemma seq_add: "unat (q :: u64) + n < 2 ^ 64 \<Longrightarrow> unat (q + of_nat n) = unat q + n"
proof -
  assume a: "unat q + n < 2 ^ 64"
  then have "unat (of_nat n :: u64) = n" by (simp add: unsigned_of_nat take_bit_nat_eq_self)
  then show ?thesis using a by (subst unat_add_lem [THEN iffD1]) simp_all
qed

lemma staged_deliverable:
  assumes "map pkt_seq ps = map (\<lambda>i. sh_seq s + of_nat i) [0..<n]" "list_all (admissible ks) ps" "list_all (\<lambda>p. length p = wire_len (sh_cfg s)) ps"
    "ahead s" "unat (sh_seq s) + n < 2 ^ 64" "sh_replay s1 = sh_replay s" "sh_cfg s1 = sh_cfg s"
  shows "deliverable ks s1 ps" "\<And>p. p \<in> set ps \<Longrightarrow> pkt_seq p < sh_seq s + of_nat n"
proof -
  have u: "unat (sh_seq s + of_nat i) = unat (sh_seq s) + i" if "i \<le> n" for i using assms(5) that by (intro seq_add) simp
  have sq: "\<exists>i < n. pkt_seq p = sh_seq s + of_nat i" if "p \<in> set ps" for p
  proof -
    have "pkt_seq p \<in> set (map (\<lambda>i. sh_seq s + of_nat i) [0..<n])" using that unfolding assms(1) [symmetric] by simp
    then show ?thesis by auto
  qed
  show "\<And>p. p \<in> set ps \<Longrightarrow> pkt_seq p < sh_seq s + of_nat n" using sq u by (fastforce simp: word_less_nat_alt)
  have "beyond s1 (pkt_seq p)" if "p \<in> set ps" for p
    using sq [OF that] u assms(4,6) by (auto simp: ahead_def beyond_def word_le_nat_alt)
  moreover have "sorted_wrt (<) (map (\<lambda>i. sh_seq s + of_nat i) [0..<n])"
    by (auto simp: sorted_wrt_iff_nth_less word_less_nat_alt u)
  ultimately show "deliverable ks s1 ps"
    using assms(2,3,7) unfolding deliverable_def ordered_pkts_def assms(1) by (auto simp: list_all_iff slot_cap_def)
qed

lemma flow_turn:
  assumes "\<And>q. se_load env q = Queued" "flowing env ks s" "rx_queue s = []" "ahead s" "unat (sh_seq s) + 2 * n < 2 ^ 64"
  obtains s1 s' where "preload env (int n) s = (int n, s1)" "drain env (int n) s1 = (int n, s')" "flowing env ks s'" "rx_queue s' = []" "ahead s'"
    "sh_cfg s' = sh_cfg s" "advanced n s (s'\<lparr> sh_seq := sh_seq s + of_nat n \<rparr>)" "unat (sh_seq s') = unat (sh_seq s) + 2 * n"
proof -
  obtain s1 ps where p: "preload_loop env n 0 s = (0 + int n, s1)" "flowing env ks s1" "sh_cfg s1 = sh_cfg s" "rx_queue s1 = rx_queue s @ ps"
    "map pkt_seq ps = map (\<lambda>i. sh_seq s + of_nat i) [0..<n]" "list_all (admissible ks) ps" "list_all (\<lambda>p. length p = wire_len (sh_cfg s)) ps"
    "sh_seq s1 = sh_seq s + of_nat n" "sh_replay s1 = sh_replay s" "sh_st s1 = sh_st s"
    using preload_flow [of env ks s n 0, OF assms(1,2)] by blast
  have pre: "preload env (int n) s = (int n, s1)" using p(1) assms(2) by (simp add: preload_def flowing_def hot_ready_def)
  have w: "unat (sh_seq s) + n < 2 ^ 64" using assms(5) by simp
  note dl = staged_deliverable [OF p(5,6,7) assms(4) w p(9,3)]
  let ?r = "s1\<lparr> sh_reads := Suc (sh_reads s1) \<rparr>"
  have q: "rx_queue ?r = ps" "length ps = n" using p(4) assms(3) arg_cong [OF p(5), of length] by (simp_all add: rx_queue_def)
  have fr: "flowing env ks ?r" using p(2) by (auto simp: flowing_def hot_ready_def keys_live_def)
  have dr: "deliverable ks ?r (rx_queue ?r)"
    using dl(1) unfolding q(1) by (simp add: deliverable_def ordered_pkts_def beyond_def slot_cap_def)
  obtain s2 where x: "drain_loop env (int n) 0 ?r = (int n, s2)" "flowing env ks s2" "rx_queue s2 = []" "advanced n ?r s2" "sh_cfg s2 = sh_cfg s1"
    "\<And>x. beyond ?r x \<Longrightarrow> \<forall>p \<in> set ps. pkt_seq p < x \<Longrightarrow> beyond s2 x"
    using flow_loop [OF fr dr, of 0 "int n"] unfolding q by auto
  obtain s' where d: "drain env (int n) s1 = (int n, s')" "sh_keys s' = sh_keys s2" "sh_seq s' = sh_seq s2" "sh_replay s' = sh_replay s2" "sh_tx s' = sh_tx s2"
    "sh_cfg s' = sh_cfg s2" "flowing env ks s'" "st_packets (sh_st s') = st_packets (sh_st s2)" "st_auth_fail (sh_st s') = st_auth_fail (sh_st s2)"
    "st_replay_drop (sh_st s') = st_replay_drop (sh_st s2)"
    using x(2) unfolding drain_def read_ticks_def prod.case x(1) by (auto simp: flowing_def hot_ready_def keys_live_def upd_st_def)
  have sq: "sh_seq s' = sh_seq s + of_nat (2 * n)" using d(3) x(4) p(8) by (simp add: advanced_def)
  have sq': "unat (sh_seq s') = unat (sh_seq s) + 2 * n" unfolding sq using assms(5) by (intro seq_add) simp
  have "ahead s'"
    unfolding ahead_def
  proof (intro allI impI)
    fix y assume "sh_seq s' \<le> y"
    then have y: "unat (sh_seq s) + 2 * n \<le> unat y" using sq' by (simp add: word_le_nat_alt)
    then have "sh_seq s \<le> y" "sh_seq s + of_nat n \<le> y" using seq_add [OF w] by (simp_all add: word_le_nat_alt)
    then have "beyond ?r y" "\<forall>p \<in> set ps. pkt_seq p < y"
      using assms(4) p(9) dl(2) by (auto simp: ahead_def beyond_def intro: less_le_trans)
    from x(6) [OF this] show "beyond s' y" using d(4) by (simp add: beyond_def)
  qed
  moreover have "advanced n s (s'\<lparr> sh_seq := sh_seq s + of_nat n \<rparr>)"
    using x(4) d p(2,10) assms(2) by (simp add: advanced_def flowing_def)
  ultimately show thesis using that [OF pre d(1,7)] x(3,5) d(5,6) p(3) sq' by (simp add: rx_queue_def)
qed

text \<open>A shard that was built is ready, when descriptors are not negative and the transport is one of the socket backends.\<close>

lemma open_udp_socket_kept: "os_socket (snd (open_udp addr r w os)) = os_socket os"
  by (auto simp: open_udp_def Let_def split: option.splits)

lemma open_udp_fd: "open_udp addr r w os = (Some (p, fd), os') \<Longrightarrow> \<exists>F. os_socket os F = Some fd"
  by (auto simp: open_udp_def Let_def split: option.splits)

lemma make_transport_socket:
  assumes "make_transport tc os = (Inr t, os')" "tc_backend tc = ''posix'' \<or> tc_backend tc = ''mmsg''"
  shows "socket_backend t" "rxq (t_sock t) = []" "os_socket os' = os_socket os"
  using assms
  by (auto simp: make_transport_def make_transport_posix_def make_transport_mmsg_def new_transport_def sock0_def socket_backend_def
      lr_open_udp_socket_def Let_def split: sum.splits prod.splits option.splits if_splits)

lemma shard_open_ready:
  assumes "shard_open tc s os = (s', None, os')" "tc_backend tc = ''posix'' \<or> tc_backend tc = ''mmsg''" "sc_source (sh_cfg s) = Loopback"
    "\<And>F fd. os_socket os F = Some fd \<Longrightarrow> 0 \<le> fd"
  shows "sh_keys s' = sh_keys s" "0 \<le> sh_loader_fd s'" "\<exists>t. sh_tx s' = Some t \<and> socket_backend t \<and> rxq (t_sock t) = []"
    "sh_seq s' = sh_seq s" "sh_replay s' = sh_replay s"
proof -
  obtain t os1 where t: "make_transport tc os = (Inr t, os1)"
    using assms(1) by (cases "make_transport tc os"; cases "fst (make_transport tc os)") (auto simp: shard_open_def)
  note m = make_transport_socket [OF t assms(2)]
  obtain p fd os2 where u: "open_udp ''127.0.0.1'' 1024 33554432 os1 = (Some (p, fd), os2)"
    using assms(1,3) t by (cases "open_udp ''127.0.0.1'' 1024 33554432 os1"; cases "fst (open_udp ''127.0.0.1'' 1024 33554432 os1)")
      (auto simp: shard_open_def Let_def)
  have e: "s' = shard_buffers t (s\<lparr> sh_tx := Some t, sh_port := transport_local_port os1 t, sh_loader_fd := fd \<rparr>)"
    using assms(1,3) t u by (simp add: shard_open_def Let_def)
  have "0 \<le> fd" using open_udp_fd [OF u] m(3) assms(4) by auto
  then show "sh_keys s' = sh_keys s" "0 \<le> sh_loader_fd s'" "\<exists>t. sh_tx s' = Some t \<and> socket_backend t \<and> rxq (t_sock t) = []"
    "sh_seq s' = sh_seq s" "sh_replay s' = sh_replay s"
    using m by (simp_all add: e shard_buffers_def Let_def)
qed

lemma Shard_ready:
  assumes "Shard env cfg secret os = (s, None, os')" "env_good env (sc_cipher cfg)" "env_live env (sc_cipher cfg)" "sc_source cfg = Loopback"
    "sc_backend cfg = ''posix'' \<or> sc_backend cfg = ''mmsg''" "\<forall>F fd. os_socket os F = Some fd \<longrightarrow> 0 \<le> fd"
  shows "hot_ready env s" "rx_queue s = []" "sh_seq s = 0" "ahead s" "sc_epoch_packets cfg = 0 \<Longrightarrow> \<exists>ks. flowing env ks s"
proof -
  let ?cfg = "clamp_payload cfg" and ?ks = "KeySchedule (se_hkdf env) (se_mk env) (take 32 secret) (sc_cipher cfg) (sc_epoch_packets cfg)"
  have c: "sc_cipher ?cfg = sc_cipher cfg" "sc_source ?cfg = Loopback" "sc_backend ?cfg = sc_backend cfg" "sc_epoch_packets ?cfg = sc_epoch_packets cfg"
    using assms(4) by (simp_all add: clamp_payload_def)
  define s0 where "s0 = (if sc_replay ?cfg then (keyed_shard env ?cfg secret)\<lparr> sh_replay := Some (ReplayWindow 1024) \<rparr> else keyed_shard env ?cfg secret)"
  have k0: "sh_keys s0 = Some ?ks" "sh_cfg s0 = ?cfg" "sh_seq s0 = 0" "sh_replay s0 = None \<or> sh_replay s0 = Some (ReplayWindow 1024)"
    by (simp_all add: s0_def keyed_shard_def c)
  obtain hp hf os1 where u: "open_udp ''127.0.0.1'' 1024 1024 os = (Some (hp, hf), os1)"
    and o: "shard_open ((base_tc ?cfg)\<lparr> tc_bind_addr := ''127.0.0.1'', tc_peer_addr := ''127.0.0.1'', tc_peer_port := hp \<rparr>)
      (s0\<lparr> sh_hole_fd := hf, sh_hole_port := hp \<rparr>) os1 = (s, None, os')"
    using assms(1) c(2) unfolding Shard_def Let_def s0_def [symmetric] by (auto split: if_splits prod.splits option.splits)
  have b: "0 \<le> fd" if "os_socket os1 F = Some fd" for F fd
    using assms(6) open_udp_socket_kept [of "''127.0.0.1''" 1024 1024 os] u that by simp
  note r = shard_open_ready [OF o _ _ b]
  have r: "sh_keys s = Some ?ks" "0 \<le> sh_loader_fd s" "\<exists>t. sh_tx s = Some t \<and> socket_backend t \<and> rxq (t_sock t) = []"
    "sh_seq s = 0" "sh_replay s = None \<or> sh_replay s = Some (ReplayWindow 1024)"
    using r assms(5) c k0 by (simp_all add: base_tc_def TransportConfig_def)
  have i: "shard_inv s" "sh_cfg s = ?cfg" using Shard_inv [OF assms(2,1)] by simp_all
  have l: "ks_inv cipher_live ?ks" using assms(3) by (intro KeySchedule_inv) (simp_all add: env_live_def)
  have "ks_aead0 (derive (se_hkdf env) (se_mk env) 0 ks) \<noteq> None" if "ks_cipher ks = sc_cipher cfg" for ks
    using assms(3) derive_slot0(1) [of "se_hkdf env" "se_mk env" 0 ks] that by (auto simp: env_live_def)
  then have "ks_aead0 ?ks \<noteq> None" by (simp add: KeySchedule_def)
  then show hr: "hot_ready env s" using i r l c assms(2,3) by (auto simp: hot_ready_def keys_live_def)
  show "rx_queue s = []" using r(3) by (auto simp: rx_queue_def)
  show "sh_seq s = 0" by (rule r(4))
  show "ahead s" using r(5) by (auto simp: ahead_def beyond_def ReplayWindow_def)
  show "\<exists>ks. flowing env ks s" if "sc_epoch_packets cfg = 0"
    using hr r(1) that by (auto simp: flowing_def KeySchedule_def derive_def Let_def split: option.splits)
qed

section \<open>The whole run\<close>

lemma hot_loop_flow:
  assumes "\<And>q. se_load env q = Queued" "0 < window"
  shows "flowing env ks s \<Longrightarrow> rx_queue s = [] \<Longrightarrow> ahead s \<Longrightarrow> finished \<le> target \<Longrightarrow> unat (sh_seq s) + 2 * nat (target - finished) < 2 ^ 64 \<Longrightarrow>
    \<exists>s'. hot_loop env window target finished guard s = Some s' \<and> st_packets (sh_st s') = st_packets (sh_st s) + of_int (target - finished) \<and>
      st_auth_fail (sh_st s') = st_auth_fail (sh_st s) \<and> st_replay_drop (sh_st s') = st_replay_drop (sh_st s)"
proof (induction "nat (target - finished)" arbitrary: finished guard s rule: less_induct)
  case less
  show ?case
  proof (cases "finished < target")
    case True
    define n where "n = nat (min window (target - finished))"
    have n: "0 < n" "n \<le> nat (target - finished)" and ni: "min window (target - finished) = int n" using assms(2) True by (simp_all add: n_def)
    have b: "unat (sh_seq s) + 2 * n < 2 ^ 64" using n(2) less.prems(5) by linarith
    show ?thesis
    proof (rule flow_turn [OF assms(1) less.prems(1-3) b])
      fix s1 s2
      assume p: "preload env (int n) s = (int n, s1)" and d: "drain env (int n) s1 = (int n, s2)" and f: "flowing env ks s2" "rx_queue s2 = []" "ahead s2"
        and a: "advanced n s (s2\<lparr> sh_seq := sh_seq s + of_nat n \<rparr>)" and q: "unat (sh_seq s2) = unat (sh_seq s) + 2 * n"
      have m: "nat (target - (finished + int n)) < nat (target - finished)" "finished + int n \<le> target"
        "unat (sh_seq s2) + 2 * nat (target - (finished + int n)) < 2 ^ 64"
        using n less.prems(5) q by auto
      obtain s' where h: "hot_loop env window target (finished + int n) 0 s2 = Some s'"
        "st_packets (sh_st s') = st_packets (sh_st s2) + of_int (target - (finished + int n))"
        "st_auth_fail (sh_st s') = st_auth_fail (sh_st s2)" "st_replay_drop (sh_st s') = st_replay_drop (sh_st s2)"
        using less.hyps [OF m(1) f m(2,3), of 0] by blast
      have "hot_loop env window target finished guard s = Some s'"
        using p d n h(1) True by (subst hot_loop.simps) (simp add: ni)
      moreover have "st_packets (sh_st s') = st_packets (sh_st s) + of_int (target - finished)" using h(2) a by (simp add: advanced_def)
      ultimately show ?thesis using h(3,4) a by (simp add: advanced_def)
    qed
  next
    case False
    then show ?thesis using less.prems by (subst hot_loop.simps) simp
  qed
qed

lemma warm_up_flow:
  assumes "\<And>q. se_load env q = Queued" "0 < window"
  shows "flowing env ks s \<Longrightarrow> rx_queue s = [] \<Longrightarrow> ahead s \<Longrightarrow> unat (sh_seq s) + 2 * (nat window * n) < 2 ^ 64 \<Longrightarrow>
    \<exists>s'. warm_up env window n s = Some s' \<and> flowing env ks s' \<and> rx_queue s' = [] \<and> ahead s' \<and>
      unat (sh_seq s') = unat (sh_seq s) + 2 * (nat window * n)"
proof (induction n arbitrary: s)
  case (Suc n)
  have b: "unat (sh_seq s) + 2 * nat window < 2 ^ 64" using Suc.prems(4) by simp
  have w: "int (nat window) = window" using assms(2) by simp
  show ?case
  proof (rule flow_turn [OF assms(1) Suc.prems(1-3) b, unfolded w])
    fix s1 s2
    assume p: "preload env window s = (window, s1)" "drain env window s1 = (window, s2)"
      and f: "flowing env ks s2" "rx_queue s2 = []" "ahead s2" "unat (sh_seq s2) = unat (sh_seq s) + 2 * nat window"
    have "unat (sh_seq s2) + 2 * (nat window * n) < 2 ^ 64" using Suc.prems(4) f(4) by (simp add: algebra_simps)
    from Suc.IH [OF f(1-3) this] show ?case using p assms(2) f(4) by (auto simp: algebra_simps)
  qed
qed simp

lemma window_for_range: "32 \<le> window_for w" "window_for w \<le> 8192"
  by (simp_all add: window_for_def Let_def)

section \<open>Properties\<close>


lemma bench_shard_born: "\<exists>s os'. Shard env1 cfg1 bench_key os1 = (s, None, os')"
proof -
  have f: "for_epoch (KeySchedule model_hkdf (\<lambda>_ _. Some NullAead) x c n) 0 \<noteq> None" for x c n
    using keys1_live [of x c n] by (simp add: for_epoch_def)
  note d = Shard_def keyed_shard_def clamp_payload_def cfg1_def ShardConfig_def env1_def shard_open_def open_udp_def os1_def os0_def
    base_tc_def TransportConfig_def make_transport_def make_transport_posix_def lr_open_udp_socket_def sock_options_def
    LR_MAX_PAYLOAD_def LR_HDR_def LR_TAG_def shard_buffers_def lr_fill_peer_def Let_def
  show ?thesis using f by (simp add: d)
qed


end
