(* ===== verification/Experiments.thy ===== *)
theory Experiments
  imports Bench
begin

text \<open>
  The experiments that sweep a design in child processes: the cost model of \<open>exp_e1_cost_model.cpp\<close>
  (its units, the interleaved schedule, the anchor and the fragment), and the line fit shared by
  \<open>exp_controls.cpp\<close> and \<open>exp_e6_baseline.cpp\<close>.  A child is a
  process the shell starts: the \<open>k\<close>-th command gives the output and status \<open>popen k\<close>.
\<close>

section \<open>Child processes\<close>

type_synonym shell = "nat \<Rightarrow> string \<Rightarrow> (string \<times> int) option"

text \<open>What a measured unit gives: an error, or its cost, rate, backend and authentication failures.\<close>

type_synonym reading = "string + real \<times> real \<times> string option \<times> u64"

definition capture :: "shell \<Rightarrow> nat \<Rightarrow> string \<Rightarrow> string \<times> int" where
  "capture popen k cmd =
     (case popen k cmd of None \<Rightarrow> ([], - 1) | Some (out, r) \<Rightarrow> (out, if r = - 1 then - 1 else r div 256))"

definition spawn_unit ::
    "shell \<Rightarrow> cpu_arch \<Rightarrow> nat \<Rightarrow> string \<Rightarrow> string \<Rightarrow> bool \<Rightarrow> string" where
  "spawn_unit popen a k exe args hw_crypto = fst (capture popen k (unit_command a exe args hw_crypto))"

text \<open>The fragment an experiment writes: its members under its key, or the reason it has none.\<close>

definition fragment :: "(string \<times> jv) list \<Rightarrow> string \<Rightarrow> string + (string \<times> jv) list \<Rightarrow> writer" where
  "fragment env_members k r =
     (case r of
        Inl reason \<Rightarrow> unavailable_doc env_members k reason
      | Inr ms \<Rightarrow> obj_close (emit_jv (JObj ms) (key k (write_environment env_members (obj_open (Writer 2))))))"

definition nums :: "real list \<Rightarrow> int \<Rightarrow> jv" where
  "nums v prec = JArr (map (\<lambda>d. JNum (Some d) prec) v)"

definition real_v :: "real \<Rightarrow> int \<Rightarrow> jv" where
  "real_v v prec = JNum (Some v) prec"

section \<open>The line fit\<close>

definition fit_line :: "real list \<Rightarrow> real list \<Rightarrow> real \<times> real" where
  "fit_line x y =
     (let n = length x
      in if n < 2 then (0, 0)
      else let sx = (\<Sum>i<n. x ! i); sy = (\<Sum>i<n. y ! i); sxx = (\<Sum>i<n. x ! i * x ! i); sxy = (\<Sum>i<n. x ! i * y ! i);
               d = real n * sxx - sx * sx
      in if d = 0 then (0, 0)
      else let b = (real n * sxy - sx * sy) / d
      in ((sy - b * sx) / real n, b))"

text \<open>The sum of squared residuals of the line \<open>a + b x\<close>.\<close>

definition sse :: "real list \<Rightarrow> real list \<Rightarrow> real \<Rightarrow> real \<Rightarrow> real" where
  "sse x y a b = (\<Sum>i<length x. (y ! i - (a + b * x ! i))\<^sup>2)"

section \<open>E1: the design\<close>

record e1_unit =
  eu_payload :: nat
  eu_cipher :: string
  eu_hw_crypto :: bool

record point =
  pt_unit :: e1_unit
  pt_cycles :: "real list"
  pt_pps :: "real list"
  pt_summary :: summary
  pt_aead_backend :: string
  pt_source :: string
  pt_auth_fail :: u64
  pt_error :: string

definition Point :: "e1_unit \<Rightarrow> point" where
  "Point u = \<lparr> pt_unit = u, pt_cycles = [], pt_pps = [], pt_summary = Summary, pt_aead_backend = [], pt_source = ''loopback'',
     pt_auth_fail = 0, pt_error = [] \<rparr>"

definition e1_args :: "run_ctx \<Rightarrow> e1_unit \<Rightarrow> string" where
  "e1_args ctx u = take 511 (''e1-unit --cipher='' @ eu_cipher u @ '' --payload='' @ show_nat (eu_payload u) @
     '' --packets='' @ show_int (rc_target_packets ctx) @ '' --warmup='' @ show_int (rc_warmup_cycles ctx))"

definition measure_unit ::
    "shell \<Rightarrow> cpu_arch \<Rightarrow> run_ctx \<Rightarrow> nat \<Rightarrow> e1_unit \<Rightarrow> reading" where
  "measure_unit popen a ctx k u = read_unit (eu_hw_crypto u) (spawn_unit popen a k (rc_exe ctx) (e1_args ctx u) (eu_hw_crypto u))"

definition hw_levels :: "cpu_arch \<Rightarrow> caps \<Rightarrow> bool list" where
  "hw_levels a c = (if c_hw_aes c \<and> hw_crypto_mask_var a \<noteq> [] then [True, False] else [True])"

definition e1_units :: "bool list \<Rightarrow> string list \<Rightarrow> nat list \<Rightarrow> e1_unit list" where
  "e1_units hws ciphers payloads =
     concat (map (\<lambda>hw. concat (map (\<lambda>c. map (\<lambda>p. \<lparr> eu_payload = p, eu_cipher = c, eu_hw_crypto = hw \<rparr>) payloads) ciphers)) hws)"

definition e1_jobs :: "nat \<Rightarrow> int \<Rightarrow> (nat \<times> nat) list" where
  "e1_jobs n reps = concat (map (\<lambda>i. map (\<lambda>r. (i, r)) [0..<nat reps]) [0..<n])"

section \<open>E1: the sweep\<close>

definition e1_job ::
    "(nat \<Rightarrow> e1_unit \<Rightarrow> reading) \<Rightarrow> nat \<times> nat \<Rightarrow> nat \<times> nat \<times> point list \<Rightarrow> nat \<times> nat \<times> point list" where
  "e1_job meas j st =
     (case st of (k, failed, points) \<Rightarrow>
      let i = fst j; pt = points ! i
      in case meas k (pt_unit pt) of
           Inr (c, p, b, af) \<Rightarrow>
             (Suc k, failed, points[i := pt\<lparr> pt_cycles := pt_cycles pt @ [c], pt_pps := pt_pps pt @ [p],
                pt_aead_backend := (case b of None \<Rightarrow> [] | Some s \<Rightarrow> s), pt_auth_fail := pt_auth_fail pt + af \<rparr>])
         | Inl e \<Rightarrow> (Suc k, Suc failed, points[i := pt\<lparr> pt_error := e \<rparr>]))"

definition e1_sweep ::
    "(nat \<Rightarrow> e1_unit \<Rightarrow> reading) \<Rightarrow> (nat \<times> nat) list \<Rightarrow> e1_unit list \<Rightarrow> nat \<Rightarrow> nat \<times> nat \<times> point list" where
  "e1_sweep meas jobs units k = fold (e1_job meas) jobs (k, 0, map Point units)"

text \<open>The anchor: the median of several units of one configuration; the first failure ends it.\<close>

definition anchor :: e1_unit where
  "anchor = \<lparr> eu_payload = 512, eu_cipher = ''aes-256-gcm'', eu_hw_crypto = True \<rparr>"

definition anchor_n :: "run_ctx \<Rightarrow> int" where
  "anchor_n ctx = max 3 (rc_reps ctx div 2)"

fun anchor_loop ::
    "(nat \<Rightarrow> e1_unit \<Rightarrow> reading) \<Rightarrow> nat \<Rightarrow> nat \<Rightarrow> real list \<Rightarrow> (string + real) \<times> nat" where
  "anchor_loop meas 0 k v = (Inr (median v), k)"
| "anchor_loop meas (Suc n) k v =
     (case meas k anchor of
        Inl e \<Rightarrow> (Inl e, Suc k)
      | Inr (c, p, b, af) \<Rightarrow> anchor_loop meas n (Suc k) (v @ [c]))"

definition drift :: "real \<Rightarrow> real \<Rightarrow> real" where
  "drift before after = (if before > 0 then \<bar>after - before\<bar> / before else 1)"

definition summarised :: "(u64 \<Rightarrow> nat \<Rightarrow> nat \<Rightarrow> nat) \<Rightarrow> run_ctx \<Rightarrow> point \<Rightarrow> point" where
  "summarised draws ctx pt =
     (if pt_cycles pt \<noteq> [] then pt\<lparr> pt_summary := summarise draws (pt_cycles pt) (rc_cv_threshold ctx) (rc_seed ctx) \<rparr> else pt)"

definition point_members :: "point \<Rightarrow> (string \<times> jv) list" where
  "point_members pt =
     [(''payload_bytes'', JInt (int (eu_payload (pt_unit pt)))), (''cipher'', JStr (eu_cipher (pt_unit pt))),
      (''cipher_family'', JStr (if aead_is_local (eu_cipher (pt_unit pt)) then ''linerate'' else ''openssl'')),
      (''hw_crypto'', JBool (eu_hw_crypto (pt_unit pt))), (''aead_backend'', JStr (pt_aead_backend pt)),
      (''n'', JInt (int (length (pt_cycles pt)))), (''cycles_median'', real_v (sm_median (pt_summary pt)) 3),
      (''cycles_ci_lo'', real_v (sm_ci_lo (pt_summary pt)) 3), (''cycles_ci_hi'', real_v (sm_ci_hi (pt_summary pt)) 3),
      (''cycles_cv'', real_v (sm_cv (pt_summary pt)) 5), (''stable'', JBool (sm_stable (pt_summary pt))),
      (''pps_median'', real_v (if pt_pps pt = [] then 0 else median (pt_pps pt)) 1), (''auth_fail'', long_long (pt_auth_fail pt)),
      (''cycles_replicates'', nums (pt_cycles pt) 3), (''error'', JStr (pt_error pt))]"

definition e1_members :: "run_ctx \<Rightarrow> bool \<Rightarrow> real \<Rightarrow> real \<Rightarrow> nat \<Rightarrow> string list \<Rightarrow> nat list \<Rightarrow> point list \<Rightarrow> (string \<times> jv) list" where
  "e1_members ctx quick before after failed ciphers payloads points =
     [(''available'', JBool True), (''quick'', JBool quick), (''anchor_cycles_before'', real_v before 2), (''anchor_cycles_after'', real_v after 2),
      (''anchor_drift'', real_v (drift before after) 5), (''anchor_ok'', JBool (drift before after \<le> rc_anchor_tol ctx)),
      (''anchor_replicates'', JInt (anchor_n ctx)), (''failed_units'', JInt (int failed)), (''interleaved'', JBool True),
      (''source'', JStr ''loopback''), (''ciphers_swept'', strs ciphers), (''payloads_swept'', nums (map real payloads) 0),
      (''points'', JArr (map (JObj \<circ> point_members) points))]"

text \<open>The order in which the jobs run is \<open>shuf\<close>, the seeded shuffle of the standard library.\<close>

definition run_e1 ::
    "shell \<Rightarrow> (u64 \<Rightarrow> nat \<Rightarrow> nat \<Rightarrow> nat) \<Rightarrow> (u64 \<Rightarrow> (nat \<times> nat) list \<Rightarrow> (nat \<times> nat) list) \<Rightarrow>
     cpu_arch \<Rightarrow> caps \<Rightarrow> run_ctx \<Rightarrow> string list \<Rightarrow> string + (string \<times> jv) list" where
  "run_e1 popen draws shuf a c ctx argv =
     (case measurement_permitted c of Some why \<Rightarrow> Inl why
      | None \<Rightarrow>
        let quick = arg_has argv ''quick'';
            payloads = (if quick then [64, 256, 512, 1024, 1432] else kPayloads);
            ciphers = (if quick then [''aes-256-gcm'', ''lr-aes-256-gcm''] else kCiphers);
            units = e1_units (hw_levels a c) ciphers payloads;
            jobs = shuf (rc_seed ctx) (e1_jobs (length units) (rc_reps ctx));
            meas = measure_unit popen a ctx; n = nat (anchor_n ctx)
        in case anchor_loop meas n 0 [] of
             (Inl e, k) \<Rightarrow> Inl (''anchor measurement failed: '' @ e)
           | (Inr before, k) \<Rightarrow>
             (case e1_sweep meas jobs units k of (k, failed, points) \<Rightarrow>
              (case anchor_loop meas n k [] of
                 (Inl e, k) \<Rightarrow> Inl (''closing anchor measurement failed: '' @ e)
               | (Inr after, k) \<Rightarrow>
                 Inr (e1_members ctx quick before after failed ciphers payloads (map (summarised draws ctx) points)))))"

section \<open>The fit is the least-squares line\<close>

lemma fit_line_normal:
  assumes "fit_line x y = (a, b)" "n = length x" "2 \<le> n" "real n * (\<Sum>i<n. x ! i * x ! i) \<noteq> (\<Sum>i<n. x ! i) * (\<Sum>i<n. x ! i)"
  shows "(\<Sum>i<n. y ! i) = real n * a + b * (\<Sum>i<n. x ! i)"
    "(\<Sum>i<n. x ! i * y ! i) = a * (\<Sum>i<n. x ! i) + b * (\<Sum>i<n. x ! i * x ! i)"
proof -
  let ?sx = "\<Sum>i<n. x ! i" and ?sy = "\<Sum>i<n. y ! i" and ?sxx = "\<Sum>i<n. x ! i * x ! i" and ?sxy = "\<Sum>i<n. x ! i * y ! i"
  let ?d = "real n * ?sxx - ?sx * ?sx"
  have d: "?d \<noteq> 0" and n: "real n \<noteq> 0" using assms(3,4) by simp_all
  have "fit_line x y = ((?sy - (real n * ?sxy - ?sx * ?sy) / ?d * ?sx) / real n, (real n * ?sxy - ?sx * ?sy) / ?d)"
    using assms(2,3) d unfolding fit_line_def Let_def by (simp split: if_splits)
  then have b: "b = (real n * ?sxy - ?sx * ?sy) / ?d" and a: "a = (?sy - b * ?sx) / real n" using assms(1) by simp_all
  show y: "?sy = real n * a + b * ?sx" using a n by simp
  have "b * ?d = real n * ?sxy - ?sx * ?sy" using b d by simp
  then have "real n * ?sxy = real n * (b * ?sxx) + ?sx * (?sy - b * ?sx)" by (simp add: algebra_simps)
  also have "?sy - b * ?sx = real n * a" using y by simp
  also have "real n * (b * ?sxx) + ?sx * (real n * a) = real n * (a * ?sx + b * ?sxx)" by (simp add: algebra_simps)
  finally show "?sxy = a * ?sx + b * ?sxx" using n by simp
qed

lemma spread_positive:
  assumes "n = length x" "i < n" "j < n" "x ! i \<noteq> x ! j"
  shows "real n * (\<Sum>i<n. x ! i * x ! i) \<noteq> (\<Sum>i<n. x ! i) * (\<Sum>i<n. (x :: real list) ! i)"
proof
  let ?sx = "\<Sum>i<n. x ! i" and ?sxx = "\<Sum>i<n. x ! i * x ! i"
  assume e: "real n * ?sxx = ?sx * ?sx"
  have n: "real n > 0" using assms(2) by simp
  define m where "m = ?sx / real n"
  have m: "real n * m = ?sx" using n by (simp add: m_def)
  have "(\<Sum>i<n. (x ! i - m)\<^sup>2) = ?sxx - 2 * m * ?sx + real n * m * m"
    by (simp add: power2_eq_square algebra_simps sum.distrib sum_subtractf sum_distrib_left)
  also have "real n * (\<dots>) = real n * ?sxx - 2 * (real n * m) * ?sx + (real n * m) * (real n * m)" by (simp add: algebra_simps)
  also have "\<dots> = 0" using e by (simp add: m)
  finally have "(\<Sum>i<n. (x ! i - m)\<^sup>2) = 0" using n by simp
  then have "x ! k = m" if "k < n" for k using that by (subst (asm) sum_nonneg_eq_0_iff) auto
  then show False using assms by simp
qed

lemma sum_combine:
  "(\<Sum>i<n. f i - c * g i - d * h i + q i) = (\<Sum>i<n. f i) - c * (\<Sum>i<n. g i) - d * (\<Sum>i<n. h i) + (\<Sum>i<(n :: nat). q i :: real)"
  by (simp add: sum.distrib sum_subtractf sum_distrib_left)

text \<open>Moving away from the fitted line adds the squared distance between the two lines.\<close>

lemma sse_split:
  assumes "fit_line x y = (a, b)" "n = length x" "2 \<le> n" "real n * (\<Sum>i<n. x ! i * x ! i) \<noteq> (\<Sum>i<n. x ! i) * (\<Sum>i<n. x ! i)"
  shows "sse x y a' b' = sse x y a b + (\<Sum>i<n. ((a' - a) + (b' - b) * x ! i)\<^sup>2)"
proof -
  note e = fit_line_normal [OF assms]
  let ?r = "\<lambda>i. y ! i - (a + b * x ! i)" and ?q = "\<lambda>i. (a' - a) + (b' - b) * x ! i"
  have r0: "(\<Sum>i<n. ?r i) = 0" using e(1) by (simp add: sum_subtractf sum.distrib sum_distrib_left)
  have r1: "(\<Sum>i<n. x ! i * ?r i) = 0"
    using e(2) by (simp add: right_diff_distrib distrib_left sum_subtractf sum.distrib sum_distrib_left mult.left_commute mult.commute)
  have "sse x y a' b' = (\<Sum>i<n. (?r i - ?q i)\<^sup>2)" unfolding sse_def assms(2) [symmetric] by (rule sum.cong) (simp_all add: algebra_simps)
  also have "\<dots> = (\<Sum>i<n. (?r i)\<^sup>2 - 2 * (a' - a) * ?r i - 2 * (b' - b) * (x ! i * ?r i) + (?q i)\<^sup>2)"
    by (rule sum.cong) (simp_all add: power2_eq_square algebra_simps)
  also have "\<dots> = (\<Sum>i<n. (?r i)\<^sup>2) - 2 * (a' - a) * (\<Sum>i<n. ?r i) - 2 * (b' - b) * (\<Sum>i<n. x ! i * ?r i) + (\<Sum>i<n. (?q i)\<^sup>2)"
    by (rule sum_combine)
  finally show ?thesis using r0 r1 by (simp add: sse_def assms(2))
qed

lemma line_zero:
  assumes "(\<Sum>i<n. (c + d * x ! i)\<^sup>2) = 0" "i < n" "j < n" "x ! i \<noteq> (x ! j :: real)"
  shows "c = 0 \<and> d = 0"
proof -
  have z: "c + d * x ! k = 0" if "k < n" for k using assms(1) that by (subst (asm) sum_nonneg_eq_0_iff) auto
  have "d * (x ! i - x ! j) = (c + d * x ! i) - (c + d * x ! j)" by (simp add: algebra_simps)
  then have "d = 0" using z [OF assms(2)] z [OF assms(3)] assms(4) by simp
  then show ?thesis using z [OF assms(2)] by simp
qed

lemma length_two: "i < length x \<Longrightarrow> j < length x \<Longrightarrow> x ! i \<noteq> x ! j \<Longrightarrow> 2 \<le> length x"
  by (cases "i = j") auto

section \<open>Every job of the sweep runs once\<close>

text \<open>The costs read for unit \<open>i\<close> while \<open>jobs\<close> run, the first of them in the \<open>k\<close>-th process.\<close>

fun reads :: "(nat \<Rightarrow> e1_unit \<Rightarrow> reading) \<Rightarrow> e1_unit \<Rightarrow> nat \<Rightarrow> nat \<Rightarrow> (nat \<times> nat) list \<Rightarrow> real list" where
  "reads meas u i k [] = []"
| "reads meas u i k (j # js) =
     (if fst j = i then (case meas k u of Inr (c, p, b, af) \<Rightarrow> [c] | Inl e \<Rightarrow> []) else []) @ reads meas u i (Suc k) js"

definition n_costs :: "point list \<Rightarrow> nat" where
  "n_costs pts = sum_list (map (length \<circ> pt_cycles) pts)"

lemma n_costs_update:
  "i < length pts \<Longrightarrow> n_costs (pts[i := p]) + length (pt_cycles (pts ! i)) = n_costs pts + length (pt_cycles p)"
  unfolding n_costs_def using elem_le_sum_list [of i "map (length \<circ> pt_cycles) pts"]
  by (simp add: map_update sum_list_update)

lemma e1_job_step:
  assumes "e1_job meas j (k, failed, pts) = (k', failed', pts')" "fst j < length pts"
  shows "k' = Suc k" "length pts' = length pts" "failed' + n_costs pts' = Suc (failed + n_costs pts)"
    "i < length pts \<Longrightarrow> pt_unit (pts' ! i) = pt_unit (pts ! i)"
    "i < length pts \<Longrightarrow> pt_cycles (pts' ! i) = pt_cycles (pts ! i) @ reads meas (pt_unit (pts ! i)) i k [j]"
proof -
  let ?pt = "pts ! fst j"
  have m: "(\<exists>e. meas k (pt_unit ?pt) = Inl e \<and> k' = Suc k \<and> failed' = Suc failed \<and> pts' = pts[fst j := ?pt\<lparr> pt_error := e \<rparr>]) \<or>
     (\<exists>c p b af q. meas k (pt_unit ?pt) = Inr (c, p, b, af) \<and> k' = Suc k \<and> failed' = failed \<and> pts' = pts[fst j := q] \<and>
        pt_unit q = pt_unit ?pt \<and> pt_cycles q = pt_cycles ?pt @ [c])"
  proof (cases "meas k (pt_unit ?pt)")
    case (Inl e)
    then show ?thesis using assms(1) by (simp add: e1_job_def Let_def)
  next
    case (Inr z)
    obtain c p b af where "z = (c, p, b, af)" by (cases z)
    then show ?thesis using assms(1) Inr by (intro disjI2) (auto simp: e1_job_def Let_def)
  qed
  show "k' = Suc k" "length pts' = length pts" using m by auto
  show "failed' + n_costs pts' = Suc (failed + n_costs pts)" using m
  proof (elim disjE exE conjE)
    fix e assume "failed' = Suc failed" "pts' = pts[fst j := ?pt\<lparr> pt_error := e \<rparr>]"
    then show ?thesis using n_costs_update [OF assms(2), of "?pt\<lparr> pt_error := e \<rparr>"] by simp
  next
    fix c q assume "failed' = failed" "pts' = pts[fst j := q]" "pt_cycles q = pt_cycles ?pt @ [c]"
    then show ?thesis using n_costs_update [OF assms(2), of q] by simp
  qed
  show "i < length pts \<Longrightarrow> pt_unit (pts' ! i) = pt_unit (pts ! i)"
    "i < length pts \<Longrightarrow> pt_cycles (pts' ! i) = pt_cycles (pts ! i) @ reads meas (pt_unit (pts ! i)) i k [j]"
    using m assms(2) by (auto simp: nth_list_update split: if_splits)
qed

lemma e1_fold:
  assumes "fold (e1_job meas) jobs (k, failed, pts) = (k', failed', pts')" "\<forall>j \<in> set jobs. fst j < length pts"
  shows "k' = k + length jobs \<and> length pts' = length pts \<and> failed' + n_costs pts' = failed + n_costs pts + length jobs \<and>
    (\<forall>i < length pts. pt_unit (pts' ! i) = pt_unit (pts ! i) \<and>
       pt_cycles (pts' ! i) = pt_cycles (pts ! i) @ reads meas (pt_unit (pts ! i)) i k jobs)"
  using assms
proof (induction jobs arbitrary: k failed pts)
  case (Cons j js)
  obtain k1 f1 p1 where 1: "e1_job meas j (k, failed, pts) = (k1, f1, p1)" by (metis prod_cases3)
  have j: "fst j < length pts" using Cons.prems(2) by simp
  note s = e1_job_step [OF 1 j]
  have r: "reads meas u i k (j # js) = reads meas u i k [j] @ reads meas u i (Suc k) js" for u i by simp
  have "fold (e1_job meas) js (k1, f1, p1) = (k', failed', pts')" "\<forall>j \<in> set js. fst j < length p1"
    using Cons.prems 1 s(2) by simp_all
  from Cons.IH [OF this] show ?case using s unfolding r by (simp del: reads.simps)
qed simp

lemma e1_jobs_length: "length (e1_jobs n reps) = n * nat reps"
  by (induction n) (simp_all add: e1_jobs_def)

lemma e1_jobs_set: "j \<in> set (e1_jobs n reps) \<longleftrightarrow> fst j < n \<and> snd j < nat reps"
  by (cases j) (auto simp: e1_jobs_def image_iff)

lemma e1_jobs_count: "i < n \<Longrightarrow> length (filter (\<lambda>j. fst j = i) (e1_jobs n reps)) = nat reps"
proof (induction n)
  case (Suc n)
  have e: "e1_jobs (Suc n) reps = e1_jobs n reps @ map (Pair n) [0..<nat reps]" by (simp add: e1_jobs_def)
  have "filter (\<lambda>j. fst j = n) (e1_jobs n reps) = []" by (auto simp: filter_empty_conv e1_jobs_set)
  then show ?case using Suc by (cases "i = n") (auto simp: e filter_map o_def)
qed simp

lemma reads_length:
  "length (reads meas u i k jobs) \<le> length (filter (\<lambda>j. fst j = i) jobs)"
  "(\<And>k. isl (meas k u) = False) \<Longrightarrow> length (reads meas u i k jobs) = length (filter (\<lambda>j. fst j = i) jobs)"
  by (induction jobs arbitrary: k) (auto simp: isl_def le_SucI split: sum.splits prod.splits)

section \<open>Properties\<close>

lemma fit_line_facts:
  assumes "i < length x" "j < length x" "x ! i \<noteq> x ! j"
  shows "sse x y (fst (fit_line x y)) (snd (fit_line x y)) \<le> sse x y a' b'"
    "sse x y a' b' \<le> sse x y (fst (fit_line x y)) (snd (fit_line x y)) \<Longrightarrow> (a', b') = fit_line x y"
    "sse x y a' b' = 0 \<Longrightarrow> fit_line x y = (a', b')"
proof -
  obtain a b where f: "fit_line x y = (a, b)" by force
  have d: "real (length x) * (\<Sum>i<length x. x ! i * x ! i) \<noteq> (\<Sum>i<length x. x ! i) * (\<Sum>i<length x. x ! i)"
    by (rule spread_positive [OF refl assms])
  note s = sse_split [OF f refl length_two [OF assms] d, of a' b']
  have q: "0 \<le> (\<Sum>i<length x. ((a' - a) + (b' - b) * x ! i)\<^sup>2)" by (intro sum_nonneg) simp
  then show "sse x y (fst (fit_line x y)) (snd (fit_line x y)) \<le> sse x y a' b'" unfolding f s by simp
  have u: "(a', b') = (a, b)" if "sse x y a' b' \<le> sse x y a b"
  proof -
    have "(\<Sum>i<length x. ((a' - a) + (b' - b) * x ! i)\<^sup>2) = 0" using that q s by simp
    from line_zero [OF this assms] show ?thesis by simp
  qed
  then show "sse x y a' b' \<le> sse x y (fst (fit_line x y)) (snd (fit_line x y)) \<Longrightarrow> (a', b') = fit_line x y"
    unfolding f by simp
  have "0 \<le> sse x y a b" unfolding sse_def by (intro sum_nonneg) simp
  then show "sse x y a' b' = 0 \<Longrightarrow> fit_line x y = (a', b')" using u f by simp
qed

text \<open>
  C35. The fit of the controls and of the baseline experiment is the least-squares line: on samples whose
  abscissae are not all equal it minimises the sum of squared residuals over every line, it is the only
  line that does, and samples on a line give that line back.
\<close>

theorem fit_line_least_squares:
  assumes "i < length x" "j < length x" "x ! i \<noteq> x ! j"
  shows "(\<forall>a' b'. sse x y (fst (fit_line x y)) (snd (fit_line x y)) \<le> sse x y a' b') \<and>
    (\<forall>a' b'. sse x y a' b' \<le> sse x y (fst (fit_line x y)) (snd (fit_line x y)) \<longrightarrow> (a', b') = fit_line x y) \<and>
    (\<forall>a b. sse x y a b = 0 \<longrightarrow> fit_line x y = (a, b))"
  using fit_line_facts [OF assms] by blast

theorem fit_line_least_squares_witness:
  "fit_line [64, 512, 1432] [164, 612, 1532] = (100, 1)"
  using fit_line_least_squares [of 0 "[64, 512, 1432]" 1 "[164, 612, 1532]"]
  by (simp add: sse_def lessThan_nat_numeral lessThan_Suc)

lemma e1_sweep_facts:
  assumes "mset jobs = mset (e1_jobs (length units) reps)" "e1_sweep meas jobs units k = (k', failed, pts)" "i < length units"
  shows "k' = k + length units * nat reps" "length pts = length units" "failed + n_costs pts = length units * nat reps"
    "pt_unit (pts ! i) = units ! i" "length (filter (\<lambda>j. fst j = i) jobs) = nat reps"
    "pt_cycles (pts ! i) = reads meas (units ! i) i k jobs" "length (pt_cycles (pts ! i)) \<le> nat reps"
    "(\<And>k. \<not> isl (meas k (units ! i))) \<Longrightarrow> length (pt_cycles (pts ! i)) = nat reps"
proof -
  have n: "length jobs = length units * nat reps" using mset_eq_length [OF assms(1)] by (simp add: e1_jobs_length)
  have c: "mset (filter P jobs) = mset (filter P (e1_jobs (length units) reps))" for P using assms(1) by simp
  have "\<forall>j \<in> set jobs. fst j < length units" using mset_eq_setD [OF assms(1)] by (auto simp: e1_jobs_set)
  then have f: "k' = k + length jobs \<and> length pts = length units \<and> failed + n_costs pts = n_costs (map Point units) + length jobs \<and>
      (\<forall>i < length units. pt_unit (pts ! i) = units ! i \<and> pt_cycles (pts ! i) = reads meas (units ! i) i k jobs)"
    using e1_fold [OF assms(2) [unfolded e1_sweep_def]] by (simp add: Point_def)
  then show "k' = k + length units * nat reps" "length pts = length units" "pt_unit (pts ! i) = units ! i"
    "pt_cycles (pts ! i) = reads meas (units ! i) i k jobs" using n assms(3) by simp_all
  have "n_costs (map Point units) = 0" by (simp add: n_costs_def Point_def o_def)
  then show "failed + n_costs pts = length units * nat reps" using f n by simp
  show r: "length (filter (\<lambda>j. fst j = i) jobs) = nat reps"
    using mset_eq_length [OF c] e1_jobs_count [OF assms(3)] by metis
  show "length (pt_cycles (pts ! i)) \<le> nat reps" "(\<And>k. \<not> isl (meas k (units ! i))) \<Longrightarrow> length (pt_cycles (pts ! i)) = nat reps"
    using f reads_length [where meas = meas and u = "units ! i" and i = i] assms(3) r by metis+
qed

text \<open>
  C34. Whatever order the seeded shuffle gives, the sweep runs every replicate of every unit once: it
  starts as many processes as the design has jobs, each point keeps its unit, exactly \<open>reps\<close> of the jobs
  are its own, the costs it holds are the readings of those jobs in the order they ran, and the costs of
  all points and the failed jobs add up to the whole design; when no measurement of a unit fails, its
  point has \<open>reps\<close> replicates.
\<close>

theorem e1_sweep_complete:
  assumes "mset jobs = mset (e1_jobs (length units) reps)" "e1_sweep meas jobs units k = (k', failed, pts)"
  shows "k' = k + length units * nat reps \<and> length pts = length units \<and> failed + n_costs pts = length units * nat reps \<and>
    (\<forall>i < length units. pt_unit (pts ! i) = units ! i \<and> length (filter (\<lambda>j. fst j = i) jobs) = nat reps \<and>
       pt_cycles (pts ! i) = reads meas (units ! i) i k jobs \<and>
       ((\<forall>k. \<not> isl (meas k (units ! i))) \<longrightarrow> length (pt_cycles (pts ! i)) = nat reps))"
proof -
  have "k' = k + length units * nat reps \<and> length pts = length units \<and> failed + n_costs pts = length units * nat reps"
  proof (cases "length units")
    case 0
    then show ?thesis using assms by (simp add: e1_jobs_def e1_sweep_def n_costs_def)
  next
    case (Suc m)
    then show ?thesis using e1_sweep_facts(1-3) [OF assms, of 0] by simp
  qed
  then show ?thesis using e1_sweep_facts(4,5,6,8) [OF assms] by blast
qed

theorem e1_sweep_complete_witness:
  "length (pt_cycles (snd (snd (e1_sweep (\<lambda>k u. Inr (real k, 0, None, 0)) [(1, 0), (0, 1), (1, 1), (0, 0)] [anchor, anchor] 0)) ! 1)) = 2"
proof -
  let ?m = "\<lambda>k (u :: e1_unit). Inr (real k, 0, None, 0) :: reading"
  obtain k' f pts where e: "e1_sweep ?m [(1, 0), (0, 1), (1, 1), (0, 0)] [anchor, anchor] 0 = (k', f, pts)" by (metis prod_cases3)
  have j: "mset [(1, 0), (0, 1), (1, 1), (0, 0)] = mset (e1_jobs (length [anchor, anchor]) 2)"
    by (simp add: e1_jobs_def upt_rec)
  show ?thesis unfolding e using e1_sweep_complete [OF j e] by simp
qed

end
