(* ===== verification/Controls.thy ===== *)
theory Controls
  imports Experiments
begin

text \<open>
  The controls of \<open>src/src/bench/exp_controls.cpp\<close>: the unit process, the fit of one cipher over child
  processes, the five controls with their verdicts, and the fragment.
\<close>

section \<open>The unit process\<close>

definition controls_cfg :: "string list \<Rightarrow> shard_config" where
  "controls_cfg argv = ShardConfig\<lparr> sc_cipher := arg_str argv ''cipher'' ''aes-256-gcm'',
     sc_payload := unat (of_int (arg_int argv ''payload'' 512) :: u64), sc_replay := \<not> arg_has argv ''no-replay'' \<rparr>"

definition controls_report_members :: "bool \<Rightarrow> hotpath_result \<Rightarrow> (string \<times> jv) list" where
  "controls_report_members masked r =
     [(''ok'', JBool (hr_ok r)), (''cycles_per_packet'', real_v (hr_cycles_per_packet r) 3), (''pps'', real_v (hr_pps r) 1),
      (''aead_backend'', JStr (hr_aead_backend r)), (''hw_crypto_masked'', JBool masked), (''error'', JStr (hr_error r))]"

definition controls_report :: "bool \<Rightarrow> hotpath_result \<Rightarrow> string" where
  "controls_report masked r = w_out (emit_jv (JObj (controls_report_members masked r)) (Writer 2)) @ [c_nl]"

definition run_controls_unit :: "shard_env \<Rightarrow> simd_state \<Rightarrow> bool \<Rightarrow> string list \<Rightarrow> os \<Rightarrow> (string \<times> int) option" where
  "run_controls_unit env simd masked argv os =
     map_option (\<lambda>r. (controls_report masked r, if hr_ok r then 0 else 1))
       (run_hotpath env simd (controls_cfg argv) (c_int (arg_int argv ''packets'' 30000)) (c_int (arg_int argv ''warmup'' 3)) os)"

section \<open>The fit of one cipher\<close>

definition controls_args :: "run_ctx \<Rightarrow> string \<Rightarrow> nat \<Rightarrow> string" where
  "controls_args ctx cipher s = take 255 (''controls-unit --cipher='' @ cipher @ '' --payload='' @ show_nat s @
     '' --packets='' @ show_int (rc_target_packets ctx) @ '' --warmup='' @ show_int (rc_warmup_cycles ctx))"

definition unit_error :: "string \<Rightarrow> string" where
  "unit_error js = (case unit_string js ''error'' of Some (c # cs) \<Rightarrow> c # cs | _ \<Rightarrow> ''unit produced no result'')"

fun fit_loop :: "(nat \<Rightarrow> nat \<Rightarrow> string) \<Rightarrow> nat list \<Rightarrow> nat \<Rightarrow> real list \<Rightarrow> real list \<Rightarrow> (string + real \<times> real) \<times> nat" where
  "fit_loop child [] k x y = (Inr (fit_line x y), k)"
| "fit_loop child (s # ss) k x y =
     (let js = child k s
      in if zero_or (unit_field js ''ok'') = 0 then (Inl (unit_error js), Suc k)
         else fit_loop child ss (Suc k) (x @ [real s]) (y @ [zero_or (unit_field js ''cycles_per_packet'')]))"

definition fit_cipher ::
    "shell \<Rightarrow> cpu_arch \<Rightarrow> run_ctx \<Rightarrow> string \<Rightarrow> bool \<Rightarrow> nat list \<Rightarrow> nat \<Rightarrow> (string + real \<times> real) \<times> nat" where
  "fit_cipher popen a ctx cipher hw payloads k =
     fit_loop (\<lambda>k s. spawn_unit popen a k (rc_exe ctx) (controls_args ctx cipher s) hw) payloads k [] []"

section \<open>The controls\<close>

record control =
  ct_name :: string
  ct_prediction :: string
  ct_outcome :: string
  ct_observed :: real
  ct_reference :: real
  ct_ratio :: real
  ct_passed :: bool
  ct_ran :: bool
  ct_error :: string

definition Control :: "string \<Rightarrow> string \<Rightarrow> control" where
  "Control name prediction = \<lparr> ct_name = name, ct_prediction = prediction, ct_outcome = [], ct_observed = 0, ct_reference = 0, ct_ratio = 0,
     ct_passed = False, ct_ran = False, ct_error = [] \<rparr>"

text \<open>The coefficients a fit leaves in its out parameters, zero when it failed.\<close>

definition fit_a :: "string + real \<times> real \<Rightarrow> real" where
  "fit_a f = (case f of Inl e \<Rightarrow> 0 | Inr (a, b) \<Rightarrow> a)"

definition fit_b :: "string + real \<times> real \<Rightarrow> real" where
  "fit_b f = (case f of Inl e \<Rightarrow> 0 | Inr (a, b) \<Rightarrow> b)"

definition b_identifiable :: "real \<Rightarrow> real \<Rightarrow> nat list \<Rightarrow> bool" where
  "b_identifiable a b payloads \<longleftrightarrow> a > 0 \<and> b * real (last payloads) > 10 / 100 * a"

definition null_outcome :: "real \<Rightarrow> real \<Rightarrow> real \<Rightarrow> real \<Rightarrow> bool \<Rightarrow> string" where
  "null_outcome na nb aa ab ident =
     take 399 (''null a='' @ show_fixed 1 na @ '' b='' @ show_fixed 4 nb @ '' against aead a='' @ show_fixed 1 aa @ '' b='' @ show_fixed 4 ab @
       ''; the difference in a, '' @ show_fixed 1 (aa - na) @ '' cycles, is the AEAD'' @ [CHR 0x27] @ ''s own per-packet cost. '' @
       (if ident then ''The per-byte terms are separately identifiable here and were compared.''
        else ''The per-byte term contributes under a tenth of the fixed cost even at the largest payload, so b is not separately '' @
             ''identifiable on this host and was not compared.''))"

definition null_control :: "string + real \<times> real \<Rightarrow> string + real \<times> real \<Rightarrow> nat list \<Rightarrow> control" where
  "null_control aes null_fit payloads =
     (let c = Control ''null cipher removes the cryptographic cost''
                (''fixed cost a falls below the AEAD fixed cost; per-byte '' @ ''cost b falls to roughly the cost of two memory passes'')
      in case (aes, null_fit) of
           (Inl err, _) \<Rightarrow> c\<lparr> ct_error := err \<rparr>
         | (Inr _, Inl err) \<Rightarrow> c\<lparr> ct_error := err \<rparr>
         | (Inr (aa, ab), Inr (na, nb)) \<Rightarrow>
           let ident = b_identifiable aa ab payloads
           in c\<lparr> ct_ran := True, ct_observed := na, ct_reference := aa, ct_ratio := (if aa > 0 then na / aa else 0),
                  ct_passed := na < aa \<and> (\<not> ident \<or> nb < ab), ct_outcome := null_outcome na nb aa ab ident \<rparr>)"

definition mask_control :: "bool \<Rightarrow> string + real \<times> real \<Rightarrow> string + real \<times> real \<Rightarrow> control" where
  "mask_control hw_aes aes masked =
     (let c = Control ''masking hardware crypto raises the per-byte cost'' ''b rises by at least a factor of 8 for AES-256-GCM''
      in if \<not> hw_aes then c\<lparr> ct_error := ''no hardware AES on this host, so there is nothing to mask'' \<rparr>
         else case masked of
                Inl err \<Rightarrow> c\<lparr> ct_error := err \<rparr>
              | Inr (ma, mb) \<Rightarrow>
                let ab = fit_b aes; ratio = (if ab > 0 then mb / ab else 0)
                in c\<lparr> ct_ran := True, ct_observed := mb, ct_reference := ab, ct_ratio := ratio, ct_passed := ratio \<ge> 8,
                       ct_outcome := take 255 (''masked b='' @ show_fixed 4 mb @ '' against unmasked b='' @ show_fixed 4 ab @ '', a factor of '' @
                         show_fixed 1 ratio @ ''; masked a='' @ show_fixed 1 ma @ '' against unmasked a='' @ show_fixed 1 (fit_a aes)) \<rparr>)"

text \<open>The cost of one empty poll: twenty thousand drains of a shard nothing was sent to.\<close>

definition poll_cost :: "shard_env \<Rightarrow> shard \<Rightarrow> real" where
  "poll_cost env s =
     (case read_ticks env s of (t0, s) \<Rightarrow>
      case read_ticks env (((\<lambda>s. snd (drain env 64 s)) ^^ 20000) s) of (t1, s) \<Rightarrow> real (unat (t1 - t0)) / 20000)"

definition live_cfg :: shard_config where
  "live_cfg = ShardConfig\<lparr> sc_cipher := ''null'', sc_payload := 64 \<rparr>"

definition idle_control :: "string + real \<Rightarrow> hotpath_result \<Rightarrow> real \<Rightarrow> real \<Rightarrow> control" where
  "idle_control poll h na aa =
     (let c = Control (''the harness'' @ [CHR 0x27] @ ''s own idle polling does not contaminate a measurement'')
                (''cost per empty poll times empty polls per packet is below '' @ ''1% of the per-packet cost'')
      in case poll of
           Inl e \<Rightarrow> c\<lparr> ct_error := e \<rparr>
         | Inr per_poll \<Rightarrow>
           let empty = (if hr_ok h then max 0 (hr_syscalls_per_pkt h - 2) else 1);
               obs = per_poll * empty; ref = (if na > 0 then na else aa); ratio = (if ref > 0 then obs / ref else 0)
           in c\<lparr> ct_ran := True, ct_observed := obs, ct_reference := ref, ct_ratio := ratio, ct_passed := ratio < 1 / 100,
                  ct_outcome := take 255 (show_fixed 1 per_poll @ '' cycles per empty poll, '' @ show_fixed 5 empty @
                    '' empty polls per packet, so '' @ show_fixed 3 obs @ '' cycles charged to each of '' @ show_fixed 1 ref @
                    '' cycles of fixed cost'') \<rparr>)"

text \<open>
  The packet the forgery control times, and its copy with one bit flipped; the four readings of the
  counter are those around the two loops of opens.
\<close>

definition forged_pair :: "aead \<Rightarrow> (bytes \<times> bytes) option" where
  "forged_pair a = map_option (\<lambda>ct. (ct, ct[256 := ct ! 256 XOR 1])) (a_seal a (replicate 12 0) [] (replicate 512 0x7C))"

definition forged_control :: "factory \<Rightarrow> (nat \<Rightarrow> u64) \<Rightarrow> control" where
  "forged_control mk t =
     (let c = Control ''a forged packet costs about what a valid one costs'' ''within 25% of the valid-packet cost''
      in case mk ''aes-256-gcm'' bench_key of
           None \<Rightarrow> c\<lparr> ct_error := ''cipher unavailable'' \<rparr>
         | Some a \<Rightarrow>
           let valid = real (unat (t 1 - t 0)) / 20000; forged = real (unat (t 3 - t 2)) / 20000;
               ratio = (if valid > 0 then forged / valid else 0)
           in c\<lparr> ct_ran := True, ct_reference := valid, ct_observed := forged, ct_ratio := ratio, ct_passed := ratio > 3 / 4 \<and> ratio < 5 / 4,
                  ct_outcome := take 191 (''forged '' @ show_fixed 1 forged @ '' cycles against valid '' @ show_fixed 1 valid @
                    '' cycles, ratio '' @ show_fixed 3 ratio) \<rparr>)"

definition levels_control :: "factory \<Rightarrow> control" where
  "levels_control mk =
     (let missing = filter (\<lambda>n. mk n bench_key = None) kCiphers; built = length kCiphers - length missing; ok = (built = length kCiphers)
      in (Control ''every cipher level in the design is constructible'' ''all four cipher names build and process packets'')
         \<lparr> ct_ran := True, ct_observed := real built, ct_reference := real (length kCiphers), ct_passed := ok,
           ct_outcome := (if ok then ''all four levels available'' else ''missing: '' @ concat (map (\<lambda>n. n @ '' '') missing)) \<rparr>)"

section \<open>The fragment\<close>

definition control_members :: "control \<Rightarrow> (string \<times> jv) list" where
  "control_members c =
     [(''name'', JStr (ct_name c)), (''prediction'', JStr (ct_prediction c)), (''outcome'', JStr (ct_outcome c)),
      (''observed'', real_v (ct_observed c) 4), (''reference'', real_v (ct_reference c) 4), (''ratio'', real_v (ct_ratio c) 4),
      (''ran'', JBool (ct_ran c)), (''passed'', JBool (ct_passed c)), (''error'', JStr (ct_error c))]"

definition n_ran :: "control list \<Rightarrow> nat" where
  "n_ran cs = length (filter ct_ran cs)"

definition n_passed :: "control list \<Rightarrow> nat" where
  "n_passed cs = length (filter (\<lambda>c. ct_ran c \<and> ct_passed c) cs)"

definition controls_members :: "bool \<Rightarrow> string + real \<times> real \<Rightarrow> real \<Rightarrow> real \<Rightarrow> nat list \<Rightarrow> control list \<Rightarrow> (string \<times> jv) list" where
  "controls_members quick aes na nb payloads cs =
     [(''available'', JBool True), (''quick'', JBool quick), (''ran'', JInt (int (n_ran cs))), (''passed'', JInt (int (n_passed cs))),
      (''aead_fixed_cycles'', real_v (fit_a aes) 2), (''aead_cycles_per_byte'', real_v (fit_b aes) 5), (''null_fixed_cycles'', real_v na 2),
      (''null_cycles_per_byte'', real_v nb 5), (''aead_only_fixed_cycles'', real_v (fit_a aes - na) 2),
      (''per_byte_identifiable'', JBool (b_identifiable (fit_a aes) (fit_b aes) payloads)),
      (''checks'', JArr (map (JObj \<circ> control_members) cs))]"

text \<open>
  The run: the reference fit, the null cipher when the reference succeeded, the masked fit where there
  is hardware to mask, then the measurements in this process.  \<open>None\<close> is a hot path that does not end.
\<close>

definition run_controls ::
    "shell \<Rightarrow> shard_env \<Rightarrow> os \<Rightarrow> shard_env \<Rightarrow> os \<Rightarrow> simd_state \<Rightarrow> (nat \<Rightarrow> u64) \<Rightarrow> cpu_arch \<Rightarrow> caps \<Rightarrow> run_ctx \<Rightarrow> string list \<Rightarrow>
     (string + (string \<times> jv) list) option" where
  "run_controls popen enp op enh oh simd t a c ctx argv =
     (case measurement_permitted c of Some why \<Rightarrow> Some (Inl why)
      | None \<Rightarrow>
        let quick = arg_has argv ''quick''; payloads = (if quick then [64, 512, 1432] else [16, 64, 128, 256, 512, 1024, 1432])
        in case fit_cipher popen a ctx ''aes-256-gcm'' True payloads 0 of (aes, k) \<Rightarrow>
           case (if isl aes then (Inl [], k) else fit_cipher popen a ctx ''null'' True payloads k) of (nul, k) \<Rightarrow>
           case (if c_hw_aes c then fit_cipher popen a ctx ''aes-256-gcm'' False payloads k else (Inl [], k)) of (masked, k) \<Rightarrow>
           case Shard enp live_cfg bench_key op of (s, e, op') \<Rightarrow>
           Option.bind (if err_text e \<noteq> [] then Some HotPathResult
                        else run_hotpath enh simd live_cfg (rc_target_packets ctx) (rc_warmup_cycles ctx) oh) (\<lambda>h.
           let poll = (if err_text e \<noteq> [] then Inl (err_text e) else Inr (poll_cost enp s));
               cs = [null_control aes nul payloads, mask_control (c_hw_aes c) aes masked, idle_control poll h (fit_a nul) (fit_a aes),
                     forged_control (se_mk enp) t, levels_control (se_mk enp)]
           in Some (Inr (controls_members quick aes (fit_a nul) (fit_b nul) payloads cs))))"

section \<open>The parent reads its children\<close>

lemma controls_report_pp: "controls_report masked r = pp 2 0 (JObj (controls_report_members masked r)) @ [c_nl]"
  unfolding controls_report_def emit_writer ..

lemma controls_members_split:
  "controls_report_members masked r = [] @ (''ok'', JBool (hr_ok r)) # drop 1 (controls_report_members masked r)"
  "controls_report_members masked r = take 1 (controls_report_members masked r) @
     (''cycles_per_packet'', JNum (Some (hr_cycles_per_packet r)) 3) # drop 2 (controls_report_members masked r)"
  "controls_report_members masked r = take 5 (controls_report_members masked r) @ (''error'', JStr (hr_error r)) # drop 6 (controls_report_members masked r)"
  by (simp_all add: controls_report_members_def real_v_def)

lemma controls_members_before:
  assumes "reports_whole r"
  shows "list_all (passes 2 1 ''cycles_per_packet'') (take 1 (controls_report_members masked r))"
    "list_all (passes 2 1 ''error'') (take 5 (controls_report_members masked r))"
  by (simp_all add: controls_report_members_def real_v_def unit_members_pass [OF assms])

lemma controls_report_fields:
  assumes "reports_whole r" "js = controls_report masked r"
  shows "unit_field js ''ok'' = Some (if hr_ok r then 1 else 0)"
    "unit_field js ''cycles_per_packet'' = Some (fixed_value 3 (hr_cycles_per_packet r))"
    "unit_string js ''error'' = Some (hr_error r)"
proof -
  have js: "js = pp 2 0 (JObj (controls_report_members masked r)) @ [c_nl]" unfolding assms(2) by (rule controls_report_pp)
  have r: "\<bar>hr_cycles_per_packet r\<bar> < 2 ^ 1024" "plain_text (hr_error r)" using assms(1) unfolding reports_whole_def by blast+
  have c: "clamp_prec 3 = 3" by (simp add: clamp_prec_def)
  have pos: "0 < clamp_prec 3" by (simp add: c)
  note f = controls_members_before [OF assms(1), of masked] and e = controls_members_split [of masked r]
  have g: "list_all (passes 2 1 ''ok'') []" by simp
  show "unit_field js ''ok'' = Some (if hr_ok r then 1 else 0)"
    unfolding js by (subst e(1)) (rule unit_field_bool [OF key_texts(1) g])
  show "unit_field js ''cycles_per_packet'' = Some (fixed_value 3 (hr_cycles_per_packet r))"
    unfolding js by (subst e(2)) (rule unit_field_num [OF key_texts(2) f(1) r(1) pos, unfolded c])
  show "unit_string js ''error'' = Some (hr_error r)"
    unfolding js by (subst e(3)) (rule unit_string_member [OF key_texts(7) f(2) escape_plain [OF r(2)]])
qed

lemma fit_loop_all:
  assumes "\<And>k s. s \<in> set ss \<Longrightarrow> child k s = controls_report masked (r s)" "\<And>s. s \<in> set ss \<Longrightarrow> reports_whole (r s) \<and> hr_ok (r s)"
  shows "fit_loop child (ss @ rest) k x y =
    fit_loop child rest (k + length ss) (x @ map real ss) (y @ map (\<lambda>s. fixed_value 3 (hr_cycles_per_packet (r s))) ss)"
  using assms
proof (induction ss arbitrary: k x y)
  case (Cons s ss)
  have w: "reports_whole (r s)" "hr_ok (r s)" and j: "child k s = controls_report masked (r s)" using Cons.prems by simp_all
  note f = controls_report_fields [OF w(1) j]
  have "fit_loop child ((s # ss) @ rest) k x y =
      fit_loop child (ss @ rest) (Suc k) (x @ [real s]) (y @ [fixed_value 3 (hr_cycles_per_packet (r s))])"
    by (simp add: Let_def f zero_or_def w(2))
  then show ?case using Cons.IH [OF Cons.prems] by simp
qed simp

lemma fit_loop_error:
  assumes "child k s = controls_report masked r" "reports_whole r" "\<not> hr_ok r"
  shows "fst (fit_loop child (s # ss) k x y) = Inl (if hr_error r = [] then ''unit produced no result'' else hr_error r)"
  using controls_report_fields [OF assms(2,1)] assms(3) by (simp add: Let_def zero_or_def unit_error_def split: list.splits)

section \<open>Properties\<close>

text \<open>
  The fit of one cipher over its children: when the child of every payload reports a measurement,
  the parent fits the line through the payloads and the reported costs, rounded to a thousandth; the
  first child that reports a failure ends the fit with that child's error, and no later child matters.
\<close>

theorem fit_cipher_reads_children:
  assumes "\<And>k s. s \<in> set ss \<Longrightarrow> spawn_unit popen a k (rc_exe ctx) (controls_args ctx cipher s) hw = controls_report masked (r s)"
    "\<And>s. s \<in> set ss \<Longrightarrow> reports_whole (r s) \<and> hr_ok (r s)"
  shows "fit_cipher popen a ctx cipher hw ss k =
      (Inr (fit_line (map real ss) (map (\<lambda>s. fixed_value 3 (hr_cycles_per_packet (r s))) ss)), k + length ss)"
    "spawn_unit popen a (k + length ss) (rc_exe ctx) (controls_args ctx cipher b) hw = controls_report masked q \<Longrightarrow>
     reports_whole q \<Longrightarrow> \<not> hr_ok q \<Longrightarrow>
     fst (fit_cipher popen a ctx cipher hw (ss @ b # rest) k) = Inl (if hr_error q = [] then ''unit produced no result'' else hr_error q)"
proof -
  let ?child = "\<lambda>k s. spawn_unit popen a k (rc_exe ctx) (controls_args ctx cipher s) hw"
  note l = fit_loop_all [of ss ?child masked r, OF assms]
  show "fit_cipher popen a ctx cipher hw ss k =
      (Inr (fit_line (map real ss) (map (\<lambda>s. fixed_value 3 (hr_cycles_per_packet (r s))) ss)), k + length ss)"
    using l [of "[]" k "[]" "[]"] unfolding fit_cipher_def by simp
  assume "spawn_unit popen a (k + length ss) (rc_exe ctx) (controls_args ctx cipher b) hw = controls_report masked q"
    "reports_whole q" "\<not> hr_ok q"
  from fit_loop_error [of ?child, OF this]
  show "fst (fit_cipher popen a ctx cipher hw (ss @ b # rest) k) = Inl (if hr_error q = [] then ''unit produced no result'' else hr_error q)"
    unfolding fit_cipher_def by (subst l)
qed

theorem fit_cipher_reads_children_witness:
  "fst (fit_cipher (\<lambda>k cmd. Some (controls_report False (HotPathResult\<lparr> hr_ok := True, hr_cycles_per_packet := 5 \<rparr>), 0)) X86_64 RunCtx
      ''null'' True [64, 512] 0) = Inr (5, 0)"
proof -
  let ?r = "HotPathResult\<lparr> hr_ok := True, hr_cycles_per_packet := 5 \<rparr>"
  let ?p = "\<lambda>k cmd. Some (controls_report False ?r, 0)"
  have w: "reports_whole ?r \<and> hr_ok ?r" by (simp add: reports_whole_def HotPathResult_def plain_text_def)
  have "fst (fit_cipher ?p X86_64 RunCtx ''null'' True [64, 512] 0) = Inr (fit_line [64, 512] [fixed_value 3 5, fixed_value 3 5])"
    using fit_cipher_reads_children(1) [of "[64, 512]" ?p X86_64 RunCtx "''null''" True False "\<lambda>s. ?r" 0] w
    by (simp add: spawn_unit_def capture_def)
  moreover have "fixed_value 3 5 = 5" by (simp add: fixed_value_def fixed_digits_def round_even_def)
  ultimately show ?thesis by (simp add: fit_line_def lessThan_nat_numeral lessThan_Suc)
qed

text \<open>
  The masked control counts as run even when its reference, the unmasked fit, has failed; its ratio is
  then zero and it is recorded as a control that failed.
\<close>

lemma mask_control_without_reference:
  "ct_ran (mask_control True (Inl e) (Inr (ma, mb))) \<and> \<not> ct_passed (mask_control True (Inl e) (Inr (ma, mb)))"
  by (simp add: mask_control_def fit_b_def Let_def)

end
