(* ===== verification/Scaling.thy ===== *)
theory Scaling
  imports Experiments
begin

text \<open>
  The experiments that run in the harness's own process and sweep one factor: the shard pool and the
  scaling curves of \<open>exp_e2_scaling.cpp\<close>, the I/O path of \<open>exp_e3_iopath.cpp\<close> and the memory roof of
  \<open>exp_e4_memroof.cpp\<close>.
\<close>

section \<open>E2: a pool of shards\<close>

record shard_outcome =
  so_cycles_per_packet :: real
  so_packets :: u64
  so_ok :: bool
  so_error :: string

definition ShardOutcome :: shard_outcome where
  "ShardOutcome = \<lparr> so_cycles_per_packet = 0, so_packets = 0, so_ok = False, so_error = [] \<rparr>"

definition pool_cfg :: "string \<Rightarrow> nat \<Rightarrow> bool \<Rightarrow> nat \<Rightarrow> shard_config" where
  "pool_cfg cipher payload pin i =
     ShardConfig\<lparr> sc_cipher := cipher, sc_payload := payload, sc_backend := ''posix'', sc_batch := 1, sc_cpu := (if pin then int i else - 1) \<rparr>"

fun pool_warm :: "shard_env \<Rightarrow> int \<Rightarrow> nat \<Rightarrow> shard \<Rightarrow> shard" where
  "pool_warm env want 0 s = s"
| "pool_warm env want (Suc n) s =
     (case preload env want s of (staged, s) \<Rightarrow> pool_warm env want n (if staged > 0 then snd (drain env staged s) else s))"

text \<open>Shard \<open>i\<close> runs in the environment \<open>envs i\<close>; the first that cannot be built ends the construction.\<close>

fun build_pool ::
    "(nat \<Rightarrow> shard_env) \<Rightarrow> run_ctx \<Rightarrow> int \<Rightarrow> shard_config list \<Rightarrow> nat \<Rightarrow> os \<Rightarrow> shard list \<Rightarrow> (nat \<times> string) + shard list" where
  "build_pool envs ctx per_shard [] i os acc = Inr acc"
| "build_pool envs ctx per_shard (cfg # cfgs) i os acc =
     (case Shard (envs i) cfg bench_key os of (s, e, os) \<Rightarrow>
      if err_text e \<noteq> [] then Inl (i, err_text e)
      else let w = window_for (wire_len (sh_cfg s));
               s = reset_stats (pool_warm (envs i) (min w per_shard) (nat (rc_warmup_cycles ctx)) s)
           in build_pool envs ctx per_shard cfgs (Suc i) os (acc @ [s]))"

definition outcome_of :: "shard \<Rightarrow> shard_outcome" where
  "outcome_of s =
     (let st = sh_st s
      in ShardOutcome\<lparr> so_packets := st_packets st,
           so_cycles_per_packet := (if st_packets st \<noteq> 0 then real (unat (st_ticks_busy st)) / real (unat (st_packets st)) else 0),
           so_ok := st_packets st > 0 \<and> st_auth_fail st = 0 \<rparr>)"

type_synonym pool_result = "bool \<times> real \<times> shard_outcome list"

text \<open>
  The threads of the pool share nothing but the flag they wait on, so each body is the measured loop of
  its own shard.  The clock is read when the flag is set and when the last thread has been joined.
\<close>

definition run_pool ::
    "(nat \<Rightarrow> shard_env) \<Rightarrow> cal \<Rightarrow> u64 \<times> u64 \<Rightarrow> run_ctx \<Rightarrow> string \<Rightarrow> nat \<Rightarrow> nat \<Rightarrow> int \<Rightarrow> bool \<Rightarrow> os \<Rightarrow> pool_result option" where
  "run_pool envs c clock ctx cipher payload n per_shard pin os =
     (case build_pool envs ctx per_shard (map (pool_cfg cipher payload pin) [0..<n]) 0 os [] of
        Inl (i, err) \<Rightarrow> Some (False, 0, (replicate n ShardOutcome)[i := ShardOutcome\<lparr> so_error := err \<rparr>])
      | Inr shards \<Rightarrow>
        map_option (\<lambda>ss. (True, ticks_to_ns c (snd clock - fst clock), map outcome_of ss))
          (those (map (\<lambda>i. hot_loop (envs i) (window_for (wire_len (sh_cfg (shards ! i)))) per_shard 0 0 (shards ! i)) [0..<n])))"

section \<open>E2: the curves\<close>

record e2_row =
  e2_n :: int
  e2_strong_wall :: real
  e2_weak_wall :: real
  e2_strong_cycles :: real
  e2_weak_cycles :: real
  e2_strong_packets :: u64
  e2_weak_packets :: u64
  e2_ok :: bool
  e2_error :: string

definition E2Row :: "int \<Rightarrow> e2_row" where
  "E2Row n = \<lparr> e2_n = n, e2_strong_wall = 0, e2_weak_wall = 0, e2_strong_cycles = 0, e2_weak_cycles = 0, e2_strong_packets = 0,
     e2_weak_packets = 0, e2_ok = False, e2_error = [] \<rparr>"

text \<open>The samples of one width: strong and weak wall times, strong and weak costs.\<close>

record e2_samples =
  es_sw :: "real list"
  es_ww :: "real list"
  es_sc :: "real list"
  es_wc :: "real list"

definition pool_error :: "shard_outcome list \<Rightarrow> string" where
  "pool_error out = (case out of [] \<Rightarrow> ''pool failed'' | o1 # _ \<Rightarrow> so_error o1)"

definition mean_cycles :: "int \<Rightarrow> shard_outcome list \<Rightarrow> real" where
  "mean_cycles n out = sum_list (map so_cycles_per_packet out) / of_int n"

fun e2_reps ::
    "(nat \<Rightarrow> int \<Rightarrow> pool_result option) \<Rightarrow> int \<Rightarrow> int \<Rightarrow> nat \<Rightarrow> nat \<Rightarrow> e2_row \<Rightarrow> e2_samples \<Rightarrow> (nat \<times> e2_row \<times> e2_samples) option" where
  "e2_reps pool per_strong per_weak 0 k r es = Some (k, r, es)"
| "e2_reps pool per_strong per_weak (Suc m) k r es =
     Option.bind (pool k per_strong) (\<lambda>(ok, wall, out).
       if \<not> ok then Some (Suc k, r\<lparr> e2_error := pool_error out \<rparr>, es)
       else let r = r\<lparr> e2_strong_packets := sum_list (map so_packets out) \<rparr>;
                es = es\<lparr> es_sw := es_sw es @ [wall], es_sc := es_sc es @ [mean_cycles (e2_n r) out] \<rparr>
       in Option.bind (pool (Suc k) per_weak) (\<lambda>(ok, wall, out).
            if \<not> ok then Some (Suc (Suc k), r\<lparr> e2_error := pool_error out \<rparr>, es)
            else e2_reps pool per_strong per_weak m (Suc (Suc k)) (r\<lparr> e2_weak_packets := sum_list (map so_packets out) \<rparr>)
                   (es\<lparr> es_ww := es_ww es @ [wall], es_wc := es_wc es @ [mean_cycles (e2_n r) out] \<rparr>)))"

definition e2_close :: "e2_row \<Rightarrow> e2_samples \<Rightarrow> e2_row" where
  "e2_close r es =
     (if es_sw es \<noteq> []
      then r\<lparr> e2_strong_wall := median (es_sw es), e2_weak_wall := median (es_ww es), e2_strong_cycles := median (es_sc es),
              e2_weak_cycles := median (es_wc es), e2_ok := True \<rparr>
      else r)"

fun e2_rows :: "(nat \<Rightarrow> nat \<Rightarrow> int \<Rightarrow> pool_result option) \<Rightarrow> int \<Rightarrow> int \<Rightarrow> nat \<Rightarrow> nat list \<Rightarrow> nat \<Rightarrow> e2_row list option" where
  "e2_rows pool tot max_shards reps [] k = Some []"
| "e2_rows pool tot max_shards reps (n # ns) k =
     Option.bind (e2_reps (pool n) (max 500 (tot div int n)) (max 500 (tot div max 1 max_shards)) reps k (E2Row (int n))
                   \<lparr> es_sw = [], es_ww = [], es_sc = [], es_wc = [] \<rparr>) (\<lambda>(k, r, es).
       map_option (\<lambda>rs. e2_close r es # rs) (e2_rows pool tot max_shards reps ns k))"

definition t1_of :: "(e2_row \<Rightarrow> real) \<Rightarrow> e2_row list \<Rightarrow> real" where
  "t1_of wall rows = (case rows of [] \<Rightarrow> 0 | r # _ \<Rightarrow> wall r)"

definition serial_fraction :: "e2_row list \<Rightarrow> real" where
  "serial_fraction rows =
     (let t1 = t1_of e2_strong_wall rows
      in if length rows > 1 \<and> e2_ok (last rows) \<and> t1 > 0
         then let n = of_int (e2_n (last rows)); sp = t1 / e2_strong_wall (last rows)
              in if n > 1 \<and> sp > 0 then (n / sp - 1) / (n - 1) else 0
         else 0)"

definition speedup :: "real \<Rightarrow> real \<Rightarrow> real" where
  "speedup t1 t = (if t1 > 0 \<and> t > 0 then t1 / t else 0)"

definition e2_row_members :: "e2_row list \<Rightarrow> e2_row \<Rightarrow> (string \<times> jv) list" where
  "e2_row_members rows r =
     (let t1 = t1_of e2_strong_wall rows; t1w = t1_of e2_weak_wall rows
      in [(''shards'', JInt (e2_n r)), (''strong_wall_ns'', real_v (e2_strong_wall r) 1), (''weak_wall_ns'', real_v (e2_weak_wall r) 1),
          (''strong_speedup'', real_v (speedup t1 (e2_strong_wall r)) 4),
          (''strong_efficiency'', real_v (speedup t1 (e2_strong_wall r) / of_int (e2_n r)) 4),
          (''weak_efficiency'', real_v (speedup t1w (e2_weak_wall r)) 4), (''cycles_per_packet_strong'', real_v (e2_strong_cycles r) 2),
          (''cycles_per_packet_weak'', real_v (e2_weak_cycles r) 2), (''packets_strong'', long_long (e2_strong_packets r)),
          (''packets_weak'', long_long (e2_weak_packets r)), (''ok'', JBool (e2_ok r)), (''error'', JStr (e2_error r))])"

definition run_e2 ::
    "(nat \<Rightarrow> nat \<Rightarrow> shard_env) \<Rightarrow> cal \<Rightarrow> (nat \<Rightarrow> u64 \<times> u64) \<Rightarrow> (nat \<Rightarrow> os) \<Rightarrow> caps \<Rightarrow> run_ctx \<Rightarrow> string list \<Rightarrow> (string + (string \<times> jv) list) option" where
  "run_e2 envs cal clocks oss c ctx argv =
     (case measurement_permitted c of Some why \<Rightarrow> Some (Inl why)
      | None \<Rightarrow>
        let max_shards = max 1 (c_physical_cores c); payload = unat (of_int (arg_int argv ''e2-payload'' 512) :: u64);
            cipher = arg_str argv ''e2-cipher'' ''aes-256-gcm''; quick = arg_has argv ''quick'';
            reps = (if quick then 3 else max 3 (rc_reps ctx div 2)); tot = (if quick then 8000 else c_int (rc_target_packets ctx * 2));
            pin = c_hard_affinity c;
            pool = (\<lambda>n k per. run_pool (envs k) cal (clocks k) ctx cipher payload n per pin (oss k))
        in map_option (\<lambda>rows. Inr
             [(''available'', JBool True), (''quick'', JBool quick), (''pool'', JStr (if c_openmp c then ''openmp'' else ''std::thread'')),
              (''pinned'', JBool pin), (''cipher'', JStr cipher), (''payload_bytes'', JInt (int payload)), (''max_shards'', JInt max_shards),
              (''replicates'', JInt reps), (''total_packets_strong'', JInt tot), (''serial_fraction'', real_v (serial_fraction rows) 5),
              (''points'', JArr (map (JObj \<circ> e2_row_members rows) rows)), (''mpi_fragment'', JStr ''e2_mpi_scaling.json'')])
           (e2_rows pool tot max_shards (nat reps) [1..<Suc (nat max_shards)] 0))"

section \<open>E3: the I/O path\<close>

text \<open>The replicates of one configuration; the first that fails ends them with its error.\<close>

fun hp_reps ::
    "(nat \<Rightarrow> shard_config \<Rightarrow> hotpath_result option) \<Rightarrow> shard_config \<Rightarrow> nat \<Rightarrow> nat \<Rightarrow> hotpath_result list \<Rightarrow> (nat \<times> hotpath_result list \<times> string) option" where
  "hp_reps hp cfg 0 k acc = Some (k, acc, [])"
| "hp_reps hp cfg (Suc n) k acc =
     Option.bind (hp k cfg) (\<lambda>h. if \<not> hr_ok h then Some (Suc k, acc, hr_error h) else hp_reps hp cfg n (Suc k) (acc @ [h]))"

record e3_row =
  e3_backend :: string
  e3_batch :: int
  e3_payload :: nat
  e3_cycles :: summary
  e3_syscalls_per_packet :: real
  e3_pps :: real
  e3_ok :: bool
  e3_error :: string

definition e3_cells :: "string list \<Rightarrow> nat list \<Rightarrow> int list \<Rightarrow> (string \<times> nat \<times> int) list" where
  "e3_cells backends payloads batches =
     filter (\<lambda>(b, p, n). \<not> (b = ''posix'' \<and> n \<noteq> 1))
       (concat (map (\<lambda>b. concat (map (\<lambda>p. map (\<lambda>n. (b, p, n)) batches) payloads)) backends))"

definition e3_close :: "(u64 \<Rightarrow> nat \<Rightarrow> nat \<Rightarrow> nat) \<Rightarrow> run_ctx \<Rightarrow> string \<times> nat \<times> int \<Rightarrow> hotpath_result list \<Rightarrow> string \<Rightarrow> e3_row" where
  "e3_close draws ctx cell hs err =
     (case cell of (b, p, n) \<Rightarrow>
      if hs = [] then \<lparr> e3_backend = b, e3_batch = n, e3_payload = p, e3_cycles = Summary, e3_syscalls_per_packet = 0, e3_pps = 0,
                        e3_ok = False, e3_error = err \<rparr>
      else \<lparr> e3_backend = b, e3_batch = n, e3_payload = p,
             e3_cycles = summarise draws (map hr_cycles_per_packet hs) (rc_cv_threshold ctx) (rc_seed ctx),
             e3_syscalls_per_packet = median (map hr_syscalls_per_pkt hs), e3_pps = median (map hr_pps hs), e3_ok = True, e3_error = err \<rparr>)"

definition e3_cfg :: "caps \<Rightarrow> string \<Rightarrow> string \<times> nat \<times> int \<Rightarrow> shard_config" where
  "e3_cfg c cipher cell =
     (case cell of (b, p, n) \<Rightarrow>
      ShardConfig\<lparr> sc_cipher := cipher, sc_backend := b, sc_batch := n, sc_payload := p, sc_cpu := (if c_hard_affinity c then 0 else - 1) \<rparr>)"

fun e3_rows ::
    "(nat \<Rightarrow> shard_config \<Rightarrow> hotpath_result option) \<Rightarrow> (u64 \<Rightarrow> nat \<Rightarrow> nat \<Rightarrow> nat) \<Rightarrow> caps \<Rightarrow> run_ctx \<Rightarrow> string \<Rightarrow> nat \<Rightarrow>
     (string \<times> nat \<times> int) list \<Rightarrow> nat \<Rightarrow> e3_row list option" where
  "e3_rows hp draws c ctx cipher reps [] k = Some []"
| "e3_rows hp draws c ctx cipher reps (cell # cells) k =
     Option.bind (hp_reps hp (e3_cfg c cipher cell) reps k []) (\<lambda>(k, hs, err).
       map_option (\<lambda>rs. e3_close draws ctx cell hs err # rs) (e3_rows hp draws c ctx cipher reps cells k))"

text \<open>The headline figures: the cost at batch one of the posix and the poller backend, and the best batched backend.\<close>

record headline =
  hl_posix_b1 :: real
  hl_sqpoll_b1 :: real
  hl_best_batched :: real
  hl_label :: string

definition e3_headline :: "nat list \<Rightarrow> int list \<Rightarrow> e3_row \<Rightarrow> headline \<Rightarrow> headline" where
  "e3_headline payloads batches r h =
     (if \<not> e3_ok r \<or> e3_payload r \<noteq> last payloads then h
      else let m = sm_median (e3_cycles r);
               h = (if e3_backend r = ''posix'' \<and> e3_batch r = 1 then h\<lparr> hl_posix_b1 := m \<rparr> else h);
               h = (if e3_backend r = ''uring-sqpoll'' \<and> e3_batch r = 1 then h\<lparr> hl_sqpoll_b1 := m \<rparr> else h)
      in if e3_batch r = last batches \<and> (hl_best_batched h = 0 \<or> m < hl_best_batched h)
         then h\<lparr> hl_best_batched := m, hl_label := e3_backend r \<rparr> else h)"

definition e3_row_members :: "e3_row \<Rightarrow> (string \<times> jv) list" where
  "e3_row_members r =
     [(''backend'', JStr (e3_backend r)), (''batch'', JInt (e3_batch r)), (''payload_bytes'', JInt (int (e3_payload r))),
      (''cycles_median'', real_v (sm_median (e3_cycles r)) 3), (''cycles_ci_lo'', real_v (sm_ci_lo (e3_cycles r)) 3),
      (''cycles_ci_hi'', real_v (sm_ci_hi (e3_cycles r)) 3), (''cycles_cv'', real_v (sm_cv (e3_cycles r)) 5),
      (''stable'', JBool (sm_stable (e3_cycles r))), (''syscalls_per_packet'', real_v (e3_syscalls_per_packet r) 4),
      (''pps_median'', real_v (e3_pps r) 1), (''ok'', JBool (e3_ok r)), (''error'', JStr (e3_error r))]"

definition sqpoll_note :: "bool \<Rightarrow> string" where
  "sqpoll_note contends =
     (if contends
      then ''fewer than two usable cores: the submission poller and the '' @ ''data plane share one core, so the syscall-free path is slower '' @
           ''than the syscall path and the difference bounds nothing''
      else ''the poller has its own core, so the difference between posix '' @ ''and sqpoll at B=1 bounds the cost of the system-call boundary'')"

definition e3_members ::
    "bool \<Rightarrow> string \<Rightarrow> int \<Rightarrow> string list \<Rightarrow> bool \<times> string \<Rightarrow> bool \<times> string \<Rightarrow> headline \<Rightarrow> bool \<Rightarrow> e3_row list \<Rightarrow> (string \<times> jv) list" where
  "e3_members quick cipher reps backends uring sqpoll h contends rows =
     [(''available'', JBool True), (''quick'', JBool quick), (''cipher'', JStr cipher), (''replicates'', JInt reps), (''backends'', strs backends),
      (''uring_available'', JBool (fst uring)), (''uring_reason'', JStr (snd uring)), (''uring_sqpoll_available'', JBool (fst sqpoll)),
      (''uring_sqpoll_reason'', JStr (snd sqpoll)), (''posix_b1_cycles'', real_v (hl_posix_b1 h) 2), (''sqpoll_b1_cycles'', real_v (hl_sqpoll_b1 h) 2),
      (''posix_minus_sqpoll_b1_cycles'', real_v (if hl_posix_b1 h > 0 \<and> hl_sqpoll_b1 h > 0 then hl_posix_b1 h - hl_sqpoll_b1 h else 0) 2),
      (''sqpoll_contends_for_cpu'', JBool contends), (''sqpoll_interpretation'', JStr (sqpoll_note contends)),
      (''best_batched_backend'', JStr (hl_label h)), (''best_batched_cycles'', real_v (hl_best_batched h) 2),
      (''points'', JArr (map (JObj \<circ> e3_row_members) rows))]"

text \<open>The backends and the probes of the ring are those of the host, \<open>sys\<close>.\<close>

definition run_e3 ::
    "(nat \<Rightarrow> shard_env) \<Rightarrow> (nat \<Rightarrow> os) \<Rightarrow> simd_state \<Rightarrow> (u64 \<Rightarrow> nat \<Rightarrow> nat \<Rightarrow> nat) \<Rightarrow> os \<Rightarrow>
     caps \<Rightarrow> run_ctx \<Rightarrow> string list \<Rightarrow> (string + (string \<times> jv) list) option" where
  "run_e3 envs oss simd draws sys c ctx argv =
     (case measurement_permitted c of Some why \<Rightarrow> Some (Inl why)
      | None \<Rightarrow>
        let quick = arg_has argv ''quick''; cipher = arg_str argv ''e3-cipher'' ''aes-256-gcm'';
            payloads = (if quick then [64, 1432] else [64, 512, 1432]); batches = (if quick then [1, 8, 32] else kBatchSizes);
            reps = (if quick then 3 else max 3 (rc_reps ctx div 2)); packets = (if quick then 4000 else rc_target_packets ctx);
            hp = (\<lambda>k cfg. run_hotpath (envs k) simd cfg packets (rc_warmup_cycles ctx) (oss k));
            backends = transport_backends sys
        in map_option (\<lambda>rows.
             let h = fold (e3_headline payloads batches) rows \<lparr> hl_posix_b1 = 0, hl_sqpoll_b1 = 0, hl_best_batched = 0, hl_label = [] \<rparr>
             in Inr (e3_members quick cipher reps backends (uring_status sys) (uring_sqpoll_status sys) h (c_physical_cores c < 2) rows))
           (e3_rows hp draws c ctx cipher (nat reps) (e3_cells backends payloads batches) 0))"

section \<open>E4: the memory roof\<close>

definition triad_once :: "real list \<Rightarrow> real list \<Rightarrow> real \<Rightarrow> real list" where
  "triad_once b c q = map2 (\<lambda>x y. x + q * y) b c"

text \<open>Bandwidth over \<open>n\<close> elements: the pass \<open>r\<close> took \<open>dts r\<close> ticks; the sink collects one element of each result.\<close>

definition triad_gbps :: "u64 \<Rightarrow> (nat \<Rightarrow> u64) \<Rightarrow> nat \<Rightarrow> nat \<Rightarrow> real \<Rightarrow> real \<times> real" where
  "triad_gbps hz dts n reps sink =
     (let b = map (\<lambda>i. 1 + real i) [0..<n]; c = replicate n 2;
          secs = map (\<lambda>r. real (unat (dts r)) / real (unat hz)) [0..<reps]
      in (median (map (\<lambda>s. 3 * real n * 8 / s / 10 ^ 9) (filter (\<lambda>s. s > 0) secs)),
          foldl (\<lambda>z r. z + triad_once b c (3 + real r / 1000) ! (n div 2)) sink [0..<reps]))"

text \<open>The working sets in bytes, from \<open>kb\<close> KiB on; \<open>None\<close> would be a sweep that does not end.\<close>

partial_function (option) ws_sweep :: "nat \<Rightarrow> nat \<Rightarrow> nat list option" where
  [code]: "ws_sweep top_kb kb =
     (if kb \<le> top_kb then Option.bind (ws_sweep top_kb (kb * 3 div 2)) (\<lambda>bs. Some (kb * 1024 # bs)) else Some [])"

definition e4_reps :: "bool \<Rightarrow> nat \<Rightarrow> nat" where
  "e4_reps quick bytes =
     (if bytes < 1048576 then (if quick then 51 else 201)
      else if bytes < 33554432 then (if quick then 7 else 21) else (if quick then 3 else 7))"

fun e4_rows :: "u64 \<Rightarrow> (nat \<Rightarrow> nat \<Rightarrow> u64) \<Rightarrow> bool \<Rightarrow> real \<Rightarrow> nat list \<Rightarrow> (nat \<times> real) list" where
  "e4_rows hz dts quick sink [] = []"
| "e4_rows hz dts quick sink (bytes # bs) =
     (let n = bytes div 8
      in if n < 1024 then e4_rows hz dts quick sink bs
         else case triad_gbps hz (dts bytes) n (e4_reps quick bytes) sink of (g, sink) \<Rightarrow> (bytes, g) # e4_rows hz dts quick sink bs)"

definition e4_members :: "bool \<Rightarrow> (nat \<times> real) list \<Rightarrow> (string \<times> jv) list" where
  "e4_members quick rows =
     (let sustained = (if rows = [] then 0 else snd (last rows))
      in [(''available'', JBool True), (''quick'', JBool quick), (''kernel'', JStr ''STREAM triad a[i] = b[i] + q*c[i], 3 streams of 8 bytes''),
          (''stream_bandwidth_gbps'', real_v sustained 6),
          (''largest_working_set_bytes'', JInt (int (if rows = [] then 0 else fst (last rows)))), (''payload_passes_total'', JInt 8),
          (''payload_passes_application'', JInt 6), (''passes_note'', JStr ''recv copy (2), aead.open (2), aead.seal (2), send copy (2)''),
          (''roof_payload_gbps'', real_v (sustained / 8) 6), (''roof_payload_gbps_application_only'', real_v (sustained / 6) 6),
          (''points'', JArr (map (\<lambda>(b, g). JObj [(''per_array_bytes'', JInt (int b)), (''resident_bytes'', JInt (int (3 * b))),
                                                      (''gbps'', real_v g 6)]) rows))])"

definition run_e4 :: "u64 \<Rightarrow> (nat \<Rightarrow> nat \<Rightarrow> u64) \<Rightarrow> caps \<Rightarrow> string list \<Rightarrow> (string + (string \<times> jv) list) option" where
  "run_e4 hz dts c argv =
     (case measurement_permitted c of Some why \<Rightarrow> Some (Inl why)
      | None \<Rightarrow>
        let quick = arg_has argv ''quick''
        in map_option (\<lambda>bs. Inr (e4_members quick (e4_rows hz dts quick 0 bs))) (ws_sweep (if quick then 24 * 1024 else 192 * 1024) 8))"

section \<open>Facts of the curves\<close>

text \<open>A pool whose first shard was built hides the error of the shard that failed.\<close>

lemma pool_error_lost:
  assumes "build_pool envs ctx per (map (pool_cfg cipher payload pin) [0..<n]) 0 os [] = Inl (i, err)" "0 < i" "0 < n"
  shows "map_option (\<lambda>(ok, wall, out). (ok, pool_error out)) (run_pool envs c clock ctx cipher payload n per pin os) = Some (False, [])"
proof -
  obtain m where n: "n = Suc m" using assms(3) by (cases n) auto
  obtain j where i: "i = Suc j" using assms(2) by (cases i) auto
  show ?thesis using assms(1) unfolding run_pool_def by (simp add: pool_error_def n i ShardOutcome_def)
qed

text \<open>A width whose weak run failed after one strong run is recorded as a success that has an error.\<close>

lemma e2_partial_success:
  "map_option (\<lambda>(k, r, es). (e2_ok (e2_close r es), e2_error (e2_close r es), e2_weak_wall (e2_close r es)))
     (e2_reps (\<lambda>k per. Some (if k = 0 then (True, 5, []) else (False, 0, []))) 500 500 1 0 (E2Row 1) \<lparr> es_sw = [], es_ww = [], es_sc = [], es_wc = [] \<rparr>) =
   Some (True, ''pool failed'', 0)"
  by (simp add: e2_close_def E2Row_def pool_error_def median_def percentile_def)

lemma ws_sweep_ends: "2 \<le> kb \<Longrightarrow> \<exists>bs. ws_sweep top_kb kb = Some bs"
proof (induction "Suc top_kb - kb" arbitrary: kb rule: less_induct)
  case less
  show ?case
  proof (cases "kb \<le> top_kb")
    case True
    have g: "kb < kb * 3 div 2" using less.prems by linarith
    then have "\<exists>bs. ws_sweep top_kb (kb * 3 div 2) = Some bs" using True less.prems by (intro less.hyps) auto
    then show ?thesis using True by (subst ws_sweep.simps) auto
  next
    case False
    then show ?thesis by (subst ws_sweep.simps) simp
  qed
qed

text \<open>The grid of the sweep: two working sets in the octave from 8 to 16 KiB and never more than two in any octave.\<close>

lemma ws_sweep_quick:
  "ws_sweep (24 * 1024) 8 = Some (map (\<lambda>kb. kb * 1024)
     [8, 12, 18, 27, 40, 60, 90, 135, 202, 303, 454, 681, 1021, 1531, 2296, 3444, 5166, 7749, 11623, 17434])"
  by (simp add: ws_sweep.simps)

lemma e3_close_cell:
  "(e3_backend (e3_close draws ctx cell hs err), e3_payload (e3_close draws ctx cell hs err), e3_batch (e3_close draws ctx cell hs err)) = cell"
  by (simp add: e3_close_def split: prod.splits)

text \<open>Every cell of the grid has its row, in the order of the grid.\<close>

lemma e3_rows_complete:
  "e3_rows hp draws c ctx cipher reps cells k = Some rows \<Longrightarrow>
   map (\<lambda>r. (e3_backend r, e3_payload r, e3_batch r)) rows = cells"
  by (induction cells arbitrary: k rows) (auto simp: e3_close_cell bind_eq_Some_conv)

text \<open>The serial fraction is the one for which the law of Amdahl gives the wall time of the widest row.\<close>

lemma serial_fraction_amdahl:
  assumes "2 \<le> length rows" "e2_ok (last rows)" "0 < e2_strong_wall (hd rows)" "1 < e2_n (last rows)" "0 < e2_strong_wall (last rows)"
  shows "serial_fraction rows = f \<longleftrightarrow>
    e2_strong_wall (last rows) = e2_strong_wall (hd rows) * (f + (1 - f) / of_int (e2_n (last rows)))"
proof -
  let ?n = "of_int (e2_n (last rows)) :: real" and ?t1 = "e2_strong_wall (hd rows)" and ?t = "e2_strong_wall (last rows)"
  have n: "1 < ?n" using assms(4) by simp
  have h: "t1_of e2_strong_wall rows = ?t1" using assms(1) by (cases rows) (simp_all add: t1_of_def)
  have s: "serial_fraction rows = (?n * ?t / ?t1 - 1) / (?n - 1)"
    using assms n by (simp add: serial_fraction_def h Let_def)
  have "serial_fraction rows = f \<longleftrightarrow> ?n * ?t / ?t1 - 1 = f * (?n - 1)" unfolding s using n by (simp add: divide_eq_eq)
  also have "\<dots> \<longleftrightarrow> ?n * ?t = (f * (?n - 1) + 1) * ?t1" using assms(3) by (simp add: field_simps)
  also have "\<dots> \<longleftrightarrow> ?t = ?t1 * (f + (1 - f) / ?n)" using n by (simp add: field_simps)
  finally show ?thesis .
qed

end
