(* ===== verification/Latency.thy ===== *)
theory Latency
  imports Scaling Hotpath
begin

text \<open>
  The experiments on delay and on isolation: the offered-rate sweep with its knee of
  \<open>exp_e5_latency.cpp\<close>, and the tier reports, the chain and the fragment of \<open>exp_e7_virtualization.cpp\<close>.
\<close>

section \<open>E5: one offered rate\<close>

record e5_row =
  e5_offered :: real
  e5_achieved :: real
  e5_p50 :: real
  e5_p99 :: real
  e5_p999 :: real
  e5_loss :: real
  e5_packets :: u64
  e5_source :: string
  e5_netem :: string
  e5_ok :: bool
  e5_error :: string

definition E5Row :: "real \<Rightarrow> string \<Rightarrow> e5_row" where
  "E5Row offered source = \<lparr> e5_offered = offered, e5_achieved = 0, e5_p50 = 0, e5_p99 = 0, e5_p999 = 0, e5_loss = 0, e5_packets = 0,
     e5_source = source, e5_netem = [], e5_ok = False, e5_error = [] \<rparr>"

definition affinity :: "caps \<Rightarrow> int" where
  "affinity c = (if c_hard_affinity c then 0 else - 1)"

text \<open>Settling for 200 ms, then the measured interval: the shard after it, with what it counted there.\<close>

definition timed_phases :: "shard_env \<Rightarrow> int \<Rightarrow> (nat \<Rightarrow> bytes list) \<Rightarrow> real \<Rightarrow> shard \<Rightarrow> shard option" where
  "timed_phases env budget arrive seconds s =
     (case read_ticks env s of (t0, s) \<Rightarrow>
      Option.bind (timed_drain env budget arrive (t0 + ns_to_ticks (se_cal env) 200000000) None 0 0 s) (\<lambda>(k, s).
      case read_ticks env (reset_stats s) of (t1, s) \<Rightarrow>
      map_option snd (timed_drain env budget arrive (t1 + ns_to_ticks (se_cal env) (seconds * 10 ^ 9)) None k 0 s)))"

definition loss_ratio :: "u64 \<Rightarrow> u64 \<Rightarrow> real" where
  "loss_ratio packets sent = max 0 (1 - real (unat packets) / (if sent > 0 then real (unat sent) else 1))"

text \<open>
  The local topology.  The generator thread puts \<open>arrive k\<close> on the socket before the \<open>k\<close>-th turn of the
  drain loops and has sent \<open>sent\<close> packets when it is joined.
\<close>

definition loopback_cfg :: "caps \<Rightarrow> string \<Rightarrow> nat \<Rightarrow> shard_config" where
  "loopback_cfg c cipher payload = ShardConfig\<lparr> sc_cipher := cipher, sc_payload := payload, sc_latency := True, sc_cpu := affinity c \<rparr>"

definition measure_loopback ::
    "shard_env \<Rightarrow> (nat \<Rightarrow> bytes list) \<Rightarrow> u64 \<Rightarrow> caps \<Rightarrow> string \<Rightarrow> nat \<Rightarrow> real \<Rightarrow> real \<Rightarrow> os \<Rightarrow> e5_row option" where
  "measure_loopback env arrive sent c cipher payload offered seconds os =
     (let r = E5Row offered ''loopback''
      in case Shard env (loopback_cfg c cipher payload) bench_key os of (s, e, os) \<Rightarrow>
         if err_text e \<noteq> [] then Some (r\<lparr> e5_error := err_text e \<rparr>)
         else case Generator s ''127.0.0.1'' (sh_port s) os of (g, e, os) \<Rightarrow>
         if err_text e \<noteq> [] then Some (r\<lparr> e5_error := err_text e \<rparr>)
         else map_option (\<lambda>s.
           let st = sh_st s
           in if st_packets st = 0 then r\<lparr> e5_error := ''no packets processed'' \<rparr>
              else r\<lparr> e5_packets := st_packets st, e5_achieved := real (unat (st_packets st)) / seconds,
                      e5_p50 := quantile (st_lat st) (50 / 100), e5_p99 := quantile (st_lat st) (99 / 100),
                      e5_p999 := quantile (st_lat st) (999 / 1000), e5_loss := loss_ratio (st_packets st) sent, e5_ok := True \<rparr>)
           (timed_phases env 1024 arrive seconds s))"

definition wire5_cfg :: "run_ctx \<Rightarrow> peer \<Rightarrow> caps \<Rightarrow> string \<Rightarrow> nat \<Rightarrow> u16 \<Rightarrow> shard_config" where
  "wire5_cfg ctx p c cipher payload return_port = ShardConfig\<lparr> sc_cipher := cipher, sc_payload := payload, sc_latency := False,
     sc_source := Wire_src, sc_bind_addr := (if rc_local_addr ctx = [] then ''0.0.0.0'' else rc_local_addr ctx), sc_peer_addr := pr_addr p,
     sc_peer_port := return_port, sc_cpu := affinity c \<rparr>"

definition wire5_request :: "run_ctx \<Rightarrow> string \<Rightarrow> nat \<Rightarrow> u16 \<Rightarrow> real \<Rightarrow> real \<Rightarrow> u16 \<Rightarrow> start_request" where
  "wire5_request ctx cipher payload port offered seconds return_port =
     StartRequest\<lparr> sq_cipher := cipher, sq_payload := of_nat payload, sq_pps := offered, sq_seconds := seconds, sq_dst_addr := rc_local_addr ctx,
       sq_dst_port := port, sq_return_port := return_port \<rparr>"

definition measure_wire ::
    "shard_env \<Rightarrow> (nat \<Rightarrow> nat \<Rightarrow> int) \<Rightarrow> (nat \<Rightarrow> bytes list) \<Rightarrow> run_ctx \<Rightarrow> peer \<Rightarrow> caps \<Rightarrow> string \<Rightarrow> nat \<Rightarrow> real \<Rightarrow> real \<Rightarrow> u16 \<Rightarrow> os \<Rightarrow>
     (e5_row \<times> peer) option" where
  "measure_wire env snd_res arrive ctx p c cipher payload offered seconds return_port os =
     (let r = E5Row offered ''wire''
      in case Shard env (wire5_cfg ctx p c cipher payload return_port) bench_key os of (s, e, os) \<Rightarrow>
         if err_text e \<noteq> [] then Some (r\<lparr> e5_error := err_text e \<rparr>, p)
         else case peer_start snd_res (wire5_request ctx cipher payload (sh_port s) offered seconds return_port) p of
           (Some e, p) \<Rightarrow> Some (r\<lparr> e5_error := e \<rparr>, p)
         | (None, p) \<Rightarrow>
           map_option (\<lambda>s.
             case peer_stop snd_res p of
               (Inl e, p) \<Rightarrow> (r\<lparr> e5_error := e \<rparr>, p)
             | (Inr rep, p) \<Rightarrow>
               let n = st_packets (sh_st s);
                   r = r\<lparr> e5_packets := n, e5_achieved := real (unat n) / seconds, e5_p50 := sr_p50 rep, e5_p99 := sr_p99 rep,
                           e5_p999 := sr_p999 rep, e5_loss := (if sr_sent rep > 0 then loss_ratio (sr_returned rep) (sr_sent rep) else 0),
                           e5_ok := n > 0 \<rparr>
               in (if n > 0 then r
                   else r\<lparr> e5_error := (if sr_fault rep = [] then ''no packets arrived over the wire''
                                         else ''the load generator could not run this unit: '' @ sr_fault rep) \<rparr>, p))
             (timed_phases env 2048 arrive seconds s))"

section \<open>E5: the knee\<close>

definition base_p99 :: "e5_row list \<Rightarrow> real" where
  "base_p99 rows = fold (\<lambda>r b. if e5_ok r \<and> (b = 0 \<or> e5_p99 r < b) then e5_p99 r else b) rows 0"

definition knee_pps :: "e5_row list \<Rightarrow> real" where
  "knee_pps rows =
     (let b = base_p99 rows in fold (\<lambda>r k. if e5_ok r \<and> b > 0 \<and> e5_p99 r \<le> 2 * b then max k (e5_offered r) else k) rows 0)"

definition per_capacity :: "real \<Rightarrow> real \<Rightarrow> real" where
  "per_capacity capacity x = (if capacity > 0 then x / capacity else 0)"

definition e5_row_members :: "real \<Rightarrow> e5_row \<Rightarrow> (string \<times> jv) list" where
  "e5_row_members capacity r =
     [(''offered_pps'', real_v (e5_offered r) 1), (''offered_fraction'', real_v (per_capacity capacity (e5_offered r)) 4),
      (''achieved_pps'', real_v (e5_achieved r) 1), (''p50_ns'', real_v (e5_p50 r) 1), (''p99_ns'', real_v (e5_p99 r) 1),
      (''p999_ns'', real_v (e5_p999 r) 1), (''loss_ratio'', real_v (e5_loss r) 5), (''packets'', long_long (e5_packets r)),
      (''source'', JStr (e5_source r)), (''netem_label'', JStr (e5_netem r)), (''ok'', JBool (e5_ok r)), (''error'', JStr (e5_error r))]"

definition e5_note :: "bool \<Rightarrow> bool \<Rightarrow> string" where
  "e5_note wire one_core =
     (if \<not> wire \<and> one_core
      then ''loopback fallback on a single-core host: the generator and the '' @ ''data plane share one core, so the delays reported here are '' @
           ''scheduling latency, not queueing delay, and no knee should be '' @ ''read from them''
      else if wire then ''generator on a separate host across the measured link'' else ''generator on a separate core of this host'')"

definition e5_members :: "bool \<Rightarrow> string \<Rightarrow> nat \<Rightarrow> real \<Rightarrow> real \<Rightarrow> peer \<Rightarrow> bool \<Rightarrow> string \<Rightarrow> e5_row list \<Rightarrow> (string \<times> jv) list" where
  "e5_members quick cipher payload seconds capacity p one_core netem rows =
     (let wire = pr_ok p
      in [(''available'', JBool True), (''quick'', JBool quick), (''cipher'', JStr cipher), (''payload_bytes'', JInt (int payload)),
          (''seconds_per_point'', real_v seconds 3), (''capacity_pps'', real_v capacity 1), (''knee_pps'', real_v (knee_pps rows) 1),
          (''knee_fraction'', real_v (per_capacity capacity (knee_pps rows)) 4), (''baseline_p99_ns'', real_v (base_p99 rows) 1),
          (''topology'', JStr (if wire then ''wire'' else ''loopback'')),
          (''topology_reason'', JStr (if wire then ''peer generator on '' @ pr_addr p else pr_why p)), (''netem_label'', JStr netem),
          (''generator_shares_cpu'', JBool (\<not> wire \<and> one_core)), (''interpretable'', JBool (wire \<or> \<not> one_core)),
          (''interpretation_note'', JStr (e5_note wire one_core)),
          (''latency_metric'', JStr (if wire then ''round trip, generator clock, both ends'' else ''one way, local clock, header timestamp'')),
          (''points'', JArr (map (JObj \<circ> e5_row_members capacity) rows))])"

text \<open>The sweep over fractions of the capacity; the peer's connection goes from point to point.\<close>

fun e5_rows :: "(nat \<Rightarrow> real \<Rightarrow> peer \<Rightarrow> (e5_row \<times> peer) option) \<Rightarrow> string \<Rightarrow> real \<Rightarrow> real list \<Rightarrow> nat \<Rightarrow> peer \<Rightarrow> e5_row list option" where
  "e5_rows point netem capacity [] k p = Some []"
| "e5_rows point netem capacity (f # fs) k p =
     Option.bind (point k (capacity * f) p) (\<lambda>(r, p).
       map_option (\<lambda>rs. r\<lparr> e5_netem := netem \<rparr> # rs) (e5_rows point netem capacity fs (Suc k) p))"

definition e5_fractions :: "bool \<Rightarrow> real list" where
  "e5_fractions quick =
     (if quick then [30 / 100, 70 / 100, 95 / 100, 120 / 100]
      else [10 / 100, 25 / 100, 40 / 100, 55 / 100, 70 / 100, 80 / 100, 90 / 100, 95 / 100, 1, 110 / 100, 130 / 100, 160 / 100])"

definition run_e5 ::
    "(nat \<Rightarrow> shard_env) \<Rightarrow> (nat \<Rightarrow> os) \<Rightarrow> (nat \<Rightarrow> nat \<Rightarrow> bytes list) \<Rightarrow> (nat \<Rightarrow> u64) \<Rightarrow> simd_state \<Rightarrow> peer \<Rightarrow> (nat \<Rightarrow> nat \<Rightarrow> int) \<Rightarrow> string option \<Rightarrow>
     caps \<Rightarrow> run_ctx \<Rightarrow> string list \<Rightarrow> (string + (string \<times> jv) list) option" where
  "run_e5 envs oss arrive sent simd p snd_res netem_env c ctx argv =
     (case measurement_permitted c of Some why \<Rightarrow> Some (Inl why)
      | None \<Rightarrow>
        let quick = arg_has argv ''quick''; cipher = arg_str argv ''e5-cipher'' ''aes-256-gcm'';
            payload = unat (of_int (arg_int argv ''e5-payload'' 512) :: u64);
            seconds = (if quick then 4 / 10 else max 1 (rc_unit_seconds ctx));
            netem = (case netem_env of None \<Rightarrow> ''none'' | Some l \<Rightarrow> l)
        in Option.bind (run_hotpath (envs 0) simd (ShardConfig\<lparr> sc_cipher := cipher, sc_payload := payload \<rparr>) (if quick then 4000 else 20000)
                          (rc_warmup_cycles ctx) (oss 0)) (\<lambda>cap.
           if \<not> hr_ok cap then Some (Inl (''capacity probe failed: '' @ hr_error cap))
           else let point = (\<lambda>k offered p.
                  if pr_ok p then measure_wire (envs k) snd_res (arrive k) ctx p c cipher payload offered seconds 9097 (oss k)
                  else map_option (\<lambda>r. (r, p)) (measure_loopback (envs k) (arrive k) (sent k) c cipher payload offered seconds (oss k)))
           in map_option (\<lambda>rows. Inr (e5_members quick cipher payload seconds (hr_pps cap) p (c_physical_cores c < 2) netem rows))
                (e5_rows point netem (hr_pps cap) (e5_fractions quick) 1 p)))"

section \<open>E7: the tiers\<close>

record tier_result =
  tr_tier :: string
  tr_nic_driver :: string
  tr_cycles_median :: real
  tr_cycles_cv :: real
  tr_pps :: real
  tr_syscalls_per_packet :: real
  tr_chain_length :: int
  tr_ok :: bool
  tr_error :: string

definition TierResult :: tier_result where
  "TierResult = \<lparr> tr_tier = [], tr_nic_driver = [], tr_cycles_median = 0, tr_cycles_cv = 0, tr_pps = 0, tr_syscalls_per_packet = 0,
     tr_chain_length = 1, tr_ok = False, tr_error = [] \<rparr>"

text \<open>The conversion of a double to an integer drops the fraction.\<close>

definition trunc :: "real \<Rightarrow> int" where
  "trunc v = (if v < 0 then - \<lfloor>- v\<rfloor> else \<lfloor>v\<rfloor>)"

definition or_keep :: "'a option \<Rightarrow> 'a \<Rightarrow> 'a" where
  "or_keep v old = (case v of None \<Rightarrow> old | Some x \<Rightarrow> x)"

text \<open>The file of a tier, \<open>None\<close> when it cannot be opened or names no tier.\<close>

definition read_tier_file :: "string option \<Rightarrow> tier_result option" where
  "read_tier_file content =
     Option.bind content (\<lambda>js.
     Option.bind (unit_string js ''tier'') (\<lambda>tier.
       let t = TierResult\<lparr> tr_tier := tier \<rparr>
       in Some (t\<lparr> tr_nic_driver := or_keep (unit_string js ''nic_driver'') (tr_nic_driver t),
                    tr_error := or_keep (unit_string js ''error'') (tr_error t),
                    tr_cycles_median := or_keep (unit_field js ''cycles_median'') (tr_cycles_median t),
                    tr_cycles_cv := or_keep (unit_field js ''cycles_cv'') (tr_cycles_cv t),
                    tr_pps := or_keep (unit_field js ''pps'') (tr_pps t),
                    tr_syscalls_per_packet := or_keep (unit_field js ''syscalls_per_packet'') (tr_syscalls_per_packet t),
                    tr_chain_length := or_keep (map_option (c_int \<circ> trunc) (unit_field js ''chain_length'')) (tr_chain_length t),
                    tr_ok := or_keep (map_option (\<lambda>v. v \<noteq> 0) (unit_field js ''ok'')) (tr_ok t) \<rparr>)))"

text \<open>The unit that measures the tier its process is in, and what it prints.\<close>

definition virt_members :: "string \<Rightarrow> string \<Rightarrow> int \<Rightarrow> string \<Rightarrow> nat \<Rightarrow> summary \<Rightarrow> hotpath_result list \<Rightarrow> string \<Rightarrow> (string \<times> jv) list" where
  "virt_members tier nic chain cipher payload sm hs err =
     [(''ok'', JBool (hs \<noteq> [])), (''tier'', JStr tier), (''nic_driver'', JStr nic), (''chain_length'', JInt chain), (''cipher'', JStr cipher),
      (''payload_bytes'', JInt (int payload)), (''cycles_median'', real_v (sm_median sm) 3), (''cycles_cv'', real_v (sm_cv sm) 5),
      (''pps'', real_v (if hs = [] then 0 else median (map hr_pps hs)) 1),
      (''syscalls_per_packet'', real_v (if hs = [] then 0 else median (map hr_syscalls_per_pkt hs)) 4), (''error'', JStr err)]"

definition virt_report :: "(string \<times> jv) list \<Rightarrow> string" where
  "virt_report ms = w_out (emit_jv (JObj ms) (Writer 2)) @ [c_nl]"

definition run_virt_unit ::
    "(nat \<Rightarrow> shard_env) \<Rightarrow> (nat \<Rightarrow> os) \<Rightarrow> simd_state \<Rightarrow> (u64 \<Rightarrow> nat \<Rightarrow> nat \<Rightarrow> nat) \<Rightarrow> caps \<Rightarrow> run_ctx \<Rightarrow> string list \<Rightarrow> (string \<times> int) option" where
  "run_virt_unit envs oss simd draws c ctx argv =
     (let cipher = arg_str argv ''cipher'' ''aes-256-gcm''; payload = unat (of_int (arg_int argv ''payload'' 512) :: u64);
          reps = c_int (arg_int argv ''reps'' 5); packets = c_int (arg_int argv ''packets'' 20000); chain = c_int (arg_int argv ''chain'' 1);
          cfg = ShardConfig\<lparr> sc_cipher := cipher, sc_payload := payload \<rparr>
      in map_option (\<lambda>(k, hs, err).
           let sm = (if hs = [] then Summary else summarise draws (map hr_cycles_per_packet hs) (rc_cv_threshold ctx) (rc_seed ctx))
           in (virt_report (virt_members (c_isolation_tier c) (c_nic_driver c) chain cipher payload sm hs err), if hs = [] then 1 else 0))
         (hp_reps (\<lambda>k cfg. run_hotpath (envs k) simd cfg packets (rc_warmup_cycles ctx) (oss k)) cfg (nat reps) 0 []))"

section \<open>E7: the fragment\<close>

definition tier_file :: "string \<Rightarrow> bool" where
  "tier_file name \<longleftrightarrow> 6 \<le> length name \<and> drop (length name - 5) name = ''.json''"

text \<open>The directory in the order it is read: the chain points, and the tiers.\<close>

definition read_dir :: "(string \<times> string option) list \<Rightarrow> tier_result list \<times> tier_result list" where
  "read_dir files =
     (let rs = concat (map (\<lambda>(name, content). case read_tier_file content of None \<Rightarrow> [] | Some t \<Rightarrow> [(take 5 name = ''chain'', t)])
                 (filter (\<lambda>(name, content). tier_file name) files))
      in (map snd (filter fst rs), map snd (filter (\<lambda>x. \<not> fst x) rs)))"

definition tier_rank :: "string \<Rightarrow> nat" where
  "tier_rank t = (if t = ''host'' then 0 else if t = ''netns'' then 1 else if t = ''container'' then 2 else if t = ''gvisor'' then 3 else 4)"

definition here_close :: "(u64 \<Rightarrow> nat \<Rightarrow> nat \<Rightarrow> nat) \<Rightarrow> run_ctx \<Rightarrow> hotpath_result list \<Rightarrow> string \<Rightarrow> tier_result \<Rightarrow> tier_result" where
  "here_close draws ctx hs err t =
     (let t = t\<lparr> tr_error := err \<rparr>
      in if hs = [] then t
         else let sm = summarise draws (map hr_cycles_per_packet hs) (rc_cv_threshold ctx) (rc_seed ctx)
         in t\<lparr> tr_cycles_median := sm_median sm, tr_cycles_cv := sm_cv sm, tr_pps := median (map hr_pps hs),
               tr_syscalls_per_packet := median (map hr_syscalls_per_pkt hs), tr_ok := True \<rparr>)"

definition host_cycles :: "tier_result list \<Rightarrow> real" where
  "host_cycles tiers = fold (\<lambda>t h. if tr_tier t = ''host'' \<and> tr_ok t then tr_cycles_median t else h) tiers 0"

definition per_hop :: "tier_result list \<Rightarrow> real" where
  "per_hop chain =
     (if 2 \<le> length chain
      then let a = hd chain; b = last chain
           in if tr_chain_length b > tr_chain_length a
              then (tr_cycles_median b - tr_cycles_median a) / of_int (tr_chain_length b - tr_chain_length a) else 0
      else 0)"

definition tier_members :: "real \<Rightarrow> tier_result \<Rightarrow> (string \<times> jv) list" where
  "tier_members host t =
     [(''tier'', JStr (tr_tier t)), (''nic_driver'', JStr (tr_nic_driver t)), (''cycles_median'', real_v (tr_cycles_median t) 3),
      (''cycles_cv'', real_v (tr_cycles_cv t) 5), (''pps'', real_v (tr_pps t) 1), (''syscalls_per_packet'', real_v (tr_syscalls_per_packet t) 4),
      (''relative_to_host'', real_v (if host > 0 then tr_cycles_median t / host else 0) 4), (''ok'', JBool (tr_ok t)), (''error'', JStr (tr_error t))]"

definition chain_members :: "tier_result \<Rightarrow> (string \<times> jv) list" where
  "chain_members t =
     [(''chain_length'', JInt (tr_chain_length t)), (''cycles_median'', real_v (tr_cycles_median t) 3), (''cycles_cv'', real_v (tr_cycles_cv t) 5),
      (''pps'', real_v (tr_pps t) 1), (''ok'', JBool (tr_ok t)), (''error'', JStr (tr_error t))]"

definition e7_members :: "tier_result list \<Rightarrow> tier_result list \<Rightarrow> (string \<times> jv) list" where
  "e7_members tiers chain =
     (let host = host_cycles tiers
      in [(''available'', JBool True), (''tiers_measured'', JInt (int (length tiers))), (''chain_points'', JInt (int (length chain))),
          (''host_cycles'', real_v host 2), (''chain_cycles_per_hop'', real_v (per_hop chain) 2), (''bare_metal_available'', JBool False),
          (''bare_metal_note'', JStr (''the '' @ [CHR 0x27] @ ''host'' @ [CHR 0x27] @ '' tier is itself a hypervisor guest, so what is reported '' @
             ''is the incremental cost of each isolation layer above the VM, not '' @ ''the absolute cost of virtualisation'')),
          (''tiers'', JArr (map (JObj \<circ> tier_members host) tiers)), (''chain'', JArr (map (JObj \<circ> chain_members) chain))])"

text \<open>
  \<open>sort_tiers\<close> and \<open>sort_chain\<close> are the library's sorts by rank and by chain length, which leave the order
  of equal elements open.
\<close>

definition run_e7 ::
    "(nat \<Rightarrow> shard_env) \<Rightarrow> (nat \<Rightarrow> os) \<Rightarrow> simd_state \<Rightarrow> (u64 \<Rightarrow> nat \<Rightarrow> nat \<Rightarrow> nat) \<Rightarrow> (tier_result list \<Rightarrow> tier_result list) \<Rightarrow>
     (tier_result list \<Rightarrow> tier_result list) \<Rightarrow> (string \<times> string option) list \<Rightarrow> caps \<Rightarrow> run_ctx \<Rightarrow> string list \<Rightarrow>
     (string + (string \<times> jv) list) option" where
  "run_e7 envs oss simd draws sort_tiers sort_chain files c ctx argv =
     (case measurement_permitted c of Some why \<Rightarrow> Some (Inl why)
      | None \<Rightarrow>
        (case read_dir files of (chain, tiers) \<Rightarrow>
         let here = TierResult\<lparr> tr_tier := c_isolation_tier c, tr_nic_driver := c_nic_driver c \<rparr>;
             packets = (if arg_has argv ''quick'' then 4000 else rc_target_packets ctx);
             hp = (\<lambda>k cfg. run_hotpath (envs k) simd cfg packets (rc_warmup_cycles ctx) (oss k))
         in Option.bind
              (if tr_tier here \<in> set (map tr_tier tiers) then Some tiers
               else map_option (\<lambda>(k, hs, err). tiers @ [here_close draws ctx hs err here])
                      (hp_reps hp (ShardConfig\<lparr> sc_cipher := ''aes-256-gcm'', sc_payload := 512 \<rparr>) (nat (max 3 (rc_reps ctx div 2))) 0 []))
              (\<lambda>tiers. Some (Inr (e7_members (sort_tiers tiers) (sort_chain chain))))))"

section \<open>Facts of the rates and the tiers\<close>

text \<open>Both phases of a point end when the counter advances past every reading by the length of the phase.\<close>

lemma timed_phases_end:
  assumes "\<And>n. \<exists>m. \<forall>k \<ge> m. se_ticks env n + ns_to_ticks (se_cal env) 200000000 \<le> se_ticks env k"
    "\<And>n. \<exists>m. \<forall>k \<ge> m. se_ticks env n + ns_to_ticks (se_cal env) (seconds * 10 ^ 9) \<le> se_ticks env k"
  shows "\<exists>s'. timed_phases env budget arrive seconds s = Some s'"
proof -
  have d: "\<exists>r. timed_drain env budget arrive deadline None k 0 s = Some r" if "\<exists>m. \<forall>k \<ge> m. deadline \<le> se_ticks env k" for deadline k s
    using that timed_drain_ends by blast
  obtain k s1 where 1: "timed_drain env budget arrive (se_ticks env (sh_reads s) + ns_to_ticks (se_cal env) 200000000) None 0 0
      (s\<lparr> sh_reads := Suc (sh_reads s) \<rparr>) = Some (k, s1)"
    using d [OF assms(1)] by (metis surj_pair)
  obtain k2 s2 where 2: "timed_drain env budget arrive (se_ticks env (sh_reads (reset_stats s1)) + ns_to_ticks (se_cal env) (seconds * 10 ^ 9))
      None k 0 ((reset_stats s1)\<lparr> sh_reads := Suc (sh_reads (reset_stats s1)) \<rparr>) = Some (k2, s2)"
    using d [OF assms(2)] by (metis surj_pair)
  show ?thesis
    using 1 2 unfolding timed_phases_def read_ticks_def by simp
qed

text \<open>
  A run without any loss still reports one: the packets served while the shard settles are in the
  generator's count and not in the shard's.
\<close>

lemma lossless_run_reports_loss:
  assumes "unat served + unat settled < 2 ^ 64" "0 < unat settled"
  shows "loss_ratio served (served + settled) = real (unat settled) / (real (unat served) + real (unat settled))"
proof -
  have s: "unat (served + settled) = unat served + unat settled" using assms(1) by (subst unat_add_lem [THEN iffD1]) simp_all
  then have "served + settled > 0" using assms(2) by (simp add: word_less_nat_alt)
  moreover have "1 - a / (a + b) = b / (a + b) \<and> 0 \<le> b / (a + b)" if "0 \<le> a" "0 < b" for a b :: real
    using that by (simp add: field_simps)
  then have "1 - real (unat served) / (real (unat served) + real (unat settled)) = real (unat settled) / (real (unat served) + real (unat settled)) \<and>
      0 \<le> real (unat settled) / (real (unat served) + real (unat settled))" using assms(2) of_nat_0_le_iff of_nat_0_less_iff by blast
  ultimately show ?thesis unfolding loss_ratio_def s of_nat_add by (simp only: if_True max_absorb2)
qed

text \<open>A chain point that failed still moves the cost per hop.\<close>

lemma per_hop_counts_failed:
  "per_hop [TierResult\<lparr> tr_cycles_median := 1000, tr_ok := True \<rparr>, TierResult\<lparr> tr_chain_length := 3 \<rparr>] = - 500"
  by (simp add: per_hop_def TierResult_def)

lemma base_p99_cases:
  assumes "\<And>r. r \<in> set rows \<Longrightarrow> e5_ok r \<Longrightarrow> 0 < e5_p99 r"
  shows "((\<forall>r \<in> set rows. \<not> e5_ok r) \<and> base_p99 rows = 0) \<or>
    ((\<exists>r \<in> set rows. e5_ok r \<and> base_p99 rows = e5_p99 r) \<and> (\<forall>r \<in> set rows. e5_ok r \<longrightarrow> base_p99 rows \<le> e5_p99 r))"
  using assms
proof (induction rows rule: rev_induct)
  case (snoc r rows)
  have e: "base_p99 (rows @ [r]) = (if e5_ok r \<and> (base_p99 rows = 0 \<or> e5_p99 r < base_p99 rows) then e5_p99 r else base_p99 rows)"
    by (auto simp: base_p99_def)
  define b where "b = base_p99 rows"
  have ih: "((\<forall>r \<in> set rows. \<not> e5_ok r) \<and> b = 0) \<or>
      ((\<exists>r \<in> set rows. e5_ok r \<and> b = e5_p99 r) \<and> (\<forall>r \<in> set rows. e5_ok r \<longrightarrow> b \<le> e5_p99 r))"
    using snoc by (simp add: b_def)
  have "0 < e5_p99 x" if "x \<in> set rows" "e5_ok x" for x using snoc.prems that by simp
  then have "b \<noteq> 0 \<or> (\<forall>r \<in> set rows. \<not> e5_ok r)" using ih by (metis less_irrefl)
  then show ?case using ih unfolding e b_def [symmetric] by (cases "e5_ok r") (auto intro: order_trans less_imp_le)
qed (simp add: base_p99_def)

lemma knee_fold_cases:
  assumes "\<And>r. r \<in> set rows \<Longrightarrow> P r \<Longrightarrow> (0 :: real) \<le> e5_offered r"
  shows "let k = fold (\<lambda>r k. if P r then max k (e5_offered r) else k) rows 0
    in ((\<forall>r \<in> set rows. \<not> P r) \<and> k = 0) \<or> ((\<exists>r \<in> set rows. P r \<and> k = e5_offered r) \<and> (\<forall>r \<in> set rows. P r \<longrightarrow> e5_offered r \<le> k))"
  using assms
proof (induction rows rule: rev_induct)
  case (snoc r rows)
  define k where "k = fold (\<lambda>r k. if P r then max k (e5_offered r) else k) rows 0"
  have "((\<forall>r \<in> set rows. \<not> P r) \<and> k = 0) \<or> ((\<exists>r \<in> set rows. P r \<and> k = e5_offered r) \<and> (\<forall>r \<in> set rows. P r \<longrightarrow> e5_offered r \<le> k))"
    using snoc by (simp add: k_def Let_def)
  moreover have "0 \<le> e5_offered r" if "P r" using that snoc.prems by simp
  moreover have "fold (\<lambda>r k. if P r then max k (e5_offered r) else k) (rows @ [r]) 0 = (if P r then max k (e5_offered r) else k)"
    by (simp add: k_def)
  ultimately show ?case unfolding Let_def by (auto simp: max_def)
qed simp

section \<open>Reading a tier's report back\<close>

definition finite_num :: "real \<Rightarrow> bool" where
  "finite_num v \<longleftrightarrow> \<bar>v\<bar> < 2 ^ 1024"

text \<open>Values a search for the key \<open>k\<close> passes over: numbers, flags and plain texts other than \<open>k\<close>.\<close>

fun value_ok :: "string \<Rightarrow> jv \<Rightarrow> bool" where
  "value_ok k (JStr s) \<longleftrightarrow> plain_text s \<and> s \<noteq> k"
| "value_ok k (JNum v p) \<longleftrightarrow> (case v of None \<Rightarrow> False | Some x \<Rightarrow> finite_num x \<and> 0 < clamp_prec p)"
| "value_ok k (JInt i) \<longleftrightarrow> True"
| "value_ok k (JBool b) \<longleftrightarrow> True"
| "value_ok k v \<longleftrightarrow> False"

definition flat :: "string \<Rightarrow> (string \<times> jv) list \<Rightarrow> bool" where
  "flat k ms \<longleftrightarrow> list_all (\<lambda>(k', v). plain_text k' \<and> k' \<noteq> k \<and> value_ok k v) ms"

lemma value_ok_quote: "value_ok k v \<Longrightarrow> (\<And>s. v \<noteq> JStr s) \<Longrightarrow> c_quote \<notin> set (pp st d v)"
proof (cases v)
  case (JNum x p)
  assume "value_ok k v"
  then obtain y where "x = Some y" "\<bar>y\<bar> < 2 ^ 1024" "0 < clamp_prec p" by (auto simp: JNum finite_num_def split: option.splits)
  then show ?thesis using quote_free_num JNum by blast
qed (use quote_free_int in \<open>auto simp: char_consts\<close>)

lemma flat_passes: "flat k ms \<Longrightarrow> list_all (passes st d k) ms"
proof (induction ms)
  case (Cons m ms)
  obtain k' v where m: "m = (k', v)" by force
  have a: "plain_text k'" "k' \<noteq> k" "value_ok k v" "flat k ms" using Cons.prems by (simp_all add: flat_def m)
  have "passes st d k (k', v)"
  proof (cases "\<exists>s. v = JStr s")
    case True
    then show ?thesis using a passes_str by fastforce
  next
    case False
    then show ?thesis using a value_ok_quote passes_value by simp
  qed
  then show ?case using Cons.IH a(4) by (simp add: m)
qed simp

lemma virt_report_pp: "virt_report ms = pp 2 0 (JObj ms) @ [c_nl]"
  unfolding virt_report_def emit_writer ..

lemma report_fields:
  assumes "flat k before" "key_text k"
  shows "plain_text s \<Longrightarrow> unit_string (virt_report (before @ (k, JStr s) # after)) k = Some s"
    "unit_field (virt_report (before @ (k, JBool b) # after)) k = Some (if b then 1 else 0)"
    "unit_field (virt_report (before @ (k, JInt (int n)) # after)) k = Some (real n)"
    "finite_num v \<Longrightarrow> 0 < clamp_prec p \<Longrightarrow> unit_field (virt_report (before @ (k, real_v v p) # after)) k = Some (fixed_value (clamp_prec p) v)"
proof -
  note f = flat_passes [OF assms(1)]
  show "plain_text s \<Longrightarrow> unit_string (virt_report (before @ (k, JStr s) # after)) k = Some s"
    unfolding virt_report_pp by (rule unit_string_member [OF assms(2) f escape_plain])
  show "unit_field (virt_report (before @ (k, JBool b) # after)) k = Some (if b then 1 else 0)"
    unfolding virt_report_pp by (rule unit_field_bool [OF assms(2) f])
  show "unit_field (virt_report (before @ (k, JInt (int n)) # after)) k = Some (real n)"
    unfolding virt_report_pp by (rule unit_field_nat [OF assms(2) f])
  show "finite_num v \<Longrightarrow> 0 < clamp_prec p \<Longrightarrow> unit_field (virt_report (before @ (k, real_v v p) # after)) k = Some (fixed_value (clamp_prec p) v)"
    unfolding virt_report_pp finite_num_def real_v_def by (rule unit_field_num [OF assms(2) f])
qed

text \<open>A report whose texts are plain and none of the keys, and whose numbers are finite.\<close>

definition virt_keys :: "string list" where
  "virt_keys = [''tier'', ''nic_driver'', ''chain_length'', ''cipher'', ''payload_bytes'', ''cycles_median'', ''cycles_cv'', ''pps'',
     ''syscalls_per_packet'', ''error'']"

definition virt_plain :: "string \<Rightarrow> bool" where
  "virt_plain s \<longleftrightarrow> plain_text s \<and> s \<notin> set virt_keys"

lemma virt_key_plain: "list_all plain_text (''ok'' # virt_keys)" "list_all key_text (''ok'' # virt_keys)"
proof -
  show p: "list_all plain_text (''ok'' # virt_keys)" by (simp add: virt_keys_def plain_text_def char_consts)
  show "list_all key_text (''ok'' # virt_keys)" using p key_text_plain by (simp add: virt_keys_def)
qed

text \<open>The report split at each key the reader looks up.\<close>

lemma virt_split:
  "virt_members tier nic chain cipher payload sm hs err = [] @ (''ok'', JBool (hs \<noteq> [])) # drop 1 (virt_members tier nic chain cipher payload sm hs err)"
  "virt_members tier nic chain cipher payload sm hs err =
     take 1 (virt_members tier nic chain cipher payload sm hs err) @ (''tier'', JStr tier) # drop 2 (virt_members tier nic chain cipher payload sm hs err)"
  "virt_members tier nic chain cipher payload sm hs err =
     take 2 (virt_members tier nic chain cipher payload sm hs err) @ (''nic_driver'', JStr nic) # drop 3 (virt_members tier nic chain cipher payload sm hs err)"
  "virt_members tier nic chain cipher payload sm hs err =
     take 3 (virt_members tier nic chain cipher payload sm hs err) @ (''chain_length'', JInt chain) # drop 4 (virt_members tier nic chain cipher payload sm hs err)"
  "virt_members tier nic chain cipher payload sm hs err = take 6 (virt_members tier nic chain cipher payload sm hs err) @
     (''cycles_median'', real_v (sm_median sm) 3) # drop 7 (virt_members tier nic chain cipher payload sm hs err)"
  "virt_members tier nic chain cipher payload sm hs err = take 7 (virt_members tier nic chain cipher payload sm hs err) @
     (''cycles_cv'', real_v (sm_cv sm) 5) # drop 8 (virt_members tier nic chain cipher payload sm hs err)"
  "virt_members tier nic chain cipher payload sm hs err = take 8 (virt_members tier nic chain cipher payload sm hs err) @
     (''pps'', real_v (if hs = [] then 0 else median (map hr_pps hs)) 1) # drop 9 (virt_members tier nic chain cipher payload sm hs err)"
  "virt_members tier nic chain cipher payload sm hs err = take 9 (virt_members tier nic chain cipher payload sm hs err) @
     (''syscalls_per_packet'', real_v (if hs = [] then 0 else median (map hr_syscalls_per_pkt hs)) 4) #
     drop 10 (virt_members tier nic chain cipher payload sm hs err)"
  "virt_members tier nic chain cipher payload sm hs err = take 10 (virt_members tier nic chain cipher payload sm hs err) @ (''error'', JStr err) # []"
  by (simp_all add: virt_members_def)

text \<open>What the unit reports of its replicates, as the reader will hold it.\<close>

definition virt_rate :: "hotpath_result list \<Rightarrow> real" where
  "virt_rate hs = (if hs = [] then 0 else median (map hr_pps hs))"

definition virt_syscalls :: "hotpath_result list \<Rightarrow> real" where
  "virt_syscalls hs = (if hs = [] then 0 else median (map hr_syscalls_per_pkt hs))"

lemma virt_flat:
  assumes "virt_plain tier" "virt_plain nic" "virt_plain cipher" "finite_num (sm_median sm)" "finite_num (sm_cv sm)"
    "finite_num (virt_rate hs)" "finite_num (virt_syscalls hs)" "ms = virt_members tier nic chain cipher payload sm hs err"
  shows "flat ''tier'' (take 1 ms)" "flat ''nic_driver'' (take 2 ms)" "flat ''chain_length'' (take 3 ms)" "flat ''cycles_median'' (take 6 ms)"
    "flat ''cycles_cv'' (take 7 ms)" "flat ''pps'' (take 8 ms)" "flat ''syscalls_per_packet'' (take 9 ms)" "flat ''error'' (take 10 ms)"
proof -
  have c: "0 < clamp_prec 3" "0 < clamp_prec 5" "0 < clamp_prec 1" "0 < clamp_prec 4" by (simp_all add: clamp_prec_def)
  have k: "plain_text ''ok''" "plain_text ''tier''" "plain_text ''nic_driver''" "plain_text ''chain_length''" "plain_text ''cipher''"
    "plain_text ''payload_bytes''" "plain_text ''cycles_median''" "plain_text ''cycles_cv''" "plain_text ''pps''"
    "plain_text ''syscalls_per_packet''" "plain_text ''error''"
    using virt_key_plain(1) by (simp_all add: virt_keys_def)
  have t: "plain_text tier" "plain_text nic" "plain_text cipher" and n: "tier \<notin> set virt_keys" "nic \<notin> set virt_keys" "cipher \<notin> set virt_keys"
    using assms(1,2,3) by (simp_all add: virt_plain_def)
  note u = virt_members_def [folded virt_rate_def virt_syscalls_def] flat_def real_v_def
  show "flat ''tier'' (take 1 ms)" "flat ''nic_driver'' (take 2 ms)" "flat ''chain_length'' (take 3 ms)" "flat ''cycles_median'' (take 6 ms)"
    "flat ''cycles_cv'' (take 7 ms)" "flat ''pps'' (take 8 ms)" "flat ''syscalls_per_packet'' (take 9 ms)" "flat ''error'' (take 10 ms)"
    using n unfolding assms(8) virt_keys_def by (simp_all add: u k c t assms(4-7))
qed

section \<open>Properties\<close>

lemma knee_facts:
  assumes "\<And>r. r \<in> set rows \<Longrightarrow> e5_ok r \<Longrightarrow> 0 < e5_p99 r \<and> 0 \<le> e5_offered r" "q \<in> set rows" "e5_ok q"
  shows "base_p99 rows = Min (e5_p99 ` {r \<in> set rows. e5_ok r})"
    "knee_pps rows = Max (e5_offered ` {r \<in> set rows. e5_ok r \<and> e5_p99 r \<le> 2 * Min (e5_p99 ` {r \<in> set rows. e5_ok r})})"
proof -
  let ?ok = "{r \<in> set rows. e5_ok r}"
  have "(\<exists>r \<in> set rows. e5_ok r \<and> base_p99 rows = e5_p99 r) \<and> (\<forall>r \<in> set rows. e5_ok r \<longrightarrow> base_p99 rows \<le> e5_p99 r)"
    using base_p99_cases [of rows] assms by blast
  then obtain m where m: "m \<in> set rows" "e5_ok m" "base_p99 rows = e5_p99 m" "\<forall>r \<in> set rows. e5_ok r \<longrightarrow> base_p99 rows \<le> e5_p99 r"
    by blast
  show b: "base_p99 rows = Min (e5_p99 ` ?ok)" using m by (intro Min_eqI [symmetric]) auto
  have pos: "0 < base_p99 rows" using m(1,2,3) assms(1) by simp
  let ?P = "\<lambda>r. e5_ok r \<and> base_p99 rows > 0 \<and> e5_p99 r \<le> 2 * base_p99 rows"
  have k: "knee_pps rows = fold (\<lambda>r k. if ?P r then max k (e5_offered r) else k) rows 0" by (simp add: knee_pps_def Let_def)
  have "?P m" using m(2,3) pos by simp
  then have "(\<exists>r \<in> set rows. ?P r \<and> knee_pps rows = e5_offered r) \<and> (\<forall>r \<in> set rows. ?P r \<longrightarrow> e5_offered r \<le> knee_pps rows)"
    using knee_fold_cases [of rows ?P] assms(1) m(1) unfolding k Let_def by blast
  then show "knee_pps rows = Max (e5_offered ` {r \<in> set rows. e5_ok r \<and> e5_p99 r \<le> 2 * Min (e5_p99 ` ?ok)})"
    unfolding b [symmetric] using pos by (intro Max_eqI [symmetric]) auto
qed

text \<open>
  C36. The knee of the latency sweep: when the points that ran have positive tails, the baseline is the
  lowest 99th percentile among them, and the knee is the highest offered rate of a point whose 99th
  percentile is within twice the baseline, an offered rate of the sweep that has this property.
\<close>

theorem knee_highest_rate:
  assumes "\<And>r. r \<in> set rows \<Longrightarrow> e5_ok r \<Longrightarrow> 0 < e5_p99 r \<and> 0 \<le> e5_offered r" "q \<in> set rows" "e5_ok q"
  shows "base_p99 rows = Min (e5_p99 ` {r \<in> set rows. e5_ok r}) \<and>
    knee_pps rows = Max (e5_offered ` {r \<in> set rows. e5_ok r \<and> e5_p99 r \<le> 2 * Min (e5_p99 ` {r \<in> set rows. e5_ok r})})"
  using knee_facts [of rows q, OF assms] by blast

theorem knee_highest_rate_witness:
  "let row = \<lambda>o99 p99. (E5Row o99 ''loopback'')\<lparr> e5_p99 := p99, e5_ok := True \<rparr>
   in knee_pps [row 100 10, row 200 15, row 300 80] = 200"
proof -
  let ?row = "\<lambda>o99 p99. (E5Row o99 ''loopback'')\<lparr> e5_p99 := p99, e5_ok := True \<rparr>"
  let ?rows = "[?row 100 10, ?row 200 15, ?row 300 80]"
  have r: "0 < e5_p99 r \<and> 0 \<le> e5_offered r" if "r \<in> set ?rows" for r using that by (auto simp: E5Row_def)
  have ok: "{r \<in> set ?rows. e5_ok r} = set ?rows" by auto
  have b: "Min (e5_p99 ` set ?rows) = 10" by simp
  have f: "{r \<in> set ?rows. e5_ok r \<and> e5_p99 r \<le> 2 * 10} = {?row 100 10, ?row 200 15}" by auto
  have "knee_pps ?rows = Max (e5_offered ` {?row 100 10, ?row 200 15})"
    using conjunct2 [OF knee_highest_rate [of ?rows "?row 100 10"]] r unfolding ok b f by simp
  then show ?thesis by (simp add: E5Row_def)
qed

text \<open>
  A point whose tail reads zero, as a wire run without a returned packet gives, resets the search for the
  baseline: a rate far beyond twice the lowest tail is then taken for the knee.
\<close>

lemma zero_tail_moves_knee:
  "let row = \<lambda>o99 p99. (E5Row o99 ''wire'')\<lparr> e5_p99 := p99, e5_ok := True \<rparr>
   in base_p99 [row 100 10, row 200 0, row 300 80] = 80 \<and> knee_pps [row 100 10, row 200 0, row 300 80] = 300"
  by (simp add: base_p99_def knee_pps_def E5Row_def)

lemma c_int_small: "n < 2 ^ 31 \<Longrightarrow> c_int (int n) = int n"
proof -
  assume "n < 2 ^ 31"
  then have "int n < 2 ^ 31" by simp
  moreover have "- (2 ^ 31) \<le> int n" by simp
  ultimately have "signed_take_bit 31 (int n) = int n" by (intro signed_take_bit_int_eq_self)
  then show ?thesis unfolding c_int_def sint_sbintrunc' by simp
qed

lemma trunc_nat [simp]: "trunc (real n) = int n"
  by (simp add: trunc_def)



end
