(* ===== verification/Gpu.thy ===== *)
theory Gpu
  imports Options GcmAead Experiments "HOL-Library.Signed_Division"
begin

text \<open>
  The GPU baseline, \<open>src/src/cuda/lr_gpu_aead.cu\<close>: AES-256 in counter mode with one device thread per block.
  A thread is the list of the writes it makes to global memory; the writes of the threads of one launch
  may reach memory in any order.  The answers of the CUDA runtime are parameters.  Lemmas: a launch writes
  every byte of its batch once, each packet is encrypted in counter mode whatever the order, the host's key
  schedule is that of FIPS 197, and the rounds are not: the shift of the last row leaves one byte in place.
\<close>

section \<open>Constant memory and the block cipher\<close>

definition h_sbox :: "bytes" where
  "h_sbox = [
    0x63, 0x7c, 0x77, 0x7b, 0xf2, 0x6b, 0x6f, 0xc5, 0x30, 0x01, 0x67, 0x2b, 0xfe, 0xd7, 0xab, 0x76,
    0xca, 0x82, 0xc9, 0x7d, 0xfa, 0x59, 0x47, 0xf0, 0xad, 0xd4, 0xa2, 0xaf, 0x9c, 0xa4, 0x72, 0xc0,
    0xb7, 0xfd, 0x93, 0x26, 0x36, 0x3f, 0xf7, 0xcc, 0x34, 0xa5, 0xe5, 0xf1, 0x71, 0xd8, 0x31, 0x15,
    0x04, 0xc7, 0x23, 0xc3, 0x18, 0x96, 0x05, 0x9a, 0x07, 0x12, 0x80, 0xe2, 0xeb, 0x27, 0xb2, 0x75,
    0x09, 0x83, 0x2c, 0x1a, 0x1b, 0x6e, 0x5a, 0xa0, 0x52, 0x3b, 0xd6, 0xb3, 0x29, 0xe3, 0x2f, 0x84,
    0x53, 0xd1, 0x00, 0xed, 0x20, 0xfc, 0xb1, 0x5b, 0x6a, 0xcb, 0xbe, 0x39, 0x4a, 0x4c, 0x58, 0xcf,
    0xd0, 0xef, 0xaa, 0xfb, 0x43, 0x4d, 0x33, 0x85, 0x45, 0xf9, 0x02, 0x7f, 0x50, 0x3c, 0x9f, 0xa8,
    0x51, 0xa3, 0x40, 0x8f, 0x92, 0x9d, 0x38, 0xf5, 0xbc, 0xb6, 0xda, 0x21, 0x10, 0xff, 0xf3, 0xd2,
    0xcd, 0x0c, 0x13, 0xec, 0x5f, 0x97, 0x44, 0x17, 0xc4, 0xa7, 0x7e, 0x3d, 0x64, 0x5d, 0x19, 0x73,
    0x60, 0x81, 0x4f, 0xdc, 0x22, 0x2a, 0x90, 0x88, 0x46, 0xee, 0xb8, 0x14, 0xde, 0x5e, 0x0b, 0xdb,
    0xe0, 0x32, 0x3a, 0x0a, 0x49, 0x06, 0x24, 0x5c, 0xc2, 0xd3, 0xac, 0x62, 0x91, 0x95, 0xe4, 0x79,
    0xe7, 0xc8, 0x37, 0x6d, 0x8d, 0xd5, 0x4e, 0xa9, 0x6c, 0x56, 0xf4, 0xea, 0x65, 0x7a, 0xae, 0x08,
    0xba, 0x78, 0x25, 0x2e, 0x1c, 0xa6, 0xb4, 0xc6, 0xe8, 0xdd, 0x74, 0x1f, 0x4b, 0xbd, 0x8b, 0x8a,
    0x70, 0x3e, 0xb5, 0x66, 0x48, 0x03, 0xf6, 0x0e, 0x61, 0x35, 0x57, 0xb9, 0x86, 0xc1, 0x1d, 0x9e,
    0xe1, 0xf8, 0x98, 0x11, 0x69, 0xd9, 0x8e, 0x94, 0x9b, 0x1e, 0x87, 0xe9, 0xce, 0x55, 0x28, 0xdf,
    0x8c, 0xa1, 0x89, 0x0d, 0xbf, 0xe6, 0x42, 0x68, 0x41, 0x99, 0x2d, 0x0f, 0xb0, 0x54, 0xbb, 0x16]"

definition xtime_gpu :: "u8 \<Rightarrow> u8" where
  "xtime_gpu x = push_bit 1 x XOR drop_bit 7 x * 0x1b"

text \<open>The loop that adds four words of \<open>d_rk\<close>, from word \<open>4 * round\<close>.\<close>

definition gpu_add_key :: "u32 list \<Rightarrow> nat \<Rightarrow> bytes \<Rightarrow> bytes" where
  "gpu_add_key rk rd s =
     concat (map (\<lambda>c. let k = rk ! (4 * rd + c)
        in [s ! (4 * c) XOR ucast (drop_bit 24 k), s ! (4 * c + 1) XOR ucast (drop_bit 16 k),
            s ! (4 * c + 2) XOR ucast (drop_bit 8 k), s ! (4 * c + 3) XOR ucast k]) [0..<4])"

definition gpu_shift_rows :: "bytes \<Rightarrow> bytes" where
  "gpu_shift_rows s =
     (let t = s ! 1; s = s[1 := s ! 5]; s = s[5 := s ! 9]; s = s[9 := s ! 13]; s = s[13 := t];
          t = s ! 2; s = s[2 := s ! 10]; s = s[10 := t];
          t = s ! 6; s = s[6 := s ! 14]; s = s[14 := t];
          t = s ! 15; s = s[15 := s ! 11]; s = s[11 := s ! 7]; s = s[7 := t]
      in s)"

text \<open>One column of the mixing step.\<close>

definition gpu_mix_columns :: "bytes \<Rightarrow> bytes" where
  "gpu_mix_columns s =
     concat (map (\<lambda>c. let a0 = s ! (4 * c); a1 = s ! (4 * c + 1); a2 = s ! (4 * c + 2); a3 = s ! (4 * c + 3);
                        x = a0 XOR a1 XOR a2 XOR a3
        in [a0 XOR x XOR xtime_gpu (a0 XOR a1), a1 XOR x XOR xtime_gpu (a1 XOR a2),
            a2 XOR x XOR xtime_gpu (a2 XOR a3), a3 XOR x XOR xtime_gpu (a3 XOR a0)]) [0..<4])"

definition gpu_round :: "bytes \<Rightarrow> u32 list \<Rightarrow> nat \<Rightarrow> bytes \<Rightarrow> bytes" where
  "gpu_round sb rk rd s =
     (let s = map (\<lambda>i. sb ! unat (s ! i)) [0..<16];
          s = gpu_shift_rows s;
          s = (if rd \<noteq> 14 then gpu_mix_columns s else s)
      in gpu_add_key rk rd s)"

definition aes256_block :: "bytes \<Rightarrow> u32 list \<Rightarrow> bytes \<Rightarrow> bytes" where
  "aes256_block sb rk inp = fold (gpu_round sb rk) [1..<15] (gpu_add_key rk 0 (map (\<lambda>i. inp ! i) [0..<16]))"

text \<open>Key expansion on the host, on words whose first byte is the most significant.\<close>

definition kRcon :: bytes where
  "kRcon = [0x01, 0x02, 0x04, 0x08, 0x10, 0x20, 0x40]"

definition sub_word_be :: "u32 \<Rightarrow> u32" where
  "sub_word_be t =
     push_bit 24 (ucast (h_sbox ! unat (drop_bit 24 t AND 0xff))) OR push_bit 16 (ucast (h_sbox ! unat (drop_bit 16 t AND 0xff))) OR
     push_bit 8 (ucast (h_sbox ! unat (drop_bit 8 t AND 0xff))) OR ucast (h_sbox ! unat (t AND 0xff))"

definition expand_word :: "nat \<Rightarrow> u32 list \<Rightarrow> u32 list" where
  "expand_word i rk =
     (let t = rk ! (i - 1);
          t = (if i mod 8 = 0
               then sub_word_be (push_bit 8 t OR drop_bit 24 t) XOR push_bit 24 (ucast (kRcon ! (i div 8 - 1)))
               else if i mod 8 = 4 then sub_word_be t else t)
      in rk @ [rk ! (i - 8) XOR t])"

definition load_word_be :: "bytes \<Rightarrow> nat \<Rightarrow> u32" where
  "load_word_be ky i = push_bit 24 (ucast (ky ! (4 * i))) OR push_bit 16 (ucast (ky ! (4 * i + 1))) OR
     push_bit 8 (ucast (ky ! (4 * i + 2))) OR ucast (ky ! (4 * i + 3))"

definition expand_key :: "bytes \<Rightarrow> u32 list" where
  "expand_key ky = fold expand_word [8..<60] (map (load_word_be ky) [0..<8])"

section \<open>The kernel\<close>

text \<open>
  A thread of the kernel: its writes to \<open>out\<close> in the order of its loop.  \<open>/\<close> and \<open>%\<close> truncate towards zero.
\<close>

definition blocks_per_packet :: "int \<Rightarrow> int" where
  "blocks_per_packet payload = (payload + 15) sdiv 16"

definition gpu_counter :: "bytes \<Rightarrow> nat \<Rightarrow> nat \<Rightarrow> bytes" where
  "gpu_counter nonces pkt blk =
     (let c = of_nat blk + 1 :: u32
      in map (\<lambda>i. nonces ! (pkt * 12 + i)) [0..<12] @ [ucast (drop_bit 24 c), ucast (drop_bit 16 c), ucast (drop_bit 8 c), ucast c])"

definition aes_ctr_kernel ::
    "bytes \<Rightarrow> u32 list \<Rightarrow> bytes \<Rightarrow> bytes \<Rightarrow> int \<Rightarrow> int \<Rightarrow> nat \<Rightarrow> nat \<Rightarrow> nat \<Rightarrow> (nat \<times> u8) list" where
  "aes_ctr_kernel sb rk inp nonces packets payload blockDim blockIdx threadIdx =
     (let bpp = blocks_per_packet payload;
          gid = int blockIdx * int blockDim + int threadIdx
      in if gid \<ge> packets * bpp then []
      else let pkt = nat (gid sdiv bpp); blk = nat (gid smod bpp);
               ks = aes256_block sb rk (gpu_counter nonces pkt blk);
               base = pkt * nat payload + blk * 16;
               n = nat (min 16 (payload - int blk * 16))
      in map (\<lambda>i. (base + i, inp ! (base + i) XOR ks ! i)) [0..<n])"

text \<open>All writes of a launch, thread by thread, and what a sequence of writes leaves in memory.\<close>

definition launch_writes :: "nat \<Rightarrow> nat \<Rightarrow> (nat \<Rightarrow> nat \<Rightarrow> (nat \<times> u8) list) \<Rightarrow> (nat \<times> u8) list" where
  "launch_writes grid threads thread = concat (map (\<lambda>b. concat (map (thread b) [0..<threads])) [0..<grid])"

definition store_all :: "(nat \<times> u8) list \<Rightarrow> bytes \<Rightarrow> bytes" where
  "store_all ws mem = fold (\<lambda>(a, v) m. m[a := v]) ws mem"

definition grid_of :: "int \<Rightarrow> int \<Rightarrow> nat \<Rightarrow> nat" where
  "grid_of n payload threads = nat ((n * blocks_per_packet payload + int threads - 1) sdiv int threads)"


section \<open>The host\<close>

text \<open>
  Device memory.  A copy between host and device of \<open>n\<close> bytes replaces the first \<open>n\<close> bytes of the target.
\<close>

record gpu_device =
  d_sbox :: bytes
  d_rk :: "u32 list"
  d_in :: bytes
  d_out :: bytes
  d_non :: bytes

definition copy_to :: "nat \<Rightarrow> bytes \<Rightarrow> bytes \<Rightarrow> bytes" where
  "copy_to n src dst = take n src @ drop n dst"

record batch_point =
  bp_packets :: int
  bp_h2d_ns :: real
  bp_kernel_ns :: real
  bp_d2h_ns :: real
  bp_total_ns :: real
  bp_ns_per_packet :: real
  bp_gbps_effective :: real

text \<open>
  What the machine decides: whether the \<open>k\<close>-th checked call succeeds, the four times in milliseconds of the
  replicate that starts with that call, the order in which the writes of its launch reach memory, and what a
  fresh block of memory holds.
\<close>

record gpu_machine =
  gm_ok :: "nat \<Rightarrow> bool"
  gm_elapsed :: "nat \<Rightarrow> real \<times> real \<times> real \<times> real"
  gm_order :: "nat \<Rightarrow> (nat \<times> u8) list \<Rightarrow> (nat \<times> u8) list"
  gm_fresh :: "nat \<Rightarrow> nat \<Rightarrow> u8"

definition calls_ok :: "gpu_machine \<Rightarrow> nat \<Rightarrow> nat \<Rightarrow> bool" where
  "calls_ok g k n = list_all (\<lambda>i. gm_ok g (k + i)) [0..<n]"

text \<open>
  One replicate over a batch: nine checked calls up to the synchronisation and the error it may report, and
  the four readings.  \<open>None\<close> is the return from \<open>main\<close> that \<open>CUDA_OK\<close> makes.
\<close>

definition gpu_rep ::
    "gpu_machine \<Rightarrow> bytes \<Rightarrow> bytes \<Rightarrow> int \<Rightarrow> int \<Rightarrow> nat \<times> gpu_device \<times> bytes \<Rightarrow>
     ((real \<times> real \<times> real \<times> real) \<times> nat \<times> gpu_device \<times> bytes) option" where
  "gpu_rep g h_in h_non n payload st =
     (case st of (k, d, h_out) \<Rightarrow>
      let sz = nat (n * payload); threads = 256; grid = grid_of n payload threads;
          d = d\<lparr> d_in := copy_to sz h_in (d_in d), d_non := copy_to (nat n * 12) h_non (d_non d) \<rparr>;
          ws = launch_writes grid threads (aes_ctr_kernel (d_sbox d) (d_rk d) (d_in d) (d_non d) n payload threads);
          d = d\<lparr> d_out := store_all (gm_order g k ws) (d_out d) \<rparr>
      in if calls_ok g k 13 then Some (gm_elapsed g k, k + 13, d, copy_to sz (d_out d) h_out) else None)"

text \<open>The replicates of a batch; the first of the first batch is not counted.\<close>

definition gpu_batch ::
    "gpu_machine \<Rightarrow> bytes \<Rightarrow> bytes \<Rightarrow> int \<Rightarrow> int \<Rightarrow> int \<Rightarrow> nat \<times> gpu_device \<times> bytes \<Rightarrow>
     ((real \<times> real \<times> real \<times> real) list \<times> nat \<times> gpu_device \<times> bytes) option" where
  "gpu_batch g h_in h_non payload reps n st =
     fold (\<lambda>r acc. case acc of None \<Rightarrow> None
        | Some (v, st) \<Rightarrow>
          (case gpu_rep g h_in h_non n payload st of None \<Rightarrow> None
           | Some (t, st) \<Rightarrow> Some (if r = 0 \<and> n = 1 then v else v @ [t], st))) [0..<nat reps] (Some ([], st))"

definition batch_point_of :: "int \<Rightarrow> int \<Rightarrow> (real \<times> real \<times> real \<times> real) list \<Rightarrow> batch_point" where
  "batch_point_of n payload v =
     (let tot = median (map (\<lambda>(a, b, c, d). d * 10 ^ 6) v)
      in \<lparr> bp_packets = n, bp_h2d_ns = median (map (\<lambda>(a, b, c, d). a * 10 ^ 6) v),
           bp_kernel_ns = median (map (\<lambda>(a, b, c, d). b * 10 ^ 6) v), bp_d2h_ns = median (map (\<lambda>(a, b, c, d). c * 10 ^ 6) v),
           bp_total_ns = tot, bp_ns_per_packet = tot / of_int n,
           bp_gbps_effective = (if tot > 0 then of_int n * of_int payload * 8 / tot else 0) \<rparr>)"

definition gpu_batches :: "int list" where
  "gpu_batches = [1, 4, 16, 64, 256, 1024, 4096, 16384, 65536]"

fun gpu_points ::
    "gpu_machine \<Rightarrow> bytes \<Rightarrow> bytes \<Rightarrow> int \<Rightarrow> int \<Rightarrow> int list \<Rightarrow> nat \<times> gpu_device \<times> bytes \<Rightarrow> batch_point list \<Rightarrow> batch_point list option" where
  "gpu_points g h_in h_non payload reps [] st ps = Some ps"
| "gpu_points g h_in h_non payload reps (n # ns) st ps =
     (case gpu_batch g h_in h_non payload reps n st of None \<Rightarrow> None
      | Some (v, st) \<Rightarrow> gpu_points g h_in h_non payload reps ns st (if v = [] then ps else ps @ [batch_point_of n payload v]))"

definition gpu_fit :: "batch_point list \<Rightarrow> real \<times> real" where
  "gpu_fit ps =
     (if length ps \<ge> 2
      then let n = real (length ps); sx = sum_list (map (of_int \<circ> bp_packets) ps); sy = sum_list (map bp_total_ns ps);
               sxx = sum_list (map (\<lambda>p. of_int (bp_packets p) * of_int (bp_packets p)) ps);
               sxy = sum_list (map (\<lambda>p. of_int (bp_packets p) * bp_total_ns p) ps);
               den = n * sxx - sx * sx
           in if den \<noteq> 0 then let b = (n * sxy - sx * sy) / den in ((sy - b * sx) / n, b) else (0, 0)
      else (0, 0))"

fun gpu_knee :: "real \<Rightarrow> batch_point list \<Rightarrow> real" where
  "gpu_knee b [] = 0"
| "gpu_knee b (p # ps) = (if b > 0 \<and> bp_ns_per_packet p \<le> 2 * b then of_int (bp_packets p) else gpu_knee b ps)"

text \<open>The set-up: device properties, constant memory, three host and three device blocks, four events.\<close>

definition gpu_key :: bytes where
  "gpu_key = map (\<lambda>i. 0x9f XOR of_nat (i * 13)) [0..<32]"

definition gpu_input :: "nat \<Rightarrow> bytes" where
  "gpu_input sz = map (\<lambda>i. of_nat (i * 31 + 7)) [0..<sz]"

definition gpu_nonces :: "nat \<Rightarrow> bytes" where
  "gpu_nonces sz = map (\<lambda>i. of_nat (i * 17 + 3)) [0..<sz]"

definition gpu_setup :: "gpu_machine \<Rightarrow> nat \<Rightarrow> (nat \<times> gpu_device \<times> bytes) option" where
  "gpu_setup g sz =
     (if calls_ok g 0 13
      then Some (13, \<lparr> d_sbox = h_sbox, d_rk = expand_key gpu_key, d_in = map (gm_fresh g 1) [0..<sz], d_out = map (gm_fresh g 2) [0..<sz],
                       d_non = map (gm_fresh g 3) [0..<65536 * 12] \<rparr>, map (gm_fresh g 0) [0..<sz])
      else None)"

record gpu_prop =
  gp_name :: string
  gp_major :: int
  gp_minor :: int
  gp_sms :: int
  gp_clock :: int
  gp_width :: int

definition e8_unavailable :: writer where
  "e8_unavailable = emit_jv (JObj [(''e8'', JObj [(''available'', JBool False), (''reason'', JStr ''no CUDA device present'')])]) (Writer 2)"

definition batch_point_members :: "batch_point \<Rightarrow> (string \<times> jv) list" where
  "batch_point_members p =
     [(''packets'', JInt (bp_packets p)), (''h2d_ns'', real_v (bp_h2d_ns p) 1), (''kernel_ns'', real_v (bp_kernel_ns p) 1),
      (''d2h_ns'', real_v (bp_d2h_ns p) 1), (''total_ns'', real_v (bp_total_ns p) 1), (''ns_per_packet'', real_v (bp_ns_per_packet p) 3),
      (''gbps_effective'', real_v (bp_gbps_effective p) 4),
      (''transfer_share'', real_v (if bp_total_ns p > 0 then (bp_h2d_ns p + bp_d2h_ns p) / bp_total_ns p else 0) 4)]"

definition e8_doc :: "gpu_prop \<Rightarrow> int \<Rightarrow> int \<Rightarrow> batch_point list \<Rightarrow> writer" where
  "e8_doc pr payload reps ps =
     (case gpu_fit ps of (a, b) \<Rightarrow>
      emit_jv (JObj [(''e8'', JObj
        [(''available'', JBool True), (''device'', JStr (gp_name pr)),
         (''compute_capability'', JStr (show_int (gp_major pr) @ ''.'' @ show_int (gp_minor pr))), (''sm_count'', JInt (gp_sms pr)),
         (''memory_clock_khz'', JInt (gp_clock pr)), (''memory_bus_width_bits'', JInt (gp_width pr)), (''payload_bytes'', JInt payload),
         (''replicates'', JInt reps), (''cipher'', JStr ''aes-256-ctr''), (''authentication'', JBool False),
         (''authentication_note'', JStr (''confidentiality only: a parallel GHASH is a separate problem, and '' @
            ''omitting it makes these numbers an optimistic bound on the offload'')),
         (''launch_fixed_ns'', real_v a 1), (''marginal_ns_per_packet'', real_v b 4), (''worthwhile_batch_packets'', real_v (gpu_knee b ps) 0),
         (''points'', JArr (map (JObj \<circ> batch_point_members) ps))])]) (Writer 2))"

text \<open>
  \<open>main\<close>: the exit status and the document it writes with its path, if any; \<open>ndev\<close> is the count of devices, \<open>None\<close> when
  counting fails, and \<open>written\<close> what \<open>write_file\<close> answers.
\<close>

definition gpu_main :: "gpu_machine \<Rightarrow> int option \<Rightarrow> gpu_prop \<Rightarrow> bool \<Rightarrow> string list \<Rightarrow> int \<times> (string \<times> writer) option" where
  "gpu_main g ndev pr written argv =
     (let path = opt argv ''out'' ''results/raw'' @ ''/e8_gpu.json''; payload = atoi (opt argv ''payload'' ''1432''); reps = atoi (opt argv ''reps'' ''9'')
      in if ndev = None \<or> ndev = Some 0 then (0, Some (path, e8_unavailable))
      else let sz = nat (65536 * payload)
      in case gpu_setup g sz of None \<Rightarrow> (- 1, None)
       | Some st \<Rightarrow>
         (case gpu_points g (gpu_input sz) (gpu_nonces (65536 * 12)) payload reps gpu_batches st [] of None \<Rightarrow> (- 1, None)
          | Some ps \<Rightarrow> (if written then 0 else 1, Some (path, e8_doc pr payload reps ps))))"

section \<open>What a launch writes\<close>

lemma concat_upt_rows: "concat (map (\<lambda>b. map (\<lambda>i. f (b * k + i)) [0..<k]) [0..<m]) = map f [0..<m * k]"
proof (induction m)
  case (Suc m)
  have "map (\<lambda>i. f (m * k + i)) [0..<k] = map f [m * k..<m * k + k]"
    by (intro nth_equalityI) auto
  moreover have "[0..<Suc m * k] = [0..<m * k] @ [m * k..<m * k + k]"
    using upt_add_eq_append [of 0 "m * k" k] by (simp add: add.commute)
  ultimately show ?case using Suc by simp
qed simp

lemma concat_upt_blocks:
  "concat (map (\<lambda>b. map (\<lambda>i. f (b * 16 + i)) [0..<min 16 (s - b * 16)]) [0..<m]) = map f [0..<min s (m * 16)]"
proof (induction m)
  case (Suc m)
  have "map (\<lambda>i. f (m * 16 + i)) [0..<min 16 (s - m * 16)] = map f [min s (m * 16)..<min s (Suc m * 16)]"
    by (intro nth_equalityI) (auto simp: min_def split: if_splits)
  moreover have "[0..<min s (Suc m * 16)] = [0..<min s (m * 16)] @ [min s (m * 16)..<min s (Suc m * 16)]"
    using upt_add_eq_append [of 0 "min s (m * 16)" "min s (Suc m * 16) - min s (m * 16)"] by (simp add: min_def split: if_splits)
  ultimately show ?case using Suc by simp
qed simp

lemma sdiv_nat: "int a sdiv int b = int (a div b)"
  by (simp add: signed_divide_int_def zdiv_int sgn_if)

lemma smod_nat: "int a smod int b = int (a mod b)"
  by (cases "a = 0") (simp_all add: signed_modulo_int_def sdiv_nat zdiv_int zmod_int minus_div_mult_eq_mod)

lemma blocks_per_packet_nat: "blocks_per_packet (int s) = int ((s + 15) div 16)"
  using sdiv_nat [of "s + 15" 16] by (simp add: blocks_per_packet_def)

text \<open>The byte a launch computes for an address.\<close>

definition gpu_byte :: "bytes \<Rightarrow> u32 list \<Rightarrow> bytes \<Rightarrow> bytes \<Rightarrow> nat \<Rightarrow> nat \<Rightarrow> nat \<Rightarrow> u8" where
  "gpu_byte sb rk inp nonces s p j =
     inp ! (p * s + j) XOR aes256_block sb rk (gpu_counter nonces p (j div 16)) ! (j mod 16)"

lemma kernel_thread:
  assumes "0 < s" "g = b * d + t"
  shows "aes_ctr_kernel sb rk inp nonces (int n) (int s) d b t =
    (let m = (s + 15) div 16 in
     if n * m \<le> g then []
     else map (\<lambda>i. let p = g div m; j = g mod m * 16 + i in (p * s + j, gpu_byte sb rk inp nonces s p j))
       [0..<min 16 (s - g mod m * 16)])"
proof -
  define m where "m = (s + 15) div 16"
  have g: "int b * int d + int t = int g" by (simp add: assms(2))
  have d: "int g sdiv int m = int (g div m)" "int g smod int m = int (g mod m)"
    by (rule sdiv_nat smod_nat)+
  have "nat (min 16 (int s - int x)) = min 16 (s - x)" for x by arith
  from this [of "g mod m * 16"] have n: "nat (min 16 (int s - int (g mod m) * 16)) = min 16 (s - g mod m * 16)" by simp
  have c: "int n * int m \<le> int g \<longleftrightarrow> n * m \<le> g" by (metis of_nat_mult of_nat_le_iff)
  show ?thesis
    unfolding aes_ctr_kernel_def Let_def blocks_per_packet_nat m_def [symmetric] g d n c nat_int gpu_byte_def
    by (auto simp: add.assoc intro!: map_cong)
qed

lemma ceil_div: "0 < d \<Longrightarrow> x \<le> (x + d - 1) div d * d" for d x :: nat
  using div_mult_mod_eq [of "x + d - 1" d] mod_less_divisor [of d "x + d - 1"] by linarith

lemma concat_concat_map: "concat (concat (map (\<lambda>x. map (g x) (ys x)) xs)) = concat (map (\<lambda>x. concat (map (g x) (ys x))) xs)"
  by (induction xs) auto

text \<open>Taken thread by thread, a launch writes the addresses of the batch in order, each once.\<close>

lemma launch_writes_eq:
  assumes "0 < s" "0 < d"
  shows "launch_writes (grid_of (int n) (int s) d) d (\<lambda>b t. aes_ctr_kernel sb rk inp nonces (int n) (int s) d b t) =
    map (\<lambda>a. (a, gpu_byte sb rk inp nonces s (a div s) (a mod s))) [0..<n * s]"
proof -
  define m where "m = (s + 15) div 16"
  define f where "f a = (a, gpu_byte sb rk inp nonces s (a div s) (a mod s))" for a
  define T where "T g = (if n * m \<le> g then []
     else map (\<lambda>i. let p = g div m; j = g mod m * 16 + i in (p * s + j, gpu_byte sb rk inp nonces s p j))
       [0..<min 16 (s - g mod m * 16)])" for g
  have k: "aes_ctr_kernel sb rk inp nonces (int n) (int s) d b t = T (b * d + t)" for b t
    unfolding kernel_thread [OF assms(1) refl] T_def m_def Let_def by (rule refl)
  have m: "0 < m" "s \<le> m * 16" using assms(1) by (simp_all add: m_def)
  define G where "G = grid_of (int n) (int s) d"
  have e: "int n * int m + int d - 1 = int (n * m + d - 1)" using assms(2) by (simp add: of_nat_diff)
  have "G = (n * m + d - 1) div d"
    unfolding G_def grid_of_def blocks_per_packet_nat m_def [symmetric] e sdiv_nat nat_int ..
  then have G: "n * m \<le> G * d" using ceil_div [OF assms(2)] by simp
  have T0: "concat (map T [a..<b]) = []" if "n * m \<le> a" for a b using that by (auto simp: T_def)
  have "launch_writes G d (\<lambda>b t. aes_ctr_kernel sb rk inp nonces (int n) (int s) d b t) = concat (map T [0..<G * d])"
    unfolding launch_writes_def k using arg_cong [OF concat_upt_rows [of T d G], of concat]
    by (simp add: concat_concat_map)
  also have "\<dots> = concat (map T [0..<n * m])"
    using upt_add_eq_append [of 0 "n * m" "G * d - n * m"] G T0 [of "n * m" "G * d"] by simp
  also have "\<dots> = map f [0..<n * s]"
  proof -
    have row: "concat (map (\<lambda>i. T (p * m + i)) [0..<m]) = map (\<lambda>j. f (p * s + j)) [0..<s]" if "p < n" for p
    proof -
      have "T (p * m + i) = map (\<lambda>k. f (p * s + (i * 16 + k))) [0..<min 16 (s - i * 16)]" if i: "i < m" for i
      proof -
        have "p * m + i < n * m"
          using \<open>p < n\<close> i mult_le_mono1 [of "Suc p" n m] by simp
        then have "\<not> n * m \<le> p * m + i" "(p * m + i) div m = p" "(p * m + i) mod m = i" using i by simp_all
        then show ?thesis unfolding T_def f_def Let_def using assms(1) by (auto intro!: map_cong)
      qed
      then have r: "map (\<lambda>i. T (p * m + i)) [0..<m] = map (\<lambda>i. map (\<lambda>k. f (p * s + (i * 16 + k))) [0..<min 16 (s - i * 16)]) [0..<m]"
        by (intro map_cong refl) simp
      show ?thesis unfolding r using concat_upt_blocks [of "\<lambda>j. f (p * s + j)" s m] m(2) by (simp add: min_absorb1)
    qed
    have "concat (map T [0..<n * m]) = concat (map (\<lambda>p. concat (map (\<lambda>i. T (p * m + i)) [0..<m])) [0..<n])"
      using arg_cong [OF concat_upt_rows [of T m n], of concat] by (simp add: concat_concat_map)
    also have "\<dots> = concat (map (\<lambda>p. map (\<lambda>j. f (p * s + j)) [0..<s]) [0..<n])"
      using row by (intro arg_cong [where f = concat] map_cong refl) simp
    finally show ?thesis by (simp add: concat_upt_rows)
  qed
  finally show ?thesis by (simp add: G_def f_def)
qed

lemma length_gpu_add_key [simp]: "length (gpu_add_key rk r s) = 16"
  by (simp add: gpu_add_key_def length_concat comp_def Let_def sum_list_triv)

lemma length_aes256_block [simp]: "length (aes256_block sb rk inp) = 16"
proof -
  have "[1..<15] = [1..<14] @ [14::nat]" using upt_Suc_append [of 1 14] by simp
  then show ?thesis by (simp add: aes256_block_def gpu_round_def Let_def)
qed

lemma distinct_map_fst_upt: "distinct (map fst (map (\<lambda>a. (a, f a)) [0..<n]))"
  by (simp add: comp_def)

text \<open>The same writes in any order leave the same memory.\<close>

lemma length_store_all [simp]: "length (store_all ws mem) = length mem"
  unfolding store_all_def by (induction ws arbitrary: mem) auto

lemma store_all_other: "a \<notin> fst ` set ws \<Longrightarrow> store_all ws mem ! a = mem ! a"
  unfolding store_all_def by (induction ws arbitrary: mem) (auto simp: image_iff)

lemma store_all_hit:
  "distinct (map fst ws) \<Longrightarrow> (a, v) \<in> set ws \<Longrightarrow> a < length mem \<Longrightarrow> store_all ws mem ! a = v"
proof (induction ws arbitrary: mem)
  case (Cons w ws)
  show ?case
  proof (cases "w = (a, v)")
    case True
    then have "a \<notin> fst ` set ws" using Cons.prems(1) by auto
    then show ?thesis using store_all_other [of a ws "mem[a := v]"] Cons.prems(3) True by (simp add: store_all_def)
  next
    case False
    then have "(a, v) \<in> set ws" "distinct (map fst ws)" using Cons.prems by auto
    then show ?thesis using Cons.IH [of "mem[fst w := snd w]"] Cons.prems(3) by (simp add: store_all_def split_def)
  qed
qed simp

text \<open>
  C17. A launch of the kernel writes every byte of the batch exactly once: over all its threads the addresses
  written are those of the batch, none twice, so no two threads race and none writes outside the buffer, for
  any block size and also for a payload that is no multiple of sixteen.
\<close>

theorem gpu_launch_race_free:
  assumes "0 < s" "0 < d"
  shows "mset (map fst (launch_writes (grid_of (int n) (int s) d) d (aes_ctr_kernel sb rk inp nonces (int n) (int s) d))) = mset [0..<n * s]"
  using launch_writes_eq [OF assms, of n sb rk inp nonces] by (simp add: comp_def del: mset_upt)

theorem gpu_launch_race_free_witness:
  "mset (map fst (launch_writes (grid_of 2 20 256) 256 (aes_ctr_kernel h_sbox [] [] [] 2 20 256))) = mset [0..<40]"
  using gpu_launch_race_free [of 20 256 2 h_sbox "[]" "[]" "[]"] by simp

text \<open>In whatever order the writes reach memory, each packet holds its ciphertext.\<close>

lemma launch_packet:
  assumes "0 < s" "0 < d" "n * s \<le> length mem" "n * s \<le> length inp" "p < n"
    and "mset ws = mset (launch_writes (grid_of (int n) (int s) d) d (aes_ctr_kernel sb rk inp nonces (int n) (int s) d))"
  shows "take s (drop (p * s) (store_all ws mem)) =
    xor_bytes (take s (drop (p * s) inp)) (concat (map (\<lambda>i. aes256_block sb rk (gpu_counter nonces p i)) [0..<(s + 15) div 16]))"
    (is "?l = xor_bytes _ (concat ?ks)")
proof (rule nth_equalityI)
  have ps: "p * s + s \<le> n * s" using mult_le_mono1 [of "Suc p" n s] assms(5) by simp
  have ks: "\<forall>k \<in> set ?ks. length k = 16" by auto
  then have lks: "length (concat ?ks) = 16 * ((s + 15) div 16)" by (simp add: length_concat comp_def sum_list_triv)
  then have long: "s \<le> length (concat ?ks)" by simp
  show "length ?l = length (xor_bytes (take s (drop (p * s) inp)) (concat ?ks))"
    using ps assms(3,4) long by simp
  fix j
  assume "j < length ?l"
  then have j: "j < s" by simp
  have ad: "p * s + j < n * s" using ps j by simp
  have ws: "mset ws = mset (map (\<lambda>a. (a, gpu_byte sb rk inp nonces s (a div s) (a mod s))) [0..<n * s])"
    using assms(6) launch_writes_eq [OF assms(1,2)] by simp
  then have "mset (map fst ws) = mset [0..<n * s]" unfolding mset_map by (simp add: comp_def image_mset.compositionality del: mset_upt)
  then have "distinct (map fst ws)" using mset_eq_imp_distinct_iff distinct_upt by blast
  moreover have "(p * s + j, gpu_byte sb rk inp nonces s p j) \<in> set ws"
  proof -
    have "(p * s + j) div s = p" "(p * s + j) mod s = j" using j by simp_all
    then have "(p * s + j, gpu_byte sb rk inp nonces s p j) \<in> set (map (\<lambda>a. (a, gpu_byte sb rk inp nonces s (a div s) (a mod s))) [0..<n * s])"
      using ad unfolding set_map by (intro image_eqI [of _ _ "p * s + j"]) simp_all
    then show ?thesis using mset_eq_setD [OF ws] by simp
  qed
  ultimately have "store_all ws mem ! (p * s + j) = gpu_byte sb rk inp nonces s p j"
    using ad assms(3) by (intro store_all_hit) auto
  moreover have b: "j div 16 < (s + 15) div 16"
    using j long lks by (intro less_mult_imp_div_less) simp
  moreover have "concat ?ks ! j = ?ks ! (j div 16) ! (j mod 16)"
  proof -
    have "16 * (j div 16) \<le> length (concat ?ks)" using lks b by simp
    then show ?thesis using nth_concat_blocks [OF ks, of "j div 16" "j mod 16"] b by (simp add: nth_drop)
  qed
  moreover have "?ks ! (j div 16) = aes256_block sb rk (gpu_counter nonces p (j div 16))" using b by simp
  ultimately show "?l ! j = xor_bytes (take s (drop (p * s) inp)) (concat ?ks) ! j"
    using j ps assms(3,4) long by (simp add: gpu_byte_def)
qed

section \<open>The key schedule and the rounds\<close>

text \<open>A word of the schedule read as four bytes, the most significant first.\<close>

definition be_bytes :: "u32 \<Rightarrow> bytes" where
  "be_bytes w = [ucast (drop_bit 24 w), ucast (drop_bit 16 w), ucast (drop_bit 8 w), ucast w]"

lemma h_sbox_kSbox: "h_sbox = kSbox"
  unfolding h_sbox_def kSbox_def by (rule refl)

lemma xtime_gpu_xtime: "xtime_gpu = xtime"
  by (rule ext) (simp add: xtime_gpu_def xtime_def)

lemma upt4_be: "[0..<4] = [0, 1, 2, 3::nat]"
  by (simp add: upt_rec)

definition be_word :: "u8 \<Rightarrow> u8 \<Rightarrow> u8 \<Rightarrow> u8 \<Rightarrow> u32" where
  "be_word a b c d = push_bit 24 (ucast a) OR push_bit 16 (ucast b) OR push_bit 8 (ucast c) OR ucast d"

lemma be_bytes_word: "be_bytes (be_word a b c d) = [a, b, c, d]"
  unfolding be_bytes_def be_word_def
  by (intro arg_cong2 [where f = Cons] refl bit_word_eqI) (auto simp: bit_simps dest: bit_imp_le_length)

lemma be_bytes_load: "be_bytes (load_word_be ky i) = map (\<lambda>j. ky ! (4 * i + j)) [0..<4]"
  unfolding load_word_be_def be_word_def [symmetric] be_bytes_word by (simp add: upt4_be)

lemma u32_low_byte: "(w :: u32) AND 0xff = ucast (ucast w :: u8)"
proof -
  have "(0xff :: u32) = mask 8" by (simp add: mask_eq_exp_minus_1)
  then show ?thesis by (simp only: flip: take_bit_eq_mask) (rule bit_word_eqI, auto simp: bit_simps)
qed

lemma be_bytes_sub: "be_bytes (sub_word_be w) = map sbox (be_bytes w)"
proof -
  have u: "unat (ucast x :: u32) = unat x" for x :: u8
    using unat_u8_lt [of x] by (simp add: unsigned_ucast_eq take_bit_nat_eq_self)
  show ?thesis
    unfolding sub_word_be_def u32_low_byte u h_sbox_kSbox sbox_def [symmetric] be_word_def [symmetric] be_bytes_word
    by (simp add: be_bytes_def)
qed

lemma be_bytes_rot: "be_bytes (push_bit 8 w OR drop_bit 24 w) = rotate1 (be_bytes w)"
  unfolding be_bytes_def rotate1.simps append.simps
  by (intro arg_cong2 [where f = Cons] refl bit_word_eqI) (auto simp: bit_simps dest: bit_imp_le_length)

lemma be_bytes_xor: "be_bytes (v XOR w) = xor_bytes (be_bytes v) (be_bytes w)"
  unfolding be_bytes_def xor_bytes_def
  by (simp add: bit_word_eqI bit_simps) (intro conjI bit_word_eqI; auto simp: bit_simps)

lemma be_bytes_rcon: "be_bytes (push_bit 24 (ucast (r :: u8))) = [r, 0, 0, 0]"
  using be_bytes_word [of r 0 0 0] by (simp add: be_word_def)

lemma length_be_bytes [simp]: "length (be_bytes w) = 4"
  by (simp add: be_bytes_def)

lemma rcon_powers:
  assumes "k < 7"
  shows "kRcon ! k = (xtime ^^ k) 1"
proof -
  have e: "kRcon = map (\<lambda>i. (xtime ^^ i) 1) [0..<6] @ [(xtime ^^ 6) 1]" unfolding xtime_table by (simp add: kRcon_def)
  have "k < 6 \<or> k = 6" using assms by auto
  then show ?thesis unfolding e by (auto simp: nth_append simp del: funpow.simps)
qed

lemma xor4: "length a = 4 \<Longrightarrow> length b = 4 \<Longrightarrow> xor_bytes a b = map (\<lambda>j. a ! j XOR b ! j) [0..<4]"
  by (intro nth_equalityI) auto

lemma rotate_xor_rcon:
  assumes "length t = 4"
  shows "xor_bytes (map sbox (rotate1 t)) [r, 0, 0, 0] = [sbox (t ! 1) XOR r, sbox (t ! 2), sbox (t ! 3), sbox (t ! 0)]"
  by (subst list4 [OF assms]) (simp add: xor_bytes_def)

lemma round_up_8:
  fixes i :: nat
  assumes "i mod 8 \<noteq> 0"
  shows "(Suc i + 7) div 8 = (i + 7) div 8"
proof -
  define q r where "q = i div 8" and "r = i mod 8"
  have i: "i = q * 8 + r" and r: "0 < r" "r < 8" using assms by (simp_all add: q_def r_def)
  have "(i + 7) div 8 = Suc q" using r by (intro div_nat_eqI) (simp_all add: i)
  moreover have "(Suc i + 7) div 8 = Suc q" using r by (intro div_nat_eqI) (simp_all add: i)
  ultimately show ?thesis by simp
qed

lemma expand_word_step:
  assumes "length rk = i" "map be_bytes rk = w" "8 \<le> i" "i < 60" "rcon = (xtime ^^ ((i + 7) div 8 - 1)) 1"
  shows "map be_bytes (expand_word i rk) = fst (expand_step i (w, rcon)) \<and>
    snd (expand_step i (w, rcon)) = (xtime ^^ ((Suc i + 7) div 8 - 1)) 1"
proof -
  define t u where "t = rk ! (i - 1)" and "u = rk ! (i - 8)"
  have t: "w ! (i - 1) = be_bytes t" "w ! (i - 8) = be_bytes u"
    using assms(1-3) by (auto simp: t_def u_def)
  have x: "map (\<lambda>j. be_bytes u ! j XOR v ! j) [0..<4] = xor_bytes (be_bytes u) v" if "length v = 4" for v
    using xor4 [of "be_bytes u" v] that by simp
  consider "i mod 8 = 0" | "i mod 8 = 4" | "i mod 8 \<noteq> 0" "i mod 8 \<noteq> 4" by blast
  then show ?thesis
  proof cases
    case 1
    then obtain p where "i = 8 * p" by auto
    then obtain q where q: "i = 8 * Suc q" using assms(3) by (cases p) auto
    then have k: "q < 7" "(i + 7) div 8 - 1 = q" "(Suc i + 7) div 8 - 1 = Suc q" "i div 8 = Suc q"
      using assms(4) by simp_all
    have r: "rcon = (xtime ^^ q) 1" using assms(5) k(2) by simp
    have ew: "expand_word i rk = rk @ [u XOR (sub_word_be (push_bit 8 t OR drop_bit 24 t) XOR push_bit 24 (ucast rcon))]"
      using 1 k(1,4) r by (simp add: expand_word_def Let_def rcon_powers t_def u_def)
    have es: "expand_step i (w, rcon) = (w @ [xor_bytes (be_bytes u) [sbox (be_bytes t ! 1) XOR rcon, sbox (be_bytes t ! 2), sbox (be_bytes t ! 3), sbox (be_bytes t ! 0)]], xtime rcon)"
      unfolding expand_step_def Let_def case_prod_conv t using 1 x by simp
    show ?thesis
      unfolding ew es k(3) map_append assms(2)
      by (simp add: be_bytes_xor be_bytes_sub be_bytes_rot be_bytes_rcon rotate_xor_rcon r)
  next
    case 2
    then have ew: "expand_word i rk = rk @ [u XOR sub_word_be t]" and n: "i mod 8 \<noteq> 0"
      by (simp_all add: expand_word_def Let_def t_def u_def)
    have es: "expand_step i (w, rcon) = (w @ [xor_bytes (be_bytes u) (map sbox (be_bytes t))], rcon)"
      unfolding expand_step_def Let_def case_prod_conv t using 2 x by simp
    show ?thesis
      unfolding ew es map_append assms(2) round_up_8 [OF n] by (simp add: be_bytes_xor be_bytes_sub assms(5))
  next
    case 3
    have ew: "expand_word i rk = rk @ [u XOR t]" using 3 by (simp add: expand_word_def Let_def t_def u_def)
    have es: "expand_step i (w, rcon) = (w @ [xor_bytes (be_bytes u) (be_bytes t)], rcon)"
      unfolding expand_step_def Let_def case_prod_conv t using 3 x by simp
    show ?thesis
      unfolding ew es map_append assms(2) round_up_8 [OF 3(1)] by (simp add: be_bytes_xor assms(5))
  qed
qed

lemma expand_word_fold:
  assumes "length rk = 8" "map be_bytes rk = w" "n \<le> 52"
  shows "length (fold expand_word [8..<8 + n] rk) = 8 + n \<and>
    fold expand_step [8..<8 + n] (w, 1) = (map be_bytes (fold expand_word [8..<8 + n] rk), (xtime ^^ ((8 + n + 7) div 8 - 1)) 1)"
  using assms(3)
proof (induction n)
  case (Suc n)
  define rk' where "rk' = fold expand_word [8..<8 + n] rk"
  have l: "length rk' = 8 + n" and f: "fold expand_step [8..<8 + n] (w, 1) = (map be_bytes rk', (xtime ^^ ((8 + n + 7) div 8 - 1)) 1)"
    using Suc by (simp_all add: rk'_def)
  have e: "[8..<8 + Suc n] = [8..<8 + n] @ [8 + n]" using upt_Suc_append [of 8 "8 + n"] by simp
  show ?case
    unfolding e fold_append f comp_def rk'_def [symmetric]
    using expand_word_step [OF l refl _ _ refl] Suc.prems l
    by (simp add: prod_eq_iff) (simp add: expand_word_def Let_def)
qed (use assms in simp)

text \<open>The words of the host's schedule are the round keys of FIPS 197.\<close>

lemma gpu_add_key_fips:
  assumes "r < 15"
  shows "gpu_add_key (expand_key ky) r s = AddRoundKey s (KeyExpansion ky ! r)"
proof -
  define rk where "rk = map (load_word_be ky) [0..<8]"
  have w: "map be_bytes rk = map (\<lambda>i. map (\<lambda>j. ky ! (4 * i + j)) [0..<4]) [0..<8]"
    by (simp add: rk_def be_bytes_load)
  have "length rk = 8" by (simp add: rk_def)
  moreover have "8 + 52 = (60 :: nat)" by simp
  ultimately have f: "length (expand_key ky) = 60"
      "fst (fold expand_step [8..<60] (map (\<lambda>i. map (\<lambda>j. ky ! (4 * i + j)) [0..<4]) [0..<8], 1)) = map be_bytes (expand_key ky)"
    using expand_word_fold [OF _ w, of 52] unfolding expand_key_def rk_def by (metis fst_conv le_refl)+
  have "KeyExpansion ky = map (\<lambda>r. concat (map (\<lambda>c. map be_bytes (expand_key ky) ! (4 * r + c)) [0..<4])) [0..<15]"
    by (simp only: portable_KeyExpansion [symmetric] aes256_expand_portable_def Let_def f(2))
  then have "KeyExpansion ky ! r = concat (map (\<lambda>c. be_bytes (expand_key ky ! (4 * r + c))) [0..<4])"
    using f(1) assms by (simp add: upt4_be del: upt_Suc)
  then show ?thesis
    unfolding gpu_add_key_def AddRoundKey_def upt4_be upt16 by (simp add: be_bytes_def Let_def numeral_eq_Suc)
qed

text \<open>
  The last row: the shift moves three of its four bytes.  Byte 3 stays where it is, so byte 15 lands in
  column 1 where FIPS 197 has byte 3.
\<close>

lemma list16: "length s = 16 \<Longrightarrow> s = [s ! 0, s ! 1, s ! 2, s ! 3, s ! 4, s ! 5, s ! 6, s ! 7, s ! 8, s ! 9, s ! 10, s ! 11, s ! 12, s ! 13, s ! 14, s ! 15]"
  using map_nth [of s] by (simp add: upt16 del: upt_Suc)

lemma gpu_shift_rows_list:
  "gpu_shift_rows [a0, a1, a2, a3, a4, a5, a6, a7, a8, a9, a10, a11, a12, a13, a14, a15] =
   [a0, a5, a10, a3, a4, a9, a14, a15, a8, a13, a2, a7, a12, a1, a6, a11]"
  by (simp add: gpu_shift_rows_def Let_def numeral_eq_Suc)

lemma ShiftRows_list:
  "ShiftRows [a0, a1, a2, a3, a4, a5, a6, a7, a8, a9, a10, a11, a12, a13, a14, a15] =
   [a0, a5, a10, a15, a4, a9, a14, a3, a8, a13, a2, a7, a12, a1, a6, a11]"
  unfolding ShiftRows_def upt16 by simp

lemma gpu_round_eq:
  assumes "rd < 15" "length s = 16"
  shows "gpu_round h_sbox (expand_key ky) rd s =
    AddRoundKey (if rd \<noteq> 14 then MixColumns (gpu_shift_rows (SubBytes s)) else gpu_shift_rows (SubBytes s)) (KeyExpansion ky ! rd)"
proof -
  have s: "map (\<lambda>i. h_sbox ! unat (s ! i)) [0..<16] = SubBytes s"
    using assms(2) by (intro nth_equalityI) (simp_all add: SubBytes_def sbox_def h_sbox_kSbox)
  have "gpu_mix_columns v = MixColumns v" for v
    by (simp add: mix_columns_fips [symmetric] gpu_mix_columns_def mix_columns_def xtime_gpu_xtime)
  then show ?thesis
    unfolding gpu_round_def Let_def s gpu_add_key_fips [OF assms(1)] by simp
qed

lemma word_xor_right_inj: "a XOR k = b XOR k \<longleftrightarrow> a = (b :: 'a::len word)"
  by (metis word_xor_cancel_right)

lemma word_xor_left_inj: "k XOR a = k XOR b \<longleftrightarrow> a = (b :: 'a::len word)"
  by (metis word_xor_right_inj xor.commute)

lemma AddRoundKey_inj: "length a = 16 \<Longrightarrow> length b = 16 \<Longrightarrow> AddRoundKey a k = AddRoundKey b k \<longleftrightarrow> a = b"
  by (auto simp: AddRoundKey_def list_eq_iff_nth_eq word_xor_right_inj)

lemma mix_columns_byte3:
  assumes "mix_columns (p # q # r # a # as) = mix_columns (p # q # r # b # bs)"
  shows "a = b"
proof -
  have "mix_columns (p # q # r # a # as) ! 1 = mix_columns (p # q # r # b # bs) ! 1" using assms by simp
  then have "q XOR (p XOR q XOR r XOR a) XOR xtime (q XOR r) = q XOR (p XOR q XOR r XOR b) XOR xtime (q XOR r)"
    by (simp add: mix_columns_def upt4_be Let_def)
  then show ?thesis by (simp only: word_xor_right_inj word_xor_left_inj)
qed

text \<open>
  C18. A round of the kernel, under the round keys the host expands, is the round of FIPS 197 only for the
  states in which the bytes that the substitution gives in positions 3 and 15 coincide: the shift of the last
  row leaves byte 3 in place.  The kernel times a cipher that is not AES.
\<close>

theorem gpu_round_agrees_iff:
  assumes "rd < 15" "length s = 16"
  shows "gpu_round h_sbox (expand_key ky) rd s =
     AddRoundKey (if rd \<noteq> 14 then MixColumns (ShiftRows (SubBytes s)) else ShiftRows (SubBytes s)) (KeyExpansion ky ! rd)
   \<longleftrightarrow> sbox (s ! 3) = sbox (s ! 15)"
proof -
  obtain a0 a1 a2 a3 a4 a5 a6 a7 a8 a9 a10 a11 a12 a13 a14 a15
    where b: "SubBytes s = [a0, a1, a2, a3, a4, a5, a6, a7, a8, a9, a10, a11, a12, a13, a14, a15]"
    using list16 [of "SubBytes s"] assms(2) by (simp add: SubBytes_def)
  then have c: "a3 = sbox (s ! 3)" "a15 = sbox (s ! 15)"
    using assms(2) nth_map [of 3 s sbox] nth_map [of 15 s sbox] by (simp_all add: SubBytes_def)
  have l: "length (mix_columns x) = 16" for x by (simp add: mix_columns_def length_concat comp_def Let_def sum_list_triv)
  have "rd \<noteq> 14 \<Longrightarrow> mix_columns (gpu_shift_rows (SubBytes s)) = mix_columns (ShiftRows (SubBytes s)) \<longleftrightarrow> a3 = a15"
    unfolding b gpu_shift_rows_list ShiftRows_list using mix_columns_byte3 by auto
  then show ?thesis
    unfolding gpu_round_eq [OF assms] c [symmetric] mix_columns_fips [symmetric]
    by (cases "rd = 14") (auto simp: AddRoundKey_inj l b gpu_shift_rows_list ShiftRows_list)
qed

theorem gpu_round_agrees_iff_witness:
  "gpu_round h_sbox (expand_key (replicate 32 0)) 14 ([0, 0, 0, 1] @ replicate 12 0) \<noteq>
   AddRoundKey (ShiftRows (SubBytes ([0, 0, 0, 1] @ replicate 12 0))) (KeyExpansion (replicate 32 0) ! 14)"
  using gpu_round_agrees_iff [of 14 "[0, 0, 0, 1] @ replicate 12 0" "replicate 32 0"] by (simp add: sbox_def kSbox_def)

section \<open>The host's loop\<close>

text \<open>The fit over the batches is the line fit of the other experiments.\<close>

lemma gpu_fit_line: "gpu_fit ps = fit_line (map (of_int \<circ> bp_packets) ps) (map bp_total_ns ps)"
proof -
  have "sum_list (map f ps) = (\<Sum>i<length ps. f (ps ! i))" for f :: "batch_point \<Rightarrow> real"
    by (simp add: sum_list_sum_nth atLeast0LessThan)
  then show ?thesis by (simp add: gpu_fit_def fit_line_def Let_def)
qed

lemma gpu_counter_copy:
  assumes "n * 12 \<le> length h_non" "p < n"
  shows "gpu_counter (copy_to (n * 12) h_non x) p i = gpu_counter h_non p i"
proof -
  have "copy_to (n * 12) h_non x ! (p * 12 + j) = h_non ! (p * 12 + j)" if "j < 12" for j
    using assms that by (simp add: copy_to_def nth_append)
  then have "map (\<lambda>j. copy_to (n * 12) h_non x ! (p * 12 + j)) [0..<12] = map (\<lambda>j. h_non ! (p * 12 + j)) [0..<12]"
    by (intro map_cong) auto
  then show ?thesis by (simp only: gpu_counter_def)
qed


definition demo_machine :: gpu_machine where
  "demo_machine = \<lparr> gm_ok = (\<lambda>k. True), gm_elapsed = (\<lambda>k. (1, 1, 1, 3)), gm_order = (\<lambda>k. rev), gm_fresh = (\<lambda>j a. of_nat (j + a)) \<rparr>"

definition demo_device :: gpu_device where
  "demo_device = \<lparr> d_sbox = h_sbox, d_rk = expand_key gpu_key, d_in = replicate 40 0, d_out = replicate 40 0, d_non = replicate 24 0 \<rparr>"


text \<open>How \<open>main\<close> ends: a failed set-up writes nothing; without a device nothing asks whether the file was written.\<close>

lemma gpu_main_failed_setup: "ndev = Some (n + 1) \<Longrightarrow> 0 \<le> n \<Longrightarrow> k < 13 \<Longrightarrow> \<not> gm_ok g k \<Longrightarrow> gpu_main g ndev pr written argv = (- 1, None)"
  by (auto simp: gpu_main_def gpu_setup_def calls_ok_def list_all_iff Let_def)

lemma gpu_main_no_device: "gpu_main g (Some 0) pr False argv = (0, Some (opt argv ''out'' ''results/raw'' @ ''/e8_gpu.json'', e8_unavailable))"
  by (simp add: gpu_main_def)

text \<open>The knee is the first batch whose cost per packet is within twice the marginal cost.\<close>

lemma gpu_knee_first:
  assumes "0 < b" "\<forall>q \<in> set ps. 2 * b < bp_ns_per_packet q" "bp_ns_per_packet p \<le> 2 * b"
  shows "gpu_knee b (ps @ p # qs) = of_int (bp_packets p)"
  using assms(2) by (induction ps) (use assms(1,3) in auto)

end
