(* ===== verification/Mpi.thy ===== *)
theory Mpi
  imports Options Scaling Hotpath
begin

text \<open>
  The scaling run over several processes, \<open>src/src/mpi/lr_mpi_scale.cpp\<close>.  Each rank is a program of
  collective calls; the ranks interact in no other way, so a run of the machine is the sequence of calls all
  ranks make together, and a run in which two ranks stand at different calls, or one has ended while another
  waits, has no result.  The shards are those of the data plane.  Lemmas: when every rank can build its
  shards the run completes everywhere with the same reduced figures, and when only some can it does not.
\<close>

section \<open>Collective calls\<close>

datatype coll = Barrier | Allreduce_max real | Allreduce_sum real | Allreduce_max_int int | Allgather string

datatype reply = No_data | Real_data real | Int_data int | Names "string list"

text \<open>
  A rank: it has ended with a value, it makes a call and goes on with the reply, or its measured loop does
  not end, so it never comes to the next call.
\<close>

datatype 'a rank_prog = Ret 'a | Call coll "reply \<Rightarrow> 'a rank_prog" | Lost

text \<open>
  The MPI library is a parameter: \<open>lib cs\<close> is what the calls \<open>cs\<close> of ranks 0, 1 and so on give together,
  \<open>None\<close> when they do not complete.  The standard says what the four collectives give when every rank
  makes the same one, and that a barrier is left by nobody before everybody has entered it.
\<close>

type_synonym mpi_lib = "coll list \<Rightarrow> reply option"

definition mpi_documented :: "mpi_lib \<Rightarrow> bool" where
  "mpi_documented lib \<longleftrightarrow>
     (\<forall>n > 0. lib (map (\<lambda>i. Barrier) [0..<n]) = Some No_data) \<and>
     (\<forall>n > 0. \<forall>f. lib (map (\<lambda>i. Allreduce_max (f i)) [0..<n]) = Some (Real_data (Max (f ` {..<n})))) \<and>
     (\<forall>n > 0. \<forall>f. lib (map (\<lambda>i. Allreduce_sum (f i)) [0..<n]) = Some (Real_data (\<Sum>i\<in>{..<n}. f i))) \<and>
     (\<forall>n > 0. \<forall>f. lib (map (\<lambda>i. Allreduce_max_int (f i)) [0..<n]) = Some (Int_data (Max (f ` {..<n})))) \<and>
     (\<forall>n > 0. \<forall>f. lib (map (\<lambda>i. Allgather (f i)) [0..<n]) = Some (Names (map f [0..<n]))) \<and>
     (\<forall>cs. Barrier \<in> set cs \<longrightarrow> (\<exists>c \<in> set cs. c \<noteq> Barrier) \<longrightarrow> lib cs = None)"

fun ended :: "'a rank_prog \<Rightarrow> 'a option" where
  "ended (Ret a) = Some a"
| "ended p = None"

fun calling :: "'a rank_prog \<Rightarrow> coll option" where
  "calling (Call c k) = Some c"
| "calling p = None"

fun answered :: "reply \<Rightarrow> 'a rank_prog \<Rightarrow> 'a rank_prog" where
  "answered r (Call c k) = k r"
| "answered r p = p"

text \<open>The machine: rank 0 and the others, one collective at a time.\<close>

primrec mpi_run :: "mpi_lib \<Rightarrow> 'a rank_prog \<Rightarrow> 'a rank_prog list \<Rightarrow> 'a list option" where
  "mpi_run lib (Ret a) ps = map_option ((#) a) (those (map ended ps))"
| "mpi_run lib (Call c k) ps =
     (case those (map calling ps) of None \<Rightarrow> None
      | Some cs \<Rightarrow> (case lib (c # cs) of None \<Rightarrow> None | Some r \<Rightarrow> mpi_run lib (k r) (map (answered r) ps)))"
| "mpi_run lib Lost ps = None"

section \<open>A rank\<close>

record local_result =
  lo_cycles_per_packet :: real
  lo_wall_ns :: real
  lo_packets :: int

definition Local :: local_result where
  "Local = \<lparr> lo_cycles_per_packet = 0, lo_wall_ns = 0, lo_packets = 0 \<rparr>"

text \<open>
  What is particular to a rank: the environment and the operating system of its \<open>k\<close>-th shard, the two
  readings of its counter around the \<open>k\<close>-th measured loop and around the coordination, its host's name,
  its calibration and the capabilities of its host.
\<close>

record mpi_rank =
  mr_env :: "nat \<Rightarrow> shard_env"
  mr_os :: "nat \<Rightarrow> os"
  mr_clock :: "nat \<Rightarrow> u64 \<times> u64"
  mr_coord :: "u64 \<times> u64"
  mr_host :: string
  mr_cal :: cal
  mr_caps :: caps

definition mpi_shard_cfg :: "string \<Rightarrow> nat \<Rightarrow> int \<Rightarrow> shard_config" where
  "mpi_shard_cfg cipher payload cpu = ShardConfig\<lparr> sc_cipher := cipher, sc_payload := payload, sc_cpu := cpu \<rparr>"

definition mpi_window :: "int \<Rightarrow> int" where
  "mpi_window packets = min 2048 (max 64 (packets div 4))"

text \<open>\<open>rank_work\<close> up to the barrier, after it, and the whole with what follows as a continuation.\<close>

definition rank_prepare :: "mpi_rank \<Rightarrow> nat \<Rightarrow> string \<Rightarrow> nat \<Rightarrow> int \<Rightarrow> int \<Rightarrow> int \<Rightarrow> string + shard" where
  "rank_prepare rk k cipher payload packets warmup cpu =
     (case Shard (mr_env rk k) (mpi_shard_cfg cipher payload cpu) bench_psk (mr_os rk k) of (s, e, os) \<Rightarrow>
      if err_text e \<noteq> [] then Inl (err_text e)
      else Inr (reset_stats (pool_warm (mr_env rk k) (mpi_window packets) (nat warmup) s)))"

definition local_of :: "mpi_rank \<Rightarrow> nat \<Rightarrow> shard \<Rightarrow> local_result" where
  "local_of rk k s =
     (let st = sh_st s
      in \<lparr> lo_cycles_per_packet = (if st_packets st \<noteq> 0 then real (unat (st_ticks_busy st)) / real (unat (st_packets st)) else 0),
           lo_wall_ns = ticks_to_ns (mr_cal rk) (snd (mr_clock rk k) - fst (mr_clock rk k)), lo_packets = sint (st_packets st) \<rparr>)"

definition rank_measure :: "mpi_rank \<Rightarrow> nat \<Rightarrow> int \<Rightarrow> shard \<Rightarrow> local_result option" where
  "rank_measure rk k packets s =
     map_option (local_of rk k) (hot_loop (mr_env rk k) (mpi_window packets) packets 0 0 s)"

definition rank_work ::
    "mpi_rank \<Rightarrow> nat \<Rightarrow> string \<Rightarrow> nat \<Rightarrow> int \<Rightarrow> int \<Rightarrow> int \<Rightarrow> (string \<times> local_result \<Rightarrow> 'a rank_prog) \<Rightarrow> 'a rank_prog" where
  "rank_work rk k cipher payload packets warmup cpu cont =
     (case rank_prepare rk k cipher payload packets warmup cpu of
        Inl e \<Rightarrow> cont (e, Local)
      | Inr s \<Rightarrow> Call Barrier (\<lambda>_. case rank_measure rk k packets s of None \<Rightarrow> Lost | Some L \<Rightarrow> cont ([], L)))"

text \<open>The cost of coordination alone: a barrier, then \<open>iters\<close> times a barrier and a sum.\<close>

fun coord_loop :: "nat \<Rightarrow> 'a rank_prog \<Rightarrow> 'a rank_prog" where
  "coord_loop 0 p = p"
| "coord_loop (Suc n) p = Call Barrier (\<lambda>_. Call (Allreduce_sum 1) (\<lambda>_. coord_loop n p))"

definition coordination_ns :: "mpi_rank \<Rightarrow> nat \<Rightarrow> (real \<Rightarrow> 'a rank_prog) \<Rightarrow> 'a rank_prog" where
  "coordination_ns rk iters cont =
     Call Barrier (\<lambda>_. coord_loop iters (cont (ticks_to_ns (mr_cal rk) (snd (mr_coord rk) - fst (mr_coord rk)) / real iters)))"

section \<open>The replicates and the report\<close>

record mpi_samples =
  ms_strong_wall :: "real list"
  ms_weak_wall :: "real list"
  ms_strong_cyc :: "real list"
  ms_weak_cyc :: "real list"

definition no_samples :: mpi_samples where
  "no_samples = \<lparr> ms_strong_wall = [], ms_weak_wall = [], ms_strong_cyc = [], ms_weak_cyc = [] \<rparr>"

definition mpi_push :: "nat \<Rightarrow> real \<Rightarrow> real \<Rightarrow> real \<Rightarrow> real \<Rightarrow> mpi_samples \<Rightarrow> mpi_samples" where
  "mpi_push sz sw ww sc wc v =
     \<lparr> ms_strong_wall = ms_strong_wall v @ [sw], ms_weak_wall = ms_weak_wall v @ [ww],
       ms_strong_cyc = ms_strong_cyc v @ [sc / real sz], ms_weak_cyc = ms_weak_cyc v @ [wc / real sz] \<rparr>"

text \<open>The four reductions of a replicate.\<close>

definition mpi_reduce ::
    "nat \<Rightarrow> local_result \<Rightarrow> local_result \<Rightarrow> mpi_samples \<Rightarrow> (mpi_samples \<Rightarrow> 'a rank_prog) \<Rightarrow> 'a rank_prog" where
  "mpi_reduce sz s wk v cont =
     Call (Allreduce_max (lo_wall_ns s)) (\<lambda>sw. Call (Allreduce_max (lo_wall_ns wk)) (\<lambda>ww.
     Call (Allreduce_sum (lo_cycles_per_packet s)) (\<lambda>sc. Call (Allreduce_sum (lo_cycles_per_packet wk)) (\<lambda>wc.
       case (sw, ww, sc, wc) of (Real_data sw, Real_data ww, Real_data sc, Real_data wc) \<Rightarrow> cont (mpi_push sz sw ww sc wc v)
       | _ \<Rightarrow> Lost))))"

record mpi_args =
  ma_cipher :: string
  ma_payload :: nat
  ma_packets :: int
  ma_warmup :: int
  ma_reps :: int
  ma_out :: string

definition mpi_args_of :: "string list \<Rightarrow> mpi_args" where
  "mpi_args_of argv =
     \<lparr> ma_cipher = opt argv ''cipher'' ''aes-256-gcm'', ma_payload = unat (of_int (strtol (opt argv ''payload'' ''512'')) :: u64),
       ma_packets = atoi (opt argv ''packets'' ''40000''), ma_warmup = atoi (opt argv ''warmup'' ''3''), ma_reps = atoi (opt argv ''reps'' ''5''),
       ma_out = opt argv ''out'' ''results/raw'' \<rparr>"

definition mpi_cpu :: "mpi_rank \<Rightarrow> nat \<Rightarrow> int" where
  "mpi_cpu rk rank = (if c_hard_affinity (mr_caps rk) then int rank mod max 1 (c_physical_cores (mr_caps rk)) else - 1)"

definition mpi_share :: "int \<Rightarrow> nat \<Rightarrow> int" where
  "mpi_share packets sz = max 1000 (packets div int sz)"

text \<open>
  The loop over replicates; replicate \<open>r\<close> uses the shards \<open>2 * r\<close> and \<open>2 * r + 1\<close>.  It goes on with the
  error that ended it, empty when none did, and the samples.
\<close>

fun mpi_reps ::
    "mpi_rank \<Rightarrow> nat \<Rightarrow> nat \<Rightarrow> mpi_args \<Rightarrow> nat \<Rightarrow> nat \<Rightarrow> mpi_samples \<Rightarrow> (string \<times> mpi_samples \<Rightarrow> 'a rank_prog) \<Rightarrow> 'a rank_prog" where
  "mpi_reps rk rank sz a 0 r v cont = cont ([], v)"
| "mpi_reps rk rank sz a (Suc n) r v cont =
     rank_work rk (2 * r) (ma_cipher a) (ma_payload a) (mpi_share (ma_packets a) sz) (ma_warmup a) (mpi_cpu rk rank) (\<lambda>(e, s).
       if e \<noteq> [] then cont (e, v)
       else rank_work rk (2 * r + 1) (ma_cipher a) (ma_payload a) (ma_packets a) (ma_warmup a) (mpi_cpu rk rank) (\<lambda>(e, wk).
         if e \<noteq> [] then cont (e, v)
         else mpi_reduce sz s wk v (\<lambda>v. mpi_reps rk rank sz a n (Suc r) v cont)))"

fun distinct_names :: "string list \<Rightarrow> string list \<Rightarrow> string list" where
  "distinct_names seen [] = seen"
| "distinct_names seen (h # hs) = distinct_names (if h \<in> set seen then seen else seen @ [h]) hs"

definition median_or_0 :: "real list \<Rightarrow> real" where
  "median_or_0 v = (if v = [] then 0 else median v)"

definition mpi_doc :: "caps \<Rightarrow> nat \<Rightarrow> string list \<Rightarrow> mpi_args \<Rightarrow> int \<Rightarrow> string \<Rightarrow> mpi_samples \<Rightarrow> real \<Rightarrow> writer" where
  "mpi_doc c sz hosts a all_error err v coord =
     emit_jv (JObj [(''e2_mpi'', JObj
       [(''available'', JBool (all_error = 0 \<and> ms_strong_wall v \<noteq> [])),
        (''reason'', JStr (if all_error \<noteq> 0 then ''a rank failed: '' @ err else [])), (''ranks'', JInt (int sz)),
        (''distinct_hosts'', JInt (int (length hosts))), (''cross_node'', JBool (length hosts > 1)), (''hosts'', strs hosts),
        (''cipher'', JStr (ma_cipher a)), (''payload_bytes'', long_long (of_nat (ma_payload a))), (''packets_total_strong'', JInt (ma_packets a)),
        (''packets_per_rank_weak'', JInt (ma_packets a)), (''replicates'', JInt (ma_reps a)),
        (''strong_wall_ns'', real_v (median_or_0 (ms_strong_wall v)) 1), (''weak_wall_ns'', real_v (median_or_0 (ms_weak_wall v)) 1),
        (''cycles_per_packet_strong'', real_v (median_or_0 (ms_strong_cyc v)) 3),
        (''cycles_per_packet_weak'', real_v (median_or_0 (ms_weak_cyc v)) 3), (''coordination_ns_per_iteration'', real_v coord 1),
        (''coordination_note'', JStr (''one barrier and one allreduce with no work between them; the '' @
           ''data plane'' @ [CHR 0x27] @ ''s packets never travel through MPI'')),
        (''arch'', JStr (c_arch c)), (''nic_driver'', JStr (c_nic_driver c))])]) (Writer 2)"

text \<open>\<open>main\<close> on one rank: the exit status, and on rank 0 the document with its path.\<close>

definition mpi_main :: "mpi_rank \<Rightarrow> nat \<Rightarrow> nat \<Rightarrow> string list \<Rightarrow> (int \<times> (string \<times> writer) option) rank_prog" where
  "mpi_main rk rank sz argv =
     (let a = mpi_args_of argv
      in Call (Allgather (mr_host rk)) (\<lambda>names. case names of Names hs \<Rightarrow>
           mpi_reps rk rank sz a (nat (ma_reps a)) 0 no_samples (\<lambda>(err, v).
             Call (Allreduce_max_int (if err = [] then 0 else 1)) (\<lambda>al. case al of Int_data all_error \<Rightarrow>
               coordination_ns rk 200 (\<lambda>coord.
                 Ret (all_error, if rank = 0 then Some (ma_out a @ ''/e2_mpi_scaling.json'',
                        mpi_doc (mr_caps rk) sz (distinct_names [] hs) a all_error err v coord) else None))
             | _ \<Rightarrow> Lost))
         | _ \<Rightarrow> Lost))"

text \<open>A run over \<open>sz\<close> ranks.\<close>

definition mpi_world :: "mpi_lib \<Rightarrow> nat \<Rightarrow> (nat \<Rightarrow> 'a rank_prog) \<Rightarrow> 'a list option" where
  "mpi_world lib sz P = mpi_run lib (P 0) (map P [1..<sz])"

section \<open>Runs in step\<close>

lemma those_map_Some: "those (map (\<lambda>i. Some (f i)) xs) = Some (map f xs)"
  by (induction xs) auto

lemma world_call:
  assumes "\<forall>i < sz. P i = Call (c i) (k i)" "0 < sz" "lib (map c [0..<sz]) = Some r"
  shows "mpi_world lib sz P = mpi_world lib sz (\<lambda>i. k i r)"
proof -
  have l: "lib (c 0 # map c [1..<sz]) = Some r" using assms(2,3) by (simp add: upt_conv_Cons)
  have p: "P 0 = Call (c 0) (k 0)" using assms(1,2) by simp
  have m: "map calling (map P [1..<sz]) = map (\<lambda>i. Some (c i)) [1..<sz]" "map (answered r) (map P [1..<sz]) = map (\<lambda>i. k i r) [1..<sz]"
    using assms(1) by auto
  show ?thesis unfolding mpi_world_def p mpi_run.simps m those_map_Some option.case l ..
qed

lemma world_ret:
  assumes "\<forall>i < sz. P i = Ret (a i)" "0 < sz"
  shows "mpi_world lib sz P = Some (map a [0..<sz])"
proof -
  have p: "P 0 = Ret (a 0)" using assms(1,2) by simp
  have m: "map ended (map P [1..<sz]) = map (\<lambda>i. Some (a i)) [1..<sz]" using assms(1) by auto
  show ?thesis unfolding mpi_world_def p mpi_run.simps m those_map_Some using assms(2) by (simp add: upt_conv_Cons)
qed

text \<open>Two ranks that stand at different calls, or one that has ended, stop the run.\<close>

lemma those_None: "None \<in> set xs \<Longrightarrow> those xs = None"
  by (induction xs) (auto split: option.splits)

lemma world_stuck:
  assumes "mpi_documented lib" "\<forall>i < sz. \<exists>c k. P i = Call c k" "i < sz" "P i = Call Barrier k" "j < sz" "P j = Call c l" "c \<noteq> Barrier"
  shows "mpi_world lib sz P = None"
proof -
  obtain C K where C: "\<And>i. i < sz \<Longrightarrow> P i = Call (C i) (K i)" using assms(2) by metis
  then have p: "P 0 = Call (C 0) (K 0)" using assms(3) by simp
  have m: "map calling (map P [1..<sz]) = map (\<lambda>i. Some (C i)) [1..<sz]" using C by auto
  have l: "C 0 # map C [1..<sz] = map C [0..<sz]" using assms(3) by (simp add: upt_conv_Cons)
  have "Barrier = C i" "c = C j" using C assms(3-6) by simp_all
  then have "Barrier \<in> set (map C [0..<sz])" "c \<in> set (map C [0..<sz])" using assms(3,5) by auto
  then have "lib (C 0 # map C [1..<sz]) = None" unfolding l using assms(1,7) unfolding mpi_documented_def by blast
  then show ?thesis unfolding mpi_world_def p mpi_run.simps m those_map_Some option.case by simp
qed

lemma world_step: "0 < sz \<Longrightarrow> lib (map c [0..<sz]) = Some r \<Longrightarrow> mpi_world lib sz (\<lambda>i. Call (c i) (k i)) = mpi_world lib sz (\<lambda>i. k i r)"
  by (rule world_call) auto

lemma world_barrier:
  assumes "mpi_documented lib" "0 < sz"
  shows "mpi_world lib sz (\<lambda>i. Call Barrier (k i)) = mpi_world lib sz (\<lambda>i. k i No_data)"
  using assms by (intro world_step) (simp_all add: mpi_documented_def)

lemma world_max:
  assumes "mpi_documented lib" "0 < sz"
  shows "mpi_world lib sz (\<lambda>i. Call (Allreduce_max (f i)) (k i)) = mpi_world lib sz (\<lambda>i. k i (Real_data (Max (f ` {..<sz}))))"
  using assms by (intro world_step) (simp_all add: mpi_documented_def)

lemma world_sum:
  assumes "mpi_documented lib" "0 < sz"
  shows "mpi_world lib sz (\<lambda>i. Call (Allreduce_sum (f i)) (k i)) = mpi_world lib sz (\<lambda>i. k i (Real_data (\<Sum>i\<in>{..<sz}. f i)))"
  using assms by (intro world_step) (simp_all add: mpi_documented_def)

lemma world_zero:
  assumes "mpi_documented lib" "0 < sz"
  shows "mpi_world lib sz (\<lambda>i. Call (Allreduce_max_int 0) (k i)) = mpi_world lib sz (\<lambda>i. k i (Int_data 0))"
proof (rule world_step [OF assms(2)])
  have "(\<lambda>i. 0 :: int) ` {..<sz} = {0}" using assms(2) by auto
  moreover have "lib (map (\<lambda>i. Allreduce_max_int ((\<lambda>i. 0) i)) [0..<sz]) = Some (Int_data (Max ((\<lambda>i. 0) ` {..<sz})))"
    using assms by (simp add: mpi_documented_def)
  ultimately show "lib (map (\<lambda>i. Allreduce_max_int 0) [0..<sz]) = Some (Int_data 0)" by simp
qed

lemma world_names:
  assumes "mpi_documented lib" "0 < sz"
  shows "mpi_world lib sz (\<lambda>i. Call (Allgather (f i)) (k i)) = mpi_world lib sz (\<lambda>i. k i (Names (map f [0..<sz])))"
  using assms by (intro world_step) (simp_all add: mpi_documented_def)

text \<open>What the \<open>k\<close>-th shard of a rank gives, when it can be built and its loop ends.\<close>

definition shard_packets :: "mpi_args \<Rightarrow> nat \<Rightarrow> nat \<Rightarrow> int" where
  "shard_packets a sz k = (if even k then mpi_share (ma_packets a) sz else ma_packets a)"

definition rank_local :: "mpi_rank \<Rightarrow> nat \<Rightarrow> nat \<Rightarrow> mpi_args \<Rightarrow> nat \<Rightarrow> local_result option" where
  "rank_local rk rank sz a k =
     (case rank_prepare rk k (ma_cipher a) (ma_payload a) (shard_packets a sz k) (ma_warmup a) (mpi_cpu rk rank) of
        Inl e \<Rightarrow> None | Inr s \<Rightarrow> rank_measure rk k (shard_packets a sz k) s)"

lemma world_work:
  assumes "\<forall>i < sz. rank_local (R i) i sz a k = Some (L i)" "0 < sz" "mpi_documented lib"
  shows "mpi_world lib sz (\<lambda>i. rank_work (R i) k (ma_cipher a) (ma_payload a) (shard_packets a sz k) (ma_warmup a) (mpi_cpu (R i) i) (cont i)) =
    mpi_world lib sz (\<lambda>i. cont i ([], L i))"
proof -
  define K where "K i = (\<lambda>r :: reply. cont i ([], L i))" for i
  have "\<forall>i < sz. rank_work (R i) k (ma_cipher a) (ma_payload a) (shard_packets a sz k) (ma_warmup a) (mpi_cpu (R i) i) (cont i) = Call Barrier (K i)"
    using assms(1) by (auto simp: rank_local_def rank_work_def K_def split: sum.splits)
  from world_call [OF this assms(2)] assms(2,3) show ?thesis by (simp add: K_def mpi_documented_def)
qed

definition push_locals :: "nat \<Rightarrow> (nat \<Rightarrow> local_result) \<Rightarrow> (nat \<Rightarrow> local_result) \<Rightarrow> mpi_samples \<Rightarrow> mpi_samples" where
  "push_locals sz s wk = mpi_push sz (Max ((lo_wall_ns \<circ> s) ` {..<sz})) (Max ((lo_wall_ns \<circ> wk) ` {..<sz}))
     (\<Sum>i\<in>{..<sz}. lo_cycles_per_packet (s i)) (\<Sum>i\<in>{..<sz}. lo_cycles_per_packet (wk i))"

lemma world_reduce:
  assumes "mpi_documented lib" "0 < sz"
  shows "mpi_world lib sz (\<lambda>i. mpi_reduce sz (s i) (wk i) v (cont i)) = mpi_world lib sz (\<lambda>i. cont i (push_locals sz s wk v))"
  using assms
  by (simp add: mpi_reduce_def push_locals_def comp_def world_max [of lib sz "\<lambda>i. lo_wall_ns (s i)"] world_max [of lib sz "\<lambda>i. lo_wall_ns (wk i)"]
      world_sum [of lib sz "\<lambda>i. lo_cycles_per_packet (s i)"] world_sum [of lib sz "\<lambda>i. lo_cycles_per_packet (wk i)"])

fun expected_samples :: "nat \<Rightarrow> (nat \<Rightarrow> nat \<Rightarrow> local_result) \<Rightarrow> nat \<Rightarrow> nat \<Rightarrow> mpi_samples \<Rightarrow> mpi_samples" where
  "expected_samples sz L 0 r v = v"
| "expected_samples sz L (Suc n) r v =
     expected_samples sz L n (Suc r) (push_locals sz (\<lambda>i. L i (2 * r)) (\<lambda>i. L i (2 * r + 1)) v)"

lemma world_reps:
  assumes "\<forall>i < sz. \<forall>k < 2 * (r + n). rank_local (R i) i sz a k = Some (L i k)" "0 < sz" "mpi_documented lib"
  shows "mpi_world lib sz (\<lambda>i. mpi_reps (R i) i sz a n r v (cont i)) = mpi_world lib sz (\<lambda>i. cont i ([], expected_samples sz L n r v))"
  using assms(1)
proof (induction n arbitrary: r v)
  case (Suc n)
  have k: "\<forall>i < sz. rank_local (R i) i sz a (2 * r) = Some (L i (2 * r))" "\<forall>i < sz. rank_local (R i) i sz a (2 * r + 1) = Some (L i (2 * r + 1))"
    using Suc.prems by auto
  have p: "shard_packets a sz (2 * r) = mpi_share (ma_packets a) sz" "shard_packets a sz (2 * r + 1) = ma_packets a"
    by (simp_all add: shard_packets_def)
  have "mpi_world lib sz (\<lambda>i. mpi_reps (R i) i sz a n (Suc r) w (cont i)) = mpi_world lib sz (\<lambda>i. cont i ([], expected_samples sz L n (Suc r) w))" for w
    using Suc.prems by (intro Suc.IH) simp
  then show ?case
    by (simp only: mpi_reps.simps world_work [OF k(1) assms(2,3), unfolded p] world_work [OF k(2) assms(2,3), unfolded p] case_prod_conv
        HOL.simp_thms if_False world_reduce [OF assms(3,2)] expected_samples.simps)
qed simp

lemma world_coord_loop: "mpi_documented lib \<Longrightarrow> 0 < sz \<Longrightarrow> mpi_world lib sz (\<lambda>i. coord_loop n (P i)) = mpi_world lib sz P"
proof (induction n)
  case (Suc n)
  have "mpi_world lib sz (\<lambda>i. coord_loop (Suc n) (P i)) = mpi_world lib sz (\<lambda>i. Call (Allreduce_sum 1) (\<lambda>_. coord_loop n (P i)))"
    unfolding coord_loop.simps by (rule world_barrier [OF Suc.prems])
  also have "\<dots> = mpi_world lib sz (\<lambda>i. coord_loop n (P i))"
    by (rule world_sum [OF Suc.prems])
  finally show ?case using Suc by simp
qed simp

definition coord_of :: "mpi_rank \<Rightarrow> real" where
  "coord_of rk = ticks_to_ns (mr_cal rk) (snd (mr_coord rk) - fst (mr_coord rk)) / real 200"

lemma world_coordination:
  assumes "mpi_documented lib" "0 < sz"
  shows "mpi_world lib sz (\<lambda>i. coordination_ns (R i) 200 (cont i)) = mpi_world lib sz (\<lambda>i. cont i (coord_of (R i)))"
proof -
  have "mpi_world lib sz (\<lambda>i. coordination_ns (R i) 200 (cont i)) = mpi_world lib sz (\<lambda>i. coord_loop 200 (cont i (coord_of (R i))))"
    unfolding coordination_ns_def coord_of_def [symmetric] by (rule world_barrier [OF assms])
  then show ?thesis using world_coord_loop [OF assms] by simp
qed

lemma world_main:
  assumes "mpi_documented lib" "0 < sz" "a = mpi_args_of argv" "\<forall>i < sz. \<forall>k < 2 * nat (ma_reps a). rank_local (R i) i sz a k = Some (L i k)"
  shows "mpi_world lib sz (\<lambda>i. mpi_main (R i) i sz argv) =
    Some (map (\<lambda>i. (0, if i = 0 then Some (ma_out a @ ''/e2_mpi_scaling.json'',
        mpi_doc (mr_caps (R 0)) sz (distinct_names [] (map (mr_host \<circ> R) [0..<sz])) a 0 []
          (expected_samples sz L (nat (ma_reps a)) 0 no_samples) (coord_of (R 0))) else None)) [0..<sz])"
proof -
  let ?v = "expected_samples sz L (nat (ma_reps a)) 0 no_samples" and ?h = "map (\<lambda>i. mr_host (R i)) [0..<sz]"
  define out where "out i err v all_error hs coord = (Ret (all_error, if i = 0 then Some (ma_out a @ ''/e2_mpi_scaling.json'',
      mpi_doc (mr_caps (R i)) sz (distinct_names [] hs) a all_error err v coord) else None) :: (int \<times> (string \<times> writer) option) rank_prog)"
    for i :: nat and err v all_error hs coord
  define fin where "fin i hs ev = (case ev of (err, v) \<Rightarrow> Call (Allreduce_max_int (if err = [] then 0 else 1)) (\<lambda>al. case al of
      Int_data all_error \<Rightarrow> coordination_ns (R i) 200 (out i err v all_error hs) | _ \<Rightarrow> Lost))" for i hs and ev :: "string \<times> mpi_samples"
  have m: "mpi_main (R i) i sz argv = Call (Allgather (mr_host (R i))) (\<lambda>names. case names of Names hs \<Rightarrow>
      mpi_reps (R i) i sz a (nat (ma_reps a)) 0 no_samples (fin i hs) | _ \<Rightarrow> Lost)" for i
    unfolding mpi_main_def Let_def assms(3) [symmetric] fin_def out_def by (simp cong: reply.case_cong)
  have "mpi_world lib sz (\<lambda>i. mpi_main (R i) i sz argv) = mpi_world lib sz (\<lambda>i. mpi_reps (R i) i sz a (nat (ma_reps a)) 0 no_samples (fin i ?h))"
    unfolding m by (subst world_names [OF assms(1,2)]) simp
  also have "\<dots> = mpi_world lib sz (\<lambda>i. fin i ?h ([], ?v))"
    using world_reps [OF _ assms(2,1), of 0] assms(4) by simp
  also have "\<dots> = mpi_world lib sz (\<lambda>i. coordination_ns (R i) 200 (out i [] ?v 0 ?h))"
    by (simp add: fin_def world_zero [OF assms(1,2)])
  also have "\<dots> = mpi_world lib sz (\<lambda>i. out i [] ?v 0 ?h (coord_of (R i)))" by (rule world_coordination [OF assms(1,2)])
  also have "\<dots> = Some (map (\<lambda>i. (0, if i = 0 then Some (ma_out a @ ''/e2_mpi_scaling.json'',
        mpi_doc (mr_caps (R i)) sz (distinct_names [] ?h) a 0 [] ?v (coord_of (R i))) else None)) [0..<sz])"
    by (rule world_ret [OF _ assms(2)]) (simp add: out_def)
  finally show ?thesis by (simp add: comp_def cong: if_cong)
qed

text \<open>A rank whose shards are live: they can be built over sockets, the loader's datagrams arrive, the cipher works.\<close>

definition rank_live :: "mpi_rank \<Rightarrow> nat \<Rightarrow> mpi_args \<Rightarrow> nat \<Rightarrow> bool" where
  "rank_live rk rank a k \<longleftrightarrow> env_good (mr_env rk k) (ma_cipher a) \<and> env_live (mr_env rk k) (ma_cipher a) \<and>
     (\<forall>q. se_load (mr_env rk k) q = Queued) \<and> (\<forall>F fd. os_socket (mr_os rk k) F = Some fd \<longrightarrow> 0 \<le> fd) \<and>
     fst (snd (Shard (mr_env rk k) (mpi_shard_cfg (ma_cipher a) (ma_payload a) (mpi_cpu rk rank)) bench_psk (mr_os rk k))) = None"

lemma pool_warm_warm_up: "warm_up env w n s = Some s' \<Longrightarrow> pool_warm env w n s = s'"
  by (induction n arbitrary: s) (auto split: prod.splits if_splits)

lemma atoi_range: "- (2 ^ 31) \<le> atoi s" "atoi s < 2 ^ 31"
  using sint_range_size [of "of_int (strtol s) :: 32 word"] by (simp_all add: atoi_def word_size)

lemma mpi_window_range: "0 < mpi_window n" "mpi_window n \<le> 2048"
  by (simp_all add: mpi_window_def)

lemma rank_local_live:
  assumes "rank_live rk rank a k" "ma_warmup a < 2 ^ 31" "shard_packets a sz k < 2 ^ 31"
  shows "\<exists>L. rank_local rk rank sz a k = Some L"
proof -
  let ?env = "mr_env rk k" and ?cfg = "mpi_shard_cfg (ma_cipher a) (ma_payload a) (mpi_cpu rk rank)"
  let ?w = "mpi_window (shard_packets a sz k)"
  obtain s os' where s: "Shard ?env ?cfg bench_psk (mr_os rk k) = (s, None, os')"
    using assms(1) by (cases "Shard ?env ?cfg bench_psk (mr_os rk k)") (auto simp: rank_live_def)
  have c: "sc_cipher ?cfg = ma_cipher a" "sc_source ?cfg = Loopback" "sc_backend ?cfg = ''posix'' \<or> sc_backend ?cfg = ''mmsg''" "sc_epoch_packets ?cfg = 0"
    by (simp_all add: mpi_shard_cfg_def ShardConfig_def)
  have q: "\<And>q. se_load ?env q = Queued" and g: "env_good ?env (sc_cipher ?cfg)" "env_live ?env (sc_cipher ?cfg)"
    "\<forall>F fd. os_socket (mr_os rk k) F = Some fd \<longrightarrow> 0 \<le> fd"
    using assms(1) c(1) by (simp_all add: rank_live_def)
  note b = Shard_ready [OF s g(1,2) c(2,3) g(3)]
  obtain ks where f: "flowing ?env ks s" using b(5) [OF c(4)] by blast
  have w: "0 < ?w" "nat ?w \<le> 2048" using mpi_window_range [of "shard_packets a sz k"] by simp_all
  have "nat ?w * nat (ma_warmup a) \<le> 2048 * 2147483648" using w(2) assms(2) by (intro mult_mono) auto
  then have wn: "unat (sh_seq s) + 2 * (nat ?w * nat (ma_warmup a)) < 2 ^ 46" using b(3) by (simp add: mult.commute)
  then obtain s1 where s1: "warm_up ?env ?w (nat (ma_warmup a)) s = Some s1" "flowing ?env ks s1" "rx_queue s1 = []" "ahead s1" "unat (sh_seq s1) < 2 ^ 46"
    using warm_up_flow [OF q w(1) f b(2,4), of "nat (ma_warmup a)"] by auto
  let ?r = "reset_stats s1"
  have r: "flowing ?env ks ?r" "rx_queue ?r = []" "ahead ?r" "sh_seq ?r = sh_seq s1"
    using s1 reset_stats_inv [of s1]
    by (auto simp: flowing_def hot_ready_def keys_live_def rx_queue_def ahead_def beyond_def reset_stats_def)
  have p: "rank_prepare rk k (ma_cipher a) (ma_payload a) (shard_packets a sz k) (ma_warmup a) (mpi_cpu rk rank) = Inr ?r"
    by (simp add: rank_prepare_def s err_text_def pool_warm_warm_up [OF s1(1)])
  have "\<exists>s2. hot_loop ?env ?w (shard_packets a sz k) 0 0 ?r = Some s2"
  proof (cases "0 \<le> shard_packets a sz k")
    case True
    have "unat (sh_seq ?r) + 2 * nat (shard_packets a sz k - 0) < 2 ^ 64" using r(4) s1(5) assms(3) by simp
    then show ?thesis using hot_loop_flow [OF q w(1) r(1-3), of 0 "shard_packets a sz k" 0] True by blast
  next
    case False
    then show ?thesis by (subst hot_loop.simps) simp
  qed
  then show ?thesis by (auto simp: rank_local_def p rank_measure_def)
qed

lemma div_int_le: "x div int n \<le> max 0 x"
proof (cases x)
  case (nonneg m)
  then show ?thesis by (simp flip: zdiv_int)
next
  case (neg m)
  then have "x div int n \<le> 0" by (cases n) (simp_all add: less_imp_le div_neg_pos_less0 del: of_nat_Suc)
  then show ?thesis by simp
qed

lemma mpi_share_less: "x < 2 ^ 31 \<Longrightarrow> mpi_share x n < 2 ^ 31"
  using div_int_le [of x n] by (simp add: mpi_share_def)

lemma shard_packets_small: "shard_packets (mpi_args_of argv) n k < 2 ^ 31"
  unfolding shard_packets_def mpi_args_of_def mpi_args.simps using mpi_share_less atoi_range(2) by simp

lemma warmup_small: "ma_warmup (mpi_args_of argv) < 2 ^ 31"
  unfolding mpi_args_of_def mpi_args.simps by (rule atoi_range)

lemma distinct_names_spec: "distinct seen \<Longrightarrow> distinct (distinct_names seen hs) \<and> set (distinct_names seen hs) = set seen \<union> set hs"
  by (induction hs arbitrary: seen) auto

section \<open>Properties\<close>

text \<open>
  C19. When the shards of every rank are live the run over any number of ranks completes: every rank ends
  with status 0, all having made the same collective calls, and rank 0 writes the report.  The wall times in
  it are those of the slowest rank in each replicate, the costs the mean over the ranks, and the hosts the
  distinct names in the order of the ranks.
\<close>

theorem mpi_completes:
  assumes "mpi_documented lib" "0 < sz" "a = mpi_args_of argv" "\<forall>i < sz. \<forall>k < 2 * nat (ma_reps a). rank_live (R i) i a k"
  shows "mpi_world lib sz (\<lambda>i. mpi_main (R i) i sz argv) =
    Some (map (\<lambda>i. (0, if i = 0 then Some (ma_out a @ ''/e2_mpi_scaling.json'',
        mpi_doc (mr_caps (R 0)) sz (distinct_names [] (map (mr_host \<circ> R) [0..<sz])) a 0 []
          (expected_samples sz (\<lambda>i k. the (rank_local (R i) i sz a k)) (nat (ma_reps a)) 0 no_samples) (coord_of (R 0))) else None)) [0..<sz])"
proof (rule world_main [OF assms(1-3)], intro allI impI)
  fix i k
  assume "i < sz" "k < 2 * nat (ma_reps a)"
  then have "rank_live (R i) i a k" using assms(4) by simp
  from rank_local_live [OF this, of sz] shard_packets_small [of argv sz k] warmup_small [of argv]
  obtain L where "rank_local (R i) i sz a k = Some L" unfolding assms(3) by blast
  then show "rank_local (R i) i sz a k = Some (the (rank_local (R i) i sz a k))" by simp
qed

text \<open>
  C20. When in the first replicate one rank cannot build its shard and another can, the run has no result:
  the first has left its loop for the reduction of the error flag while the other stands at the barrier of
  \<open>rank_work\<close>, so no report of the failure is written.
\<close>

theorem mpi_partial_failure_stuck:
  assumes "mpi_documented lib" "i < sz" "j < sz" "a = mpi_args_of argv" "0 < ma_reps a"
    and "rank_prepare (R i) 0 (ma_cipher a) (ma_payload a) (mpi_share (ma_packets a) sz) (ma_warmup a) (mpi_cpu (R i) i) = Inr s"
    and "rank_prepare (R j) 0 (ma_cipher a) (ma_payload a) (mpi_share (ma_packets a) sz) (ma_warmup a) (mpi_cpu (R j) j) = Inl e" "e \<noteq> []"
  shows "mpi_world lib sz (\<lambda>i. mpi_main (R i) i sz argv) = None"
proof -
  have z: "0 < sz" using assms(2) by simp
  obtain n where n: "nat (ma_reps a) = Suc n" using assms(5) by (cases "nat (ma_reps a)") auto
  define h where "h = map (\<lambda>i. mr_host (R i)) [0..<sz]"
  define fin where "fin l = (\<lambda>(err, v). Call (Allreduce_max_int (if err = [] then 0 else 1)) (\<lambda>al. case al of
      Int_data all_error \<Rightarrow> coordination_ns (R l) 200 (\<lambda>coord. Ret (all_error, if l = 0 then Some (ma_out a @ ''/e2_mpi_scaling.json'',
        mpi_doc (mr_caps (R l)) sz (distinct_names [] h) a all_error err v coord) else None)) | _ \<Rightarrow> Lost))"
    for l :: nat
  define P where "P l = mpi_reps (R l) l sz a (Suc n) 0 no_samples (fin l)" for l
  have "mpi_world lib sz (\<lambda>i. mpi_main (R i) i sz argv) = mpi_world lib sz P"
    unfolding mpi_main_def Let_def assms(4) [symmetric] n
    by (subst world_names [OF assms(1) z]) (simp only: reply.case P_def [abs_def] fin_def h_def)
  also have "mpi_world lib sz P = None"
  proof -
    have all: "\<forall>l < sz. \<exists>c k. P l = Call c k"
      by (auto simp: P_def rank_work_def fin_def rank_prepare_def split: sum.splits prod.splits)
    obtain ki where "P i = Call Barrier ki" by (simp add: P_def rank_work_def assms(6))
    moreover obtain kj where "P j = Call (Allreduce_max_int 1) kj"
      using assms(8) by (simp add: P_def rank_work_def assms(7) fin_def)
    ultimately show ?thesis by (rule world_stuck [OF assms(1) all assms(2) _ assms(3)]) simp
  qed
  finally show ?thesis .
qed

section \<open>A library that does what the standard says\<close>

fun max_arg :: "coll \<Rightarrow> real option" where
  "max_arg (Allreduce_max x) = Some x"
| "max_arg c = None"

fun sum_arg :: "coll \<Rightarrow> real option" where
  "sum_arg (Allreduce_sum x) = Some x"
| "sum_arg c = None"

fun max_int_arg :: "coll \<Rightarrow> int option" where
  "max_int_arg (Allreduce_max_int x) = Some x"
| "max_int_arg c = None"

fun gather_arg :: "coll \<Rightarrow> string option" where
  "gather_arg (Allgather x) = Some x"
| "gather_arg c = None"

text \<open>What the calls of all ranks give together, when they are the same call.\<close>

fun combine :: "coll list \<Rightarrow> reply option" where
  "combine [] = None"
| "combine (Barrier # cs) = (if list_all (\<lambda>c. c = Barrier) cs then Some No_data else None)"
| "combine (Allreduce_max x # cs) = map_option (\<lambda>xs. Real_data (fold max xs x)) (those (map max_arg cs))"
| "combine (Allreduce_sum x # cs) = map_option (\<lambda>xs. Real_data (fold (\<lambda>y a. a + y) xs x)) (those (map sum_arg cs))"
| "combine (Allreduce_max_int x # cs) = map_option (\<lambda>xs. Int_data (fold max xs x)) (those (map max_int_arg cs))"
| "combine (Allgather h # cs) = map_option (\<lambda>hs. Names (h # hs)) (those (map gather_arg cs))"

lemma those_map_None: "x \<in> set xs \<Longrightarrow> f x = None \<Longrightarrow> those (map f xs) = None"
  by (rule those_None) (metis image_eqI list.set_map)

lemma combine_barrier_only:
  assumes "combine cs = Some r" "Barrier \<in> set cs"
  shows "\<forall>c \<in> set cs. c = Barrier"
proof (cases cs)
  case (Cons c ds)
  show ?thesis
  proof (cases "c = Barrier")
    case True
    then show ?thesis using assms(1) Cons by (auto simp: list_all_iff split: if_splits)
  next
    case False
    then have d: "Barrier \<in> set ds" using assms(2) Cons by auto
    show ?thesis using assms(1) Cons False
      by (cases c) (simp_all add: those_map_None [OF d])
  qed
qed (use assms in simp)

lemma combine_barrier: "0 < sz \<Longrightarrow> combine (map (\<lambda>i. Barrier) [0..<sz]) = Some No_data"
  by (simp add: upt_conv_Cons list_all_iff del: upt_Suc)

lemma combine_max: "0 < sz \<Longrightarrow> combine (map (\<lambda>i. Allreduce_max (f i)) [0..<sz]) = Some (Real_data (Max (f ` {..<sz})))"
proof -
  assume z: "0 < sz"
  have "{..<sz} = insert 0 (set [1..<sz])" using z by auto
  then have "fold max (map f [1..<sz]) (f 0) = Max (f ` {..<sz})"
    using Max.set_eq_fold [of "f 0" "map f [1..<sz]"] by simp
  then show ?thesis using z by (simp add: upt_conv_Cons comp_def those_map_Some del: upt_Suc)
qed

lemma fold_plus: "fold (\<lambda>y a. a + y) xs (x :: real) = x + sum_list xs"
  by (induction xs arbitrary: x) simp_all

lemma combine_sum: "0 < sz \<Longrightarrow> combine (map (\<lambda>i. Allreduce_sum (f i)) [0..<sz]) = Some (Real_data (\<Sum>i\<in>{..<sz}. f i))"
proof -
  assume z: "0 < sz"
  have "(\<Sum>i\<in>{..<sz}. f i) = sum_list (map f [0..<sz])" by (simp add: interv_sum_list_conv_sum_set_nat atLeast0LessThan)
  also have "\<dots> = f 0 + sum_list (map f [1..<sz])" using z by (simp add: upt_conv_Cons)
  finally show ?thesis using z by (simp add: upt_conv_Cons comp_def those_map_Some fold_plus del: upt_Suc)
qed

lemma combine_max_int: "0 < sz \<Longrightarrow> combine (map (\<lambda>i. Allreduce_max_int (f i)) [0..<sz]) = Some (Int_data (Max (f ` {..<sz})))"
proof -
  assume z: "0 < sz"
  have "{..<sz} = insert 0 (set [1..<sz])" using z by auto
  then have "fold max (map f [1..<sz]) (f 0) = Max (f ` {..<sz})"
    using Max.set_eq_fold [of "f 0" "map f [1..<sz]"] by simp
  then show ?thesis using z by (simp add: upt_conv_Cons comp_def those_map_Some del: upt_Suc)
qed

lemma combine_names: "0 < sz \<Longrightarrow> combine (map (\<lambda>i. Allgather (f i)) [0..<sz]) = Some (Names (map f [0..<sz]))"
  by (simp add: upt_conv_Cons comp_def those_map_Some del: upt_Suc)

lemma combine_documented: "mpi_documented combine"
proof -
  have "combine cs = None" if "Barrier \<in> set cs" "\<exists>c \<in> set cs. c \<noteq> Barrier" for cs
    using combine_barrier_only [of cs] that by (cases "combine cs") auto
  then show ?thesis
    unfolding mpi_documented_def
    by (intro conjI allI impI combine_barrier combine_max combine_sum combine_max_int combine_names) auto
qed

definition demo_rank :: mpi_rank where
  "demo_rank = \<lparr> mr_env = (\<lambda>_. env1), mr_os = (\<lambda>_. os1), mr_clock = (\<lambda>_. (0, 1000)), mr_coord = (0, 200), mr_host = ''node'',
     mr_cal = se_cal env1, mr_caps = Caps \<rparr>"

definition no_sockets :: mpi_rank where
  "no_sockets = demo_rank\<lparr> mr_os := (\<lambda>_. os1\<lparr> os_socket := (\<lambda>_. None) \<rparr>) \<rparr>"

lemma demo_shard_born: "\<exists>s os'. Shard env1 (mpi_shard_cfg c p cpu) bench_psk os1 = (s, None, os')"
proof -
  have f: "for_epoch (KeySchedule model_hkdf (\<lambda>_ _. Some NullAead) x c n) 0 \<noteq> None" for x c n
    using keys1_live [of x c n] by (simp add: for_epoch_def)
  note d = Shard_def keyed_shard_def clamp_payload_def mpi_shard_cfg_def ShardConfig_def env1_def shard_open_def open_udp_def os1_def os0_def
    base_tc_def TransportConfig_def make_transport_def make_transport_posix_def lr_open_udp_socket_def sock_options_def
    LR_MAX_PAYLOAD_def LR_HDR_def LR_TAG_def shard_buffers_def lr_fill_peer_def Let_def
  show ?thesis using f by (simp add: d)
qed

lemma demo_rank_live: "rank_live demo_rank i a k"
proof -
  obtain s os' where "Shard env1 (mpi_shard_cfg (ma_cipher a) (ma_payload a) (mpi_cpu demo_rank i)) bench_psk os1 = (s, None, os')"
    using demo_shard_born by blast
  then show ?thesis using env1_good by (auto simp: rank_live_def demo_rank_def env1_def os1_def os0_def)
qed

definition demo_argv :: "string list" where
  "demo_argv = [''lr_mpi_scale'', ''--reps=2'']"

lemma demo_reps: "ma_reps (mpi_args_of demo_argv) = 2"
proof -
  have "opt demo_argv ''reps'' ''5'' = ''2''"
    using opt_first [of "[]" "''reps''" "''lr_mpi_scale''" "''2''" "[]" "''5''"] by (simp add: demo_argv_def)
  moreover have "atoi ''2'' = 2"
    by (simp add: atoi_def strtol_def strtoll_def read_sign_def skip_space_def is_space_def is_digit_def)
  ultimately show ?thesis by (simp add: mpi_args_of_def)
qed

theorem mpi_completes_witness:
  "map_option (map fst) (mpi_world combine 3 (\<lambda>i. mpi_main demo_rank i 3 demo_argv)) = Some [0, 0, 0]"
  using mpi_completes [OF combine_documented, of 3 _ demo_argv "\<lambda>_. demo_rank", OF _ refl] demo_rank_live
  by (simp add: comp_def numeral_3_eq_3)

theorem mpi_partial_failure_stuck_witness:
  "mpi_world combine 2 (\<lambda>i. mpi_main (if i = 0 then demo_rank else no_sockets) i 2 demo_argv) = None"
proof -
  let ?a = "mpi_args_of demo_argv"
  obtain s os' where s: "Shard env1 (mpi_shard_cfg (ma_cipher ?a) (ma_payload ?a) (mpi_cpu demo_rank 0)) bench_psk os1 = (s, None, os')"
    using demo_shard_born by blast
  have f: "for_epoch (KeySchedule model_hkdf (\<lambda>_ _. Some NullAead) x c n) 0 \<noteq> None" for x c n
    using keys1_live [of x c n] by (simp add: for_epoch_def)
  have "\<exists>s os'. Shard env1 (mpi_shard_cfg c p cpu) bench_psk (os1\<lparr> os_socket := (\<lambda>_. None) \<rparr>) = (s, Some ''black-hole socket failed'', os')" for c p cpu
    using f by (simp add: Shard_def keyed_shard_def clamp_payload_def mpi_shard_cfg_def ShardConfig_def env1_def open_udp_def lr_open_udp_socket_def os1_def Let_def)
  then obtain t os2 where t: "Shard env1 (mpi_shard_cfg (ma_cipher ?a) (ma_payload ?a) (mpi_cpu no_sockets 1)) bench_psk (os1\<lparr> os_socket := (\<lambda>_. None) \<rparr>)
      = (t, Some ''black-hole socket failed'', os2)" by blast
  show ?thesis
    using mpi_partial_failure_stuck [OF combine_documented, of 0 2 1 ?a demo_argv "\<lambda>i. if i = 0 then demo_rank else no_sockets"] s t demo_reps
    by (simp add: rank_prepare_def err_text_def demo_rank_def no_sockets_def)
qed

end
