(* ===== verification/Tools.thy ===== *)
theory Tools
  imports Options Bench
begin

text \<open>
  The two processes for a lab by hand: the generator \<open>src/src/apps/lr_gen.cpp\<close> and the sink
  \<open>src/src/apps/lr_sink.cpp\<close>, loops around the modelled shard and generator.  The signal flag is a stream
  that each turn of a loop reads, the datagrams that arrive are a stream as in the harness.
\<close>

section \<open>The generator\<close>

definition gen_cfg :: "string list \<Rightarrow> shard_config" where
  "gen_cfg argv = ShardConfig\<lparr> sc_cipher := opt argv ''cipher'' ''aes-256-gcm'',
     sc_payload := unat (of_int (strtol (opt argv ''payload'' ''512'')) :: u64), sc_source := Loopback \<rparr>"

text \<open>The inner loop of the open mode: read the counter until it reaches the schedule; \<open>yield\<close> changes nothing.\<close>

partial_function (option) gen_wait :: "shard_env \<Rightarrow> u64 \<Rightarrow> shard \<Rightarrow> shard option" where
  "gen_wait env goal s = (case read_ticks env s of (now, s) \<Rightarrow> if now \<ge> goal then Some s else gen_wait env goal s)"

partial_function (option) gen_turns ::
    "shard_env \<Rightarrow> (nat \<Rightarrow> bool) \<Rightarrow> (bytes \<Rightarrow> bool) \<Rightarrow> bool \<Rightarrow> u64 \<Rightarrow> u64 \<Rightarrow> nat \<Rightarrow> u64 \<Rightarrow> u64 \<Rightarrow> generator \<times> shard \<Rightarrow>
     (u64 \<times> generator \<times> shard) option" where
  "gen_turns env stopped sendto open_mode deadline gap j next_at sq gs =
     (if stopped j then Some (sq, gs)
      else case read_ticks env (snd gs) of (now, s) \<Rightarrow>
      if \<not> now < deadline then Some (sq, fst gs, s)
      else if open_mode
      then Option.bind (gen_wait env (next_at + gap) s) (\<lambda>s.
             gen_turns env stopped sendto open_mode deadline gap (Suc j) (next_at + gap) (sq + 1) (snd (emit env sendto sq (fst gs, s))))
      else gen_turns env stopped sendto open_mode deadline gap (Suc j) next_at (sq + 1) (snd (emit env sendto sq (fst gs, s))))"

text \<open>\<open>main\<close>: the exit status and, when the loop ran, the counts it prints.\<close>

definition gen_main ::
    "shard_env \<Rightarrow> (nat \<Rightarrow> bool) \<Rightarrow> (bytes \<Rightarrow> bool) \<Rightarrow> os \<Rightarrow> string list \<Rightarrow> (int \<times> (u64 \<times> u64) option) option" where
  "gen_main env stopped sendto os argv =
     (if length argv > 1 \<and> argv ! 1 = ''--help'' then Some (0, None)
      else let host = opt argv ''host'' ''127.0.0.1''; port = of_int (atoi (opt argv ''port'' ''0'')) :: u16;
               open_mode = (opt argv ''mode'' ''open'' = ''open''); pps = strtod (opt argv ''pps'' ''100000'');
               seconds = strtod (opt argv ''seconds'' ''5'')
      in if port = 0 then Some (64, None)
      else case Shard env (gen_cfg argv) bench_psk os of (s, e, os) \<Rightarrow>
      if err_text e \<noteq> [] then Some (1, None)
      else case Generator s host port os of (g, e, os) \<Rightarrow>
      if err_text e \<noteq> [] then Some (1, None)
      else let gap = of_int \<lfloor>real (unat (cal_tick_hz (se_cal env))) / (if pps > 0 then pps else 1)\<rfloor> :: u64
      in case read_ticks env s of (t, s) \<Rightarrow>
         let deadline = t + ns_to_ticks (se_cal env) (seconds * 10 ^ 9)
      in case read_ticks env s of (next_at, s) \<Rightarrow>
         map_option (\<lambda>(sq, g, s). (0, Some (g_sent g, g_refused g)))
           (gen_turns env stopped sendto open_mode deadline gap 0 next_at 0 (g, s)))"

section \<open>The sink\<close>

definition sink_cfg :: "string list \<Rightarrow> shard_config" where
  "sink_cfg argv = ShardConfig\<lparr> sc_cipher := opt argv ''cipher'' ''aes-256-gcm'', sc_backend := opt argv ''backend'' ''posix'',
     sc_batch := atoi (opt argv ''batch'' ''1''), sc_payload := unat (of_int (strtol (opt argv ''payload'' ''512'')) :: u64),
     sc_cpu := atoi (opt argv ''cpu'' ''-1''), sc_epoch_packets := strtoull (opt argv ''epoch-packets'' ''0''), sc_source := Wire_src,
     sc_bind_addr := opt argv ''bind'' ''0.0.0.0'', sc_bind_port := of_int (atoi (opt argv ''port'' ''0'')),
     sc_peer_addr := opt argv ''peer'' ''127.0.0.1'', sc_peer_port := of_int (atoi (opt argv ''peer-port'' ''9'')),
     sc_replay := ''--no-replay'' \<notin> set (tl argv) \<rparr>"

text \<open>A line of progress: the rate since the last one, and the counters.\<close>

record sink_line =
  sl_pps :: real
  sl_packets :: u64
  sl_auth_fail :: u64
  sl_replay_drop :: u64
  sl_rekeys :: u64

definition sink_line_of :: "shard_env \<Rightarrow> u64 \<Rightarrow> u64 \<Rightarrow> u64 \<Rightarrow> shard \<Rightarrow> sink_line" where
  "sink_line_of env now last_report last_pkts s =
     (let st = sh_st s; secs = real (unat (now - last_report)) / real (unat (cal_tick_hz (se_cal env)))
      in \<lparr> sl_pps = real (unat (st_packets st - last_pkts)) / secs, sl_packets = st_packets st, sl_auth_fail = st_auth_fail st,
           sl_replay_drop = st_replay_drop st, sl_rekeys = st_rekeys st \<rparr>)"

text \<open>\<open>deadline = 0\<close> is no deadline.\<close>

partial_function (option) sink_turns ::
    "shard_env \<Rightarrow> (nat \<Rightarrow> bool) \<Rightarrow> (nat \<Rightarrow> bytes list) \<Rightarrow> u64 \<Rightarrow> nat \<Rightarrow> u64 \<Rightarrow> u64 \<Rightarrow> sink_line list \<Rightarrow> shard \<Rightarrow> (sink_line list \<times> shard) option" where
  "sink_turns env stopped arrive deadline k last_report last_pkts lines s =
     (if stopped k then Some (lines, s)
      else case drain env 4096 (enqueue_all (arrive k) s) of (n, s) \<Rightarrow>
      case read_ticks env s of (now, s) \<Rightarrow>
      if deadline \<noteq> 0 \<and> now \<ge> deadline then Some (lines, s)
      else if now - last_report > cal_tick_hz (se_cal env)
      then sink_turns env stopped arrive deadline (Suc k) now (st_packets (sh_st s)) (lines @ [sink_line_of env now last_report last_pkts s]) s
      else sink_turns env stopped arrive deadline (Suc k) last_report last_pkts lines s)"

definition sink_main ::
    "shard_env \<Rightarrow> (nat \<Rightarrow> bool) \<Rightarrow> (nat \<Rightarrow> bytes list) \<Rightarrow> os \<Rightarrow> string list \<Rightarrow> (int \<times> sink_line list \<times> shard_stats option) option" where
  "sink_main env stopped arrive os argv =
     (if length argv > 1 \<and> argv ! 1 = ''--help'' then Some (0, [], None)
      else let seconds = strtod (opt argv ''seconds'' ''0'')
      in case Shard env (sink_cfg argv) bench_psk os of (s, e, os) \<Rightarrow>
      if err_text e \<noteq> [] then Some (1, [], None)
      else case (if seconds > 0
                 then (case read_ticks env s of (t, s) \<Rightarrow> (t + ns_to_ticks (se_cal env) (seconds * 10 ^ 9), s)) else (0, s)) of (deadline, s) \<Rightarrow>
      case read_ticks env s of (last_report, s) \<Rightarrow>
      map_option (\<lambda>(lines, s). (0, lines, Some (sh_st s))) (sink_turns env stopped arrive deadline 0 last_report 0 [] s))"

section \<open>The loops\<close>

text \<open>Every packet the generator numbers is counted once, as sent or as refused.\<close>

lemma emit_counts:
  "g_sent (fst (snd (emit env sendto sq gs))) + g_refused (fst (snd (emit env sendto sq gs))) = g_sent (fst gs) + g_refused (fst gs) + 1"
  by (cases gs) (auto simp: emit_def split: prod.splits option.splits)

lemma gen_turns_counts:
  assumes "gen_turns env stopped sendto open_mode deadline gap j next_at sq gs = Some r"
  shows "g_sent (fst (snd r)) + g_refused (fst (snd r)) - fst r = g_sent (fst gs) + g_refused (fst gs) - sq"
proof (rule gen_turns.raw_induct [where P = "\<lambda>env stopped sendto open_mode deadline gap j next_at sq gs r.
    g_sent (fst (snd r)) + g_refused (fst (snd r)) - fst r = g_sent (fst gs) + g_refused (fst gs) - sq", OF _ assms], goal_cases)
  case (1 f env stopped sendto open_mode deadline gap j next_at sq gs r)
  have e: "g_sent (fst (snd (emit env sendto sq (fst gs, s)))) + g_refused (fst (snd (emit env sendto sq (fst gs, s)))) - (sq + 1) =
      g_sent (fst gs) + g_refused (fst gs) - sq" for s
    using emit_counts [of env sendto sq "(fst gs, s)"] by simp
  from 1(2) show ?case
    by (auto split: if_splits prod.splits option.splits bind_splits dest!: 1(1) simp: e)
qed

text \<open>The wait for the schedule ends at the first reading that has reached it.\<close>

lemma gen_wait_stops: "goal \<le> se_ticks env (sh_reads s + n) \<Longrightarrow> \<exists>s'. gen_wait env goal s = Some s'"
proof (induction n arbitrary: s)
  case 0
  then show ?case by (subst gen_wait.simps) (simp add: read_ticks_def)
next
  case (Suc n)
  have "\<exists>s'. gen_wait env goal (s\<lparr> sh_reads := Suc (sh_reads s) \<rparr>) = Some s'" by (rule Suc.IH) (use Suc.prems in simp)
  then show ?case by (subst gen_wait.simps) (auto simp: read_ticks_def)
qed

text \<open>Without a schedule the loop ends at the latest when the flag is up.\<close>

lemma gen_turns_stops:
  "stopped (j + n) \<Longrightarrow> \<exists>r. gen_turns env stopped sendto False deadline gap j next_at sq gs = Some r"
proof (induction n arbitrary: j sq gs)
  case 0
  then show ?case by (subst gen_turns.simps) simp
next
  case (Suc n)
  then show ?case by (subst gen_turns.simps) (auto split: prod.split)
qed

text \<open>The sink returns at the latest when the flag is up, and what it returns is a shard in order.\<close>

lemma enqueue_all_inv: "shard_inv s \<Longrightarrow> shard_inv (enqueue_all ps s) \<and> sh_cfg (enqueue_all ps s) = sh_cfg s"
  unfolding enqueue_all_def by (induction ps arbitrary: s) (simp_all add: tx_enqueue_inv)

lemma sink_turns_stops:
  "stopped (k + n) \<Longrightarrow> \<exists>r. sink_turns env stopped arrive deadline k last_report last_pkts lines s = Some r"
proof (induction n arbitrary: k last_report last_pkts lines s)
  case 0
  then show ?case by (subst sink_turns.simps) simp
next
  case (Suc n)
  then show ?case by (subst sink_turns.simps) (auto split: prod.split)
qed

lemma sink_turns_inv:
  assumes "sink_turns env stopped arrive deadline k last_report last_pkts lines s = Some r"
    and "shard_inv s" "env_good env (sc_cipher (sh_cfg s))"
  shows "shard_inv (snd r) \<and> sh_cfg (snd r) = sh_cfg s"
proof -
  have "shard_inv s \<longrightarrow> env_good env (sc_cipher (sh_cfg s)) \<longrightarrow> shard_inv (snd r) \<and> sh_cfg (snd r) = sh_cfg s"
  proof (rule sink_turns.raw_induct [where P = "\<lambda>env stopped arrive deadline k last_report last_pkts lines s r.
      shard_inv s \<longrightarrow> env_good env (sc_cipher (sh_cfg s)) \<longrightarrow> shard_inv (snd r) \<and> sh_cfg (snd r) = sh_cfg s", OF _ assms(1)], goal_cases)
    case (1 f env stopped arrive deadline k last_report last_pkts lines s r)
    show ?case
    proof (intro impI)
      assume a: "shard_inv s" "env_good env (sc_cipher (sh_cfg s))"
      obtain n s1 where d: "drain env 4096 (enqueue_all (arrive k) s) = (n, s1)" by (cases "drain env 4096 (enqueue_all (arrive k) s)")
      let ?s = "s1\<lparr> sh_reads := Suc (sh_reads s1) \<rparr>"
      have i: "shard_inv ?s" "sh_cfg ?s = sh_cfg s"
        using drain_inv [of "enqueue_all (arrive k) s" env 4096] enqueue_all_inv [OF a(1), of "arrive k"] a(2) d by simp_all
      have g: "env_good env (sc_cipher (sh_cfg ?s))" using a(2) i(2) by simp
      show "shard_inv (snd r) \<and> sh_cfg (snd r) = sh_cfg s"
      proof (cases "stopped k")
        case True
        then show ?thesis using 1(2) a by auto
      next
        case False
        then have "r = (lines, ?s) \<or> (\<exists>lr lp ls. f env stopped arrive deadline (Suc k) lr lp ls ?s = Some r)"
          using 1(2) by (auto simp: d read_ticks_def split: if_splits)
        then show ?thesis
        proof
          assume "\<exists>lr lp ls. f env stopped arrive deadline (Suc k) lr lp ls ?s = Some r"
          then show ?thesis using 1(1) i g by metis
        qed (use i in simp)
      qed
    qed
  qed
  then show ?thesis using assms(2,3) by blast
qed

end
