(* ===== verification/Baseline.thy ===== *)
theory Baseline
  imports Scaling Hotpath "HOL-Library.Sublist"
begin

text \<open>
  The comparison with the \<open>openssl\<close> command, \<open>src/src/bench/exp_e6_baseline.cpp\<close>: reading the table that
  \<open>openssl speed\<close> prints, the harness's own cost at several lengths, and the fragment.  The commands are
  processes of the shell.  Lemma \<open>parse_speed_row\<close>: the figures of a data row are read back in order, whatever
  stands in the lines around it that has fewer of them.
\<close>

section \<open>Numbers inside text\<close>

text \<open>
  \<open>strtod\<close> with its end pointer: the value and the rest of the text, or \<open>None\<close> when nothing was converted.
  The value is \<open>None\<close> for an infinity or a NaN.  Decimal and hexadecimal numbers may have a fraction and an
  exponent; letters count in either case.
\<close>

definition lower :: "char \<Rightarrow> char" where
  "lower c = (if 65 \<le> (of_char c :: nat) \<and> (of_char c :: nat) \<le> 90 then char_of ((of_char c :: nat) + 32) else c)"

definition prefix_ci :: "string \<Rightarrow> string \<Rightarrow> bool" where
  "prefix_ci p s \<longleftrightarrow> map lower (take (length p) s) = p"

definition xdigit :: "char \<Rightarrow> nat option" where
  "xdigit c = (if is_digit c then Some (of_char c - 48)
     else if 97 \<le> (of_char (lower c) :: nat) \<and> (of_char (lower c) :: nat) \<le> 102 then Some (of_char (lower c) - 87) else None)"

fun xdigits :: "string \<Rightarrow> nat \<Rightarrow> nat \<times> nat \<times> string" where
  "xdigits [] acc = (acc, 0, [])"
| "xdigits (c # cs) acc =
     (case xdigit c of
        Some d \<Rightarrow> (case xdigits cs (16 * acc + d) of (v, k, rest) \<Rightarrow> (v, Suc k, rest))
      | None \<Rightarrow> (acc, 0, c # cs))"

text \<open>Digits, and a point with digits after it: the value, how many digits there were, the rest.\<close>

definition mantissa :: "(string \<Rightarrow> nat \<Rightarrow> nat \<times> nat \<times> string) \<Rightarrow> nat \<Rightarrow> string \<Rightarrow> real \<times> nat \<times> string" where
  "mantissa dig base s =
     (case dig s 0 of (v, k, r) \<Rightarrow>
      if r \<noteq> [] \<and> hd r = CHR ''.''
      then (case dig (tl r) 0 of (f, j, r') \<Rightarrow> (real v + real f / real base ^ j, k + j, r'))
      else (real v, k, r))"

definition exponent :: "char \<Rightarrow> real \<Rightarrow> string \<Rightarrow> real \<times> string" where
  "exponent mark base s =
     (if s \<noteq> [] \<and> lower (hd s) = mark
      then (case read_sign (tl s) of (neg, r) \<Rightarrow>
            case digits r 0 of (e, k, rest) \<Rightarrow>
            if k = 0 then (1, s) else (if neg then 1 / base ^ e else base ^ e, rest))
      else (1, s))"

text \<open>After \<open>nan\<close> an optional sequence of letters, digits and underscores in brackets.\<close>

definition nan_char :: "char \<Rightarrow> bool" where
  "nan_char c \<longleftrightarrow> is_digit c \<or> c = CHR ''_'' \<or> (97 \<le> (of_char (lower c) :: nat) \<and> (of_char (lower c) :: nat) \<le> 122)"

definition nan_tail :: "string \<Rightarrow> string" where
  "nan_tail s =
     (if s \<noteq> [] \<and> hd s = CHR ''(''
      then (let r = dropWhile nan_char (tl s) in if r \<noteq> [] \<and> hd r = CHR '')'' then tl r else s)
      else s)"

definition strtod_end :: "string \<Rightarrow> (real option \<times> string) option" where
  "strtod_end s =
     (case read_sign (skip_space s) of (neg, r) \<Rightarrow>
      if prefix_ci ''infinity'' r then Some (None, drop 8 r)
      else if prefix_ci ''inf'' r then Some (None, drop 3 r)
      else if prefix_ci ''nan'' r then Some (None, nan_tail (drop 3 r))
      else case mantissa xdigits 16 (drop 2 r) of (x, n, xr) \<Rightarrow>
      if prefix_ci ''0x'' r \<and> n \<noteq> 0
      then (case exponent (CHR ''p'') 2 xr of (e, rest) \<Rightarrow> Some (Some (if neg then - (x * e) else x * e), rest))
      else case mantissa digits 10 r of (x, n, dr) \<Rightarrow>
      if n = 0 then None
      else (case exponent (CHR ''e'') 10 dr of (e, rest) \<Rightarrow> Some (Some (if neg then - (x * e) else x * e), rest)))"

lemma xdigits_rest: "length (snd (snd (xdigits s acc))) + fst (snd (xdigits s acc)) = length s"
  by (induction s acc rule: xdigits.induct) (auto split: option.splits prod.splits)

lemma digits_rest_length: "length (snd (snd (digits s acc))) + fst (snd (digits s acc)) = length s"
  by (induction s acc rule: digits.induct) (auto split: prod.splits)

lemma mantissa_rest:
  assumes "\<And>s. length (snd (snd (dig s 0))) + fst (snd (dig s 0)) = length s" "mantissa dig base s = (x, n, r)"
  shows "length r + n \<le> length s"
proof -
  obtain v k q where a: "dig s 0 = (v, k, q)" by (cases "dig s 0")
  obtain f j t where b: "dig (tl q) 0 = (f, j, t)" by (cases "dig (tl q) 0")
  show ?thesis using assms(2) assms(1) [of s] assms(1) [of "tl q"] a b
    by (auto simp: mantissa_def split: if_splits)
qed

lemma read_sign_length: "length (snd (read_sign s)) \<le> length s"
  by (auto simp: read_sign_def split: list.splits)

lemma skip_space_length: "length (skip_space s) \<le> length s"
  by (simp add: skip_space_def length_dropWhile_le)

lemma exponent_length: "length (snd (exponent m b s)) \<le> length s"
  using read_sign_length [of "tl s"] digits_rest_length [of "snd (read_sign (tl s))" 0]
  by (auto simp: exponent_def split: prod.splits)

lemma prefix_ci_length: "prefix_ci p s \<Longrightarrow> length p \<le> length s"
  by (metis length_map length_take min.cobounded1 min.commute prefix_ci_def)

lemma nan_tail_length: "length (nan_tail s) \<le> length s"
proof -
  have "length (dropWhile nan_char (tl s)) \<le> length s" using length_dropWhile_le [of nan_char "tl s"] by simp
  then show ?thesis by (auto simp: nan_tail_def Let_def)
qed

lemma strtod_end_length:
  assumes "strtod_end s = Some (v, rest)"
  shows "length rest < length s"
proof -
  obtain neg r where r: "read_sign (skip_space s) = (neg, r)" by (cases "read_sign (skip_space s)")
  obtain x n xr where x: "mantissa xdigits 16 (drop 2 r) = (x, n, xr)" by (cases "mantissa xdigits 16 (drop 2 r)")
  obtain d m dr where d: "mantissa digits 10 r = (d, m, dr)" by (cases "mantissa digits 10 r")
  have l: "length r \<le> length s" using read_sign_length [of "skip_space s"] skip_space_length [of s] r by simp
  have "length xr + n \<le> length (drop 2 r)" "length dr + m \<le> length r"
    using mantissa_rest [OF xdigits_rest x] mantissa_rest [OF digits_rest_length d] by simp_all
  then show ?thesis
    using assms l exponent_length [of "CHR ''p''" 2 xr] exponent_length [of "CHR ''e''" 10 dr] nan_tail_length [of "drop 3 r"]
      prefix_ci_length [of "''inf''" r] prefix_ci_length [of "''nan''" r] prefix_ci_length [of "''infinity''" r] prefix_ci_length [of "''0x''" r]
    by (auto simp: strtod_end_def r x d split: if_splits prod.splits)
qed

section \<open>The table of \<open>openssl speed\<close>\<close>

text \<open>The scan of one line: each number that a \<open>k\<close> follows is a rate.\<close>

function scan_rates :: "string \<Rightarrow> real option list \<Rightarrow> real option list" where
  "scan_rates s rates =
     (if s = [] then rates
      else case strtod_end s of
        None \<Rightarrow> scan_rates (tl s) rates
      | Some (v, rest) \<Rightarrow>
        if rest \<noteq> [] \<and> hd rest = CHR ''k'' then scan_rates (tl rest) (rates @ [v]) else scan_rates rest rates)"
  by pat_completeness auto
termination
  by (relation "measure (length \<circ> fst)") (auto dest: strtod_end_length)

declare scan_rates.simps [simp del]

lemma scan_rates_Nil [simp]: "scan_rates [] rates = rates"
  by (subst scan_rates.simps) simp

text \<open>A line ends at a line feed; \<open>c_str\<close> ends it at a zero character as well.\<close>

fun lines_of :: "string \<Rightarrow> string list" where
  "lines_of [] = [[]]"
| "lines_of (c # cs) = (if c = c_nl then [] # lines_of cs else (case lines_of cs of [] \<Rightarrow> [[c]] | l # ls \<Rightarrow> (c # l) # ls))"

definition line_rates :: "string \<Rightarrow> real option list" where
  "line_rates l = scan_rates (takeWhile (\<lambda>c. c \<noteq> CHR 0x00) l) []"

definition best_rates :: "string list \<Rightarrow> real option list" where
  "best_rates ls = fold (\<lambda>l best. if length (line_rates l) > length best then line_rates l else best) ls []"

definition parse_openssl_speed :: "string \<Rightarrow> nat list \<Rightarrow> (nat \<times> real option) list" where
  "parse_openssl_speed out sizes = zip sizes (best_rates (lines_of out))"

section \<open>The experiment\<close>

record ref =
  rf_cipher :: string
  rf_rows :: "(nat \<times> real option) list"
  rf_cycles_per_byte :: real
  rf_ok :: bool
  rf_error :: string

definition e6_sizes :: "nat list" where
  "e6_sizes = [16, 64, 256, 1024, 8192, 16384]"

text \<open>A rate that is not finite gives no cost: the quotient is zero, and a NaN is not positive.\<close>

definition cycles_per_byte :: "real \<Rightarrow> real option \<Rightarrow> real" where
  "cycles_per_byte hz kbps = (case kbps of None \<Rightarrow> 0 | Some x \<Rightarrow> if x * 1000 > 0 then hz / (x * 1000) else 0)"

definition e6_command :: "bool \<Rightarrow> string \<Rightarrow> string" where
  "e6_command quick c = ''openssl speed -evp '' @ c @ (if quick then '' -seconds 1'' else '' -seconds 2'') @ '' 2>/dev/null''"

text \<open>The first command asks for the version; the others, if there is an \<open>openssl\<close>, follow one per cipher.\<close>

definition have_openssl :: "shell \<Rightarrow> bool" where
  "have_openssl popen = (case capture popen 0 ''openssl version 2>/dev/null'' of (probe, rc) \<Rightarrow> rc = 0 \<and> probe \<noteq> [])"

definition e6_ref :: "shell \<Rightarrow> bool \<Rightarrow> real \<Rightarrow> bool \<Rightarrow> nat \<Rightarrow> string \<Rightarrow> ref" where
  "e6_ref popen have hz quick k c =
     (let r = \<lparr> rf_cipher = c, rf_rows = [], rf_cycles_per_byte = 0, rf_ok = False, rf_error = [] \<rparr>
      in if \<not> have then r\<lparr> rf_error := ''openssl command-line tool not found'' \<rparr>
      else let rows = parse_openssl_speed (fst (capture popen k (e6_command quick c))) e6_sizes
      in if rows = [] then r\<lparr> rf_error := ''could not parse openssl speed output'' \<rparr>
         else r\<lparr> rf_rows := rows, rf_cycles_per_byte := cycles_per_byte hz (snd (last rows)), rf_ok := True \<rparr>)"

record ours =
  ou_cipher :: string
  ou_x :: "real list"
  ou_y :: "real list"
  ou_a :: real
  ou_b :: real

definition e6_cfg :: "caps \<Rightarrow> string \<Rightarrow> nat \<Rightarrow> shard_config" where
  "e6_cfg c cipher payload = ShardConfig\<lparr> sc_cipher := cipher, sc_payload := payload, sc_cpu := (if c_hard_affinity c then 0 else - 1) \<rparr>"

text \<open>The lengths of one cipher; one that cannot be measured is left out.  \<open>k\<close> counts the measurements.\<close>

fun e6_points ::
    "(nat \<Rightarrow> shard_config \<Rightarrow> hotpath_result option) \<Rightarrow> caps \<Rightarrow> string \<Rightarrow> nat list \<Rightarrow> nat \<Rightarrow> (real \<times> real) list \<Rightarrow> (nat \<times> (real \<times> real) list) option" where
  "e6_points hp c cipher [] k acc = Some (k, acc)"
| "e6_points hp c cipher (s # ss) k acc =
     Option.bind (hp k (e6_cfg c cipher s)) (\<lambda>h.
       e6_points hp c cipher ss (Suc k) (if hr_ok h then acc @ [(real s, hr_cycles_per_packet h)] else acc))"

fun e6_ours ::
    "(nat \<Rightarrow> shard_config \<Rightarrow> hotpath_result option) \<Rightarrow> caps \<Rightarrow> nat list \<Rightarrow> string list \<Rightarrow> nat \<Rightarrow> ours list option" where
  "e6_ours hp c payloads [] k = Some []"
| "e6_ours hp c payloads (cipher # cs) k =
     Option.bind (e6_points hp c cipher payloads k []) (\<lambda>(k, ps).
       let x = map fst ps; y = map snd ps
       in map_option ((#) \<lparr> ou_cipher = cipher, ou_x = x, ou_y = y, ou_a = fst (fit_line x y), ou_b = snd (fit_line x y) \<rparr>)
            (e6_ours hp c payloads cs k))"

definition ref_members :: "ref \<Rightarrow> (string \<times> jv) list" where
  "ref_members r =
     [(''cipher'', JStr (rf_cipher r)), (''ok'', JBool (rf_ok r)), (''error'', JStr (rf_error r)),
      (''cycles_per_byte'', real_v (rf_cycles_per_byte r) 5),
      (''blocks'', JArr (map (\<lambda>(b, v). JObj [(''bytes'', JInt (int b)), (''thousand_bytes_per_sec'', JNum v 1)]) (rf_rows r)))]"

definition ours_members :: "ours \<Rightarrow> (string \<times> jv) list" where
  "ours_members o1 =
     [(''cipher'', JStr (ou_cipher o1)), (''fixed_cycles'', real_v (ou_a o1) 2), (''cycles_per_byte'', real_v (ou_b o1) 5),
      (''cycles_per_byte_per_pass'', real_v (ou_b o1 / 2) 5),
      (''crossover_bytes'', real_v (if ou_b o1 > 0 then ou_a o1 / ou_b o1 else 0) 2), (''n_points'', JInt (int (length (ou_x o1)))),
      (''payload_bytes'', nums (ou_x o1) 0), (''cycles_per_packet'', nums (ou_y o1) 3)]"

definition e6_members :: "bool \<Rightarrow> bool \<Rightarrow> bool \<Rightarrow> ref list \<Rightarrow> ours list \<Rightarrow> (string \<times> jv) list" where
  "e6_members quick have have_net refs os =
     [(''available'', JBool True), (''quick'', JBool quick), (''openssl_cli_available'', JBool have),
      (''network_fragment_present'', JBool have_net), (''network_fragment'', JStr ''e6_network_baselines.json''),
      (''passes_per_payload_byte'', JInt 2),
      (''passes_note'', JStr (''the data plane decrypts and re-encrypts, so each payload byte '' @
         ''crosses the cipher twice; openssl speed crosses it once'')),
      (''openssl_speed'', JArr (map (JObj \<circ> ref_members) refs)), (''linerate'', JArr (map (JObj \<circ> ours_members) os))]"

text \<open>\<open>stat\<close> tells whether a file exists.\<close>

definition run_e6 ::
    "shell \<Rightarrow> (string \<Rightarrow> bool) \<Rightarrow> (nat \<Rightarrow> shard_env) \<Rightarrow> (nat \<Rightarrow> os) \<Rightarrow> simd_state \<Rightarrow> cal \<Rightarrow> caps \<Rightarrow> run_ctx \<Rightarrow> string list \<Rightarrow>
     (string + (string \<times> jv) list) option" where
  "run_e6 popen stat envs oss simd cl c ctx argv =
     (case measurement_permitted c of Some why \<Rightarrow> Some (Inl why)
      | None \<Rightarrow>
        let quick = arg_has argv ''quick'';
            ciphers = (if quick then [''aes-256-gcm''] else [''aes-256-gcm'', ''chacha20-poly1305'']);
            have = have_openssl popen;
            hz = real (unat (if c_nominal_cpu_hz c \<noteq> 0 then c_nominal_cpu_hz c else cal_tick_hz cl));
            refs = map (\<lambda>i. e6_ref popen have hz quick (Suc i) (ciphers ! i)) [0..<length ciphers];
            hp = (\<lambda>k cfg. run_hotpath (envs k) simd cfg (if quick then 4000 else rc_target_packets ctx) (rc_warmup_cycles ctx) (oss k))
        in map_option (\<lambda>os. Inr (e6_members quick have (stat (rc_outdir ctx @ ''/e6_network_baselines.json'')) refs os))
             (e6_ours hp c (if quick then [64, 512, 1432] else kPayloads) ciphers 0))"

section \<open>A number ends where its word ends\<close>

lemma xdigit_space [simp]: "xdigit CHR '' '' = None"
  by (simp add: xdigit_def is_digit_def lower_def)

lemma digits_space: "digits s acc = (v, k, rest) \<Longrightarrow> digits (s @ CHR '' '' # t) acc = (v, k, rest @ CHR '' '' # t)"
  by (induction s acc arbitrary: v k rest rule: digits.induct) (auto simp: is_digit_def split: prod.splits if_splits)

lemma xdigits_space: "xdigits s acc = (v, k, rest) \<Longrightarrow> xdigits (s @ CHR '' '' # t) acc = (v, k, rest @ CHR '' '' # t)"
  by (induction s acc arbitrary: v k rest rule: xdigits.induct) (auto split: prod.splits option.splits)

lemma mantissa_space:
  assumes "\<And>s acc v k rest. dig s acc = (v, k, rest) \<Longrightarrow> dig (s @ CHR '' '' # t) acc = (v, k, rest @ CHR '' '' # t)"
    "mantissa dig base s = (x, n, r)"
  shows "mantissa dig base (s @ CHR '' '' # t) = (x, n, r @ CHR '' '' # t)"
proof -
  obtain v k q where a: "dig s 0 = (v, k, q)" by (cases "dig s 0")
  obtain f j p where b: "dig (tl q) 0 = (f, j, p)" by (cases "dig (tl q) 0")
  show ?thesis using assms(2) assms(1) [OF a] assms(1) [OF b] a b
    by (cases q) (auto simp: mantissa_def split: if_splits)
qed

lemma read_sign_space: "read_sign s = (neg, r) \<Longrightarrow> read_sign (s @ CHR '' '' # t) = (neg, r @ CHR '' '' # t)"
  by (cases s) (auto simp: read_sign_def split: if_splits)

lemma exponent_space:
  assumes "exponent mark base s = (x, r)" "mark \<noteq> CHR '' ''"
  shows "exponent mark base (s @ CHR '' '' # t) = (x, r @ CHR '' '' # t)"
proof (cases s)
  case Nil
  then show ?thesis using assms by (auto simp: exponent_def lower_def)
next
  case (Cons c cs)
  obtain neg q where q: "read_sign cs = (neg, q)" by (cases "read_sign cs")
  obtain e k p where e: "digits q 0 = (e, k, p)" by (cases "digits q 0")
  show ?thesis using assms(1) read_sign_space [OF q, of t] digits_space [OF e, of t] q e
    by (auto simp: exponent_def Cons split: if_splits)
qed

lemma prefix_ci_space:
  assumes "CHR '' '' \<notin> set p"
  shows "prefix_ci p (s @ CHR '' '' # t) \<longleftrightarrow> prefix_ci p s"
proof (cases "length p \<le> length s")
  case False
  then have i: "length s < length p" by simp
  have "lower CHR '' '' = CHR '' ''" by (simp add: lower_def)
  then have "map lower (take (length p) (s @ CHR '' '' # t)) ! length s = CHR '' ''" using i by (simp add: nth_append)
  moreover have "p ! length s \<noteq> CHR '' ''" using assms i nth_mem by metis
  ultimately show ?thesis using prefix_ci_length [of p s] False unfolding prefix_ci_def by metis
qed (simp add: prefix_ci_def)

lemma nan_tail_space: "nan_tail (s @ CHR '' '' # t) = nan_tail s @ CHR '' '' # t"
proof -
  have d: "dropWhile nan_char (xs @ CHR '' '' # t) = dropWhile nan_char xs @ CHR '' '' # t" for xs
    by (induction xs) (auto simp: nan_char_def is_digit_def lower_def)
  show ?thesis
  proof (cases s)
    case (Cons c cs)
    show ?thesis by (cases "dropWhile nan_char cs") (auto simp: nan_tail_def Let_def Cons d simp del: dropWhile_eq_Nil_conv)
  qed (simp add: nan_tail_def)
qed

lemma strtod_end_word:
  assumes "w \<noteq> []" "\<forall>c \<in> set w. \<not> is_space c"
  shows "strtod_end (w @ CHR '' '' # t) = map_option (\<lambda>(v, rest). (v, rest @ CHR '' '' # t)) (strtod_end w)"
proof -
  have k: "skip_space (w @ CHR '' '' # t) = w @ CHR '' '' # t" "skip_space w = w"
    using assms by (cases w; simp add: skip_space_def)+
  obtain neg r where r: "read_sign w = (neg, r)" by (cases "read_sign w")
  obtain x n xr where x: "mantissa xdigits 16 (drop 2 r) = (x, n, xr)" by (cases "mantissa xdigits 16 (drop 2 r)")
  obtain d m dr where d: "mantissa digits 10 r = (d, m, dr)" by (cases "mantissa digits 10 r")
  obtain ex xq where ex: "exponent (CHR ''p'') 2 xr = (ex, xq)" by (cases "exponent (CHR ''p'') 2 xr")
  obtain ed dq where ed: "exponent (CHR ''e'') 10 dr = (ed, dq)" by (cases "exponent (CHR ''e'') 10 dr")
  note l = read_sign_space [OF r, of t] mantissa_space [of digits, OF digits_space d, of t]
    exponent_space [OF ex, of t] exponent_space [OF ed, of t]
  have h: "mantissa xdigits 16 (drop 2 (r @ CHR '' '' # t)) = (x, n, xr @ CHR '' '' # t)" if "2 \<le> length r"
    using mantissa_space [of xdigits, OF xdigits_space x, of t] that by simp
  obtain x' n' xr' where x': "mantissa xdigits 16 (drop 2 (r @ CHR '' '' # t)) = (x', n', xr')"
    by (cases "mantissa xdigits 16 (drop 2 (r @ CHR '' '' # t))")
  note p = prefix_ci_space [of "''infinity''" r t] prefix_ci_space [of "''inf''" r t] prefix_ci_space [of "''nan''" r t] prefix_ci_space [of "''0x''" r t]
  note q = prefix_ci_length [of "''inf''" r] prefix_ci_length [of "''nan''" r] prefix_ci_length [of "''infinity''" r] prefix_ci_length [of "''0x''" r]
  note e = strtod_end_def k l r x d ex ed x' p
  show ?thesis
  proof (cases "prefix_ci ''infinity'' r \<or> prefix_ci ''inf'' r")
    case True
    then show ?thesis using q by (auto simp: e)
  next
    case False
    show ?thesis
    proof (cases "prefix_ci ''nan'' r")
      case True
      then have "drop 3 (r @ CHR '' '' # t) = drop 3 r @ CHR '' '' # t" using q by simp
      then show ?thesis using False True by (simp add: e nan_tail_space del: drop_append)
    next
      case nan: False
      show ?thesis
      proof (cases "prefix_ci ''0x'' r")
        case True
        then have "x' = x" "n' = n" "xr' = xr @ CHR '' '' # t" using h x' q by simp_all
        then show ?thesis using False nan by (simp add: e del: drop_append)
      qed (use False nan in \<open>simp add: e\<close>)
    qed
  qed
qed

text \<open>What is left after a number is an end of the text.\<close>

lemma digits_suffix: "suffix (snd (snd (digits s acc))) s"
  by (induction s acc rule: digits.induct) (auto split: prod.splits intro: suffix_ConsI)

lemma xdigits_suffix: "suffix (snd (snd (xdigits s acc))) s"
  by (induction s acc rule: xdigits.induct) (auto split: prod.splits option.splits intro: suffix_ConsI)

lemma mantissa_suffix:
  assumes "\<And>s acc. suffix (snd (snd (dig s acc))) s" "mantissa dig base s = (x, n, r)"
  shows "suffix r s"
proof -
  obtain v k q where a: "dig s 0 = (v, k, q)" by (cases "dig s 0")
  obtain f j p where b: "dig (tl q) 0 = (f, j, p)" by (cases "dig (tl q) 0")
  have "suffix q s" "suffix p (tl q)" using assms(1) [of s 0] assms(1) [of "tl q" 0] a b by simp_all
  then show ?thesis using assms(2) a b suffix_order.trans [OF _ suffix_tl]
    by (auto simp: mantissa_def split: if_splits intro: suffix_order.trans)
qed

lemma read_sign_suffix: "suffix (snd (read_sign s)) s"
  by (cases s) (auto simp: read_sign_def intro: suffix_ConsI)

lemma exponent_suffix: "suffix (snd (exponent m b s)) s"
proof (cases s)
  case (Cons c cs)
  show ?thesis
    using read_sign_suffix [of cs] digits_suffix [of "snd (read_sign cs)" 0]
    by (auto simp: exponent_def Cons split: prod.splits intro: suffix_ConsI suffix_order.trans)
qed (simp add: exponent_def)

lemma nan_tail_suffix: "suffix (nan_tail s) s"
proof (cases s)
  case (Cons c cs)
  show ?thesis using suffix_dropWhile [of nan_char cs]
    by (auto simp: nan_tail_def Let_def Cons intro: suffix_ConsI suffix_order.trans [OF suffix_tl])
qed (simp add: nan_tail_def)

lemma strtod_end_suffix:
  assumes "strtod_end s = Some (v, rest)"
  shows "suffix rest s"
proof -
  obtain neg r where r: "read_sign (skip_space s) = (neg, r)" by (cases "read_sign (skip_space s)")
  obtain x n xr where x: "mantissa xdigits 16 (drop 2 r) = (x, n, xr)" by (cases "mantissa xdigits 16 (drop 2 r)")
  obtain d m dr where d: "mantissa digits 10 r = (d, m, dr)" by (cases "mantissa digits 10 r")
  have rs: "suffix r s"
    using read_sign_suffix [of "skip_space s"] suffix_dropWhile [of is_space s] r by (auto simp: skip_space_def intro: suffix_order.trans)
  have "suffix xr r" using mantissa_suffix [OF xdigits_suffix x] suffix_drop [of 2 r] by (rule suffix_order.trans)
  then have "suffix (snd (exponent (CHR ''p'') 2 xr)) r" using exponent_suffix suffix_order.trans by blast
  moreover have "suffix (snd (exponent (CHR ''e'') 10 dr)) r" using mantissa_suffix [OF digits_suffix d] exponent_suffix suffix_order.trans by blast
  moreover have "suffix (nan_tail (drop 3 r)) r" using nan_tail_suffix suffix_drop suffix_order.trans by blast
  ultimately have "suffix rest r"
    using assms suffix_drop [of 8 r] suffix_drop [of 3 r] by (auto simp: strtod_end_def r x d split: if_splits prod.splits)
  then show ?thesis using rs by (rule suffix_order.trans)
qed

lemma scan_word:
  "\<forall>c \<in> set w. \<not> is_space c \<Longrightarrow> scan_rates (w @ CHR '' '' # t) rates = scan_rates (CHR '' '' # t) (scan_rates w rates)"
proof (induction "length w" arbitrary: w rates rule: less_induct)
  case less
  show ?case
  proof (cases "w = []")
    case True
    then show ?thesis by (subst (3) scan_rates.simps) simp
  next
    case False
    note e = strtod_end_word [OF False less.prems, of t]
    show ?thesis
    proof (cases "strtod_end w")
      case None
      have "scan_rates (w @ CHR '' '' # t) rates = scan_rates (tl w @ CHR '' '' # t) rates"
        using False e None by (subst scan_rates.simps) simp
      also have "\<dots> = scan_rates (CHR '' '' # t) (scan_rates (tl w) rates)"
        using False less.prems by (intro less.hyps) (auto dest: list.set_sel(2))
      also have "scan_rates (tl w) rates = scan_rates w rates" using False None by (subst (2) scan_rates.simps) simp
      finally show ?thesis .
    next
      case (Some p)
      obtain v r where p: "p = (v, r)" by (cases p)
      have l: "length r < length w" and sf: "set r \<subseteq> set w"
        using strtod_end_length strtod_end_suffix Some p set_mono_suffix by blast+
      show ?thesis
      proof (cases "r \<noteq> [] \<and> hd r = CHR ''k''")
        case True
        have "scan_rates (w @ CHR '' '' # t) rates = scan_rates (tl r @ CHR '' '' # t) (rates @ [v])"
          using False e Some p True by (subst scan_rates.simps) simp
        also have "\<dots> = scan_rates (CHR '' '' # t) (scan_rates (tl r) (rates @ [v]))"
          using l sf less.prems True by (intro less.hyps) (auto dest: list.set_sel(2))
        also have "scan_rates (tl r) (rates @ [v]) = scan_rates w rates" using False Some p True by (subst (2) scan_rates.simps) simp
        finally show ?thesis .
      next
        case no: False
        have h: "hd (r @ CHR '' '' # t) \<noteq> CHR ''k''" using no by (cases r) auto
        have "scan_rates (w @ CHR '' '' # t) rates = scan_rates (r @ CHR '' '' # t) rates"
          using False e Some p h by (subst scan_rates.simps) simp
        also have "\<dots> = scan_rates (CHR '' '' # t) (scan_rates r rates)"
          using l sf less.prems by (intro less.hyps) auto
        also have "scan_rates r rates = scan_rates w rates" using False Some p no by (subst (2) scan_rates.simps) auto
        finally show ?thesis .
      qed
    qed
  qed
qed

section \<open>The data row is read back\<close>

text \<open>A figure of a column: blanks, two decimals, a \<open>k\<close>.\<close>

definition speed_column :: "nat \<Rightarrow> real \<Rightarrow> string" where
  "speed_column gap v = replicate (Suc gap) CHR '' '' @ show_fixed 2 v @ ''k''"

definition speed_row :: "string \<Rightarrow> (nat \<times> real) list \<Rightarrow> string" where
  "speed_row name cols = name @ concat (map (\<lambda>(gap, v). speed_column gap v) cols)"

lemma lower_digit [simp]: "is_digit c \<Longrightarrow> lower c = c"
  by (simp add: lower_def is_digit_def)

lemma prefix_ci_digit: "is_digit (hd s) \<Longrightarrow> \<not> is_digit p \<Longrightarrow> \<not> prefix_ci (p # ps) s"
  by (cases s) (auto simp: prefix_ci_def)

lemma prefix_0x_digits:
  assumes "list_all is_digit xs" "xs \<noteq> []"
  shows "\<not> prefix_ci ''0x'' (xs @ CHR ''.'' # t)"
proof -
  have "lower CHR ''.'' = CHR ''.''" "\<not> is_digit CHR ''x''" by (simp_all add: lower_def is_digit_def)
  then show ?thesis using assms by (cases xs; cases "tl xs") (auto simp: prefix_ci_def)
qed

lemma strtod_end_column:
  assumes "0 \<le> v"
  shows "strtod_end (speed_column gap v @ rest) = Some (Some (fixed_value 2 v), CHR ''k'' # rest)"
proof -
  let ?n = "fixed_digits 2 v"
  let ?f = "show_pad 2 (?n mod 10\<^sup>2)"
  let ?x = "show_nat (?n div 10\<^sup>2)"
  let ?b = "?x @ CHR ''.'' # ?f @ CHR ''k'' # rest"
  have s: "speed_column gap v @ rest = replicate (Suc gap) CHR '' '' @ ?b"
    using assms by (simp add: speed_column_def show_fixed_def Let_def)
  have h: "is_digit (hd ?b)" "?b \<noteq> []" using hd_show_nat by (simp_all add: hd_append)
  have sk: "skip_space (replicate m CHR '' '' @ ?b) = skip_space ?b" for m by (induction m) (simp_all add: skip_space_def is_space_def)
  have r: "read_sign (skip_space (speed_column gap v @ rest)) = (False, ?b)" unfolding s sk by (rule read_sign_digits [OF h])
  have nd: "\<not> is_digit CHR ''i''" "\<not> is_digit CHR ''n''" by (simp_all add: is_digit_def)
  have p: "\<not> prefix_ci ''infinity'' ?b" "\<not> prefix_ci ''inf'' ?b" "\<not> prefix_ci ''nan'' ?b"
    using prefix_ci_digit [OF h(1)] nd by blast+
  have z: "\<not> prefix_ci ''0x'' ?b" by (rule prefix_0x_digits) (use show_nat_digits hd_show_nat in simp_all)
  have d: "digits ?b 0 = (?n div 10\<^sup>2, length ?x, CHR ''.'' # ?f @ CHR ''k'' # rest)"
    by (rule digits_show_nat_rest) (simp add: is_digit_def)
  have f: "digits (?f @ CHR ''k'' # rest) 0 = (?n mod 10\<^sup>2, 2, CHR ''k'' # rest)"
    by (rule digits_show_pad_rest) (simp_all add: is_digit_def)
  have m: "mantissa digits 10 ?b = (fixed_value 2 v, length ?x + 2, CHR ''k'' # rest)"
    using real_split [of ?n 2] assms unfolding mantissa_def d by (simp add: f [simplified] fixed_value_def)
  obtain q j t where x: "mantissa xdigits 16 (drop 2 ?b) = (q, j, t)" by (cases "mantissa xdigits 16 (drop 2 ?b)")
  have "exponent (CHR ''e'') 10 (CHR ''k'' # rest) = (1, CHR ''k'' # rest)" by (simp add: exponent_def lower_def)
  then show ?thesis unfolding strtod_end_def r using p z by (simp add: m [simplified] x del: drop_append)
qed

lemma scan_columns:
  "\<forall>(gap, v) \<in> set cols. 0 \<le> v \<Longrightarrow>
     scan_rates (concat (map (\<lambda>(gap, v). speed_column gap v) cols)) rates = rates @ map (\<lambda>(gap, v). Some (fixed_value 2 v)) cols"
proof (induction cols arbitrary: rates)
  case (Cons c cols)
  obtain gap v where c: "c = (gap, v)" by (cases c)
  have n: "speed_column gap v \<noteq> []" by (simp add: speed_column_def)
  show ?case using Cons c n by (subst scan_rates.simps) (simp add: strtod_end_column)
qed simp

lemma speed_column_plain: "\<forall>c \<in> set (speed_column gap v). c \<noteq> CHR 0x00 \<and> c \<noteq> c_nl"
proof -
  have "\<not> is_digit CHR 0x00" "\<not> is_digit c_nl" "c_nl \<notin> set '' .k-''" by (simp_all add: is_digit_def c_nl_def)
  then show ?thesis
    using show_nat_digits [of "fixed_digits 2 v div 10\<^sup>2"] show_pad_digits [of 2 "fixed_digits 2 v mod 10\<^sup>2"]
    by (auto simp: speed_column_def show_fixed_def Let_def list_all_iff)
qed

lemma line_rates_row:
  assumes "\<forall>c \<in> set name. \<not> is_space c" "CHR 0x00 \<notin> set name" "line_rates name = []" "\<forall>(gap, v) \<in> set cols. 0 \<le> v"
  shows "line_rates (speed_row name cols) = map (\<lambda>(gap, v). Some (fixed_value 2 v)) cols"
proof -
  have t: "takeWhile (\<lambda>c. c \<noteq> CHR 0x00) (speed_row name cols) = speed_row name cols"
    using assms(2) speed_column_plain by (subst takeWhile_eq_all_conv) (fastforce simp: speed_row_def)
  have nt: "takeWhile (\<lambda>c. c \<noteq> CHR 0x00) name = name" using assms(2) by (subst takeWhile_eq_all_conv) auto
  have n: "scan_rates name [] = []" using assms(3) unfolding line_rates_def by (simp add: nt)
  have "scan_rates (speed_row name cols) [] = scan_rates (concat (map (\<lambda>(gap, v). speed_column gap v) cols)) (scan_rates name [])"
  proof (cases cols)
    case (Cons c cs)
    obtain gap v where c: "c = (gap, v)" by (cases c)
    then show ?thesis using scan_word [OF assms(1)] by (simp add: speed_row_def Cons speed_column_def)
  qed (simp add: speed_row_def)
  then show ?thesis using scan_columns [OF assms(4)] n by (simp add: line_rates_def t)
qed

lemma lines_of_terminated: "\<forall>l \<in> set ls. c_nl \<notin> set l \<Longrightarrow> lines_of (concat (map (\<lambda>l. l @ [c_nl]) ls)) = ls @ [[]]"
proof (induction ls)
  case (Cons l ls)
  have "c_nl \<notin> set l \<Longrightarrow> lines_of (l @ c_nl # t) = l # lines_of t" for t by (induction l) auto
  then show ?case using Cons by simp
qed simp

lemma best_rates_longest:
  assumes "line_rates row = rs" "\<forall>l \<in> set (before @ behind). length (line_rates l) < length rs"
  shows "best_rates (before @ row # behind) = rs"
proof -
  let ?f = "\<lambda>l best. if length (line_rates l) > length best then line_rates l else best"
  have b: "length (fold ?f before acc) < length rs" if "length acc < length rs" for acc
    using assms(2) that by (induction before arbitrary: acc) auto
  have a: "fold ?f behind rs = rs" using assms(2) by (induction behind) auto
  show ?thesis
  proof (cases "rs = []")
    case True
    then have "before = []" "behind = []" using assms(2) by (cases before; cases behind; simp)+
    then show ?thesis using assms(1) True by (simp add: best_rates_def)
  next
    case False
    then show ?thesis using b [of "[]"] a assms(1) by (simp add: best_rates_def)
  qed
qed

lemma parse_speed_row:
  assumes "\<forall>c \<in> set name. \<not> is_space c" "CHR 0x00 \<notin> set name" "line_rates name = []"
    and "cols \<noteq> []" "\<forall>(gap, v) \<in> set cols. 0 \<le> v"
    and "\<forall>l \<in> set (before @ behind). c_nl \<notin> set l \<and> length (line_rates l) < length cols"
  shows "parse_openssl_speed (concat (map (\<lambda>l. l @ [c_nl]) (before @ speed_row name cols # behind))) sizes =
     zip sizes (map (\<lambda>(gap, v). Some (fixed_value 2 v)) cols)"
proof -
  have "is_space c_nl" by (simp add: is_space_def c_nl_def)
  then have "c_nl \<notin> set name" using assms(1) by blast
  then have r: "c_nl \<notin> set (speed_row name cols)" using speed_column_plain by (fastforce simp: speed_row_def)
  have l: "lines_of (concat (map (\<lambda>l. l @ [c_nl]) (before @ speed_row name cols # behind))) = (before @ speed_row name cols # behind) @ [[]]"
    by (rule lines_of_terminated) (use assms(6) r in simp)
  have e: "line_rates [] = []" by (simp add: line_rates_def)
  have "best_rates (before @ speed_row name cols # (behind @ [[]])) = map (\<lambda>(gap, v). Some (fixed_value 2 v)) cols"
  proof (rule best_rates_longest)
    show "line_rates (speed_row name cols) = map (\<lambda>(gap, v). Some (fixed_value 2 v)) cols" by (rule line_rates_row [OF assms(1,2,3,5)])
    show "\<forall>l \<in> set (before @ behind @ [[]]). length (line_rates l) < length (map (\<lambda>(gap, v). Some (fixed_value 2 v)) cols)"
      using assms(4,6) e by simp
  qed
  then show ?thesis unfolding parse_openssl_speed_def l by simp
qed

end
