(* ===== verification/Fragments.thy ===== *)
theory Fragments
  imports Experiments
begin

text \<open>
  The dispatcher \<open>src/src/bench/bench_main.cpp\<close> and the end every experiment has: its document is written
  under its name in the output directory, and the write decides its status.  What the experiments measure is
  an argument here; they are modelled in the theories of their own.  Property: after \<open>all\<close> the status says
  exactly whether every fragment was stored, and each path holds the whole new document or what it held before.
\<close>

section \<open>Writing a fragment\<close>

text \<open>What the file system answers to one write, as in \<open>write_file\<close>.\<close>

record disk =
  dk_opened :: bool
  dk_good :: bool
  dk_early :: nat
  dk_late :: nat
  dk_renamed :: bool

definition disk_stores :: "disk \<Rightarrow> bool" where
  "disk_stores d \<longleftrightarrow> dk_opened d \<and> dk_good d \<and> dk_renamed d"

definition fragment_file :: "string \<Rightarrow> string" where
  "fragment_file c =
     (if c = ''env'' then ''environment.json'' else if c = ''e1'' then ''e1_cost_model.json'' else if c = ''e2'' then ''e2_scaling.json''
      else if c = ''e3'' then ''e3_iopath.json'' else if c = ''e4'' then ''e4_memroof.json'' else if c = ''e5'' then ''e5_latency.json''
      else if c = ''e6'' then ''e6_baseline.json'' else if c = ''e7'' then ''e7_virtualization.json'' else ''controls.json'')"

definition fragment_path :: "run_ctx \<Rightarrow> string \<Rightarrow> string" where
  "fragment_path ctx c = rc_outdir ctx @ ''/'' @ fragment_file c"

definition experiment_doc :: "(string \<times> jv) list \<Rightarrow> string \<Rightarrow> string + (string \<times> jv) list \<Rightarrow> writer" where
  "experiment_doc env_members c r = (if c = ''env'' then env_doc env_members else fragment env_members c r)"

text \<open>
  An experiment with its measurement done: \<open>env c\<close> is the environment block at that time, \<open>results c\<close> what it
  measured or why it could not.  A directory that cannot be made shows as a file that cannot be opened.
\<close>

definition run_experiment ::
    "(string \<Rightarrow> disk) \<Rightarrow> (string \<Rightarrow> (string \<times> jv) list) \<Rightarrow> (string \<Rightarrow> string + (string \<times> jv) list) \<Rightarrow> string \<Rightarrow> run_ctx \<Rightarrow> files \<Rightarrow> int \<times> files" where
  "run_experiment disks env results c ctx fs =
     (let d = disks c
      in case write_file (dk_opened d) (dk_good d) (dk_early d) (dk_late d) (dk_renamed d) (fragment_path ctx c)
                (experiment_doc (env c) c (results c)) fs of
           (ok, states) \<Rightarrow> (if ok then 0 else 1, last states))"

section \<open>The dispatcher\<close>

text \<open>
  \<open>main\<close>: \<open>run name ctx st\<close> is an experiment over the state of the host, \<open>unit_run name st\<close> a unit process,
  each with its status.  The result is the status, the names that ran in order, and the state.
\<close>

definition bench_experiments :: "string list" where
  "bench_experiments = [''env'', ''e1'', ''e2'', ''e3'', ''e4'', ''e5'', ''e6'', ''e7'', ''controls'', ''virt-unit'']"

definition bench_all :: "string list" where
  "bench_all = [''env'', ''e1'', ''e2'', ''e3'', ''e4'', ''e5'', ''controls'']"

fun run_all :: "(string \<Rightarrow> 's \<Rightarrow> int \<times> 's) \<Rightarrow> string list \<Rightarrow> int \<Rightarrow> 's \<Rightarrow> int \<times> 's" where
  "run_all run [] rc st = (rc, st)"
| "run_all run (c # cs) rc st = (case run c st of (r, st) \<Rightarrow> run_all run cs (rc OR r) st)"

definition bench_main ::
    "(string \<Rightarrow> 's \<Rightarrow> int \<times> 's) \<Rightarrow> (string \<Rightarrow> run_ctx \<Rightarrow> 's \<Rightarrow> int \<times> 's) \<Rightarrow> host \<Rightarrow> string list \<Rightarrow> 's \<Rightarrow> int \<times> string list \<times> 's" where
  "bench_main unit_run run h argv st =
     (if length argv < 2 then (64, [], st)
      else let cmd = argv ! 1
      in if cmd = ''--help'' \<or> cmd = ''-h'' then (0, [], st)
      else if cmd = ''e1-unit'' \<or> cmd = ''controls-unit'' then (case unit_run cmd st of (r, st) \<Rightarrow> (r, [cmd], st))
      else let ctx = parse_ctx h argv
      in if cmd \<in> set bench_experiments then (case run cmd ctx st of (r, st) \<Rightarrow> (r, [cmd], st))
      else if cmd = ''all'' then (case run_all (\<lambda>c. run c ctx) bench_all 0 st of (r, st) \<Rightarrow> (r, bench_all, st))
      else (64, [], st))"

section \<open>What is on the disk afterwards\<close>

lemma or_int_0: "a OR b = 0 \<longleftrightarrow> a = 0 \<and> b = (0 :: int)"
  by (auto simp: or_eq_0_iff)

text \<open>One experiment touches its own path and the temporary file beside it.\<close>

lemma run_experiment_effect:
  assumes "length (w_out (experiment_doc (env c) c (results c))) < dk_late (disks c)"
    and "run_experiment disks env results c ctx fs = (r, fs')"
  shows "r = (if disk_stores (disks c) then 0 else 1)"
    "fs' (fragment_path ctx c) = (if disk_stores (disks c) then Some (w_out (experiment_doc (env c) c (results c)) @ [c_nl]) else fs (fragment_path ctx c))"
    "p \<noteq> fragment_path ctx c \<Longrightarrow> p \<noteq> fragment_path ctx c @ ''.tmp'' \<Longrightarrow> fs' p = fs p"
proof -
  let ?d = "disks c" and ?w = "experiment_doc (env c) c (results c)"
  obtain ok states where w: "write_file (dk_opened ?d) (dk_good ?d) (dk_early ?d) (dk_late ?d) (dk_renamed ?d) (fragment_path ctx c) ?w fs = (ok, states)"
    by (cases "write_file (dk_opened ?d) (dk_good ?d) (dk_early ?d) (dk_late ?d) (dk_renamed ?d) (fragment_path ctx c) ?w fs")
  have o: "ok = disk_stores ?d" using w by (auto simp: write_file_def disk_stores_def Let_def split: if_splits)
  have r: "r = (if ok then 0 else 1)" "fs' = last states" using assms(2) w by (auto simp: run_experiment_def Let_def)
  show "r = (if disk_stores (disks c) then 0 else 1)" using r o by simp
  show "fs' (fragment_path ctx c) = (if disk_stores (disks c) then Some (w_out ?w @ [c_nl]) else fs (fragment_path ctx c))"
    using write_file_atomic [OF assms(1), where opened = "dk_opened ?d" and good = "dk_good ?d" and early = "dk_early ?d"
        and renamed = "dk_renamed ?d" and path = "fragment_path ctx c" and fs = fs] w o r by simp
  show "p \<noteq> fragment_path ctx c \<Longrightarrow> p \<noteq> fragment_path ctx c @ ''.tmp'' \<Longrightarrow> fs' p = fs p"
    using w unfolding r(2) by (auto simp: write_file_def Let_def split: if_splits)
qed

lemma fragment_paths:
  assumes "c \<in> set bench_all" "d \<in> set bench_all"
  shows "fragment_path ctx c = fragment_path ctx d \<longleftrightarrow> c = d" "fragment_path ctx c \<noteq> fragment_path ctx d @ ''.tmp''"
  using assms by (auto simp: bench_all_def fragment_path_def fragment_file_def)

lemma or_bits: "a \<in> {0, 1} \<Longrightarrow> b \<in> {0, 1} \<Longrightarrow> a OR b \<in> {0, 1 :: int}"
  by auto

text \<open>A run of experiments, each at most once: no one overwrites what another has stored.\<close>

lemma run_all_effect:
  assumes "distinct cs" "set cs \<subseteq> set bench_all" "rc \<in> {0, 1}"
    and "\<forall>c \<in> set cs. length (w_out (experiment_doc (env c) c (results c))) < dk_late (disks c)"
    and "run_all (\<lambda>c. run_experiment disks env results c ctx) cs rc fs = (r, fs')"
  shows "r \<in> {0, 1} \<and> (r = 0 \<longleftrightarrow> rc = 0 \<and> (\<forall>c \<in> set cs. disk_stores (disks c))) \<and>
     (\<forall>c \<in> set cs. fs' (fragment_path ctx c) =
        (if disk_stores (disks c) then Some (w_out (experiment_doc (env c) c (results c)) @ [c_nl]) else fs (fragment_path ctx c))) \<and>
     (\<forall>p. (\<forall>c \<in> set cs. p \<noteq> fragment_path ctx c \<and> p \<noteq> fragment_path ctx c @ ''.tmp'') \<longrightarrow> fs' p = fs p)"
  using assms
proof (induction cs arbitrary: rc fs)
  case (Cons c cs)
  obtain r1 fs1 where one: "run_experiment disks env results c ctx fs = (r1, fs1)" by (cases "run_experiment disks env results c ctx fs")
  note e = run_experiment_effect [OF _ one]
  have c: "c \<in> set bench_all" and late: "length (w_out (experiment_doc (env c) c (results c))) < dk_late (disks c)" using Cons.prems by simp_all
  have r1: "r1 = (if disk_stores (disks c) then 0 else 1)" by (rule e(1) [OF late])
  have rest: "run_all (\<lambda>c. run_experiment disks env results c ctx) cs (rc OR r1) fs1 = (r, fs')" using Cons.prems(5) one by simp
  have b: "rc OR r1 \<in> {0, 1}" using Cons.prems(3) r1 by (intro or_bits) auto
  have ih: "r \<in> {0, 1} \<and> (r = 0 \<longleftrightarrow> rc OR r1 = 0 \<and> (\<forall>c \<in> set cs. disk_stores (disks c))) \<and>
     (\<forall>d \<in> set cs. fs' (fragment_path ctx d) =
        (if disk_stores (disks d) then Some (w_out (experiment_doc (env d) d (results d)) @ [c_nl]) else fs1 (fragment_path ctx d))) \<and>
     (\<forall>p. (\<forall>c \<in> set cs. p \<noteq> fragment_path ctx c \<and> p \<noteq> fragment_path ctx c @ ''.tmp'') \<longrightarrow> fs' p = fs1 p)"
    by (rule Cons.IH [OF _ _ b _ rest]) (use Cons.prems in simp_all)
  have apart: "fragment_path ctx d \<noteq> fragment_path ctx c \<and> fragment_path ctx d \<noteq> fragment_path ctx c @ ''.tmp'' \<and>
      fragment_path ctx c \<noteq> fragment_path ctx d @ ''.tmp''" if "d \<in> set cs" for d
    using that Cons.prems(1,2) fragment_paths [OF _ c, of d ctx] fragment_paths [OF c, of d ctx] by auto
  have own: "fs' (fragment_path ctx c) = fs1 (fragment_path ctx c)"
    by (rule ih [THEN conjunct2, THEN conjunct2, THEN conjunct2, rule_format]) (use apart in metis)
  have other: "fs1 (fragment_path ctx d) = fs (fragment_path ctx d)" if "d \<in> set cs" for d
    using e(3) [OF late] apart [OF that] by blast
  show ?case
  proof (intro conjI ballI allI impI)
    show "r \<in> {0, 1}" by (rule ih [THEN conjunct1])
    show "(r = 0) = (rc = 0 \<and> (\<forall>c \<in> set (c # cs). disk_stores (disks c)))"
      using ih [THEN conjunct2, THEN conjunct1] r1 by (simp add: or_int_0)
    show "fs' (fragment_path ctx d) =
        (if disk_stores (disks d) then Some (w_out (experiment_doc (env d) d (results d)) @ [c_nl]) else fs (fragment_path ctx d))"
      if "d \<in> set (c # cs)" for d
    proof (cases "d = c")
      case True
      then show ?thesis using own e(2) [OF late] by metis
    next
      case False
      then have d: "d \<in> set cs" using that by simp
      show ?thesis using ih [THEN conjunct2, THEN conjunct2, THEN conjunct1, rule_format, OF d] other [OF d] by metis
    qed
    show "fs' p = fs p" if "\<forall>d \<in> set (c # cs). p \<noteq> fragment_path ctx d \<and> p \<noteq> fragment_path ctx d @ ''.tmp''" for p
      using ih [THEN conjunct2, THEN conjunct2, THEN conjunct2, rule_format, of p] e(3) [OF late, of p] that by simp
  qed
qed auto


definition disks1 :: "string \<Rightarrow> disk" where
  "disks1 c = \<lparr> dk_opened = True, dk_good = True, dk_early = 0, dk_late = Suc (length (w_out (experiment_doc [] c (Inl ''no clock'')))),
     dk_renamed = (c \<noteq> ''e3'') \<rparr>"


end
