(* ===== verification/Spec2Isabelle.thy ===== *)
theory Spec2Isabelle
  imports Replay ChaPoly GcmAead Aead KeySchedule Handshake Transport Dataplane Stats Clock Json Ctrl Loadgen Platform Bench Hotpath Experiments Controls Scaling Latency Options Gpu Mpi Tools Baseline Fragments
begin

text \<open>
  A verification development for linerate, a user-space encrypted UDP data plane with the harness that
  measures it.  The sources are under \<open>src/\<close>; C++ unless named otherwise.

  \<^bold>\<open>The program.\<close>  A datagram carries a 24-byte header in the clear and a payload sealed under an
  authenticated cipher.  A \<^emph>\<open>shard\<close> (\<open>src/src/core/worker.cpp\<close>) owns a socket behind a transport backend,
  a key schedule, an anti-replay window and a latency histogram: it takes datagrams in batches, checks the
  window, opens the payload, seals it again under its own numbers and sends it on.  The cipher is an \<open>Aead\<close>
  object made by a factory, from OpenSSL or from the repository's own \<open>simd_crypto.c\<close>; its keys come from
  the key schedule, and in a deployment from the handshake.  A load generator on another host is driven over
  a line-based control channel.  The bench harness builds shards, times them with a calibrated counter,
  reduces the samples by its statistics and writes the results as JSON together with a description of the
  host.  Experiments run the harness over a design, in threads or in child processes.

  \<^bold>\<open>The theories.\<close>  Each models the named sources in the order of the code; records are its structs,
  one definition is one function, and a function with a side effect passes its state explicitly.

  \<^item> Prelude: word and list types, lemmas on lists, words and options the components share.
  \<^item> Bytes, ChaCha, Poly1305, ChaPoly: ChaCha20-Poly1305 of \<open>src/src/core/simd_crypto.c\<close>.  The portable, AVX2
    and NEON paths of ChaCha20 with their register lanes, the 26-bit limbs of Poly1305, and the AEAD with the
    order in which it hashes and encrypts.  Lemmas: the vector paths compute the key stream of RFC 8439, the
    limb arithmetic is arithmetic modulo \<open>2^130 - 5\<close>, and opening accepts exactly what sealing writes.
  \<^item> Gcm, Registers, Field, Aesni, Armv8, GcmAead: AES-256-GCM of the same file.  Gcm holds the portable
    bodies (AES, GHASH by 4-bit tables, counter mode) and the standard they are compared with.  Registers
    gives a 128-bit register and the vendor's definition of each vector instruction the file uses; Aesni and
    Armv8 are the intrinsic bodies over them, statement by statement.  Field proves what the carry-less
    products and the shifted reduction compute in \<open>GF(2^128)\<close>.  GcmAead is the context, the choice of a
    path, the stitched single pass, sealing and opening.  Lemmas: every path's key schedule and cipher are
    FIPS 197, every path's hash is GHASH of SP 800-38D, a single pass writes what two passes write, and
    sealing on any path is the standard's GCM.
  \<^item> Aead: \<open>aead_factory.cpp\<close>, \<open>aead_simd.cpp\<close>, \<open>aead_openssl.cpp\<close>, \<open>aead.hpp\<close>.  The contract of the
    interface is the locale \<open>aead_contract\<close>, the locale \<open>aead_exact\<close> extends it by exactness; they are
    interpreted for the null, GCM and ChaCha20-Poly1305 objects.  Lemma: every object of the factory keeps
    the contract.
  \<^item> Replay: \<open>ReplayWindow\<close> of \<open>src/src/core/proto.cpp\<close>.  The bitmap with its word shifts refines the set of
    accepted numbers; the locale \<open>replay_filter\<close> derives from the laws of one step that no number is
    accepted twice, and is interpreted on the code's window.
  \<^item> KeySchedule: \<open>hkdf\<close>, \<open>bench_psk\<close> and \<open>KeySchedule\<close> of \<open>proto.cpp\<close>.  Two slots, epochs and nonces: where
    the schedule stands after any in-order run, that two schedules stay in step, that nonces do not repeat.
  \<^item> Handshake: the handshake of \<open>proto.cpp\<close>.  Agreement on the directional keys, authentication by the
    binder, every error return.
  \<^item> Transport: \<open>transport_posix.cpp\<close>, \<open>transport_mmsg.cpp\<close>, \<open>transport_uring.cpp\<close>, \<open>transport_factory.cpp\<close>.
    The kernel is a socket with a queue and a script of answers.  The locale \<open>recv_contract\<close> states what one
    receive call delivers and proves once what a run of calls delivers; it is interpreted on the POSIX and
    the batched backend.  Lemmas: the queue comes out once and in order, no descriptor leaks.
  \<^item> Wire, Shard, Dataplane: \<open>worker.cpp\<close>, \<open>worker.hpp\<close>.  Header and staging, then the whole shard, then what it
    promises: an inductive set of reachable shard states with its invariant, the accounting of \<open>drain\<close>, that
    only authenticated packets are sent on, the round trip from a generator, and the descriptors.
  \<^item> Stats: \<open>stats.cpp\<close>, \<open>stats.hpp\<close>.  Percentiles, bootstrap, summaries and the logarithmic histogram with
    its error bound.
  \<^item> Text, Clock: the library conversions between numbers and text, and \<open>clock.cpp\<close>: calibration and units.
  \<^item> Json: \<open>json.cpp\<close>.  The writer as a state machine refines a recursive printer; its numbers and strings
    read back; a file is replaced as a whole.
  \<^item> Ctrl: \<open>ctrl.cpp\<close>.  The line format and the client over a scripted socket.
  \<^item> Loadgen: \<open>src/src/apps/lr_loadgend.cpp\<close>.  The daemon with its two threads is a step relation over all
    interleavings; its invariant, that a stop completes, and the round trips with the client of Ctrl.
  \<^item> Platform: \<open>platform.cpp\<close> on Linux.  What the harness reads of \<open>/proc\<close> and \<open>/sys\<close>, and the class of a host
    as a linear order.
  \<^item> Bench: \<open>bench.cpp\<close>, \<open>bench.hpp\<close>, \<open>emit_json.cpp\<close>, \<open>bench_main.cpp\<close> and the unit process of
    \<open>exp_e1_cost_model.cpp\<close>.  Hotpath: the staged measurement as a whole, from the staged datagrams to the
    result, over every component below it.
  \<^item> Experiments (\<open>exp_e1_cost_model.cpp\<close> and the line fit), Controls (\<open>exp_controls.cpp\<close>), Scaling
    (\<open>exp_e2_scaling.cpp\<close>, \<open>exp_e3_iopath.cpp\<close>, \<open>exp_e4_memroof.cpp\<close>), Latency (\<open>exp_e5_latency.cpp\<close>,
    \<open>exp_e7_virtualization.cpp\<close>): designs, schedules, reductions and the fragments they write.  Lemmas: the
    sweep runs every unit once, the fit is the least-squares line, the knee is the highest rate within its
    bound, and the parent reads back what a child printed.
  \<^item> Baseline: \<open>exp_e6_baseline.cpp\<close>.  The scan of the table of \<open>openssl speed\<close>, over the number syntax of
    \<open>strtod\<close>, and the fragment.  Lemma: the figures of the data row are read back.
  \<^item> Fragments: the dispatcher of the harness and the write that ends every experiment.  Lemma: what is on the
    disk after \<open>all\<close>, and what its status says of it.
  \<^item> Options, Tools: the command line of the programs, \<open>lr_gen.cpp\<close> and \<open>lr_sink.cpp\<close>.  Lemmas: the loops count every packet, end with the signal and keep the invariant of the shard.
  \<^item> Gpu: \<open>src/src/cuda/lr_gpu_aead.cu\<close>.  A launch is the set of writes of its threads, in any order.  Lemmas:
    no two threads write the same byte and a launch has one result; a replicate encrypts the whole buffer;
    for which keys and blocks the kernel's round agrees with AES.
  \<^item> Mpi: \<open>src/src/mpi/lr_mpi_scale.cpp\<close>.  The ranks run in lock step between collective calls.  Lemmas: when
    every shard is live a run completes and rank 0 reports the reductions; when some ranks fail to build
    their shard and others do not, the collectives do not match.

  \<^bold>\<open>Parameters.\<close>  What is not in the repository is an argument: OpenSSL's EVP ciphers, HKDF and X25519
  (with the laws the documentation states as hypotheses, each satisfied by a concrete function in a
  witness), the answers of the kernel to socket calls and to file reads, the readings of the tick counter
  and of the clocks, the draws of the random engine, the order a shuffle gives, the output of a child
  process and of a shell command, the answers of the CUDA runtime, the results of the MPI collectives, the
  outcome of an experiment where only the dispatcher is concerned, and how a stream prints a \<open>double\<close> where only the shape of the text matters.

  \<^bold>\<open>Numbers.\<close>  Machine integers are words of their width and wrap; a conversion between widths is
  written out.  A \<open>double\<close> is a real number, so the lemmas on statistics and fits hold up to rounding; a
  value that is not finite is \<open>None\<close> where the code tests for it.

  \<^bold>\<open>Loops.\<close>  A loop over data is recursion on the data.  A loop that waits for a clock or for arriving
  datagrams (\<open>poll_until\<close>, \<open>spin_until\<close>, \<open>hot_loop\<close>, \<open>timed_drain\<close>, \<open>ws_sweep\<close>, \<open>gen_wait\<close>, \<open>gen_turns\<close>,
  \<open>sink_turns\<close>) is a partial function whose value is \<open>None\<close> when it does not end; each has a lemma that it
  returns, on an advancing clock, on a queue that fills, on a signal (\<open>gen_turns\<close> in its closed mode), or
  outright.  No definition takes fuel.

  \<^bold>\<open>Not modelled.\<close>
  \<^item> Of \<open>simd_crypto.c\<close>: detection of the processor's features, which is the argument that picks a path, and
    wiping of secrets after use.
  \<^item> The macOS branches of \<open>platform.cpp\<close> and the calls that pin a thread.
  \<^item> The pacing of the local generator thread of \<open>exp_e5_latency.cpp\<close>, which is the stream of arriving
    datagrams; that it shares the shard with the draining thread is a data race with no defined result.
  \<^item> \<open>lr_selftest.cpp\<close>, a list of tests of the modelled components, and the help texts of the programs.
\<close>

end
